(* ===== verification/Sh.thy ===== *)
theory Sh
  imports Main
begin

text \<open>
  The shell's command parser (src/sh.c). A command line is the list of its characters, without the
  NUL; the pointer \<open>s\<close> of the code is the part of the line that is left. A string the code marks by
  its first and last character and cuts out in \<open>nulterminate\<close>, once the parse is over, is cut out at
  once here. The mutually recursive functions are given a bound on their depth, and return \<open>None\<close> if
  it does not suffice; \<open>parsecmd\<close> gives them a bound that always does. The bound is one of the model: on the machine
  the depth of the recursion is limited by the single page of stack that exec gives a process, which is not modelled.
\<close>

section \<open>Commands\<close>

datatype cmd =
    EXEC "string list"
  | REDIR cmd string nat nat
  | PIPE cmd cmd
  | LIST cmd cmd
  | BACK cmd

abbreviation (input) MAXARGS :: nat where "MAXARGS \<equiv> 20"
abbreviation (input) O_RDONLY :: nat where "O_RDONLY \<equiv> 0"
abbreviation (input) O_WRONLY_CREATE :: nat where "O_WRONLY_CREATE \<equiv> 0x201"

section \<open>Tokens\<close>

definition whitespace :: string where
  "whitespace = [CHR 0x20, CHR 0x09, CHR 0x0D, CHR 0x0A, CHR 0x0B]"

definition symbols :: string where
  "symbols = ''<|>&;()''"

definition skip_ws :: "string \<Rightarrow> string" where
  "skip_ws s = dropWhile (\<lambda>c. c \<in> set whitespace) s"

definition word_char :: "char \<Rightarrow> bool" where
  "word_char c \<longleftrightarrow> c \<notin> set whitespace \<and> c \<notin> set symbols"

text \<open>The token's kind (NUL at the end of the line, 'a' for a word, '+' for >>), its characters, and the rest.\<close>

definition gettoken :: "string \<Rightarrow> char \<times> string \<times> string" where
  "gettoken s =
     (case skip_ws s of
        [] \<Rightarrow> (CHR 0x00, [], [])
      | c # cs \<Rightarrow>
          if c \<in> set ''|();&<'' then (c, [c], skip_ws cs)
          else if c = CHR ''>'' then
            (case cs of
               d # ds \<Rightarrow> if d = CHR ''>'' then (CHR ''+'', ''>>'', skip_ws ds) else (CHR ''>'', ''>'', skip_ws cs)
             | [] \<Rightarrow> (CHR ''>'', ''>'', []))
          else (CHR ''a'', takeWhile word_char (c # cs), skip_ws (dropWhile word_char (c # cs))))"

definition peek :: "string \<Rightarrow> string \<Rightarrow> bool" where
  "peek s toks = (case skip_ws s of [] \<Rightarrow> False | c # _ \<Rightarrow> c \<in> set toks)"

lemma length_skip_ws [simp]: "length (skip_ws s) \<le> length s"
  by (simp add: skip_ws_def length_dropWhile_le)

lemma skip_ws_idem [simp]: "skip_ws (skip_ws s) = skip_ws s"
  unfolding skip_ws_def by (metis dropWhile_idem)

lemma skip_ws_hd: "skip_ws s = c # cs \<Longrightarrow> c \<notin> set whitespace"
  unfolding skip_ws_def by (metis dropWhile_eq_Cons_conv)

lemma gettoken_shorter:
  assumes "gettoken s = (t, q, r)"
  shows "length r \<le> length s" "t \<noteq> CHR 0x00 \<or> skip_ws s \<noteq> [] \<Longrightarrow> length r < length s"
proof -
  have *: "length r < length s" if "skip_ws s = c # cs" for c cs
  proof -
    have len: "Suc (length cs) \<le> length s" using arg_cong [OF that, of length] length_skip_ws [of s] by simp
    have sk: "length (skip_ws x) < length s" if "length x \<le> length cs" for x
      using le_trans [OF length_skip_ws that] len by simp
    have "word_char c" if "c \<notin> set ''|();&<''" "c \<noteq> CHR ''>''"
      using that skip_ws_hd [OF \<open>skip_ws s = c # cs\<close>] by (auto simp: word_char_def symbols_def)
    then show ?thesis
      using assms that len by (auto simp: gettoken_def split: if_splits list.splits intro!: sk length_dropWhile_le)
  qed
  then show "length r \<le> length s" using assms by (cases "skip_ws s") (auto simp: gettoken_def intro: less_imp_le)
  show "length r < length s" if "t \<noteq> CHR 0x00 \<or> skip_ws s \<noteq> []"
    using that assms * by (cases "skip_ws s") (auto simp: gettoken_def)
qed

lemma peek_token: "peek s toks \<Longrightarrow> length (snd (snd (gettoken s))) < length s"
  using gettoken_shorter(2) [of s "fst (gettoken s)" "fst (snd (gettoken s))" "snd (snd (gettoken s))"]
  by (auto simp: peek_def split: list.splits)

lemma peek_token2:
  "peek s toks \<Longrightarrow> gettoken s = (t, q, s1) \<Longrightarrow> gettoken s1 = (t2, q2, s2) \<Longrightarrow> length s2 < length s"
  using peek_token [of s toks] gettoken_shorter(1) [of s1 t2 q2 s2] by simp

section \<open>Parser\<close>

text \<open>A syntax error (the argument of \<open>panic\<close>), or a command and the rest of the line.\<close>

type_synonym parsed = "string + cmd \<times> string"

function parseredirs :: "cmd \<Rightarrow> string \<Rightarrow> parsed" where
  "parseredirs c s =
     (if peek s ''<>'' then
        (case gettoken s of (tok, _, s1) \<Rightarrow>
        (case gettoken s1 of (tok2, q, s2) \<Rightarrow>
           if tok2 \<noteq> CHR ''a'' then Inl ''missing file for redirection''
           else parseredirs (if tok = CHR ''<'' then REDIR c q O_RDONLY 0 else REDIR c q O_WRONLY_CREATE 1) s2))
      else Inr (c, skip_ws s))"
  by pat_completeness auto
termination
  by (relation "measure (\<lambda>(c, s). length s)") (auto dest!: sym [of _ "gettoken _"] intro: peek_token2)

declare parseredirs.simps [simp del]

text \<open>The assignment to \<open>argv\<close> of the command that the redirections already parsed are wrapped around.\<close>

primrec set_argv :: "string list \<Rightarrow> cmd \<Rightarrow> cmd" where
  "set_argv args (EXEC a) = EXEC args"
| "set_argv args (REDIR c f m d) = REDIR (set_argv args c) f m d"
| "set_argv args (PIPE c d) = PIPE c d"
| "set_argv args (LIST c d) = LIST c d"
| "set_argv args (BACK c) = BACK c"

lemma parseredirs_le: "parseredirs c s = Inr (c', r) \<Longrightarrow> length r \<le> length s"
proof (induction c s rule: parseredirs.induct)
  case (1 c s)
  obtain tok q s1 tok2 q2 s2 where t: "gettoken s = (tok, q, s1)" "gettoken s1 = (tok2, q2, s2)"
    by (metis prod_cases3)
  show ?case
  proof (cases "peek s ''<>''")
    case True
    then have "length r \<le> length s2"
      using "1.IH" [OF True t(1) [symmetric] refl t(2) [symmetric] refl] "1.prems" t
      by (subst (asm) parseredirs.simps) (simp split: if_splits)
    then show ?thesis using peek_token2 [OF True t] by simp
  qed (use "1.prems" in \<open>subst (asm) parseredirs.simps, auto\<close>)
qed

function parseargs :: "cmd \<Rightarrow> string list \<Rightarrow> string \<Rightarrow> parsed" where
  "parseargs ret argv s =
     (if peek s ''|)&;'' then Inr (set_argv argv ret, skip_ws s)
      else
        (case gettoken s of (tok, q, s1) \<Rightarrow>
           if tok = CHR 0x00 then Inr (set_argv argv ret, s1)
           else if tok \<noteq> CHR ''a'' then Inl ''syntax''
           else if length argv + 1 \<ge> MAXARGS then Inl ''too many args''
           else
             (case parseredirs ret s1 of
                Inl e \<Rightarrow> Inl e
              | Inr (ret, s2) \<Rightarrow> parseargs ret (argv @ [q]) s2)))"
  by pat_completeness auto
termination
  by (relation "measure (\<lambda>(ret, argv, s). length s)")
    (auto dest!: sym [of _ "gettoken _"] sym [of _ "parseredirs _ _"] parseredirs_le gettoken_shorter(2))

declare parseargs.simps [simp del]

text \<open>The loop of \<open>parseline\<close> over the characters \<open>&\<close>.\<close>

function parseamps :: "cmd \<Rightarrow> string \<Rightarrow> cmd \<times> string" where
  "parseamps c s = (if peek s ''&'' then parseamps (BACK c) (snd (snd (gettoken s))) else (c, skip_ws s))"
  by pat_completeness auto
termination
  by (relation "measure (\<lambda>(c, s). length s)") (auto intro: peek_token)

declare parseamps.simps [simp del]

text \<open>Going on after a command was parsed.\<close>

definition andthen :: "parsed option \<Rightarrow> (cmd \<Rightarrow> string \<Rightarrow> parsed option) \<Rightarrow> parsed option" where
  "andthen m f = (case m of None \<Rightarrow> None | Some (Inl e) \<Rightarrow> Some (Inl e) | Some (Inr (c, s)) \<Rightarrow> f c s)"

fun parseline :: "nat \<Rightarrow> string \<Rightarrow> parsed option"
  and parsepipe :: "nat \<Rightarrow> string \<Rightarrow> parsed option"
  and parseexec :: "nat \<Rightarrow> string \<Rightarrow> parsed option"
  and parseblock :: "nat \<Rightarrow> string \<Rightarrow> parsed option" where
  "parseline 0 s = None"
| "parseline (Suc n) s =
     andthen (parsepipe n s) (\<lambda>c s.
     case parseamps c s of (c, s) \<Rightarrow>
       if peek s '';'' then
         andthen (parseline n (snd (snd (gettoken s)))) (\<lambda>d s. Some (Inr (LIST c d, s)))
       else Some (Inr (c, skip_ws s)))"
| "parsepipe 0 s = None"
| "parsepipe (Suc n) s =
     andthen (parseexec n s) (\<lambda>c s.
     if peek s ''|'' then
       andthen (parsepipe n (snd (snd (gettoken s)))) (\<lambda>d s. Some (Inr (PIPE c d, s)))
     else Some (Inr (c, skip_ws s)))"
| "parseexec 0 s = None"
| "parseexec (Suc n) s =
     (if peek s ''('' then parseblock n s
      else andthen (Some (parseredirs (EXEC []) s)) (\<lambda>ret s. Some (parseargs ret [] s)))"
| "parseblock 0 s = None"
| "parseblock (Suc n) s =
     (if \<not> peek s ''('' then Some (Inl ''parseblock'')
      else
        andthen (parseline n (snd (snd (gettoken s)))) (\<lambda>c s.
        if \<not> peek s '')'' then Some (Inl ''syntax - missing )'')
        else Some (parseredirs c (snd (snd (gettoken s))))))"

definition parsecmd :: "string \<Rightarrow> (string + cmd) option" where
  "parsecmd s =
     (case parseline (4 * length s + 4) s of
        None \<Rightarrow> None
      | Some (Inl e) \<Rightarrow> Some (Inl e)
      | Some (Inr (c, s)) \<Rightarrow> Some (if skip_ws s \<noteq> [] then Inl ''syntax'' else Inr c))"


section \<open>The parser always ends\<close>

lemma parseargs_le: "parseargs ret argv s = Inr (c, r) \<Longrightarrow> length r \<le> length s"
proof (induction ret argv s rule: parseargs.induct)
  case (1 ret argv s)
  obtain tok q s1 where t: "gettoken s = (tok, q, s1)" by (metis prod_cases3)
  show ?case
  proof (cases "peek s ''|)&;'' \<or> tok = CHR 0x00")
    case True
    then show ?thesis using "1.prems" t gettoken_shorter(1) [OF t]
      by (subst (asm) parseargs.simps) (auto split: if_splits)
  next
    case False
    with "1.prems" t obtain ret' s2 where s2: "tok = CHR ''a''" "\<not> length argv + 1 \<ge> MAXARGS" "parseredirs ret s1 = Inr (ret', s2)"
      "parseargs ret' (argv @ [q]) s2 = Inr (c, r)"
      by (subst (asm) parseargs.simps) (auto split: if_splits sum.splits)
    from "1.IH" [OF _ t [symmetric] refl _ _ _ s2(3) refl s2(4)] False s2 have "length r \<le> length s2" by simp
    then show ?thesis using parseredirs_le [OF s2(3)] gettoken_shorter(1) [OF t] by simp
  qed
qed

lemma parseamps_le: "parseamps c s = (c', r) \<Longrightarrow> length r \<le> length s"
proof (induction c s rule: parseamps.induct)
  case (1 c s)
  show ?case
  proof (cases "peek s ''&''")
    case True
    then show ?thesis
      using 1 peek_token [OF True] parseamps.simps [of c s] by fastforce
  qed (use "1.prems" parseamps.simps [of c s] in auto)
qed

lemma andthen_Inr_iff: "andthen m f = Some (Inr x) \<longleftrightarrow> (\<exists>c s. m = Some (Inr (c, s)) \<and> f c s = Some (Inr x))"
  by (auto simp: andthen_def split: option.splits sum.splits)

lemma andthen_None: "andthen m f = None \<longleftrightarrow> m = None \<or> (\<exists>c s. m = Some (Inr (c, s)) \<and> f c s = None)"
  by (auto simp: andthen_def split: option.splits sum.splits)

lemma andthen_mono:
  "andthen m f = Some y \<Longrightarrow> (\<And>x. m = Some x \<Longrightarrow> m' = Some x) \<Longrightarrow> (\<And>c s x. f c s = Some x \<Longrightarrow> f' c s = Some x) \<Longrightarrow> andthen m' f' = Some y"
  by (cases m) (auto simp: andthen_def split: sum.splits)

lemma parse_le:
  "(parseline n s = Some (Inr (c, r)) \<longrightarrow> length r \<le> length s) \<and> (parsepipe n s = Some (Inr (c, r)) \<longrightarrow> length r \<le> length s)
   \<and> (parseexec n s = Some (Inr (c, r)) \<longrightarrow> length r \<le> length s) \<and> (parseblock n s = Some (Inr (c, r)) \<longrightarrow> length r \<le> length s)"
proof (induction n arbitrary: s c r)
  case (Suc n)
  then have ih: "\<And>s c r. parseline n s = Some (Inr (c, r)) \<Longrightarrow> length r \<le> length s" "\<And>s c r. parsepipe n s = Some (Inr (c, r)) \<Longrightarrow> length r \<le> length s"
    "\<And>s c r. parseexec n s = Some (Inr (c, r)) \<Longrightarrow> length r \<le> length s" "\<And>s c r. parseblock n s = Some (Inr (c, r)) \<Longrightarrow> length r \<le> length s"
    by blast+
  have 1: "length r \<le> length s" if p: "parseline (Suc n) s = Some (Inr (c, r))"
  proof -
    obtain d t e u where d: "parsepipe n s = Some (Inr (d, t))" "parseamps d t = (e, u)"
      "(if peek u '';'' then andthen (parseline n (snd (snd (gettoken u)))) (\<lambda>d s. Some (Inr (LIST e d, s))) else Some (Inr (e, skip_ws u))) = Some (Inr (c, r))"
    proof -
      obtain d t where "parsepipe n s = Some (Inr (d, t))" "(case parseamps d t of (c, s) \<Rightarrow> if peek s '';'' then
          andthen (parseline n (snd (snd (gettoken s)))) (\<lambda>d s. Some (Inr (LIST c d, s))) else Some (Inr (c, skip_ws s))) = Some (Inr (c, r))"
        using p by (auto simp: andthen_Inr_iff)
      then show thesis by (cases "parseamps d t") (auto intro: that)
    qed
    have "length r \<le> length u"
      using d(3) ih(1) [of "snd (snd (gettoken u))"] peek_token [of u] by (fastforce simp: andthen_Inr_iff split: if_splits)
    then show ?thesis using parseamps_le [OF d(2)] ih(2) [OF d(1)] by simp
  qed
  have 2: "length r \<le> length s" if p: "parsepipe (Suc n) s = Some (Inr (c, r))"
  proof -
    obtain d u where d: "parseexec n s = Some (Inr (d, u))"
      "(if peek u ''|'' then andthen (parsepipe n (snd (snd (gettoken u)))) (\<lambda>e s. Some (Inr (PIPE d e, s))) else Some (Inr (d, skip_ws u))) = Some (Inr (c, r))"
      using p by (auto simp: andthen_Inr_iff)
    have "length r \<le> length u"
      using d(2) ih(2) [of "snd (snd (gettoken u))"] peek_token [of u] by (fastforce simp: andthen_Inr_iff split: if_splits)
    then show ?thesis using ih(3) [OF d(1)] by simp
  qed
  have 3: "length r \<le> length s" if "parseexec (Suc n) s = Some (Inr (c, r))"
    using that ih(4) [of s] by (auto simp: andthen_Inr_iff dest!: parseargs_le parseredirs_le split: if_splits)
  have 4: "length r \<le> length s" if p: "parseblock (Suc n) s = Some (Inr (c, r))"
  proof -
    obtain d u where d: "peek s ''(''" "parseline n (snd (snd (gettoken s))) = Some (Inr (d, u))" "peek u '')''"
      "parseredirs d (snd (snd (gettoken u))) = Inr (c, r)"
      using p by (auto simp: andthen_Inr_iff split: if_splits)
    then show ?thesis using ih(1) [OF d(2)] peek_token [OF d(1)] peek_token [OF d(3)] parseredirs_le [OF d(4)] by simp
  qed
  show ?case using 1 2 3 4 by blast
qed simp

lemma parse_total:
  "(4 * length s + 4 \<le> n \<longrightarrow> parseline n s \<noteq> None) \<and> (4 * length s + 3 \<le> n \<longrightarrow> parsepipe n s \<noteq> None)
   \<and> (4 * length s + 2 \<le> n \<longrightarrow> parseexec n s \<noteq> None) \<and> (4 * length s + 1 \<le> n \<longrightarrow> parseblock n s \<noteq> None)"
proof (induction n arbitrary: s)
  case (Suc n)
  then have ih: "\<And>s. 4 * length s + 4 \<le> n \<Longrightarrow> parseline n s \<noteq> None" "\<And>s. 4 * length s + 3 \<le> n \<Longrightarrow> parsepipe n s \<noteq> None"
    "\<And>s. 4 * length s + 2 \<le> n \<Longrightarrow> parseexec n s \<noteq> None" "\<And>s. 4 * length s + 1 \<le> n \<Longrightarrow> parseblock n s \<noteq> None"
    by blast+
  have 1: "parseline (Suc n) s \<noteq> None" if len: "4 * length s + 4 \<le> Suc n"
  proof -
    have "parseline n (snd (snd (gettoken u))) \<noteq> None" if "parsepipe n s = Some (Inr (c, t))" "parseamps c t = (d, u)" "peek u '';''" for c t d u
      using parse_le [of n s c t] parseamps_le [OF that(2)] peek_token [OF that(3)] that(1) len by (intro ih(1)) simp
    then show ?thesis using ih(2) [of s] len by (auto simp: andthen_None simp del: not_None_eq split: prod.splits)
  qed
  have 2: "parsepipe (Suc n) s \<noteq> None" if len: "4 * length s + 3 \<le> Suc n"
  proof -
    have "parsepipe n (snd (snd (gettoken t))) \<noteq> None" if "parseexec n s = Some (Inr (c, t))" "peek t ''|''" for c t
      using parse_le [of n s c t] peek_token [OF that(2)] that(1) len by (intro ih(2)) simp
    then show ?thesis using ih(3) [of s] len by (auto simp: andthen_None simp del: not_None_eq)
  qed
  have 3: "parseexec (Suc n) s \<noteq> None" if "4 * length s + 2 \<le> Suc n"
    using that ih(4) [of s] by (auto simp: andthen_None simp del: not_None_eq)
  have 4: "parseblock (Suc n) s \<noteq> None" if len: "4 * length s + 1 \<le> Suc n"
  proof -
    have "parseline n (snd (snd (gettoken s))) \<noteq> None" if "peek s ''(''"
      using peek_token [OF that] len by (intro ih(1)) simp
    then show ?thesis by (auto simp: andthen_None simp del: not_None_eq)
  qed
  show ?case using 1 2 3 4 by blast
qed simp

lemma parse_mono:
  "(parseline n s = Some x \<longrightarrow> parseline (Suc n) s = Some x) \<and> (parsepipe n s = Some x \<longrightarrow> parsepipe (Suc n) s = Some x)
   \<and> (parseexec n s = Some x \<longrightarrow> parseexec (Suc n) s = Some x) \<and> (parseblock n s = Some x \<longrightarrow> parseblock (Suc n) s = Some x)"
proof (induction n arbitrary: s x)
  case (Suc n)
  then have ih: "\<And>s x. parseline n s = Some x \<Longrightarrow> parseline (Suc n) s = Some x" "\<And>s x. parsepipe n s = Some x \<Longrightarrow> parsepipe (Suc n) s = Some x"
    "\<And>s x. parseexec n s = Some x \<Longrightarrow> parseexec (Suc n) s = Some x" "\<And>s x. parseblock n s = Some x \<Longrightarrow> parseblock (Suc n) s = Some x"
    by blast+
  note step = parseline.simps(2) parsepipe.simps(2) parseexec.simps(2) parseblock.simps(2)
  have 1: "parseline (Suc (Suc n)) s = Some x" if "parseline (Suc n) s = Some x"
  proof (subst step(1), rule andthen_mono [OF that [unfolded step(1) [of n]]])
    fix c s x
    assume "(case parseamps c s of (c, s) \<Rightarrow> if peek s '';'' then andthen (parseline n (snd (snd (gettoken s)))) (\<lambda>d s. Some (Inr (LIST c d, s)))
      else Some (Inr (c, skip_ws s))) = Some x"
    then show "(case parseamps c s of (c, s) \<Rightarrow> if peek s '';'' then andthen (parseline (Suc n) (snd (snd (gettoken s)))) (\<lambda>d s. Some (Inr (LIST c d, s)))
      else Some (Inr (c, skip_ws s))) = Some x"
      using andthen_mono [OF _ ih(1)] by (auto split: prod.splits if_splits simp del: step)
  qed (rule ih)
  have 2: "parsepipe (Suc (Suc n)) s = Some x" if "parsepipe (Suc n) s = Some x"
  proof (subst step(2), rule andthen_mono [OF that [unfolded step(2) [of n]]])
    fix c s x
    assume "(if peek s ''|'' then andthen (parsepipe n (snd (snd (gettoken s)))) (\<lambda>d s. Some (Inr (PIPE c d, s))) else Some (Inr (c, skip_ws s))) = Some x"
    then show "(if peek s ''|'' then andthen (parsepipe (Suc n) (snd (snd (gettoken s)))) (\<lambda>d s. Some (Inr (PIPE c d, s))) else Some (Inr (c, skip_ws s))) = Some x"
      using andthen_mono [OF _ ih(2)] by (auto split: if_splits simp del: step)
  qed (rule ih)
  have 3: "parseexec (Suc (Suc n)) s = Some x" if "parseexec (Suc n) s = Some x"
    using that [unfolded step(3) [of n]] by (subst step(3)) (auto split: if_splits intro: ih simp del: step)
  have 4: "parseblock (Suc (Suc n)) s = Some x" if "parseblock (Suc n) s = Some x"
    using that [unfolded step(4) [of n]] andthen_mono [OF _ ih(1)] by (subst step(4)) (auto split: if_splits simp del: step)
  show ?case using 1 2 3 4 by blast
qed simp

lemma parse_more:
  assumes "n \<le> m"
  shows "parseline n s = Some x \<Longrightarrow> parseline m s = Some x" "parsepipe n s = Some x \<Longrightarrow> parsepipe m s = Some x"
    "parseexec n s = Some x \<Longrightarrow> parseexec m s = Some x" "parseblock n s = Some x \<Longrightarrow> parseblock m s = Some x"
  using assms by (induction m rule: dec_induct) (simp_all add: parse_mono del: parseline.simps parsepipe.simps parseexec.simps parseblock.simps)

text \<open>
  C31 The parser ends on every line, however deeply it is nested, with a command or a syntax error.
\<close>

theorem sh_parser_total: "parsecmd s \<noteq> None"
  using parse_total [of s "4 * length s + 4"] by (auto simp: parsecmd_def split: option.splits sum.splits)


section \<open>Printing and parsing\<close>

text \<open>
  A command as the user may type it. The level says what the context takes without parentheses: 0 a
  list, 1 a background command, 2 a pipeline, 3 a simple command with its redirections.
\<close>

definition show_redir :: "string \<Rightarrow> nat \<Rightarrow> string" where
  "show_redir f d = (if d = 0 then ''<'' else ''>'') @ f @ '' ''"

definition block :: "bool \<Rightarrow> string \<Rightarrow> string" where
  "block b s = (if b then ''('' @ s @ '')'' else s)"

primrec unparse :: "nat \<Rightarrow> cmd \<Rightarrow> string" where
  "unparse l (EXEC args) = concat (map (\<lambda>w. w @ '' '') args)"
| "unparse l (REDIR c f m d) = unparse 3 c @ show_redir f d"
| "unparse l (PIPE a b) = block (l > 2) (unparse 3 a @ ''|'' @ unparse 2 b)"
| "unparse l (BACK c) = block (l > 1) (unparse 1 c @ ''&'')"
| "unparse l (LIST a b) = block (l > 0) (unparse 1 a @ '';'' @ unparse 0 b)"

definition word :: "string \<Rightarrow> bool" where
  "word w \<longleftrightarrow> w \<noteq> [] \<and> (\<forall>c \<in> set w. word_char c)"

text \<open>The commands the shell can represent: arguments and file names are words, and there is room for the arguments.\<close>

primrec well_formed :: "cmd \<Rightarrow> bool" where
  "well_formed (EXEC args) \<longleftrightarrow> length args < MAXARGS \<and> (\<forall>w \<in> set args. word w)"
| "well_formed (REDIR c f m d) \<longleftrightarrow> well_formed c \<and> word f \<and> (m, d) \<in> {(O_RDONLY, 0), (O_WRONLY_CREATE, 1)}"
| "well_formed (PIPE a b) \<longleftrightarrow> well_formed a \<and> well_formed b"
| "well_formed (LIST a b) \<longleftrightarrow> well_formed a \<and> well_formed b"
| "well_formed (BACK c) \<longleftrightarrow> well_formed c"

text \<open>The rest of the line is empty or goes on with one of these characters.\<close>

definition follow :: "string \<Rightarrow> string \<Rightarrow> bool" where
  "follow toks r \<longleftrightarrow> skip_ws r = [] \<or> hd (skip_ws r) \<in> set toks"

lemma followI [intro]: "c \<in> set toks \<Longrightarrow> c \<notin> set whitespace \<Longrightarrow> follow toks (c # r)"
  by (simp add: follow_def skip_ws_def)

lemma follow_mono: "follow ts r \<Longrightarrow> set ts \<subseteq> set us \<Longrightarrow> follow us r"
  by (auto simp: follow_def)

lemma follow_peek: "follow ts r \<Longrightarrow> set ts \<inter> set us = {} \<Longrightarrow> \<not> peek r us"
  by (auto simp: follow_def peek_def split: list.splits)

lemma follow_skip [simp]: "follow ts (skip_ws r) = follow ts r"
  by (simp add: follow_def)

lemma peek_skip [simp]: "peek (skip_ws r) us = peek r us"
  by (simp add: peek_def)

lemma gettoken_skip [simp]: "gettoken (skip_ws r) = gettoken r"
  by (simp add: gettoken_def)

lemma not_ws: "c \<notin> set whitespace \<Longrightarrow> skip_ws (c # r) = c # r"
  by (simp add: skip_ws_def)

lemma ws_blank: "skip_ws (CHR 0x20 # r) = skip_ws r"
  by (simp add: skip_ws_def whitespace_def)

lemma word_chars [simp]:
  "\<not> word_char (CHR 0x20)" "CHR ''|'' \<notin> set whitespace" "CHR ''('' \<notin> set whitespace" "CHR '')'' \<notin> set whitespace"
  "CHR '';'' \<notin> set whitespace" "CHR ''&'' \<notin> set whitespace" "CHR ''<'' \<notin> set whitespace" "CHR ''>'' \<notin> set whitespace"
  by (simp_all add: word_char_def whitespace_def)

lemma gettoken_symbol:
  "c \<in> set ''|();&<'' \<Longrightarrow> gettoken (c # r) = (c, [c], skip_ws r)"
  by (auto simp: gettoken_def not_ws)

lemma peek_symbol: "c \<notin> set whitespace \<Longrightarrow> peek (c # r) us \<longleftrightarrow> c \<in> set us"
  by (simp add: peek_def not_ws)

lemma word_hd:
  assumes "word w"
  obtains c cs where "w = c # cs" "word_char c" "c \<notin> set whitespace" "c \<notin> set ''|();&<>''"
  using assms by (cases w) (auto simp: word_def word_char_def symbols_def)

lemma gettoken_word:
  assumes "word w"
  shows "gettoken (w @ CHR 0x20 # r) = (CHR ''a'', w, skip_ws r)"
proof -
  obtain c cs where w: "w = c # cs" "word_char c" "c \<notin> set whitespace" "c \<notin> set ''|();&<>''" by (rule word_hd [OF assms])
  have "takeWhile word_char (w @ CHR 0x20 # r) = w" "dropWhile word_char (w @ CHR 0x20 # r) = CHR 0x20 # r"
    using assms by (simp_all add: word_def)
  then show ?thesis using w by (auto simp: gettoken_def not_ws ws_blank)
qed

lemma peek_word: "word w \<Longrightarrow> set us \<subseteq> set symbols \<Longrightarrow> \<not> peek (w @ r) us"
  by (rule word_hd [of w]) (auto simp: peek_symbol word_char_def)

definition redir :: "cmd \<Rightarrow> string \<times> nat \<times> nat \<Rightarrow> cmd" where
  "redir c = (\<lambda>(f, m, d). REDIR c f m d)"

definition good_redir :: "string \<times> nat \<times> nat \<Rightarrow> bool" where
  "good_redir = (\<lambda>(f, m, d). word f \<and> (m, d) \<in> {(O_RDONLY, 0), (O_WRONLY_CREATE, 1)})"

abbreviation show_redirs :: "(string \<times> nat \<times> nat) list \<Rightarrow> string" where
  "show_redirs rs \<equiv> concat (map (\<lambda>(f, m, d). show_redir f d) rs)"

lemma parseredirs_stop: "\<not> peek r ''<>'' \<Longrightarrow> parseredirs c r = Inr (c, skip_ws r)"
  by (subst parseredirs.simps) simp

lemma parseredirs_show:
  assumes "\<forall>x \<in> set rs. good_redir x" "\<not> peek r ''<>''"
  shows "parseredirs c (show_redirs rs @ r) = Inr (foldl redir c rs, skip_ws r)"
  using assms(1)
proof (induction rs arbitrary: c)
  case Nil
  then show ?case using parseredirs_stop [OF assms(2)] by simp
next
  case (Cons x rs)
  obtain f m d where x: "x = (f, m, d)" by (cases x)
  have f: "word f" "m = O_RDONLY \<and> d = 0 \<or> m = O_WRONLY_CREATE \<and> d = 1" using Cons.prems x by (auto simp: good_redir_def)
  obtain g gs where g: "f = g # gs" "g \<notin> set whitespace" "g \<notin> set ''|();&<>''" by (rule word_hd [OF f(1)])
  define t where "t = show_redirs rs @ r"
  have "parseredirs c (show_redir f d @ t) = parseredirs (redir c x) (skip_ws t)"
    using f g gettoken_word [OF f(1), of t]
    by (subst parseredirs.simps) (auto simp: x show_redir_def peek_symbol gettoken_symbol redir_def gettoken_def [of "CHR ''>'' # _"] not_ws)
  moreover have "parseredirs (redir c x) (skip_ws t) = parseredirs (redir c x) t"
    by (subst (1 2) parseredirs.simps) simp
  ultimately show ?case using Cons by (simp add: x t_def)
qed


lemma set_argv_redirs: "set_argv a (foldl redir (EXEC b) rs) = foldl redir (EXEC a) rs"
proof (induction rs rule: rev_induct)
  case (snoc x rs)
  then show ?case by (cases x) (simp add: redir_def)
qed simp

lemma parseredirs_skip: "parseredirs c (skip_ws s) = parseredirs c s"
  by (subst (1 2) parseredirs.simps) simp

lemma parseargs_skip: "parseargs c a (skip_ws s) = parseargs c a s"
  by (subst (1 2) parseargs.simps) simp

lemma parseargs_stop:
  assumes "follow ''|)&;'' r"
  shows "parseargs c a r = Inr (set_argv a c, skip_ws r)"
proof (cases "skip_ws r")
  case Nil
  then show ?thesis by (subst parseargs.simps) (simp add: peek_def gettoken_def)
next
  case (Cons d ds)
  then have "peek r ''|)&;''" using assms by (simp add: peek_def follow_def)
  then show ?thesis by (subst parseargs.simps) simp
qed

lemma parseargs_show:
  assumes "\<forall>w \<in> set ws. word w" "length a + length ws < MAXARGS" "\<forall>x \<in> set rs. good_redir x" "follow ''|)&;'' r" "ws \<noteq> []"
  shows "parseargs c a (concat (map (\<lambda>w. w @ '' '') ws) @ show_redirs rs @ r) = Inr (set_argv (a @ ws) (foldl redir c rs), skip_ws r)"
  using assms(1,2,5)
proof (induction ws arbitrary: a)
  case (Cons w ws)
  define t where "t = concat (map (\<lambda>w. w @ '' '') ws) @ show_redirs rs @ r"
  have w: "word w" using Cons.prems(1) by simp
  have no: "\<not> peek r ''<>''" by (rule follow_peek [OF assms(4)]) auto
  have step: "parseargs c a ((w @ '' '') @ t) = (case parseredirs c t of Inl e \<Rightarrow> Inl e | Inr (ret, s2) \<Rightarrow> parseargs ret (a @ [w]) s2)"
    using Cons.prems(2) peek_word [OF w, of "''|)&;''" "CHR 0x20 # t"] gettoken_word [OF w, of t]
    by (subst parseargs.simps) (simp add: symbols_def parseredirs_skip)
  show ?case
  proof (cases ws)
    case Nil
    then have "parseredirs c t = Inr (foldl redir c rs, skip_ws r)"
      using parseredirs_show [OF assms(3) no] by (simp add: t_def)
    then show ?thesis using step Nil parseargs_stop [OF assms(4)] by (simp add: t_def parseargs_skip)
  next
    case (Cons v vs)
    then have "\<not> peek t ''<>''" using \<open>\<forall>w \<in> set (w # ws). word w\<close> peek_word [of v "''<>''"] by (simp add: t_def symbols_def)
    then have "parseredirs c t = Inr (c, skip_ws t)" by (rule parseredirs_stop)
    then show ?thesis using step Cons.IH [of "a @ [w]"] Cons.prems local.Cons by (simp add: t_def parseargs_skip)
  qed
qed simp

lemma parse_skip:
  "parseline n (skip_ws s) = parseline n s \<and> parsepipe n (skip_ws s) = parsepipe n s
   \<and> parseexec n (skip_ws s) = parseexec n s \<and> parseblock n (skip_ws s) = parseblock n s"
  by (induction n arbitrary: s) (simp_all add: parseredirs_skip)

text \<open>What each function of the parser does with a command printed for it, and more redirections.\<close>

definition parses3 :: "cmd \<Rightarrow> bool" where
  "parses3 c \<longleftrightarrow> (\<forall>rs r. (\<forall>x \<in> set rs. good_redir x) \<longrightarrow> follow ''|)&;'' r \<longrightarrow>
     (\<exists>n. parseexec n (unparse 3 c @ show_redirs rs @ r) = Some (Inr (foldl redir c rs, skip_ws r))))"

definition parses2 :: "cmd \<Rightarrow> bool" where
  "parses2 c \<longleftrightarrow> (\<forall>r. follow '')&;'' r \<longrightarrow> (\<exists>n. parsepipe n (unparse 2 c @ r) = Some (Inr (c, skip_ws r))))"

definition parses1 :: "cmd \<Rightarrow> bool" where
  "parses1 c \<longleftrightarrow> (\<forall>r. follow '')&;'' r \<longrightarrow>
     (\<exists>n d s. parsepipe n (unparse 1 c @ r) = Some (Inr (d, s)) \<and> parseamps d s = parseamps c r))"

definition parses0 :: "cmd \<Rightarrow> bool" where
  "parses0 c \<longleftrightarrow> (\<forall>r. follow '')'' r \<longrightarrow> (\<exists>n. parseline n (unparse 0 c @ r) = Some (Inr (c, skip_ws r))))"

lemma parseamps_skip: "parseamps c (skip_ws s) = parseamps c s"
  by (subst (1 2) parseamps.simps) simp

lemma parses3_exec:
  assumes "well_formed (EXEC args)"
  shows "parses3 (EXEC args)"
  unfolding parses3_def
proof (intro allI impI)
  fix rs r
  assume rs: "\<forall>x \<in> set rs. good_redir x" and r: "follow ''|)&;'' r"
  define s where "s = unparse 3 (EXEC args) @ show_redirs rs @ r"
  have no: "\<not> peek r ''<>''" "\<not> peek r ''(''" by (rule follow_peek [OF r]; auto)+
  have "\<not> peek s ''('' \<and> andthen (Some (parseredirs (EXEC []) s)) (\<lambda>ret s. Some (parseargs ret [] s)) = Some (Inr (foldl redir (EXEC args) rs, skip_ws r))"
  proof (cases args)
    case Nil
    have "\<not> peek s ''(''" using Nil no(2) by (cases rs) (auto simp: s_def show_redir_def peek_symbol split: if_splits)
    moreover have "parseredirs (EXEC []) s = Inr (foldl redir (EXEC []) rs, skip_ws r)"
      using parseredirs_show [OF rs no(1)] Nil by (simp add: s_def)
    ultimately show ?thesis using parseargs_stop [OF r] Nil by (simp add: andthen_def parseargs_skip set_argv_redirs)
  next
    case (Cons w ws)
    have w: "\<not> peek s ''<>''" "\<not> peek s ''(''"
      using assms Cons peek_word [of w "''<>''"] peek_word [of w "''(''"] by (simp_all add: s_def symbols_def)
    have "parseargs (EXEC []) [] s = Inr (set_argv ([] @ args) (foldl redir (EXEC []) rs), skip_ws r)"
      unfolding s_def unparse.simps using assms Cons by (intro parseargs_show rs r) auto
    then show ?thesis using w parseredirs_stop [OF w(1)] by (simp add: andthen_def parseargs_skip set_argv_redirs)
  qed
  then have "parseexec (Suc 0) s = Some (Inr (foldl redir (EXEC args) rs, skip_ws r))" by simp
  then show "\<exists>n. parseexec n (unparse 3 (EXEC args) @ show_redirs rs @ r) = Some (Inr (foldl redir (EXEC args) rs, skip_ws r))"
    unfolding s_def by blast
qed

lemma parses3_block:
  assumes "parses0 c" "unparse 3 c = ''('' @ unparse 0 c @ '')''"
  shows "parses3 c"
  unfolding parses3_def
proof (intro allI impI)
  fix rs r
  assume rs: "\<forall>x \<in> set rs. good_redir x" and r: "follow ''|)&;'' r"
  have no: "\<not> peek r ''<>''" by (rule follow_peek [OF r]) auto
  define t where "t = show_redirs rs @ r"
  have "follow '')'' (CHR '')'' # t)" by (rule followI) simp_all
  then obtain n where "parseline n (unparse 0 c @ CHR '')'' # t) = Some (Inr (c, CHR '')'' # t))"
    using assms(1) unfolding parses0_def by (metis not_ws word_chars(4))
  then have "parseblock (Suc n) (unparse 3 c @ t) = Some (Inr (foldl redir c rs, skip_ws r))"
    using parseredirs_show [OF rs no] by (simp add: assms(2) peek_symbol gettoken_symbol parse_skip andthen_def parseredirs_skip t_def)
  then have "parseexec (Suc (Suc n)) (unparse 3 c @ t) = Some (Inr (foldl redir c rs, skip_ws r))"
    by (subst parseexec.simps) (simp add: assms(2) peek_symbol del: parseblock.simps)
  then show "\<exists>n. parseexec n (unparse 3 c @ show_redirs rs @ r) = Some (Inr (foldl redir c rs, skip_ws r))"
    unfolding t_def by blast
qed

lemma parses3_redir: "parses3 c \<Longrightarrow> good_redir (f, m, d) \<Longrightarrow> parses3 (REDIR c f m d)"
  unfolding parses3_def
proof (intro allI impI)
  fix rs r
  assume c: "\<forall>rs r. (\<forall>x \<in> set rs. good_redir x) \<longrightarrow> follow ''|)&;'' r \<longrightarrow>
     (\<exists>n. parseexec n (unparse 3 c @ show_redirs rs @ r) = Some (Inr (foldl redir c rs, skip_ws r)))"
    and g: "good_redir (f, m, d)" "\<forall>x \<in> set rs. good_redir x" "follow ''|)&;'' r"
  then show "\<exists>n. parseexec n (unparse 3 (REDIR c f m d) @ show_redirs rs @ r) = Some (Inr (foldl redir (REDIR c f m d) rs, skip_ws r))"
    using spec [OF spec [OF c, of "(f, m, d) # rs"], of r] by (simp add: redir_def)
qed

lemma parses2_simple: "parses3 c \<Longrightarrow> unparse 2 c = unparse 3 c \<Longrightarrow> parses2 c"
  unfolding parses2_def
proof (intro allI impI)
  fix r
  assume c: "parses3 c" "unparse 2 c = unparse 3 c" and r: "follow '')&;'' r"
  have "\<not> peek r ''|''" "follow ''|)&;'' r" by (rule follow_peek [OF r], simp) (rule follow_mono [OF r], auto)
  moreover obtain n where "parseexec n (unparse 3 c @ r) = Some (Inr (c, skip_ws r))"
    using c(1) [unfolded parses3_def, rule_format, of "[]" r] calculation by auto
  ultimately have "parsepipe (Suc n) (unparse 2 c @ r) = Some (Inr (c, skip_ws r))" using c(2) by (simp add: andthen_def)
  then show "\<exists>n. parsepipe n (unparse 2 c @ r) = Some (Inr (c, skip_ws r))" by blast
qed

lemma parses2_pipe:
  assumes "parses3 a" "parses2 b"
  shows "parses2 (PIPE a b)"
  unfolding parses2_def
proof (intro allI impI)
  fix r
  assume r: "follow '')&;'' r"
  define t where "t = unparse 2 b @ r"
  have "follow ''|)&;'' (CHR ''|'' # t)" by (rule followI) simp_all
  then obtain n where n: "parseexec n (unparse 3 a @ CHR ''|'' # t) = Some (Inr (a, CHR ''|'' # t))"
    using assms(1) [unfolded parses3_def, rule_format, of "[]" "CHR ''|'' # t"] by (auto simp: not_ws)
  obtain m where m: "parsepipe m t = Some (Inr (b, skip_ws r))" using assms(2) r unfolding parses2_def t_def by blast
  have "parsepipe (Suc (max n m)) (unparse 2 (PIPE a b) @ r) = Some (Inr (PIPE a b, skip_ws r))"
    using parse_more(3) [OF _ n, of "max n m"] parse_more(2) [OF _ m, of "max n m"]
    by (simp add: block_def andthen_def peek_symbol gettoken_symbol parse_skip t_def)
  then show "\<exists>n. parsepipe n (unparse 2 (PIPE a b) @ r) = Some (Inr (PIPE a b, skip_ws r))" by blast
qed

lemma parses1_simple: "parses2 c \<Longrightarrow> unparse 1 c = unparse 2 c \<Longrightarrow> parses1 c"
  unfolding parses1_def parses2_def by (metis parseamps_skip)

lemma parses1_back:
  assumes "parses1 c"
  shows "parses1 (BACK c)"
  unfolding parses1_def
proof (intro allI impI)
  fix r
  have "follow '')&;'' (CHR ''&'' # r)" by (rule followI) simp_all
  then obtain n d s where n: "parsepipe n (unparse 1 c @ CHR ''&'' # r) = Some (Inr (d, s))" "parseamps d s = parseamps c (CHR ''&'' # r)"
    using assms unfolding parses1_def by blast
  moreover have "parseamps c (CHR ''&'' # r) = parseamps (BACK c) r"
    by (subst parseamps.simps) (simp add: peek_symbol gettoken_symbol parseamps_skip)
  ultimately show "\<exists>n d s. parsepipe n (unparse 1 (BACK c) @ r) = Some (Inr (d, s)) \<and> parseamps d s = parseamps (BACK c) r"
    by (auto simp: block_def)
qed

lemma parses0_simple: "parses1 c \<Longrightarrow> unparse 0 c = unparse 1 c \<Longrightarrow> parses0 c"
  unfolding parses0_def
proof (intro allI impI)
  fix r
  assume c: "parses1 c" "unparse 0 c = unparse 1 c" and r: "follow '')'' r"
  have no: "\<not> peek r ''&''" "\<not> peek r '';''" "follow '')&;'' r"
    by (rule follow_peek [OF r], simp) (rule follow_peek [OF r], simp, rule follow_mono [OF r], auto)
  obtain n d s where "parsepipe n (unparse 1 c @ r) = Some (Inr (d, s))" "parseamps d s = parseamps c r"
    using c(1) no(3) unfolding parses1_def by blast
  moreover have "parseamps c r = (c, skip_ws r)" using no(1) by (subst parseamps.simps) simp
  ultimately have "parseline (Suc n) (unparse 0 c @ r) = Some (Inr (c, skip_ws r))" using c(2) no(2) by (simp add: andthen_def)
  then show "\<exists>n. parseline n (unparse 0 c @ r) = Some (Inr (c, skip_ws r))" by blast
qed

lemma parses0_list:
  assumes "parses1 a" "parses0 b"
  shows "parses0 (LIST a b)"
  unfolding parses0_def
proof (intro allI impI)
  fix r
  assume r: "follow '')'' r"
  define t where "t = unparse 0 b @ r"
  have "follow '')&;'' (CHR '';'' # t)" by (rule followI) simp_all
  then obtain n d s where n: "parsepipe n (unparse 1 a @ CHR '';'' # t) = Some (Inr (d, s))" "parseamps d s = parseamps a (CHR '';'' # t)"
    using assms(1) unfolding parses1_def by blast
  have a: "parseamps a (CHR '';'' # t) = (a, CHR '';'' # t)" by (subst parseamps.simps) (simp add: peek_symbol not_ws)
  obtain m where m: "parseline m t = Some (Inr (b, skip_ws r))" using assms(2) r unfolding parses0_def t_def by blast
  have "parseline (Suc (max n m)) (unparse 0 (LIST a b) @ r) = Some (Inr (LIST a b, skip_ws r))"
    using parse_more(2) [OF _ n(1), of "max n m"] parse_more(1) [OF _ m, of "max n m"] n(2) a
    by (simp add: block_def andthen_def peek_symbol gettoken_symbol parse_skip t_def)
  then show "\<exists>n. parseline n (unparse 0 (LIST a b) @ r) = Some (Inr (LIST a b, skip_ws r))" by blast
qed

lemma parses_all: "well_formed c \<Longrightarrow> parses3 c \<and> parses2 c \<and> parses1 c \<and> parses0 c"
proof (induction c)
  case (EXEC args)
  have "parses3 (EXEC args)" by (rule parses3_exec [OF EXEC])
  moreover from this have "parses2 (EXEC args)" by (rule parses2_simple) simp
  moreover from this have "parses1 (EXEC args)" by (rule parses1_simple) simp
  moreover from this have "parses0 (EXEC args)" by (rule parses0_simple) simp
  ultimately show ?case by blast
next
  case (REDIR c f m d)
  have "parses3 (REDIR c f m d)" using REDIR by (intro parses3_redir) (auto simp: good_redir_def)
  moreover from this have "parses2 (REDIR c f m d)" by (rule parses2_simple) simp
  moreover from this have "parses1 (REDIR c f m d)" by (rule parses1_simple) simp
  moreover from this have "parses0 (REDIR c f m d)" by (rule parses0_simple) simp
  ultimately show ?case by blast
next
  case (PIPE a b)
  then have "parses2 (PIPE a b)" by (intro parses2_pipe) auto
  moreover from this have "parses1 (PIPE a b)" by (rule parses1_simple) (simp add: block_def)
  moreover from this have "parses0 (PIPE a b)" by (rule parses0_simple) (simp add: block_def)
  moreover from this have "parses3 (PIPE a b)" by (rule parses3_block) (simp add: block_def)
  ultimately show ?case by blast
next
  case (LIST a b)
  then have "parses0 (LIST a b)" by (intro parses0_list) auto
  moreover from this have "parses3 (LIST a b)" by (rule parses3_block) (simp add: block_def)
  moreover from this have "parses2 (LIST a b)" by (rule parses2_simple) (simp add: block_def)
  moreover from this have "parses1 (LIST a b)" by (rule parses1_simple) (simp add: block_def)
  ultimately show ?case by blast
next
  case (BACK c)
  then have "parses1 (BACK c)" by (intro parses1_back) auto
  moreover from this have "parses0 (BACK c)" by (rule parses0_simple) (simp add: block_def)
  moreover from this have "parses3 (BACK c)" by (rule parses3_block) (simp add: block_def)
  moreover from this have "parses2 (BACK c)" by (rule parses2_simple) (simp add: block_def)
  ultimately show ?case by blast
qed

lemma parseline_unparse:
  assumes "well_formed c" "skip_ws r = []"
  shows "parseline (4 * length (unparse 0 c @ r) + 4) (unparse 0 c @ r) = Some (Inr (c, []))"
proof -
  obtain n where n: "parseline n (unparse 0 c @ r) = Some (Inr (c, []))"
    using assms parses_all [of c] unfolding parses0_def follow_def by metis
  let ?s = "unparse 0 c @ r"
  let ?m = "4 * length ?s + 4"
  have "parseline ?m ?s \<noteq> None" using parse_total [of ?s ?m] by blast
  then show ?thesis using parse_more(1) [of n "max n ?m" ?s] parse_more(1) [of ?m "max n ?m" ?s] n by fastforce
qed

text \<open>
  C13 Every command the shell can represent is what the parser makes of its printed
  form, whatever white space ends the line: the parser gets the nesting of lists, pipelines, background commands, blocks and redirections
  right, keeps the arguments in order, and rejects none of these lines.
\<close>

theorem sh_parse_unparse: "well_formed c \<Longrightarrow> skip_ws r = [] \<Longrightarrow> parsecmd (unparse 0 c @ r) = Some (Inr c)"
  unfolding parsecmd_def by (simp only: parseline_unparse) (simp add: skip_ws_def)

theorem sh_parse_unparse_witness:
  "well_formed (LIST (BACK (PIPE (EXEC [''ls'']) (EXEC [''wc'', ''-l'']))) (REDIR (LIST (EXEC [''a'']) (EXEC [''b''])) ''out'' 0x201 1))
   \<and> parsecmd ''ls |wc -l &;(a ;b )>out \<newline>'' = Some (Inr (LIST (BACK (PIPE (EXEC [''ls'']) (EXEC [''wc'', ''-l'']))) (REDIR (LIST (EXEC [''a'']) (EXEC [''b''])) ''out'' 0x201 1)))"
  using sh_parse_unparse [of "LIST (BACK (PIPE (EXEC [''ls'']) (EXEC [''wc'', ''-l'']))) (REDIR (LIST (EXEC [''a'']) (EXEC [''b''])) ''out'' 0x201 1)" "''\<newline>''"]
  by (simp add: skip_ws_def word_def word_char_def whitespace_def symbols_def block_def show_redir_def)

end
