(* ===== verification/Shrun.thy ===== *)
theory Shrun
  imports Sh
begin

text \<open>
  Running a command (src/sh.c: \<open>runcmd\<close>, \<open>fork1\<close>, \<open>panic\<close>, \<open>getcmd\<close>, \<open>main\<close>).

  What a process of the shell does is a list of events; a fork has the events of the child in it. Each process has a
  table of its own that maps its descriptors to what they are open on, and changes it by its own calls only, so that the order in which the processes run does not
  matter to it. Which calls succeed is a parameter of the model; a call that needs a descriptor also fails if there is none.
\<close>

section \<open>Descriptors\<close>

datatype chan = Console | Opened string nat | PipeR nat | PipeW nat

type_synonym fdt = "nat \<Rightarrow> chan option"

record sys =
  can_open :: "string \<Rightarrow> nat \<Rightarrow> bool"
  can_exec :: "string \<Rightarrow> bool"
  can_chdir :: "string \<Rightarrow> bool"
  can_fork :: "nat \<Rightarrow> bool"
  can_pipe :: "nat \<Rightarrow> bool"

text \<open>How many forks and pipes there were.\<close>

record shcnt =
  forks :: nat
  pipes :: nat

datatype ev = Exec "string list" fdt | Fork "ev list" | Wait fdt | Print string | Chdir string | Exit

definition lowest_fd :: "fdt \<Rightarrow> nat option" where
  "lowest_fd t = find (\<lambda>fd. t fd = None) [0..<16]"

definition close_fd :: "nat \<Rightarrow> fdt \<Rightarrow> fdt" where
  "close_fd fd t = t(fd := None)"

definition open_fd :: "sys \<Rightarrow> string \<Rightarrow> nat \<Rightarrow> fdt \<Rightarrow> (nat \<times> fdt) option" where
  "open_fd k p m t =
     (if can_open k p m then
        (case lowest_fd t of None \<Rightarrow> None | Some fd \<Rightarrow> Some (fd, t(fd \<mapsto> (if p = ''console'' then Console else Opened p m))))
      else None)"

definition dup_fd :: "nat \<Rightarrow> fdt \<Rightarrow> fdt" where
  "dup_fd fd t = (case (t fd, lowest_fd t) of (Some c, Some d) \<Rightarrow> t(d \<mapsto> c) | _ \<Rightarrow> t)"

definition pipe_fds :: "sys \<Rightarrow> nat \<Rightarrow> fdt \<Rightarrow> (nat \<times> nat \<times> fdt) option" where
  "pipe_fds k n t =
     (if can_pipe k n then
        (case lowest_fd t of
           None \<Rightarrow> None
         | Some r \<Rightarrow>
             (case lowest_fd (t(r \<mapsto> PipeR n)) of
                None \<Rightarrow> None
              | Some w \<Rightarrow> Some (r, w, t(r \<mapsto> PipeR n, w \<mapsto> PipeW n))))
      else None)"

section \<open>Running a command\<close>

text \<open>\<open>panic\<close> prints its message and exits. \<open>fork1\<close> forks, or panics.\<close>

definition sh_panic :: "string \<Rightarrow> ev list" where
  "sh_panic msg = [Print (msg @ ''\<newline>''), Exit]"

definition fork1 :: "sys \<Rightarrow> shcnt \<Rightarrow> bool \<times> shcnt" where
  "fork1 k c = (can_fork k (forks c), c\<lparr>forks := forks c + 1\<rparr>)"

text \<open>The tables of the children at the two ends of a pipe.\<close>

definition left_fds :: "nat \<Rightarrow> nat \<Rightarrow> fdt \<Rightarrow> fdt" where
  "left_fds r w t = close_fd w (close_fd r (dup_fd w (close_fd 1 t)))"

definition right_fds :: "nat \<Rightarrow> nat \<Rightarrow> fdt \<Rightarrow> fdt" where
  "right_fds r w t = close_fd w (close_fd r (dup_fd r (close_fd 0 t)))"

primrec runcmd :: "sys \<Rightarrow> cmd \<Rightarrow> fdt \<Rightarrow> shcnt \<Rightarrow> ev list \<times> shcnt" where
  "runcmd k (EXEC argv) t c =
     (if argv = [] then ([Exit], c)
      else if can_exec k (hd argv) then ([Exec argv t], c)
      else ([Print (''exec '' @ hd argv @ '' failed\<newline>''), Exit], c))"
| "runcmd k (REDIR cmd file mode fd) t c =
     (case open_fd k file mode (close_fd fd t) of
        None \<Rightarrow> ([Print (''open '' @ file @ '' failed\<newline>''), Exit], c)
      | Some (_, t) \<Rightarrow> runcmd k cmd t c)"
| "runcmd k (LIST left right) t c =
     (let (ok, c) = fork1 k c in
      if \<not> ok then (sh_panic ''fork'', c)
      else
        let (child, c) = runcmd k left t c; (rest, c) = runcmd k right t c
        in (Fork child # Wait t # rest, c))"
| "runcmd k (PIPE left right) t c =
     (case pipe_fds k (pipes c) t of
        None \<Rightarrow> (sh_panic ''pipe'', c)
      | Some (r, w, t) \<Rightarrow>
          let (ok, c) = fork1 k (c\<lparr>pipes := pipes c + 1\<rparr>) in
          if \<not> ok then (sh_panic ''fork'', c)
          else
            let (child1, c) = runcmd k left (left_fds r w t) c; (ok, c) = fork1 k c in
            if \<not> ok then (Fork child1 # sh_panic ''fork'', c)
            else
              let (child2, c) = runcmd k right (right_fds r w t) c; t = close_fd w (close_fd r t)
              in ([Fork child1, Fork child2, Wait t, Wait t, Exit], c))"
| "runcmd k (BACK cmd) t c =
     (let (ok, c) = fork1 k c in
      if \<not> ok then (sh_panic ''fork'', c)
      else let (child, c) = runcmd k cmd t c in ([Fork child, Exit], c))"

section \<open>The shell\<close>

text \<open>The descriptors 0, 1 and 2 are opened; at most four calls are made, since each takes the lowest free descriptor.\<close>

primrec console_fds :: "nat \<Rightarrow> sys \<Rightarrow> fdt \<Rightarrow> fdt" where
  "console_fds 0 k t = t"
| "console_fds (Suc n) k t =
     (case open_fd k ''console'' 2 t of
        None \<Rightarrow> t
      | Some (fd, t) \<Rightarrow> if 3 \<le> fd then close_fd fd t else console_fds n k t)"

text \<open>
  One line, not empty, as \<open>gets\<close> leaves it in the buffer. The child does what the command says, or panics if the line cannot be parsed.
\<close>

definition sh_child :: "sys \<Rightarrow> string \<Rightarrow> fdt \<Rightarrow> shcnt \<Rightarrow> ev list \<times> shcnt" where
  "sh_child k line t c =
     (case parsecmd line of
        Some (Inr cmd) \<Rightarrow> runcmd k cmd t c
      | Some (Inl msg) \<Rightarrow> (sh_panic msg, c)
      | None \<Rightarrow> ([], c))"

definition sh_line :: "sys \<Rightarrow> string \<Rightarrow> fdt \<Rightarrow> shcnt \<Rightarrow> ev list \<times> shcnt \<times> bool" where
  "sh_line k line t c =
     (if take 3 line = ''cd '' then
        let dir = drop 3 (butlast line) in
        (if can_chdir k dir then [Chdir dir] else [Chdir dir, Print (''cannot cd '' @ dir @ ''\<newline>'')], c, True)
      else
        let (ok, c) = fork1 k c in
        if \<not> ok then (sh_panic ''fork'', c, False)
        else let (child, c) = sh_child k line t c in ([Fork child, Wait t], c, True))"

text \<open>The loop of \<open>main\<close> over the lines; \<open>getcmd\<close> prompts, and an empty line is the end of the input.\<close>

primrec sh_loop :: "sys \<Rightarrow> fdt \<Rightarrow> shcnt \<Rightarrow> string list \<Rightarrow> ev list" where
  "sh_loop k t c [] = [Print ''$ '', Exit]"
| "sh_loop k t c (line # lines) =
     (if line = [] then [Print ''$ '', Exit]
      else
        case sh_line k line t c of
          (es, c, go_on) \<Rightarrow> Print ''$ '' # es @ (if go_on then sh_loop k t c lines else []))"

definition sh_main :: "sys \<Rightarrow> fdt \<Rightarrow> string list \<Rightarrow> ev list" where
  "sh_main k t lines = sh_loop k (console_fds 4 k t) \<lparr>forks = 0, pipes = 0\<rparr> lines"

section \<open>What is run on what\<close>

text \<open>The programs executed by a process and its descendants, with their descriptors; the tables of the processes that wait.\<close>

primrec execs_of :: "ev \<Rightarrow> (string list \<times> fdt) list" where
  "execs_of (Exec argv t) = [(argv, t)]"
| "execs_of (Fork es) = concat (map execs_of es)"
| "execs_of (Wait t) = []"
| "execs_of (Print s) = []"
| "execs_of (Chdir d) = []"
| "execs_of Exit = []"

primrec waits_of :: "ev \<Rightarrow> fdt list" where
  "waits_of (Exec argv t) = []"
| "waits_of (Fork es) = concat (map waits_of es)"
| "waits_of (Wait t) = [t]"
| "waits_of (Print s) = []"
| "waits_of (Chdir d) = []"
| "waits_of Exit = []"

text \<open>
  What a command means: the programs it runs, each with the descriptors of the shell, changed by the redirections and pipes it is inside of and by nothing else; the tables of
  the processes while they wait; and the number of the next pipe.
\<close>

definition opened :: "string \<Rightarrow> nat \<Rightarrow> chan" where
  "opened p m = (if p = ''console'' then Console else Opened p m)"

primrec wired :: "cmd \<Rightarrow> fdt \<Rightarrow> nat \<Rightarrow> (string list \<times> fdt) list \<times> fdt list \<times> nat" where
  "wired (EXEC argv) t n = (if argv = [] then [] else [(argv, t)], [], n)"
| "wired (REDIR c f m d) t n = wired c (t(d \<mapsto> opened f m)) n"
| "wired (LIST a b) t n = (let (x, u, n) = wired a t n; (y, v, n) = wired b t n in (x @ y, u @ t # v, n))"
| "wired (PIPE a b) t n = (let (x, u, i) = wired a (t(1 \<mapsto> PipeW n)) (n + 1); (y, v, i) = wired b (t(0 \<mapsto> PipeR n)) i in (x @ y, u @ v @ [t, t], i))"
| "wired (BACK c) t n = wired c t n"

definition base_fds :: "fdt \<Rightarrow> bool" where
  "base_fds t \<longleftrightarrow> t 0 \<noteq> None \<and> t 1 \<noteq> None \<and> t 2 \<noteq> None \<and> t 3 = None \<and> t 4 = None"

definition willing :: "sys \<Rightarrow> bool" where
  "willing k \<longleftrightarrow> (\<forall>p m. can_open k p m) \<and> (\<forall>p. can_exec k p) \<and> (\<forall>n. can_fork k n) \<and> (\<forall>n. can_pipe k n)"

lemma lowest_fd_eq:
  "t 0 = None \<Longrightarrow> lowest_fd t = Some 0" "t 0 \<noteq> None \<Longrightarrow> t 1 = None \<Longrightarrow> lowest_fd t = Some 1"
  "t 0 \<noteq> None \<Longrightarrow> t 1 \<noteq> None \<Longrightarrow> t 2 \<noteq> None \<Longrightarrow> t 3 = None \<Longrightarrow> lowest_fd t = Some 3"
  "t 0 \<noteq> None \<Longrightarrow> t 1 \<noteq> None \<Longrightarrow> t 2 \<noteq> None \<Longrightarrow> t 3 \<noteq> None \<Longrightarrow> t 4 = None \<Longrightarrow> lowest_fd t = Some 4"
  by (simp_all add: lowest_fd_def upt_rec numeral_eq_Suc)

lemma open_base:
  assumes "base_fds t" "willing k" "d = 0 \<or> d = 1"
  shows "open_fd k f m (close_fd d t) = Some (d, t(d \<mapsto> opened f m))"
  using assms by (auto simp: open_fd_def close_fd_def base_fds_def willing_def lowest_fd_eq opened_def)

lemma pipe_base:
  assumes "base_fds t" "willing k"
  shows "pipe_fds k n t = Some (3, 4, t(3 \<mapsto> PipeR n, 4 \<mapsto> PipeW n))"
  using assms by (auto simp: pipe_fds_def base_fds_def willing_def lowest_fd_eq)

lemma pipe_children:
  assumes "base_fds t"
  shows "left_fds 3 4 (t(3 \<mapsto> PipeR n, 4 \<mapsto> PipeW n)) = t(1 \<mapsto> PipeW n)" "right_fds 3 4 (t(3 \<mapsto> PipeR n, 4 \<mapsto> PipeW n)) = t(0 \<mapsto> PipeR n)"
    "close_fd 4 (close_fd 3 (t(3 \<mapsto> PipeR n, 4 \<mapsto> PipeW n))) = t"
  using assms by (auto simp: left_fds_def right_fds_def dup_fd_def close_fd_def base_fds_def lowest_fd_eq fun_eq_iff)

lemma run_wired:
  assumes "willing k" "well_formed c" "base_fds t"
  shows "\<exists>es s'. runcmd k c t s = (es, s') \<and> (concat (map execs_of es), concat (map waits_of es), pipes s') = wired c t (pipes s)"
  using assms(2,3)
proof (induction c arbitrary: t s)
  case (EXEC argv)
  then show ?case using assms(1) by (simp add: willing_def)
next
  case (REDIR c f m d)
  then have "d = 0 \<or> d = 1" by auto
  moreover from this have "base_fds (t(d \<mapsto> opened f m))" using REDIR.prems(2) by (auto simp: base_fds_def)
  ultimately show ?case using REDIR.IH [of "t(d \<mapsto> opened f m)" s] REDIR.prems open_base [OF REDIR.prems(2) assms(1), of d] by (simp del: fun_upd_apply)
next
  case (PIPE a b)
  have t: "base_fds (t(1 \<mapsto> PipeW (pipes s)))" "base_fds (t(0 \<mapsto> PipeR (pipes s)))" using PIPE.prems(2) by (auto simp: base_fds_def)
  obtain es1 s1 where a: "runcmd k a (t(1 \<mapsto> PipeW (pipes s))) (s\<lparr>pipes := pipes s + 1, forks := forks s + 1\<rparr>) = (es1, s1)"
    "(concat (map execs_of es1), concat (map waits_of es1), pipes s1) = wired a (t(1 \<mapsto> PipeW (pipes s))) (pipes s + 1)"
    using PIPE.IH(1) [OF _ t(1), of "s\<lparr>pipes := pipes s + 1, forks := forks s + 1\<rparr>"] PIPE.prems(1) by (auto simp del: fun_upd_apply)
  obtain es2 s2 where b: "runcmd k b (t(0 \<mapsto> PipeR (pipes s))) (s1\<lparr>forks := forks s1 + 1\<rparr>) = (es2, s2)"
    "(concat (map execs_of es2), concat (map waits_of es2), pipes s2) = wired b (t(0 \<mapsto> PipeR (pipes s))) (pipes s1)"
    using PIPE.IH(2) [OF _ t(2), of "s1\<lparr>forks := forks s1 + 1\<rparr>"] PIPE.prems(1) by (auto simp del: fun_upd_apply)
  show ?case using a b assms(1) PIPE.prems(2)
    by (simp add: pipe_base pipe_children fork1_def willing_def Let_def b(2) [symmetric] a(2) [symmetric, unfolded One_nat_def add_Suc_right add_0_right])
next
  case (LIST a b)
  obtain es1 s1 where a: "runcmd k a t (s\<lparr>forks := forks s + 1\<rparr>) = (es1, s1)" "(concat (map execs_of es1), concat (map waits_of es1), pipes s1) = wired a t (pipes s)"
    using LIST.IH(1) [OF _ LIST.prems(2), of "s\<lparr>forks := forks s + 1\<rparr>"] LIST.prems(1) by auto
  obtain es2 s2 where b: "runcmd k b t s1 = (es2, s2)" "(concat (map execs_of es2), concat (map waits_of es2), pipes s2) = wired b t (pipes s1)"
    using LIST.IH(2) [OF _ LIST.prems(2), of s1] LIST.prems(1) by auto
  show ?case using a(1) b(1) assms(1) by (simp add: fork1_def willing_def Let_def flip: a(2) b(2))
next
  case (BACK c)
  obtain es s' where c: "runcmd k c t (s\<lparr>forks := forks s + 1\<rparr>) = (es, s')" "(concat (map execs_of es), concat (map waits_of es), pipes s') = wired c t (pipes s)"
    using BACK.IH [OF _ BACK.prems(2), of "s\<lparr>forks := forks s + 1\<rparr>"] BACK.prems(1) by auto
  show ?case using c(1) assms(1) by (simp add: fork1_def willing_def flip: c(2))
qed

lemma console_base: "willing k \<Longrightarrow> \<forall>fd \<ge> 3. t fd = None \<Longrightarrow> base_fds (console_fds 4 k t)"
  by (cases "t 0"; cases "t 1"; cases "t 2")
    (auto simp: numeral_eq_Suc open_fd_def willing_def lowest_fd_def upt_rec close_fd_def base_fds_def)

text \<open>
  C12 The shell runs what the line says. For every command it can represent, typed in its printed form with any white space behind it, the shell forks once
  and waits; the child and its descendants execute exactly the programs of the command, in order, each with the descriptors of the shell except that its output is the pipe it writes to, its
  input the pipe it reads from, or the file it is redirected to. So no program inherits an end of a pipe that is not its own; nor does a process of the shell hold one while it waits.
\<close>

theorem sh_runs:
  assumes "well_formed c" "skip_ws r = []" "take 3 (unparse 0 c @ r) \<noteq> ''cd ''" "willing k" "base_fds t"
  shows "\<exists>child s'. sh_line k (unparse 0 c @ r) t s = ([Fork child, Wait t], s', True)
    \<and> (concat (map execs_of child), concat (map waits_of child), pipes s') = wired c t (pipes s)"
proof -
  have "parsecmd (unparse 0 c @ r) = Some (Inr c)" unfolding parsecmd_def by (simp only: parseline_unparse [OF assms(1,2)]) (simp add: skip_ws_def)
  then show ?thesis using run_wired [OF assms(4,1,5), of "s\<lparr>forks := forks s + 1\<rparr>"] assms(3,4)
    by (auto simp: sh_line_def sh_child_def fork1_def willing_def)
qed

theorem sh_runs_witness:
  "\<exists>child s'. sh_line \<lparr>can_open = (\<lambda>_ _. True), can_exec = (\<lambda>_. True), can_chdir = (\<lambda>_. True), can_fork = (\<lambda>_. True), can_pipe = (\<lambda>_. True)\<rparr>
      ''ls |wc -l >out \<newline>'' [0 \<mapsto> Console, 1 \<mapsto> Console, 2 \<mapsto> Console] \<lparr>forks = 0, pipes = 7\<rparr>
    = ([Fork child, Wait [0 \<mapsto> Console, 1 \<mapsto> Console, 2 \<mapsto> Console]], s', True)
    \<and> concat (map execs_of child) = [([''ls''], [0 \<mapsto> Console, 1 \<mapsto> PipeW 7, 2 \<mapsto> Console]), ([''wc'', ''-l''], [0 \<mapsto> PipeR 7, 1 \<mapsto> Opened ''out'' 0x201, 2 \<mapsto> Console])]"
proof -
  let ?k = "\<lparr>can_open = (\<lambda>_ _. True), can_exec = (\<lambda>_. True), can_chdir = (\<lambda>_. True), can_fork = (\<lambda>_. True), can_pipe = (\<lambda>_. True)\<rparr>"
  let ?t = "[0 \<mapsto> Console, 1 \<mapsto> Console, 2 \<mapsto> Console] :: fdt" and ?c = "PIPE (EXEC [''ls'']) (REDIR (EXEC [''wc'', ''-l'']) ''out'' 0x201 1)"
  have "well_formed ?c" "skip_ws ''\<newline>'' = []" by (simp_all add: word_def word_char_def whitespace_def symbols_def skip_ws_def)
  moreover have u: "unparse 0 ?c @ ''\<newline>'' = ''ls |wc -l >out \<newline>''" by (simp add: block_def show_redir_def)
  moreover have "willing ?k" "base_fds ?t" by (simp_all add: willing_def base_fds_def)
  ultimately show ?thesis using sh_runs [of ?c "''\<newline>''" ?k ?t "\<lparr>forks = 0, pipes = 7\<rparr>"] by (auto simp: opened_def fun_upd_twist)
qed

end
