(* ===== verification/Prelude.thy ===== *)
theory Prelude
  imports Main "HOL-Library.Word"
begin

text \<open>
  Shared material: the outcome monad in which the kernel's operations are written, its
  weakest-precondition calculus, machine integers, and blocks of bytes with the little-endian
  integers the kernel stores in them.
\<close>

unbundle bit_operations_syntax

named_theorems wp_simps \<open>rewrite rules of the weakest-precondition calculus\<close>
named_theorems kdefs \<open>definitions of the monad's primitives\<close>

section \<open>Outcomes of kernel code\<close>

text \<open>
  A piece of kernel code run in a state either returns a value, calls \<open>panic\<close> (which never
  returns, console.c), or gives the processor up to the scheduler (\<open>sched\<close> in proc.c: the
  process sleeps, yields or has exited); in the last case the state is the one the scheduler
  finds.
\<close>

datatype ('a, 's) outcome =
    Ok 'a 's
  | Panic string
  | Swtch 's

type_synonym ('a, 's) kop = "'s \<Rightarrow> ('a, 's) outcome"

abbreviation ret :: "'a \<Rightarrow> ('a, 's) kop" where
  "ret \<equiv> Ok"

definition panic :: "string \<Rightarrow> ('a, 's) kop" where
  [kdefs]: "panic msg s = Panic msg"

definition gets :: "('s \<Rightarrow> 'a) \<Rightarrow> ('a, 's) kop" where
  [kdefs]: "gets f s = Ok (f s) s"

definition modify :: "('s \<Rightarrow> 's) \<Rightarrow> (unit, 's) kop" where
  [kdefs]: "modify f s = Ok () (f s)"

definition bind :: "('a, 's) kop \<Rightarrow> ('a \<Rightarrow> ('b, 's) kop) \<Rightarrow> ('b, 's) kop" where
  "bind m f s = (case m s of Ok x s' \<Rightarrow> f x s' | Panic msg \<Rightarrow> Panic msg | Swtch s' \<Rightarrow> Swtch s')"

definition seq :: "('a, 's) kop \<Rightarrow> ('b, 's) kop \<Rightarrow> ('b, 's) kop" where
  "seq m n = bind m (\<lambda>_. n)"

abbreviation skip :: "(unit, 's) kop" where
  "skip \<equiv> ret ()"

lemma bind_simps [simp]:
  "m s = Ok x s' \<Longrightarrow> bind m f s = f x s'"
  "m s = Panic msg \<Longrightarrow> bind m f s = Panic msg"
  "m s = Swtch s' \<Longrightarrow> bind m f s = Swtch s'"
  by (simp_all add: bind_def)

lemma seq_simps [simp]:
  "m s = Ok x s' \<Longrightarrow> seq m n s = n s'"
  "m s = Panic msg \<Longrightarrow> seq m n s = Panic msg"
  "m s = Swtch s' \<Longrightarrow> seq m n s = Swtch s'"
  by (simp_all add: seq_def)

lemma bind_gets [simp]: "bind (gets f) g s = g (f s) s"
  by (simp add: kdefs bind_def)

lemma seq_modify [simp]: "seq (modify f) n s = n (f s)"
  by (simp add: kdefs seq_def bind_def)

lemma bind_ret [simp]: "bind (ret x) g s = g x s"
  by (simp add: kdefs bind_def)

lemma seq_ret [simp]: "seq (ret x) n s = n s"
  by (simp add: kdefs seq_def bind_def)

lemma seq_panic [simp]: "seq (panic e) n s = Panic e"
  by (simp add: kdefs seq_def bind_def)

lemma bind_panic [simp]: "bind (panic e) g s = Panic e"
  by (simp add: kdefs bind_def)

lemma panic_app [simp]: "panic e s = Panic e"
  by (simp add: kdefs)

lemma gets_app [simp]: "gets f s = Ok (f s) s"
  by (simp add: kdefs)

lemma modify_app [simp]: "modify f s = Ok () (f s)"
  by (simp add: kdefs)

lemma bind_Ok_iff: "bind m f s = Ok y s'' \<longleftrightarrow> (\<exists>x s'. m s = Ok x s' \<and> f x s' = Ok y s'')"
  by (auto simp: bind_def split: outcome.splits)

lemma seq_Ok_iff: "seq m n s = Ok y s'' \<longleftrightarrow> (\<exists>x s'. m s = Ok x s' \<and> n s' = Ok y s'')"
  by (simp add: seq_def bind_Ok_iff)

lemma bind_assoc: "bind (bind m f) g = bind m (\<lambda>x. bind (f x) g)"
  by (auto simp: bind_def fun_eq_iff split: outcome.splits)

text \<open>Loops over a list of things, in order.\<close>

primrec foreach :: "'a list \<Rightarrow> ('a \<Rightarrow> (unit, 's) kop) \<Rightarrow> (unit, 's) kop" where
  "foreach [] f = skip"
| "foreach (x # xs) f = seq (f x) (foreach xs f)"

lemma foreach_append: "foreach (xs @ ys) f s = bind (foreach xs f) (\<lambda>_. foreach ys f) s"
  by (induction xs arbitrary: s) (simp_all add: seq_def bind_assoc, simp add: bind_def split: outcome.split)

section \<open>Weakest preconditions\<close>

text \<open>
  \<open>wp m Q s\<close>: run from \<open>s\<close>, \<open>m\<close> returns (it neither panics nor gives the processor up) and
  its result and final state satisfy \<open>Q\<close>.
\<close>

definition wp :: "('a, 's) kop \<Rightarrow> ('a \<Rightarrow> 's \<Rightarrow> bool) \<Rightarrow> 's \<Rightarrow> bool" where
  "wp m Q s \<longleftrightarrow> (case m s of Ok x s' \<Rightarrow> Q x s' | _ \<Rightarrow> False)"

lemma wp_Ok: "wp m Q s \<longleftrightarrow> (\<exists>x s'. m s = Ok x s' \<and> Q x s')"
  by (auto simp: wp_def split: outcome.splits)

lemma wp_prims [simp, wp_simps]:
  "wp (ret x) Q s = Q x s"
  "wp (gets f) Q s = Q (f s) s"
  "wp (modify h) R s = R () (h s)"
  "wp (panic e) Q s = False"
  "wp Swtch Q s = False"
  by (simp_all add: wp_def kdefs)

lemma wp_bind [simp, wp_simps]: "wp (bind m f) Q s = wp m (\<lambda>x. wp (f x) Q) s"
  by (auto simp: wp_def bind_def split: outcome.splits)

lemma wp_seq [simp, wp_simps]: "wp (seq m n) Q s = wp m (\<lambda>_. wp n Q) s"
  by (simp add: seq_def)

lemma wp_seq_fun: "wp (seq m n) Q = wp m (\<lambda>_. wp n Q)"
  by (rule ext) simp

lemma wp_bind_fun: "wp (bind m f) Q = wp m (\<lambda>x. wp (f x) Q)"
  by (rule ext) simp

lemma wp_seqI: "wp m (\<lambda>_. wp n Q) s \<Longrightarrow> wp (seq m n) Q s"
  by simp

lemma wp_bindI: "wp m (\<lambda>x. wp (f x) Q) s \<Longrightarrow> wp (bind m f) Q s"
  by simp

lemma wp_ret_fun [simp]: "wp (ret x) Q = Q x"
  by (rule ext) simp

lemma wp_if [simp, wp_simps]: "wp (if b then m else n) Q s = (if b then wp m Q s else wp n Q s)"
  by simp

lemma wp_mono: "wp m Q s \<Longrightarrow> (\<And>x s'. Q x s' \<Longrightarrow> R x s') \<Longrightarrow> wp m R s"
  by (auto simp: wp_def split: outcome.splits)

lemma wp_conj: "wp m Q s \<Longrightarrow> wp m R s \<Longrightarrow> wp m (\<lambda>x s'. Q x s' \<and> R x s') s"
  by (auto simp: wp_def split: outcome.splits)

lemma wp_foreach:
  assumes "I [] s"
    and "\<And>ys x zs s. xs = ys @ x # zs \<Longrightarrow> I ys s \<Longrightarrow> wp (f x) (\<lambda>_. I (ys @ [x])) s"
  shows "wp (foreach xs f) (\<lambda>_. I xs) s"
proof -
  have "wp (foreach zs f) (\<lambda>_. I xs) s" if "xs = ys @ zs" "I ys s" for ys zs s
    using that
  proof (induction zs arbitrary: ys s)
    case Nil
    then show ?case by simp
  next
    case (Cons x zs)
    have "wp (f x) (\<lambda>_. I (ys @ [x])) s"
      using Cons.prems by (intro assms(2)) auto
    then show ?case
      unfolding foreach.simps wp_seq
      by (rule wp_mono) (use Cons in auto)
  qed
  from this [of "[]" xs] show ?thesis using assms(1) by simp
qed

text \<open>The loop \<open>for (i = 0; i < n; i++)\<close>.\<close>

lemma wp_foreach_upt:
  assumes "I 0 s" "\<And>k s. k < n \<Longrightarrow> I k s \<Longrightarrow> wp (f k) (\<lambda>_. I (Suc k)) s"
  shows "wp (foreach [0..<n] f) (\<lambda>_. I n) s"
proof -
  have "wp (foreach [0..<n] f) (\<lambda>_. (\<lambda>xs. I (length xs)) [0..<n]) s"
  proof (rule wp_foreach)
    show "I (length []) s" using assms(1) by simp
    fix ys k zs s
    assume split: "[0..<n] = ys @ k # zs" and I: "I (length ys) s"
    have len: "n = length ys + Suc (length zs)" using arg_cong [OF split, of length] by simp
    have "[0..<n] ! length ys = k" unfolding split by simp
    moreover have "[0..<n] ! length ys = length ys" using len by (simp del: upt_Suc)
    ultimately have "k = length ys" "k < n" using len by simp_all
    then show "wp (f k) (\<lambda>_. I (length (ys @ [k]))) s" using assms(2) [of k s] I by simp
  qed
  then show ?thesis by simp
qed

section \<open>Machine integers and blocks of bytes\<close>

type_synonym u8 = "8 word"
type_synonym u16 = "16 word"
type_synonym u32 = "32 word"

text \<open>The value of an unsigned 32-bit C expression whose exact value is \<open>n\<close>.\<close>

definition u32wrap :: "nat \<Rightarrow> nat" where
  "u32wrap n = n mod 2 ^ 32"

lemma u32wrap_less [simp]: "u32wrap n < 2 ^ 32" "u32wrap n < 4294967296"
  by (simp_all add: u32wrap_def)

lemma u32wrap_small [simp]: "n < 4294967296 \<Longrightarrow> u32wrap n = n"
  by (simp add: u32wrap_def)

text \<open>A block of bytes, addressed by byte offset.\<close>

type_synonym bytes = "nat \<Rightarrow> u8"

definition get16 :: "bytes \<Rightarrow> nat \<Rightarrow> u16" where
  "get16 d i = ucast (d i) OR push_bit 8 (ucast (d (i + 1)))"

definition put16 :: "nat \<Rightarrow> u16 \<Rightarrow> bytes \<Rightarrow> bytes" where
  "put16 i v d = d(i := ucast v, i + 1 := ucast (drop_bit 8 v))"

definition get32 :: "bytes \<Rightarrow> nat \<Rightarrow> u32" where
  "get32 d i = ucast (d i) OR push_bit 8 (ucast (d (i + 1)))
     OR push_bit 16 (ucast (d (i + 2))) OR push_bit 24 (ucast (d (i + 3)))"

definition put32 :: "nat \<Rightarrow> u32 \<Rightarrow> bytes \<Rightarrow> bytes" where
  "put32 i v d = d(i := ucast v, i + 1 := ucast (drop_bit 8 v),
     i + 2 := ucast (drop_bit 16 v), i + 3 := ucast (drop_bit 24 v))"

lemma get16_put16 [simp]: "get16 (put16 i v d) i = v"
  by (rule bit_word_eqI)
    (auto simp: get16_def put16_def bit_simps)

lemma get32_put32 [simp]: "get32 (put32 i v d) i = v"
proof (rule bit_word_eqI)
  fix n
  assume n: "n < LENGTH(32)"
  consider "n < 8" | "8 \<le> n" "n < 16" | "16 \<le> n" "n < 24" | "24 \<le> n" by linarith
  then show "bit (get32 (put32 i v d) i) n = bit v n"
    using n by cases (auto simp: get32_def put32_def bit_simps)
qed

lemma put16_other [simp]: "j < i \<or> i + 2 \<le> j \<Longrightarrow> put16 i v d j = d j"
  by (auto simp: put16_def)

lemma put32_other [simp]: "j < i \<or> i + 4 \<le> j \<Longrightarrow> put32 i v d j = d j"
  by (auto simp: put32_def)

lemma get16_put16_other [simp]: "j + 2 \<le> i \<or> i + 2 \<le> j \<Longrightarrow> get16 (put16 i v d) j = get16 d j"
  by (auto simp: get16_def)

lemma get16_put32_other [simp]: "j + 2 \<le> i \<or> i + 4 \<le> j \<Longrightarrow> get16 (put32 i v d) j = get16 d j"
  by (auto simp: get16_def)

lemma get32_put16_other [simp]: "j + 4 \<le> i \<or> i + 2 \<le> j \<Longrightarrow> get32 (put16 i v d) j = get32 d j"
  by (auto simp: get32_def)

lemma get32_put32_other [simp]: "j + 4 \<le> i \<or> i + 4 \<le> j \<Longrightarrow> get32 (put32 i v d) j = get32 d j"
  by (auto simp: get32_def)

lemma get16_cong: "d i = e i \<Longrightarrow> d (i + 1) = e (i + 1) \<Longrightarrow> get16 d i = get16 e i"
  by (simp add: get16_def)

lemma get32_cong: "(\<And>j. i \<le> j \<Longrightarrow> j < i + 4 \<Longrightarrow> d j = e j) \<Longrightarrow> get32 d i = get32 e i"
  by (simp add: get32_def)

lemma unat_of_nat32 [simp]: "n < 4294967296 \<Longrightarrow> unat (of_nat n :: u32) = n"
  by (simp add: unat_of_nat take_bit_nat_def)

lemma unat32_less [simp]: "unat (w :: u32) < 4294967296"
  using unsigned_less [of w] by simp

lemma sint_small:
  fixes w :: u32
  assumes "unat w < 2 ^ 31"
  shows "sint w = int (unat w)"
proof -
  have "w < 2 ^ 31" using assms by (simp add: word_less_nat_alt)
  then have "uint w < 2 ^ 31" by (simp add: word_less_def)
  moreover have "- (2 ^ 31) \<le> uint w" by (rule order_trans [of _ 0]) simp_all
  ultimately have "signed_take_bit 31 (uint w) = uint w" by (rule signed_take_bit_int_eq_self [rotated])
  then show ?thesis by (simp add: sint_uint)
qed

end
