(* ===== verification/CString.thy ===== *)
theory CString
  imports Prelude
begin

text \<open>
  Strings and memory blocks: the kernel's src/string.c and the user library's src/ulib.c (all but \<open>gets\<close> and \<open>stat\<close>, which are in
  theory Uprog).

  A pointer that is only read is the array it points at (\<open>bytes\<close>, offset 0 being the byte the
  pointer addresses); where source and destination may overlap (\<open>memmove\<close>) or alignment
  matters (\<open>memset\<close>) the functions work on one memory and on addresses. Loops that run to a
  NUL without a bound are \<open>partial_function (option)\<close>: \<open>None\<close> is a run off the end.
\<close>

section \<open>Kernel routines (string.c)\<close>

text \<open>\<open>stosb\<close> and \<open>stosl\<close> of x86.h: store a byte, or a little-endian word, repeatedly.\<close>

primrec stosb :: "bytes \<Rightarrow> nat \<Rightarrow> u8 \<Rightarrow> nat \<Rightarrow> bytes" where
  "stosb m a c 0 = m"
| "stosb m a c (Suc n) = stosb (m(a := c)) (a + 1) c n"

primrec stosl :: "bytes \<Rightarrow> nat \<Rightarrow> u32 \<Rightarrow> nat \<Rightarrow> bytes" where
  "stosl m a v 0 = m"
| "stosl m a v (Suc n) = stosl (put32 a v m) (a + 4) v n"

definition memset :: "bytes \<Rightarrow> nat \<Rightarrow> u32 \<Rightarrow> nat \<Rightarrow> bytes" where
  "memset m dst c n =
     (if dst mod 4 = 0 \<and> n mod 4 = 0 then
        (let c = c AND 0xFF
         in stosl m dst (push_bit 24 c OR push_bit 16 c OR push_bit 8 c OR c) (n div 4))
      else stosb m dst (ucast c) n)"

fun memcmp_loop :: "bytes \<Rightarrow> bytes \<Rightarrow> nat \<Rightarrow> nat \<Rightarrow> int" where
  "memcmp_loop s1 s2 i 0 = 0"
| "memcmp_loop s1 s2 i (Suc n) =
     (if s1 i \<noteq> s2 i then int (unat (s1 i)) - int (unat (s2 i))
      else memcmp_loop s1 s2 (i + 1) n)"

definition memcmp :: "bytes \<Rightarrow> bytes \<Rightarrow> nat \<Rightarrow> int" where
  "memcmp v1 v2 n = memcmp_loop v1 v2 0 n"

text \<open>The two copying loops of \<open>memmove\<close>: forwards, and backwards from the ends.\<close>

primrec copy_up :: "bytes \<Rightarrow> nat \<Rightarrow> nat \<Rightarrow> nat \<Rightarrow> bytes" where
  "copy_up m d s 0 = m"
| "copy_up m d s (Suc n) = copy_up (m(d := m s)) (d + 1) (s + 1) n"

primrec copy_down :: "bytes \<Rightarrow> nat \<Rightarrow> nat \<Rightarrow> nat \<Rightarrow> bytes" where
  "copy_down m d s 0 = m"
| "copy_down m d s (Suc n) = copy_down (m(d - 1 := m (s - 1))) (d - 1) (s - 1) n"

definition memmove :: "bytes \<Rightarrow> nat \<Rightarrow> nat \<Rightarrow> nat \<Rightarrow> bytes" where
  "memmove m dst src n =
     (if src < dst \<and> src + n > dst then copy_down m (dst + n) (src + n) n
      else copy_up m dst src n)"

definition memcpy :: "bytes \<Rightarrow> nat \<Rightarrow> nat \<Rightarrow> nat \<Rightarrow> bytes" where
  "memcpy m dst src n = memmove m dst src n"

fun strncmp_loop :: "bytes \<Rightarrow> bytes \<Rightarrow> nat \<Rightarrow> nat \<Rightarrow> int" where
  "strncmp_loop p q i n =
     (if n > 0 \<and> p i \<noteq> 0 \<and> p i = q i then strncmp_loop p q (i + 1) (n - 1)
      else if n = 0 then 0
      else int (unat (p i)) - int (unat (q i)))"

declare strncmp_loop.simps [simp del]

definition strncmp :: "bytes \<Rightarrow> bytes \<Rightarrow> nat \<Rightarrow> int" where
  "strncmp p q n = strncmp_loop p q 0 n"

text \<open>
  \<open>strncpy\<close>: the first loop copies up to and including a NUL, the second pads with NULs. The
  test \<open>n-- > 0 && (*s++ = *t++) != 0\<close> uses up one unit of \<open>n\<close> for the NUL it copies.
\<close>

primrec strncpy_pad :: "bytes \<Rightarrow> nat \<Rightarrow> nat \<Rightarrow> bytes" where
  "strncpy_pad s i 0 = s"
| "strncpy_pad s i (Suc n) = strncpy_pad (s(i := 0)) (i + 1) n"

primrec strncpy_loop :: "bytes \<Rightarrow> bytes \<Rightarrow> nat \<Rightarrow> nat \<Rightarrow> bytes" where
  "strncpy_loop s t i 0 = s"
| "strncpy_loop s t i (Suc n) =
     (if t i \<noteq> 0 then strncpy_loop (s(i := t i)) t (i + 1) n
      else strncpy_pad (s(i := t i)) (i + 1) n)"

definition strncpy :: "bytes \<Rightarrow> bytes \<Rightarrow> nat \<Rightarrow> bytes" where
  "strncpy s t n = strncpy_loop s t 0 n"

text \<open>\<open>safestrcpy\<close>: \<open>n\<close> is a signed int and a size of zero or less changes nothing.\<close>

primrec safestrcpy_loop :: "bytes \<Rightarrow> bytes \<Rightarrow> nat \<Rightarrow> nat \<Rightarrow> bytes" where
  "safestrcpy_loop s t i 0 = s(i := 0)"
| "safestrcpy_loop s t i (Suc n) =
     (if t i \<noteq> 0 then safestrcpy_loop (s(i := t i)) t (i + 1) n
      else (s(i := t i))(i + 1 := 0))"

definition safestrcpy :: "bytes \<Rightarrow> bytes \<Rightarrow> int \<Rightarrow> bytes" where
  "safestrcpy s t n = (if n \<le> 0 then s else safestrcpy_loop s t 0 (nat n - 1))"

partial_function (option) strlen_loop :: "bytes \<Rightarrow> nat \<Rightarrow> nat option" where
  "strlen_loop s n = (if s n = 0 then Some n else strlen_loop s (n + 1))"

definition strlen :: "bytes \<Rightarrow> nat option" where
  "strlen s = strlen_loop s 0"

section \<open>User library (ulib.c)\<close>

partial_function (option) strcpy_loop :: "bytes \<Rightarrow> bytes \<Rightarrow> nat \<Rightarrow> bytes option" where
  "strcpy_loop s t i =
     (if t i = 0 then Some (s(i := 0)) else strcpy_loop (s(i := t i)) t (i + 1))"

definition strcpy :: "bytes \<Rightarrow> bytes \<Rightarrow> bytes option" where
  "strcpy s t = strcpy_loop s t 0"

partial_function (option) strcmp_loop :: "bytes \<Rightarrow> bytes \<Rightarrow> nat \<Rightarrow> int option" where
  "strcmp_loop p q i =
     (if p i \<noteq> 0 \<and> p i = q i then strcmp_loop p q (i + 1)
      else Some (int (unat (p i)) - int (unat (q i))))"

definition strcmp :: "bytes \<Rightarrow> bytes \<Rightarrow> int option" where
  "strcmp p q = strcmp_loop p q 0"

text \<open>\<open>strchr\<close> returns the offset of the match, or \<open>Some None\<close> for the null pointer.\<close>

partial_function (option) strchr_loop :: "bytes \<Rightarrow> u8 \<Rightarrow> nat \<Rightarrow> nat option option" where
  "strchr_loop s c i =
     (if s i = 0 then Some None
      else if s i = c then Some (Some i)
      else strchr_loop s c (i + 1))"

definition strchr :: "bytes \<Rightarrow> u8 \<Rightarrow> nat option option" where
  "strchr s c = strchr_loop s c 0"

text \<open>\<open>atoi\<close>: 32-bit arithmetic, stopping at the first byte that is not a digit.\<close>

partial_function (option) atoi_loop :: "bytes \<Rightarrow> nat \<Rightarrow> u32 \<Rightarrow> u32 option" where
  "atoi_loop s i n =
     (if 48 \<le> s i \<and> s i \<le> 57 then atoi_loop s (i + 1) (n * 10 + ucast (s i) - 48) else Some n)"

definition atoi :: "bytes \<Rightarrow> u32 option" where
  "atoi s = atoi_loop s 0 0"

text \<open>The user library's \<open>memset\<close> and \<open>memmove\<close>.\<close>

definition u_memset :: "bytes \<Rightarrow> nat \<Rightarrow> u32 \<Rightarrow> nat \<Rightarrow> bytes" where
  "u_memset m dst c n = stosb m dst (ucast c) n"

definition u_memmove :: "bytes \<Rightarrow> nat \<Rightarrow> nat \<Rightarrow> int \<Rightarrow> bytes" where
  "u_memmove m dst src n = copy_up m dst src (nat n)"

section \<open>Memory blocks\<close>

lemma uint_byte_eq [simp]: "uint (a :: u8) = uint b \<longleftrightarrow> a = b" "uint a = 0 \<longleftrightarrow> a = 0"
  by (simp_all add: word_uint_eq_iff)

lemma stosb_nth: "stosb m a c n = (\<lambda>x. if a \<le> x \<and> x < a + n then c else m x)"
  by (induction n arbitrary: m a) (auto simp: fun_eq_iff)

lemma rep32_byte:
  fixes c :: u32
  defines "v \<equiv> push_bit 24 (c AND 0xFF) OR push_bit 16 (c AND 0xFF) OR push_bit 8 (c AND 0xFF) OR (c AND 0xFF)"
  shows "ucast v = (ucast c :: u8)" "ucast (drop_bit 8 v) = (ucast c :: u8)"
    "ucast (drop_bit 16 v) = (ucast c :: u8)" "ucast (drop_bit 24 v) = (ucast c :: u8)"
proof -
  have 255: "(0xFF :: u32) = mask 8" by (simp add: mask_eq_exp_minus_1)
  show "ucast v = (ucast c :: u8)" "ucast (drop_bit 8 v) = (ucast c :: u8)"
    "ucast (drop_bit 16 v) = (ucast c :: u8)" "ucast (drop_bit 24 v) = (ucast c :: u8)"
    unfolding v_def 255 by (rule bit_word_eqI, auto simp: bit_simps)+
qed

lemma stosl_nth:
  assumes "\<And>j. j < 4 \<Longrightarrow> (ucast (drop_bit (8 * j) v) :: u8) = c"
  shows "stosl m a v n = (\<lambda>x. if a \<le> x \<and> x < a + 4 * n then c else m x)"
proof (induction n arbitrary: m a)
  case 0
  then show ?case by (auto simp: fun_eq_iff)
next
  case (Suc n)
  have "(ucast v :: u8) = c" "(ucast (drop_bit 8 v) :: u8) = c"
    "(ucast (drop_bit 16 v) :: u8) = c" "(ucast (drop_bit 24 v) :: u8) = c"
    using assms [of 0] assms [of 1] assms [of 2] assms [of 3] by simp_all
  then have "put32 a v m = (\<lambda>x. if a \<le> x \<and> x < a + 4 then c else m x)"
    by (auto simp: put32_def fun_eq_iff)
  then show ?case by (auto simp: Suc fun_eq_iff)
qed

lemma memset_nth:
  "memset m dst c n = (\<lambda>x. if dst \<le> x \<and> x < dst + n then ucast c else m x)"
proof (cases "dst mod 4 = 0 \<and> n mod 4 = 0")
  case True
  have "stosl m dst (push_bit 24 (c AND 0xFF) OR push_bit 16 (c AND 0xFF) OR push_bit 8 (c AND 0xFF)
      OR (c AND 0xFF)) (n div 4) = (\<lambda>x. if dst \<le> x \<and> x < dst + 4 * (n div 4) then ucast c else m x)"
  proof (rule stosl_nth)
    fix j :: nat
    assume "j < 4"
    then have "j = 0 \<or> j = 1 \<or> j = 2 \<or> j = 3" by linarith
    then show "(ucast (drop_bit (8 * j) (push_bit 24 (c AND 0xFF) OR push_bit 16 (c AND 0xFF)
        OR push_bit 8 (c AND 0xFF) OR (c AND 0xFF))) :: u8) = ucast c"
      using rep32_byte [of c] by auto
  qed
  moreover have "4 * (n div 4) = n" using True by auto
  ultimately show ?thesis using True by (simp add: memset_def Let_def)
next
  case False
  then show ?thesis by (auto simp: memset_def stosb_nth)
qed

text \<open>What a block copy must do: every byte moves at once, from the old memory.\<close>

definition blockcopy :: "bytes \<Rightarrow> nat \<Rightarrow> nat \<Rightarrow> nat \<Rightarrow> bytes" where
  "blockcopy m dst src n = (\<lambda>x. if dst \<le> x \<and> x < dst + n then m (src + (x - dst)) else m x)"

lemma copy_up_blockcopy: "dst \<le> src \<or> src + n \<le> dst \<Longrightarrow> copy_up m dst src n = blockcopy m dst src n"
proof (induction n arbitrary: m dst src)
  case 0
  then show ?case by (auto simp: blockcopy_def fun_eq_iff)
next
  case (Suc n)
  have "copy_up (m(dst := m src)) (dst + 1) (src + 1) n
      = blockcopy (m(dst := m src)) (dst + 1) (src + 1) n"
    using Suc.prems by (intro Suc.IH) auto
  also have "\<dots> = blockcopy m dst src (Suc n)"
  proof
    fix x
    show "blockcopy (m(dst := m src)) (dst + 1) (src + 1) n x = blockcopy m dst src (Suc n) x"
    proof (cases "x \<le> dst")
      case True
      then show ?thesis by (auto simp: blockcopy_def)
    next
      case False
      then have "Suc (src + (x - Suc dst)) = src + (x - dst)" by linarith
      with False Suc.prems show ?thesis by (auto simp: blockcopy_def)
    qed
  qed
  finally show ?case by simp
qed

lemma copy_down_blockcopy: "src \<le> dst \<Longrightarrow> copy_down m (dst + n) (src + n) n = blockcopy m dst src n"
proof (induction n arbitrary: m)
  case 0
  then show ?case by (auto simp: blockcopy_def fun_eq_iff)
next
  case (Suc n)
  then show ?case by (auto simp: blockcopy_def fun_eq_iff)
qed

lemma memmove_blockcopy: "memmove m dst src n = blockcopy m dst src n"
  by (simp add: memmove_def copy_up_blockcopy copy_down_blockcopy not_less)

section \<open>Strings in fixed-size arrays\<close>

text \<open>The string held in the first \<open>n\<close> bytes of an array: up to a NUL, or all \<open>n\<close> bytes.\<close>

definition cut :: "nat \<Rightarrow> bytes \<Rightarrow> u8 list" where
  "cut n s = takeWhile (\<lambda>c. c \<noteq> 0) (map s [0..<n])"

definition cut_from :: "nat \<Rightarrow> nat \<Rightarrow> bytes \<Rightarrow> u8 list" where
  "cut_from i n s = takeWhile (\<lambda>c. c \<noteq> 0) (map s [i..<i + n])"

lemma cut_cut_from: "cut n s = cut_from 0 n s"
  by (simp add: cut_def cut_from_def)

lemma cut_from_0 [simp]: "cut_from i 0 s = []"
  by (simp add: cut_from_def)

lemma cut_from_Suc: "cut_from i (Suc n) s = (if s i = 0 then [] else s i # cut_from (Suc i) n s)"
  by (simp add: cut_from_def upt_conv_Cons del: upt_Suc)

lemma strncmp_loop_0: "strncmp_loop p q i n = 0 \<longleftrightarrow> cut_from i n p = cut_from i n q"
proof (induction p q i n rule: strncmp_loop.induct)
  case (1 p q i n)
  show ?case
  proof (cases n)
    case 0
    then show ?thesis by (simp add: strncmp_loop.simps)
  next
    case (Suc k)
    then show ?thesis
      using 1 by (subst strncmp_loop.simps) (auto simp: cut_from_Suc)
  qed
qed

lemma strncmp_0_iff: "strncmp p q n = 0 \<longleftrightarrow> cut n p = cut n q"
  by (simp add: strncmp_def strncmp_loop_0 cut_cut_from)

lemma strncpy_pad_nth: "strncpy_pad s i n = (\<lambda>x. if i \<le> x \<and> x < i + n then 0 else s x)"
  by (induction n arbitrary: s i) (auto simp: fun_eq_iff)

lemma strncpy_loop_other: "x < i \<or> i + n \<le> x \<Longrightarrow> strncpy_loop s t i n x = s x"
  by (induction n arbitrary: s i) (auto simp: strncpy_pad_nth)

lemma strncpy_loop_cut: "cut_from i n (strncpy_loop s t i n) = cut_from i n t"
proof (induction n arbitrary: s i)
  case 0
  then show ?case by simp
next
  case (Suc n)
  have "strncpy_loop (s(i := t i)) t (Suc i) n i = t i"
    by (simp add: strncpy_loop_other)
  then show ?case
    using Suc [of "Suc i"] by (auto simp: cut_from_Suc strncpy_pad_nth)
qed

lemma strncpy_cut: "cut n (strncpy s t n) = cut n t"
  by (simp add: strncpy_def cut_cut_from strncpy_loop_cut)

lemma strncpy_other: "n \<le> x \<Longrightarrow> strncpy s t n x = s x"
  by (simp add: strncpy_def strncpy_loop_other)

lemma safestrcpy_loop_spec:
  "cut_from i (Suc n) (safestrcpy_loop s t i n) = cut_from i n t
   \<and> (\<forall>x. x < i \<or> i + n < x \<longrightarrow> safestrcpy_loop s t i n x = s x)
   \<and> (\<exists>k \<le> n. safestrcpy_loop s t i n (i + k) = 0)"
proof (induction n arbitrary: s i)
  case 0
  then show ?case by (simp add: cut_from_Suc)
next
  case (Suc n)
  show ?case
  proof (cases "t i = 0")
    case True
    then show ?thesis by (auto simp: cut_from_Suc intro!: exI [of _ 0])
  next
    case False
    define g where "g = safestrcpy_loop (s(i := t i)) t (Suc i) n"
    have g: "safestrcpy_loop s t i (Suc n) = g"
      using False by (simp add: g_def)
    have IH: "cut_from (Suc i) (Suc n) g = cut_from (Suc i) n t"
      "\<And>x. x < Suc i \<or> Suc i + n < x \<Longrightarrow> g x = (s(i := t i)) x" "\<exists>k \<le> n. g (Suc i + k) = 0"
      using Suc [of "Suc i" "s(i := t i)"] by (auto simp only: g_def)
    from IH(3) obtain k where "k \<le> n" "g (Suc i + k) = 0" by blast
    then have "\<exists>k \<le> Suc n. g (i + k) = 0"
      by (intro exI [of _ "Suc k"]) simp
    moreover have "cut_from i (Suc (Suc n)) g = cut_from i (Suc n) t"
      using IH(1) IH(2) [of i] False by (simp add: cut_from_Suc [of i])
    moreover have "\<forall>x. x < i \<or> i + Suc n < x \<longrightarrow> g x = s x"
      using IH(2) by simp
    ultimately show ?thesis unfolding g by blast
  qed
qed

lemma safestrcpy_spec:
  assumes "0 < n"
  shows "cut (nat n) (safestrcpy s t n) = cut (nat n - 1) t"
    and "x \<ge> nat n \<Longrightarrow> safestrcpy s t n x = s x"
    and "\<exists>k < nat n. safestrcpy s t n k = 0"
proof -
  obtain m where m: "nat n = Suc m" using assms by (cases "nat n") auto
  with assms have eq: "safestrcpy s t n = safestrcpy_loop s t 0 m"
    by (simp add: safestrcpy_def)
  note * = safestrcpy_loop_spec [of 0 m s t]
  show "cut (nat n) (safestrcpy s t n) = cut (nat n - 1) t"
    using * by (simp add: eq m cut_cut_from)
  show "x \<ge> nat n \<Longrightarrow> safestrcpy s t n x = s x"
    using * by (simp add: eq m)
  show "\<exists>k < nat n. safestrcpy s t n k = 0"
    using * by (auto simp: eq m less_Suc_eq_le)
qed

section \<open>NUL-terminated strings\<close>

text \<open>The array \<open>s\<close> holds the C string \<open>xs\<close> from offset \<open>i\<close>.\<close>

primrec cstring_at :: "bytes \<Rightarrow> nat \<Rightarrow> u8 list \<Rightarrow> bool" where
  "cstring_at s i [] \<longleftrightarrow> s i = 0"
| "cstring_at s i (x # xs) \<longleftrightarrow> x \<noteq> 0 \<and> s i = x \<and> cstring_at s (Suc i) xs"

text \<open>The array that holds exactly a given string and NULs after it.\<close>

definition of_string :: "u8 list \<Rightarrow> bytes" where
  "of_string xs i = (if i < length xs then xs ! i else 0)"

lemma cstring_at_of_string_from:
  "0 \<notin> set xs \<Longrightarrow> cstring_at (of_string (ys @ xs)) (length ys) xs"
proof (induction xs arbitrary: ys)
  case Nil
  then show ?case by (simp add: of_string_def)
next
  case (Cons x xs)
  have "cstring_at (of_string ((ys @ [x]) @ xs)) (length (ys @ [x])) xs"
    using Cons.prems by (intro Cons.IH) simp
  moreover have "of_string (ys @ x # xs) (length ys) = x"
    by (simp add: of_string_def)
  ultimately show ?case using Cons.prems by auto
qed

lemma cstring_at_of_string: "0 \<notin> set xs \<Longrightarrow> cstring_at (of_string xs) 0 xs"
  using cstring_at_of_string_from [of xs "[]"] by simp

lemma strlen_loop_cstring: "cstring_at s i xs \<Longrightarrow> strlen_loop s i = Some (i + length xs)"
  by (induction xs arbitrary: i) (subst strlen_loop.simps, simp)+

lemma strlen_cstring: "cstring_at s 0 xs \<Longrightarrow> strlen s = Some (length xs)"
  by (simp add: strlen_def strlen_loop_cstring)

lemma strcpy_loop_cstring:
  "cstring_at t i xs \<Longrightarrow> \<exists>r. strcpy_loop s t i = Some r \<and> cstring_at r i xs
     \<and> (\<forall>x. x < i \<or> i + length xs < x \<longrightarrow> r x = s x)"
proof (induction xs arbitrary: i s)
  case Nil
  then show ?case by (simp add: strcpy_loop.simps)
next
  case (Cons a xs)
  then have "cstring_at t (Suc i) xs" by simp
  from Cons.IH [OF this, of "s(i := t i)"]
  obtain r where r: "strcpy_loop (s(i := t i)) t (Suc i) = Some r" "cstring_at r (Suc i) xs"
      "\<forall>x. x < Suc i \<or> Suc i + length xs < x \<longrightarrow> r x = (s(i := t i)) x"
    by blast
  then show ?case using Cons.prems by (subst strcpy_loop.simps) auto
qed

lemma strcmp_loop_cstring:
  "cstring_at p i xs \<Longrightarrow> cstring_at q i ys \<Longrightarrow>
     \<exists>r. strcmp_loop p q i = Some r \<and> (r = 0 \<longleftrightarrow> xs = ys)"
proof (induction xs arbitrary: i ys)
  case Nil
  then show ?case by (cases ys) (auto simp: strcmp_loop.simps)
next
  case (Cons x xs)
  show ?case
  proof (cases ys)
    case Nil
    with Cons.prems show ?thesis by (auto simp: strcmp_loop.simps)
  next
    case (Cons y zs)
    show ?thesis
    proof (cases "x = y")
      case True
      with Cons Cons.prems Cons.IH [of "Suc i" zs] show ?thesis
        by (subst strcmp_loop.simps) auto
    next
      case False
      with Cons Cons.prems show ?thesis by (subst strcmp_loop.simps) auto
    qed
  qed
qed

lemma strchr_loop_cstring:
  "cstring_at s i xs \<Longrightarrow> strchr_loop s c i =
     Some (if c \<in> set xs then Some (i + length (takeWhile (\<lambda>x. x \<noteq> c) xs)) else None)"
proof (induction xs arbitrary: i)
  case Nil
  then show ?case by (simp add: strchr_loop.simps)
next
  case (Cons x xs)
  then show ?case by (subst strchr_loop.simps) auto
qed

lemma strchr_cstring:
  "cstring_at s 0 xs \<Longrightarrow> strchr s c =
     Some (if c \<in> set xs then Some (length (takeWhile (\<lambda>x. x \<noteq> c) xs)) else None)"
  by (simp add: strchr_def strchr_loop_cstring)

text \<open>The number a list of ASCII digits denotes.\<close>

definition is_digit :: "u8 \<Rightarrow> bool" where
  "is_digit c \<longleftrightarrow> 48 \<le> c \<and> c \<le> 57"

definition decimal :: "nat \<Rightarrow> u8 list \<Rightarrow> nat" where
  "decimal acc ds = foldl (\<lambda>n c. n * 10 + (unat c - 48)) acc ds"

lemma decimal_simps [simp]:
  "decimal acc [] = acc"
  "decimal acc (c # ds) = decimal (acc * 10 + (unat c - 48)) ds"
  "decimal acc (ds @ [c]) = decimal acc ds * 10 + (unat c - 48)"
  by (simp_all add: decimal_def)

lemma digit_step:
  "is_digit c \<Longrightarrow> (of_nat n :: u32) * 10 + ucast c - 48 = of_nat (n * 10 + (unat c - 48))"
proof -
  assume "is_digit c"
  then have "48 \<le> unat c" by (simp add: is_digit_def word_le_nat_alt)
  then have "(of_nat (unat c - 48) :: u32) = of_nat (unat c) - of_nat 48"
    by (rule of_nat_diff)
  also have "(of_nat (unat c) :: u32) = ucast c"
    by (rule of_nat_unat)
  finally show ?thesis
    unfolding of_nat_add of_nat_mult by (simp add: add_diff_eq)
qed

lemma atoi_loop_digits:
  assumes "cstring_at s i (ds @ rest)" "\<forall>c \<in> set ds. is_digit c" "rest = [] \<or> \<not> is_digit (hd rest)"
  shows "atoi_loop s i (of_nat n) = Some (of_nat (decimal n ds))"
  using assms
proof (induction ds arbitrary: i n)
  case Nil
  then have "\<not> is_digit (s i)" by (cases rest) (auto simp: is_digit_def)
  then show ?case by (subst atoi_loop.simps) (auto simp: is_digit_def)
next
  case (Cons c ds)
  then have "is_digit (s i)" by simp
  then have "atoi_loop s i (of_nat n) = atoi_loop s (Suc i) (of_nat n * 10 + ucast (s i) - 48)"
    by (subst atoi_loop.simps) (simp add: is_digit_def)
  also have "of_nat n * 10 + ucast (s i) - (48 :: u32) = of_nat (n * 10 + (unat (s i) - 48))"
    by (rule digit_step) fact
  also have "atoi_loop s (Suc i) (of_nat (n * 10 + (unat (s i) - 48)))
      = Some (of_nat (decimal (n * 10 + (unat (s i) - 48)) ds))"
    using Cons.prems by (intro Cons.IH) auto
  finally show ?case using Cons.prems by simp
qed

lemma atoi_digits:
  "\<lbrakk>cstring_at s 0 (ds @ rest); \<forall>c \<in> set ds. is_digit c; rest = [] \<or> \<not> is_digit (hd rest)\<rbrakk>
   \<Longrightarrow> atoi s = Some (of_nat (decimal 0 ds))"
  using atoi_loop_digits [of s 0 ds rest 0] by (simp add: atoi_def)

end
