(* ===== verification/Printf.thy ===== *)
theory Printf
  imports CString
begin

text \<open>
  Formatted output for user programs: src/printf.c (\<open>s_printf\<close>, \<open>snprintf\<close>, \<open>printf\<close>).

  The two put functions write to a file descriptor or store into a buffer; a sink holds both
  effects. A pointer into the output buffer is its offset from the start of the buffer. All
  lengths and indices are the 32-bit unsigned values of the code, so the conversion of a negative
  \<open>n - 1\<close> is the large value the code compares with. The variable arguments are the words
  after the format on the stack (reading past the last one is \<open>None\<close>); \<open>strs\<close> gives the NUL-terminated string at an address.
\<close>

section \<open>The code\<close>

record sink =
  obuf :: bytes                \<comment> \<open>the memory at outbuffer\<close>
  owrites :: "(int \<times> u8) list"  \<comment> \<open>bytes handed to write, with the descriptor\<close>

datatype putFunction = S_putc | S_sputc

definition s_putc :: "int \<Rightarrow> u8 \<Rightarrow> sink \<Rightarrow> sink" where
  "s_putc fd c k = k\<lparr>owrites := owrites k @ [(fd, c)]\<rparr>"

definition s_sputc :: "nat \<Rightarrow> u32 \<Rightarrow> u32 \<Rightarrow> u8 \<Rightarrow> sink \<Rightarrow> sink" where
  "s_sputc base len index c k =
     (if index < len then k\<lparr>obuf := (obuf k)(base + unat index := c)\<rparr> else k)"

definition putcFunction :: "putFunction \<Rightarrow> int \<Rightarrow> nat \<Rightarrow> u32 \<Rightarrow> u32 \<Rightarrow> u8 \<Rightarrow> sink \<Rightarrow> sink" where
  "putcFunction f fd base len index c k =
     (case f of S_putc \<Rightarrow> s_putc fd c k | S_sputc \<Rightarrow> s_sputc base len index c k)"

text \<open>The table \<open>digits\<close>: "0123456789ABCDEF".\<close>

definition digits :: "u8 list" where
  "digits = [48,49,50,51,52,53,54,55,56,57,65,66,67,68,69,70]"

function reverse_loop :: "u8 list \<Rightarrow> u32 \<Rightarrow> u32 \<Rightarrow> u32 \<Rightarrow> u8 list" where
  "reverse_loop out len x base =
     (if length out + 1 < unat len \<and> x \<noteq> 0
      then reverse_loop (out @ [digits ! unat (x mod base)]) len (x div base) base
      else out)"
  by pat_completeness auto
termination
  by (relation "measure (\<lambda>(out, len, x, base). unat len - length out)") auto

declare reverse_loop.simps [simp del]

definition s_getReverseDigits :: "u32 \<Rightarrow> u32 \<Rightarrow> u32 \<Rightarrow> bool \<Rightarrow> u8 list" where
  "s_getReverseDigits len xx base sg =
     (let neg = (sg \<and> sint xx < 0);
          x = (if neg then - xx else xx);
          out = reverse_loop [] len x base;
          out = (if 0 = xx \<and> length out + 1 < unat len then out @ [digits ! 0] else out)
      in if neg \<and> length out < unat len then out @ [45] else out)"

primrec printint_loop :: "putFunction \<Rightarrow> int \<Rightarrow> nat \<Rightarrow> u32 \<Rightarrow> u32 \<Rightarrow> u8 list \<Rightarrow> sink \<Rightarrow> sink" where
  "printint_loop f fd base len j [] k = k"
| "printint_loop f fd base len j (c # cs) k =
     (if j < len then printint_loop f fd base len (j + 1) cs (putcFunction f fd base len j c k) else k)"

definition s_printint ::
  "putFunction \<Rightarrow> int \<Rightarrow> nat \<Rightarrow> u32 \<Rightarrow> u32 \<Rightarrow> u32 \<Rightarrow> bool \<Rightarrow> sink \<Rightarrow> u32 \<times> sink" where
  "s_printint f fd outbuf len xx base sg k =
     (let localBuffer = s_getReverseDigits 16 xx base sg
      in (of_nat (length localBuffer), printint_loop f fd outbuf len 0 (rev localBuffer) k))"

definition s_min :: "u32 \<Rightarrow> u32 \<Rightarrow> u32" where
  "s_min a b = (if a < b then a else b)"

text \<open>The loop that copies the string argument of \<open>%s\<close>.\<close>

primrec puts_loop :: "putFunction \<Rightarrow> int \<Rightarrow> u32 \<Rightarrow> u32 \<Rightarrow> u8 list \<Rightarrow> sink \<Rightarrow> u32 \<times> sink" where
  "puts_loop f fd len outindex [] k = (outindex, k)"
| "puts_loop f fd len outindex (c # cs) k =
     puts_loop f fd len (outindex + 1) cs (putcFunction f fd 0 len outindex c k)"

text \<open>The string \<open>(null)\<close> printed for a null pointer.\<close>

definition null_str :: "u8 list" where
  "null_str = [40, 110, 117, 108, 108, 41]"

definition arg_str :: "(u32 \<Rightarrow> u8 list) \<Rightarrow> u32 \<Rightarrow> u8 list" where
  "arg_str strs p = (if p = 0 then null_str else strs p)"

fun s_printf_loop ::
  "putFunction \<Rightarrow> int \<Rightarrow> u32 \<Rightarrow> (u32 \<Rightarrow> u8 list) \<Rightarrow> u8 list \<Rightarrow> bool \<Rightarrow> u32 \<Rightarrow> u32 list \<Rightarrow> sink
     \<Rightarrow> (u32 \<times> sink) option" where
  "s_printf_loop f fd len strs [] st outindex ap k = Some (outindex, k)"
| "s_printf_loop f fd len strs (c # fmt) st outindex ap k =
     (if \<not> outindex < len then Some (outindex, k)
      else if \<not> st then
        (if c = 37 then s_printf_loop f fd len strs fmt True outindex ap k
         else s_printf_loop f fd len strs fmt False (outindex + 1) ap
                (putcFunction f fd 0 len outindex c k))
      else if c = 100 then
        (case ap of [] \<Rightarrow> None | a # ap' \<Rightarrow>
           (let (r, k') = s_printint f fd (unat outindex) (len - outindex) a 10 True k
            in s_printf_loop f fd len strs fmt False (outindex + r) ap' k'))
      else if c = 120 \<or> c = 112 then
        (case ap of [] \<Rightarrow> None | a # ap' \<Rightarrow>
           (let (r, k') = s_printint f fd (unat outindex) (len - outindex) a 16 False k
            in s_printf_loop f fd len strs fmt False (outindex + r) ap' k'))
      else if c = 115 then
        (case ap of [] \<Rightarrow> None | a # ap' \<Rightarrow>
           (let (o', k') = puts_loop f fd len outindex (arg_str strs a) k
            in s_printf_loop f fd len strs fmt False o' ap' k'))
      else if c = 99 then
        (case ap of [] \<Rightarrow> None | a # ap' \<Rightarrow>
           s_printf_loop f fd len strs fmt False (outindex + 1) ap'
             (putcFunction f fd 0 len outindex (ucast a) k))
      else if c = 37 then
        s_printf_loop f fd len strs fmt False (outindex + 1) ap (putcFunction f fd 0 len outindex c k)
      else
        s_printf_loop f fd len strs fmt False (outindex + 1 + 1) ap
          (putcFunction f fd 0 len (outindex + 1) c (putcFunction f fd 0 len outindex 37 k)))"

definition s_printf ::
  "putFunction \<Rightarrow> int \<Rightarrow> u32 \<Rightarrow> (u32 \<Rightarrow> u8 list) \<Rightarrow> u8 list \<Rightarrow> u32 list \<Rightarrow> sink \<Rightarrow> (u32 \<times> sink) option" where
  "s_printf f fd n strs fmt ap k =
     (let len = n - 1
      in map_option (\<lambda>(outindex, k'). (s_min len outindex, k'))
           (s_printf_loop f fd len strs fmt False 0 ap k))"

definition snprintf :: "u32 \<Rightarrow> (u32 \<Rightarrow> u8 list) \<Rightarrow> u8 list \<Rightarrow> u32 list \<Rightarrow> bytes \<Rightarrow> (u32 \<times> bytes) option" where
  "snprintf n strs fmt ap outbuffer =
     (case s_printf S_sputc (- 1) n strs fmt ap \<lparr>obuf = outbuffer, owrites = []\<rparr> of
        None \<Rightarrow> None
      | Some (count, k) \<Rightarrow>
          Some (count, if count < n then (obuf k)(unat count := 0) else obuf k))"

definition printf :: "int \<Rightarrow> (u32 \<Rightarrow> u8 list) \<Rightarrow> u8 list \<Rightarrow> u32 list \<Rightarrow> (int \<times> u8) list option" where
  "printf fd strs fmt ap =
     map_option (\<lambda>(_, k). owrites k)
       (s_printf S_putc fd (push_bit 30 1) strs fmt ap \<lparr>obuf = (\<lambda>_. 0), owrites = []\<rparr>)"

section \<open>Numbers in a radix\<close>

definition digit :: "nat \<Rightarrow> u8" where
  "digit d = digits ! d"

text \<open>The usual rendering of a number, most significant digit first.\<close>

fun radix :: "nat \<Rightarrow> nat \<Rightarrow> u8 list" where
  "radix b n = (if n < b \<or> b < 2 then [digit n] else radix b (n div b) @ [digit (n mod b)])"

declare radix.simps [simp del]

definition render :: "u32 \<Rightarrow> nat \<Rightarrow> bool \<Rightarrow> u8 list" where
  "render xx b sg =
     (if sg \<and> sint xx < 0 then 45 # radix b (nat (- sint xx)) else radix b (unat xx))"

fun rev_radix :: "nat \<Rightarrow> nat \<Rightarrow> u8 list" where
  "rev_radix b n = (if n = 0 \<or> b < 2 then [] else digit (n mod b) # rev_radix b (n div b))"

declare rev_radix.simps [simp del]

lemma rev_rev_radix: "2 \<le> b \<Longrightarrow> 0 < n \<Longrightarrow> rev (rev_radix b n) = radix b n"
proof (induction b n rule: radix.induct)
  case (1 b n)
  show ?case
  proof (cases "n < b")
    case True
    with 1 show ?thesis
      by (simp add: radix.simps [of b n] rev_radix.simps [of b n] rev_radix.simps [of b 0])
  next
    case False
    with 1 have "0 < n div b" by (simp add: div_greater_zero_iff)
    with False 1 show ?thesis
      by (simp add: radix.simps [of b n] rev_radix.simps [of b n])
  qed
qed

lemma length_rev_radix: "n < b ^ k \<Longrightarrow> length (rev_radix b n) \<le> k"
proof (induction k arbitrary: n)
  case 0
  then show ?case by (simp add: rev_radix.simps)
next
  case (Suc k)
  show ?case
  proof (cases "n = 0 \<or> b < 2")
    case True
    then show ?thesis by (simp add: rev_radix.simps)
  next
    case False
    with Suc.prems have "n div b < b ^ k"
      by (simp add: less_mult_imp_div_less mult.commute)
    with Suc.IH False show ?thesis by (simp add: rev_radix.simps [of b n])
  qed
qed

lemma reverse_loop_rev_radix:
  assumes "2 \<le> unat base" "unat x < unat base ^ k" "length out + k + 1 < unat len"
  shows "reverse_loop out len x base = out @ rev_radix (unat base) (unat x)"
  using assms
proof (induction k arbitrary: out x)
  case 0
  then have "x = 0" by (simp add: unat_eq_zero)
  then show ?case by (simp add: reverse_loop.simps [of out len 0 base] rev_radix.simps)
next
  case (Suc k)
  show ?case
  proof (cases "x = 0")
    case True
    then show ?thesis by (simp add: reverse_loop.simps [of out len 0 base] rev_radix.simps)
  next
    case False
    have *: "unat (x div base) = unat x div unat base" "unat (x mod base) = unat x mod unat base"
      by (simp_all add: unat_div_distrib unat_mod_distrib)
    have "unat (x div base) < unat base ^ k"
      using Suc.prems unfolding * by (simp add: less_mult_imp_div_less mult.commute)
    with Suc.prems have "reverse_loop (out @ [digits ! unat (x mod base)]) len (x div base) base
        = (out @ [digits ! unat (x mod base)]) @ rev_radix (unat base) (unat (x div base))"
      by (intro Suc.IH) auto
    with False Suc.prems show ?thesis
      by (simp add: reverse_loop.simps [of out len x base] rev_radix.simps [of "unat base" "unat x"]
          * digit_def unat_eq_zero)
  qed
qed

lemma s_getReverseDigits_render:
  assumes "base = 10 \<or> base = 16"
  shows "rev (s_getReverseDigits 16 xx base sg) = render xx (unat base) sg"
proof -
  define b where "b = unat base"
  have b: "2 \<le> b" "b = 10 \<or> b = 16" using assms by (auto simp: b_def)
  have "unat x < b ^ 10" for x :: u32
  proof -
    have "unat x < 4294967296" by simp
    also have "(4294967296 :: nat) \<le> b ^ 10" using b(2) by auto
    finally show ?thesis .
  qed
  then have loop: "reverse_loop [] 16 x base = rev_radix b (unat x)" for x
    using reverse_loop_rev_radix [of base x 10 "[]" 16] b by (simp add: b_def)
  have len: "length (rev_radix b (unat x)) \<le> 10" for x :: u32
    using \<open>\<And>x. unat x < b ^ 10\<close> by (rule length_rev_radix)
  show ?thesis
  proof (cases "xx = 0")
    case True
    then show ?thesis using b
      by (simp add: s_getReverseDigits_def loop render_def b_def [symmetric] rev_radix.simps [of b 0]
          radix.simps [of b 0] digit_def)
  next
    case False
    show ?thesis
    proof (cases "sg \<and> sint xx < 0")
      case True
      have "uint (- xx) = - sint xx"
      proof -
        have "sint xx < 0" using True by simp
        moreover have "uint (- xx) = (- sint xx) mod 2 ^ 32"
        proof -
          have "uint (word_of_int (- sint xx) :: u32) = (- sint xx) mod 2 ^ 32"
            by (subst unsigned_of_int) (simp add: take_bit_eq_mod)
          moreover have "(word_of_int (- sint xx) :: u32) = - xx" by simp
          ultimately show ?thesis by metis
        qed
        moreover have "- sint xx \<le> 2 ^ 31" using sint_ge [of xx] by simp
        ultimately show ?thesis by simp
      qed
      then have un: "unat (- xx) = nat (- sint xx)" by (simp add: unat_eq_nat_uint)
      moreover have "0 < unat (- xx)" using True un by simp
      ultimately show ?thesis
        using True False len [of "- xx"] b
        by (simp add: s_getReverseDigits_def loop render_def b_def [symmetric] rev_rev_radix)
    next
      case neg: False
      have "0 < unat xx" using False by (simp add: unat_gt_0)
      with neg False b show ?thesis
        by (auto simp: s_getReverseDigits_def loop render_def b_def [symmetric] rev_rev_radix)
    qed
  qed
qed

section \<open>What a format prints\<close>

fun fmt_out :: "(u32 \<Rightarrow> u8 list) \<Rightarrow> u8 list \<Rightarrow> bool \<Rightarrow> u32 list \<Rightarrow> u8 list option" where
  "fmt_out strs [] st ap = Some []"
| "fmt_out strs (c # fmt) st ap =
     (if \<not> st then
        (if c = 37 then fmt_out strs fmt True ap
         else map_option (\<lambda>r. [c] @ r) (fmt_out strs fmt False ap))
      else if c \<in> {100, 120, 112, 115, 99} then
        (case ap of [] \<Rightarrow> None | a # ap' \<Rightarrow>
           map_option (\<lambda>r.
             (if c = 100 then render a 10 True
              else if c = 120 \<or> c = 112 then render a 16 False
              else if c = 115 then arg_str strs a
              else [ucast a]) @ r) (fmt_out strs fmt False ap'))
      else map_option (\<lambda>r. (if c = 37 then [37] else [37, c]) @ r) (fmt_out strs fmt False ap))"

text \<open>Storing a list at a position of a buffer, cut off at a limit.\<close>

definition blit :: "bytes \<Rightarrow> nat \<Rightarrow> u8 list \<Rightarrow> nat \<Rightarrow> bytes" where
  "blit buf pos xs lim = (\<lambda>x. if pos \<le> x \<and> x < pos + length xs \<and> x < lim then xs ! (x - pos) else buf x)"

lemma blit_Nil [simp]: "blit buf pos [] lim = buf"
  by (auto simp: blit_def fun_eq_iff)

lemma blit_beyond: "lim \<le> pos \<Longrightarrow> blit buf pos xs lim = buf"
  by (auto simp: blit_def fun_eq_iff)

lemma blit_append: "blit (blit buf pos xs lim) (pos + length xs) ys lim = blit buf pos (xs @ ys) lim"
  by (auto simp: blit_def nth_append fun_eq_iff)

lemma blit_one: "blit buf pos [c] lim = (if pos < lim then buf(pos := c) else buf)"
  by (auto simp: blit_def fun_eq_iff)

lemma blit_Cons: "blit buf pos (c # cs) lim = blit (blit buf pos [c] lim) (pos + 1) cs lim"
  using blit_append [of buf pos "[c]" lim cs] by simp

lemma obuf_sputc:
  "obuf (putcFunction S_sputc fd base len i c k) = blit (obuf k) (base + unat i) [c] (base + unat len)"
  by (auto simp: putcFunction_def s_sputc_def blit_one word_less_nat_alt)

lemma unat_Suc32: "unat (i :: u32) + 1 < 4294967296 \<Longrightarrow> unat (i + 1) = unat i + 1"
  by (simp add: unat_word_ariths)

lemma unat_add32: "unat (i :: u32) + n < 4294967296 \<Longrightarrow> unat (i + of_nat n) = unat i + n"
  by (simp add: unat_word_ariths unat_of_nat)

lemma puts_loop_spec:
  "unat i + length cs < 4294967296 \<Longrightarrow>
   fst (puts_loop S_sputc fd len i cs k) = i + of_nat (length cs) \<and>
   obuf (snd (puts_loop S_sputc fd len i cs k)) = blit (obuf k) (unat i) cs (unat len)"
proof (induction cs arbitrary: i k)
  case Nil
  then show ?case by simp
next
  case (Cons c cs)
  then have "unat (i + 1) = unat i + 1" by (intro unat_Suc32) simp
  with Cons show ?case
    by (simp add: obuf_sputc blit_Cons [of _ _ c cs])
qed

lemma printint_loop_spec:
  "unat j + length cs < 4294967296 \<Longrightarrow>
   obuf (printint_loop S_sputc fd base len j cs k) = blit (obuf k) (base + unat j) cs (base + unat len)"
proof (induction cs arbitrary: j k)
  case Nil
  then show ?case by simp
next
  case (Cons c cs)
  then have "unat (j + 1) = unat j + 1" by (intro unat_Suc32) simp
  with Cons show ?case
    by (auto simp: obuf_sputc blit_Cons [of _ _ c cs] blit_beyond word_less_nat_alt)
qed

lemma s_printint_spec:
  assumes "base = 10 \<or> base = 16" "unat o1 + length (render xx (unat base) sg) < 4294967296" "o1 < len"
  shows "fst (s_printint S_sputc fd (unat o1) (len - o1) xx base sg k) = of_nat (length (render xx (unat base) sg))"
    and "obuf (snd (s_printint S_sputc fd (unat o1) (len - o1) xx base sg k))
         = blit (obuf k) (unat o1) (render xx (unat base) sg) (unat len)"
proof -
  have r: "rev (s_getReverseDigits 16 xx base sg) = render xx (unat base) sg"
    using assms(1) by (rule s_getReverseDigits_render)
  then have l: "length (s_getReverseDigits 16 xx base sg) = length (render xx (unat base) sg)"
    by (metis length_rev)
  show "fst (s_printint S_sputc fd (unat o1) (len - o1) xx base sg k) = of_nat (length (render xx (unat base) sg))"
    by (simp add: s_printint_def Let_def l)
  have "unat o1 + unat (len - o1) = unat len"
    using assms(3) by (simp add: unat_sub word_less_nat_alt word_le_nat_alt)
  then show "obuf (snd (s_printint S_sputc fd (unat o1) (len - o1) xx base sg k))
         = blit (obuf k) (unat o1) (render xx (unat base) sg) (unat len)"
    using assms(2) by (simp add: s_printint_def Let_def r printint_loop_spec)
qed

lemma s_printf_loop_spec:
  assumes "fmt_out strs fmt st ap = Some out" "unat i + length out < 4294967296"
  shows "\<exists>i' k'. s_printf_loop S_sputc fd len strs fmt st i ap k = Some (i', k')
      \<and> obuf k' = blit (obuf k) (unat i) out (unat len)
      \<and> min (unat len) (unat i') = min (unat len) (unat i + length out)"
  using assms
proof (induction fmt arbitrary: st ap out i k)
  case Nil
  then show ?case by auto
next
  case (Cons c fmt)
  show ?case
  proof (cases "i < len")
    case False
    then show ?thesis by (auto simp: blit_beyond word_less_nat_alt)
  next
    case True
    \<comment> \<open>one item \<open>x\<close> was printed, the rest follows by the induction hypothesis\<close>
    have step: "?thesis"
      if "s_printf_loop S_sputc fd len strs (c # fmt) st i ap k
            = s_printf_loop S_sputc fd len strs fmt st' (i + of_nat (length x)) ap' k''"
        and "obuf k'' = blit (obuf k) (unat i) x (unat len)"
        and "out = x @ r" and "fmt_out strs fmt st' ap' = Some r" for st' x ap' k'' r
    proof -
      have "unat (i + of_nat (length x)) = unat i + length x"
        using Cons.prems(2) that(3) by (intro unat_add32) simp
      then show ?thesis
        using Cons.IH [OF that(4), of "i + of_nat (length x)" k''] Cons.prems(2) that
        by (auto simp: blit_append)
    qed
    consider (plain) "\<not> st" "c \<noteq> 37" | (pct) "\<not> st" "c = 37"
      | (int10) "st" "c = 100" | (int16) "st" "c = 120 \<or> c = 112" | (str) "st" "c = 115"
      | (chr) "st" "c = 99" | (lit) "st" "c = 37"
      | (unk) "st" "c \<notin> {100, 120, 112, 115, 99, 37}"
      by auto
    then show ?thesis
    proof cases
      case plain
      with Cons.prems obtain r where "out = [c] @ r" "fmt_out strs fmt False ap = Some r" by auto
      with plain True show ?thesis by (intro step) (auto simp: obuf_sputc)
    next
      case pct
      with Cons.prems have "fmt_out strs fmt True ap = Some out" by auto
      with pct True show ?thesis by (intro step [of True "[]"]) auto
    next
      case int10
      with Cons.prems obtain a ap' r where "ap = a # ap'" "out = render a 10 True @ r"
          "fmt_out strs fmt False ap' = Some r"
        by (auto split: list.splits)
      with int10 True Cons.prems(2) show ?thesis
        using s_printint_spec [of 10 i a True len fd k]
        by (intro step [of False "render a 10 True" ap'
            "snd (s_printint S_sputc fd (unat i) (len - i) a 10 True k)" r]) (auto split: prod.splits)
    next
      case int16
      with Cons.prems obtain a ap' r where "ap = a # ap'" "out = render a 16 False @ r"
          "fmt_out strs fmt False ap' = Some r"
        by (auto split: list.splits)
      with int16 True Cons.prems(2) show ?thesis
        using s_printint_spec [of 16 i a False len fd k]
        by (intro step [of False "render a 16 False" ap'
            "snd (s_printint S_sputc fd (unat i) (len - i) a 16 False k)" r]) (auto split: prod.splits)
    next
      case str
      with Cons.prems obtain a ap' r where "ap = a # ap'" "out = arg_str strs a @ r"
          "fmt_out strs fmt False ap' = Some r"
        by (auto split: list.splits)
      with str True Cons.prems(2) show ?thesis
        using puts_loop_spec [of i "arg_str strs a" fd len k]
        by (intro step [of False "arg_str strs a" ap'
            "snd (puts_loop S_sputc fd len i (arg_str strs a) k)" r]) (auto split: prod.splits)
    next
      case chr
      with Cons.prems obtain a ap' r where "ap = a # ap'" "out = [ucast a] @ r"
          "fmt_out strs fmt False ap' = Some r"
        by (auto split: list.splits)
      with chr True show ?thesis
        by (intro step [of False "[ucast a]" ap' _ r]) (auto simp: obuf_sputc)
    next
      case lit
      with Cons.prems obtain r where "out = [37] @ r" "fmt_out strs fmt False ap = Some r" by auto
      with lit True show ?thesis by (intro step [of False "[37]" ap _ r]) (auto simp: obuf_sputc)
    next
      case unk
      with Cons.prems obtain r where r: "out = [37, c] @ r" "fmt_out strs fmt False ap = Some r" by auto
      then have "unat (i + 1) = unat i + 1" using Cons.prems(2) by (intro unat_Suc32) simp
      with unk True r show ?thesis
        by (intro step [of False "[37, c]" ap _ r])
          (auto simp: obuf_sputc blit_Cons [of _ _ 37 "[c]"] algebra_simps)
    qed
  qed
qed

section \<open>Bounds\<close>

lemma sputc_bound:
  "unat len \<le> lim \<Longrightarrow> lim \<le> x \<Longrightarrow> obuf (putcFunction S_sputc fd 0 len i c k) x = obuf k x"
  by (auto simp: obuf_sputc blit_one)

lemma puts_loop_bound:
  "unat len \<le> x \<Longrightarrow> obuf (snd (puts_loop S_sputc fd len i cs k)) x = obuf k x"
  by (induction cs arbitrary: i k) (auto simp: sputc_bound)

lemma printint_loop_bound:
  "base + unat len \<le> x \<Longrightarrow> obuf (printint_loop S_sputc fd base len j cs k) x = obuf k x"
  by (induction cs arbitrary: j k) (auto simp: obuf_sputc blit_one)

lemma s_printint_bound:
  assumes "i < len" "unat len \<le> x"
  shows "obuf (snd (s_printint S_sputc fd (unat i) (len - i) xx base sg k)) x = obuf k x"
proof -
  have "unat i + unat (len - i) = unat len"
    using assms(1) by (simp add: unat_sub word_less_nat_alt word_le_nat_alt)
  then show ?thesis
    using assms(2) by (simp add: s_printint_def Let_def printint_loop_bound)
qed

lemma s_printf_loop_bound:
  "s_printf_loop S_sputc fd len strs fmt st i ap k = Some (i', k') \<Longrightarrow> unat len \<le> x \<Longrightarrow>
   obuf k' x = obuf k x"
proof (induction fmt arbitrary: st ap i k)
  case Nil
  then show ?case by simp
next
  case (Cons c fmt)
  have p: "obuf (snd (s_printint S_sputc fd (unat i) (len - i) a b sg k)) x = obuf k x"
    if "i < len" for a b sg
    using that Cons.prems(2) by (rule s_printint_bound)
  have q: "obuf (snd (puts_loop S_sputc fd len i cs k)) x = obuf k x" for cs
    using Cons.prems(2) by (rule puts_loop_bound)
  have r: "obuf (putcFunction S_sputc fd 0 len j d k) x = obuf k x" for j d k
    using Cons.prems(2) by (intro sputc_bound [of len "unat len"]) auto
  show ?case
    using Cons.prems(1)
    by (auto simp: r split: if_splits list.splits prod.splits
        dest!: Cons.IH [OF _ Cons.prems(2)])
      (metis p q snd_conv)+
qed

section \<open>Properties\<close>

lemma unat_minus_one32: "unat (- 1 :: u32) = 4294967295"
  by (simp add: unsigned_minus_1_eq_mask mask_eq_exp_minus_1)

lemma snprintf_blit:
  assumes "fmt_out strs fmt False ap = Some out" "length out < 4294967296"
  shows "\<exists>k'. s_printf S_sputc fd n strs fmt ap k
      = Some (of_nat (min (unat (n - 1)) (length out)), k') \<and> obuf k' = blit (obuf k) 0 out (unat (n - 1))"
proof -
  obtain i' k' where *: "s_printf_loop S_sputc fd (n - 1) strs fmt False 0 ap k = Some (i', k')"
      "obuf k' = blit (obuf k) 0 out (unat (n - 1))"
      "min (unat (n - 1)) (unat i') = min (unat (n - 1)) (length out)"
    using s_printf_loop_spec [OF assms(1), of 0 fd "n - 1" k] assms(2) by auto
  have "s_min (n - 1) i' = of_nat (min (unat (n - 1)) (unat i'))"
    by (simp add: s_min_def min_def word_less_nat_alt word_le_nat_alt)
  with * show ?thesis by (simp add: s_printf_def)
qed

lemma snprintf_stores:
  assumes out: "fmt_out strs fmt False ap = Some out" "length out < 4294967296" and n: "n \<noteq> 0"
  defines "m \<equiv> min (unat n - 1) (length out)"
  shows "snprintf n strs fmt ap buf = Some (of_nat m, (blit buf 0 out (unat n - 1))(m := 0))"
proof -
  have n1: "unat (n - 1) = unat n - 1" "0 < unat n"
    using n by (simp_all add: unat_gt_0 unat_minus_one)
  obtain k' where k': "s_printf S_sputc (- 1) n strs fmt ap \<lparr>obuf = buf, owrites = []\<rparr> = Some (of_nat m, k')"
      "obuf k' = blit buf 0 out (unat n - 1)"
    using snprintf_blit [OF out, of "- 1" n "\<lparr>obuf = buf, owrites = []\<rparr>"] by (auto simp: n1 m_def)
  have "m < unat n" using n1 by (simp add: m_def)
  then have m: "unat (of_nat m :: u32) = m" "(of_nat m :: u32) < n"
    using unat32_less [of n] by (simp_all add: word_less_nat_alt del: unat32_less)
  with k' show ?thesis by (simp add: snprintf_def)
qed

text \<open>
  C22 \<open>snprintf\<close> into a buffer of \<open>n > 0\<close> bytes: the result is the number of characters stored, the
  characters are the first \<open>n - 1\<close> of what the format prints, a NUL follows them, and no byte at
  or beyond \<open>n\<close> changes.
\<close>

theorem snprintf_correct:
  assumes out: "fmt_out strs fmt False ap = Some out" "length out < 4294967296" and n: "n \<noteq> 0"
  defines "m \<equiv> min (unat n - 1) (length out)"
  shows "\<exists>buf'. snprintf n strs fmt ap buf = Some (of_nat m, buf')
      \<and> map buf' [0..<m] = take m out \<and> buf' m = 0 \<and> (\<forall>x. unat n \<le> x \<longrightarrow> buf' x = buf x)"
proof (intro exI conjI)
  have "0 < unat n" using n by (simp add: unat_gt_0)
  then show "\<forall>x. unat n \<le> x \<longrightarrow> ((blit buf 0 out (unat n - 1))(m := 0)) x = buf x"
    by (auto simp: blit_def m_def)
  show "map ((blit buf 0 out (unat n - 1))(m := 0)) [0..<m] = take m out"
    by (rule nth_equalityI) (auto simp: blit_def m_def)
qed (use snprintf_stores [OF assms(1-3), of buf] in \<open>simp_all only: m_def fun_upd_same\<close>)

text \<open>C22 at work: five characters of room for a decimal number and a letter.\<close>

theorem snprintf_correct_witness:
  "\<exists>buf'. snprintf 6 (\<lambda>_. []) [97, 37, 100] [- 123456] (\<lambda>_. 7) = Some (5, buf')
     \<and> map buf' [0..<5] = [97, 45, 49, 50, 51] \<and> buf' 5 = 0 \<and> (\<forall>x. 6 \<le> x \<longrightarrow> buf' x = 7)"
proof -
  have s: "sint (- 123456 :: u32) = - 123456" by simp
  have r: "radix 10 123456 = [49, 50, 51, 52, 53, 54]"
    by (simp add: radix.simps digit_def digits_def)
  have "render (- 123456) 10 True = [45, 49, 50, 51, 52, 53, 54]"
    unfolding render_def s by (simp add: r)
  then have "fmt_out (\<lambda>_. []) [97, 37, 100] False [- 123456] = Some [97, 45, 49, 50, 51, 52, 53, 54]"
    by simp
  moreover have five: "(5 :: nat) = Suc (Suc (Suc (Suc (Suc 0))))" by simp
  ultimately show ?thesis
    using snprintf_correct [of "\<lambda>_. []" "[97, 37, 100]" "[- 123456]" _ 6 "\<lambda>_. 7"] by (simp add: five)
qed

text \<open>
  C40 \<open>snprintf\<close> with \<open>n = 0\<close>: \<open>n - 1\<close> is compared as an unsigned value, so nothing is cut off.
  Every character of the output is stored, no NUL is, and the count is that of the whole output,
  where the comment above \<open>snprintf\<close> promises at most \<open>n\<close> characters.
\<close>

theorem snprintf_zero_unbounded:
  assumes out: "fmt_out strs fmt False ap = Some out" "length out < 4294967295"
  shows "snprintf 0 strs fmt ap buf = Some (of_nat (length out), blit buf 0 out 4294967295)"
proof -
  obtain k' where "s_printf S_sputc (- 1) 0 strs fmt ap \<lparr>obuf = buf, owrites = []\<rparr> = Some (of_nat (length out), k')"
      "obuf k' = blit buf 0 out 4294967295"
    using snprintf_blit [OF out(1), of "- 1" 0 "\<lparr>obuf = buf, owrites = []\<rparr>"] out(2)
    by (auto simp: min_def unat_minus_one32)
  then show ?thesis by (simp add: snprintf_def)
qed

theorem snprintf_zero_unbounded_witness:
  "snprintf 0 (\<lambda>_. []) [97, 98] [] (\<lambda>_. 0) = Some (2, blit (\<lambda>_. 0) 0 [97, 98] 4294967295)
   \<and> blit (\<lambda>_. 0) 0 [97, 98] 4294967295 1 = 98"
  using snprintf_zero_unbounded [of "\<lambda>_. []" "[97, 98]" "[]" "[97, 98]" "\<lambda>_. 0"]
  by (simp add: blit_def)

lemma digit_decimal: "d < 10 \<Longrightarrow> is_digit (digit d) \<and> unat (digit d) - 48 = d"
proof -
  assume "d < 10"
  then have "d \<in> {0, 1, 2, 3, 4, 5, 6, 7, 8, 9}" by auto
  then show ?thesis by (auto simp: digit_def digits_def is_digit_def)
qed

lemma radix_decimal: "decimal 0 (radix 10 n) = n \<and> (\<forall>c \<in> set (radix 10 n). is_digit c)"
proof (induction n rule: less_induct)
  case (less n)
  show ?case
  proof (cases "n < 10")
    case True
    then have "radix 10 n = [digit n]" by (simp add: radix.simps [of 10 n])
    with digit_decimal [OF True] show ?thesis by simp
  next
    case False
    then have "n div 10 < n" by simp
    note IH = less.IH [OF this]
    have "radix 10 n = radix 10 (n div 10) @ [digit (n mod 10)]"
      using False by (simp add: radix.simps [of 10 n])
    with IH digit_decimal [of "n mod 10"] show ?thesis by simp
  qed
qed

lemma length_radix: "2 \<le> b \<Longrightarrow> n < b ^ Suc k \<Longrightarrow> length (radix b n) \<le> Suc k"
proof (cases "n = 0")
  case True
  assume "2 \<le> b"
  with True show ?thesis by (simp add: radix.simps)
next
  case False
  assume "2 \<le> b" "n < b ^ Suc k"
  then have "length (rev_radix b n) \<le> Suc k" by (intro length_rev_radix)
  with False rev_rev_radix [OF \<open>2 \<le> b\<close>, of n] show ?thesis by (metis length_rev neq0_conv)
qed

text \<open>
   A non-negative number printed with \<open>%d\<close> into a buffer that has room for it reads back
  through \<open>atoi\<close> as itself.
\<close>

theorem snprintf_atoi:
  assumes "0 \<le> sint xx" "12 \<le> unat n"
  shows "\<exists>count buf'. snprintf n strs [37, 100] [xx] buf = Some (count, buf') \<and> atoi buf' = Some xx"
proof -
  define ds where "ds = radix 10 (unat xx)"
  have ds: "decimal 0 ds = unat xx" "\<forall>c \<in> set ds. is_digit c"
    using radix_decimal by (auto simp: ds_def)
  have "unat xx < 10 ^ Suc 9" using unat32_less [of xx] by (simp del: unat32_less)
  then have len: "length ds \<le> 10" using length_radix [of 10 "unat xx" 9] by (simp add: ds_def)
  have "fmt_out strs [37, 100] False [xx] = Some ds"
    using assms(1) by (simp add: render_def ds_def)
  moreover have "n \<noteq> 0" using assms(2) by auto
  ultimately have buf': "snprintf n strs [37, 100] [xx] buf
      = Some (of_nat (length ds), (blit buf 0 ds (unat n - 1))(length ds := 0))"
    using snprintf_stores [of strs "[37, 100]" "[xx]" ds n buf] len assms(2)
    by (simp add: min_absorb2 del: fmt_out.simps)
  have "cstring_at ((blit buf 0 ds (unat n - 1))(length ds := 0)) i es"
    if "ds = cs @ es" "i = length cs" for i cs es
    using that
  proof (induction es arbitrary: i cs)
    case (Cons e es)
    have "e \<noteq> 0" using ds(2) Cons.prems by (auto simp: is_digit_def)
    moreover have "length ds \<le> unat n - 1" using len assms(2) by simp
    ultimately show ?case using Cons.IH [of "cs @ [e]"] Cons.prems by (simp add: blit_def)
  qed simp
  from this [of "[]" ds 0] show ?thesis
    using atoi_digits [of _ ds "[]"] ds buf' by auto
qed

theorem snprintf_atoi_witness:
  "\<exists>count buf'. snprintf 12 (\<lambda>_. []) [37, 100] [2147483647] (\<lambda>_. 0) = Some (count, buf')
     \<and> atoi buf' = Some 2147483647"
  using snprintf_atoi [of 2147483647 12 "\<lambda>_. []" "\<lambda>_. 0"] by simp

end
