(* ===== verification/Grep.thy ===== *)
theory Grep
  imports Prelude
begin

text \<open>
  The regular-expression matcher of src/grep.c (\<open>match\<close>, \<open>matchhere\<close>, \<open>matchstar\<close>) and its
  equivalence with a declarative reading of the patterns. The loop over the lines is in theory Uprog.

  A C string is the list of its characters before the NUL, so \<open>*text == '\0'\<close> is \<open>text = []\<close>
  and \<open>re[1]\<close> of a one-character pattern is the NUL.
\<close>

section \<open>The matcher\<close>

text \<open>Does the string start with the character (its first byte equals \<open>c\<close>)?\<close>

definition starts :: "char \<Rightarrow> string \<Rightarrow> bool" where
  "starts c s \<longleftrightarrow> (case s of [] \<Rightarrow> False | x # _ \<Rightarrow> x = c)"

lemma starts_simps [simp]: "starts c [] = False" "starts c (x # s) = (x = c)"
  by (simp_all add: starts_def)

text \<open>
  \<open>matchhere\<close> and \<open>matchstar\<close> call each other; the do-while loop of \<open>matchstar\<close> is the
  recursion on the str: try the rest of the pattern here, then step over one character if it
  is an instance of \<open>c\<close>.
\<close>

function matchhere :: "string \<Rightarrow> string \<Rightarrow> bool"
  and matchstar :: "char \<Rightarrow> string \<Rightarrow> string \<Rightarrow> bool" where
  "matchhere re str =
     (if re = [] then True
      else if starts CHR ''*'' (tl re) then matchstar (hd re) (tl (tl re)) str
      else if hd re = CHR ''$'' \<and> tl re = [] then str = []
      else if str \<noteq> [] \<and> (hd re = CHR ''.'' \<or> hd re = hd str) then matchhere (tl re) (tl str)
      else False)"
| "matchstar c re str =
     (if matchhere re str then True
      else if str \<noteq> [] \<and> (hd str = c \<or> c = CHR ''.'') then matchstar c re (tl str)
      else False)"
  by pat_completeness auto
termination
  by (relation "measures [case_sum (\<lambda>(re, str). 2 * length re) (\<lambda>(c, re, str). 2 * length re + 1),
        case_sum (\<lambda>(re, str). length str) (\<lambda>(c, re, str). length str)]")
    (auto simp: starts_def neq_Nil_conv split: list.splits)

declare matchhere.simps [simp del] matchstar.simps [simp del]

text \<open>The do-while loop of \<open>match\<close>: try every suffix of the str, the empty one included.\<close>

fun match_loop :: "string \<Rightarrow> string \<Rightarrow> bool" where
  "match_loop re str =
     (if matchhere re str then True
      else case str of [] \<Rightarrow> False | _ # ts \<Rightarrow> match_loop re ts)"

declare match_loop.simps [simp del]

definition match :: "string \<Rightarrow> string \<Rightarrow> bool" where
  "match re str = (if starts CHR ''^'' re then matchhere (tl re) str else match_loop re str)"

section \<open>What patterns mean\<close>

datatype atom = Any | Lit char

datatype item = One atom | Star atom

definition atom_of :: "char \<Rightarrow> atom" where
  "atom_of c = (if c = CHR ''.'' then Any else Lit c)"

primrec accepts :: "atom \<Rightarrow> char \<Rightarrow> bool" where
  "accepts Any c \<longleftrightarrow> True"
| "accepts (Lit d) c \<longleftrightarrow> c = d"

text \<open>The items of a pattern, and whether it ends in the anchor \<open>$\<close>.\<close>

fun parse_re :: "string \<Rightarrow> item list \<times> bool" where
  "parse_re [] = ([], False)"
| "parse_re (r # rs) =
     (if starts CHR ''*'' rs then (Star (atom_of r) # fst (parse_re (tl rs)), snd (parse_re (tl rs)))
      else if r = CHR ''$'' \<and> rs = [] then ([], True)
      else (One (atom_of r) # fst (parse_re rs), snd (parse_re rs)))"

primrec lang :: "item list \<Rightarrow> string set" where
  "lang [] = {[]}"
| "lang (i # its) =
     (case i of
        One a \<Rightarrow> {c # w |c w. accepts a c \<and> w \<in> lang its}
      | Star a \<Rightarrow> {v @ w |v w. list_all (accepts a) v \<and> w \<in> lang its})"

definition here_spec :: "item list \<times> bool \<Rightarrow> string \<Rightarrow> bool" where
  "here_spec p str \<longleftrightarrow> (\<exists>v w. str = v @ w \<and> v \<in> lang (fst p) \<and> (snd p \<longrightarrow> w = []))"

lemma here_spec_Nil [simp]: "here_spec ([], False) str" "here_spec ([], True) str \<longleftrightarrow> str = []"
  by (auto simp: here_spec_def)

lemma here_spec_One [simp]:
  "here_spec (One a # its, e) str \<longleftrightarrow> str \<noteq> [] \<and> accepts a (hd str) \<and> here_spec (its, e) (tl str)"
proof (cases str)
  case Nil
  then show ?thesis by (auto simp: here_spec_def)
next
  case (Cons c cs)
  have "here_spec (One a # its, e) (c # cs) \<longleftrightarrow>
      (\<exists>v w. accepts a c \<and> v \<in> lang its \<and> cs = v @ w \<and> (e \<longrightarrow> w = []))"
    unfolding here_spec_def by (auto simp: Cons_eq_append_conv; blast)
  then show ?thesis using Cons by (auto simp: here_spec_def)
qed

lemma here_spec_Star_iff:
  "here_spec (Star a # its, e) str \<longleftrightarrow>
     (\<exists>u t. str = u @ t \<and> list_all (accepts a) u \<and> here_spec (its, e) t)"
    (is "?L \<longleftrightarrow> ?R")
proof
  assume ?L
  then obtain x w where x: "str = x @ w" "x \<in> lang (Star a # its)" "e \<longrightarrow> w = []"
    by (auto simp only: here_spec_def fst_conv snd_conv)
  then obtain u v where "x = u @ v" "list_all (accepts a) u" "v \<in> lang its"
    by auto
  with x have "str = (u @ v) @ w" "list_all (accepts a) u" "v \<in> lang its" "e \<longrightarrow> w = []"
    by auto
  then show ?R
    by (intro exI [of _ u] exI [of _ "v @ w"]) (auto simp: here_spec_def)
next
  assume ?R
  then obtain u v w where "str = (u @ v) @ w" "list_all (accepts a) u" "v \<in> lang its" "e \<longrightarrow> w = []"
    unfolding here_spec_def by auto
  then show ?L
    unfolding here_spec_def by (intro exI [of _ "u @ v"] exI [of _ w]) auto
qed

lemma here_spec_Star:
  "here_spec (Star a # its, e) str \<longleftrightarrow>
     here_spec (its, e) str \<or> (str \<noteq> [] \<and> accepts a (hd str) \<and> here_spec (Star a # its, e) (tl str))"
    (is "?L \<longleftrightarrow> ?R")
proof
  assume ?L
  then obtain u t where *: "str = u @ t" "list_all (accepts a) u" "here_spec (its, e) t"
    by (auto simp: here_spec_Star_iff)
  then show ?R
    by (cases u) (auto simp: here_spec_Star_iff)
next
  assume ?R
  then show ?L
  proof
    assume "here_spec (its, e) str"
    then show ?L unfolding here_spec_Star_iff by (intro exI [of _ "[]"] exI [of _ str]) simp
  next
    assume *: "str \<noteq> [] \<and> accepts a (hd str) \<and> here_spec (Star a # its, e) (tl str)"
    then obtain u t where "tl str = u @ t" "list_all (accepts a) u" "here_spec (its, e) t"
      by (auto simp: here_spec_Star_iff)
    with * show ?L unfolding here_spec_Star_iff
      by (intro exI [of _ "hd str # u"] exI [of _ t]) (cases str, auto)
  qed
qed

lemma accepts_atom_of [simp]: "accepts (atom_of r) c \<longleftrightarrow> r = CHR ''.'' \<or> r = c"
  by (auto simp: atom_of_def)

lemma match_here_star_spec:
  "matchhere re str \<longleftrightarrow> here_spec (parse_re re) str"
  "matchstar c re str \<longleftrightarrow>
     here_spec (Star (atom_of c) # fst (parse_re re), snd (parse_re re)) str"
proof (induction re str and c re str rule: matchhere_matchstar.induct)
  case (1 re str)
  show ?case
  proof (cases re)
    case Nil
    then show ?thesis by (simp add: matchhere.simps)
  next
    case (Cons r rs)
    with 1 show ?thesis by (subst matchhere.simps) auto
  qed
next
  case (2 c re str)
  show ?case
    using 2 by (subst matchstar.simps, subst here_spec_Star) auto
qed

lemma matchhere_spec: "matchhere re str \<longleftrightarrow> here_spec (parse_re re) str"
  by (rule match_here_star_spec)

lemma match_loop_spec: "match_loop re str \<longleftrightarrow> (\<exists>u t. str = u @ t \<and> here_spec (parse_re re) t)"
proof (induction str)
  case Nil
  then show ?case by (simp add: match_loop.simps matchhere_spec)
next
  case (Cons c str)
  show ?case
  proof
    assume "match_loop re (c # str)"
    then consider "here_spec (parse_re re) (c # str)" | "match_loop re str"
      by (auto simp: match_loop.simps [of re "c # str"] matchhere_spec split: if_splits)
    then show "\<exists>u t. c # str = u @ t \<and> here_spec (parse_re re) t"
    proof cases
      case 1
      then show ?thesis by (intro exI [of _ "[]"] exI [of _ "c # str"]) simp
    next
      case 2
      with Cons show ?thesis by (metis append_Cons)
    qed
  next
    assume "\<exists>u t. c # str = u @ t \<and> here_spec (parse_re re) t"
    then show "match_loop re (c # str)"
      using Cons by (auto simp: match_loop.simps [of re "c # str"] matchhere_spec Cons_eq_append_conv)
  qed
qed

section \<open>Correctness\<close>

text \<open>
  The strings a pattern (without its leading \<open>^\<close>) finds in a str: some factor of the str is in
  the language of the pattern's items, at the start of the str if the pattern is anchored
  there, and reaching its end if it ends in \<open>$\<close>.
\<close>

definition grep_spec :: "string \<Rightarrow> string \<Rightarrow> bool" where
  "grep_spec re str \<longleftrightarrow>
     (let anchored = starts CHR ''^'' re; p = parse_re (if anchored then tl re else re)
      in \<exists>u v w. str = u @ v @ w \<and> v \<in> lang (fst p) \<and> (anchored \<longrightarrow> u = []) \<and> (snd p \<longrightarrow> w = []))"

text \<open>The matcher agrees with the declarative reading on every pattern and every text.\<close>

lemma match_spec: "match re str \<longleftrightarrow> grep_spec re str"
proof (cases "starts CHR ''^'' re")
  case True
  then show ?thesis
    by (simp add: match_def matchhere_spec grep_spec_def here_spec_def Let_def)
next
  case False
  then show ?thesis
    by (simp add: match_def match_loop_spec grep_spec_def here_spec_def Let_def) blast
qed

end
