(* ===== verification/Uprog.thy ===== *)
theory Uprog
  imports Printf Grep
begin

text \<open>
  User programs: src/cat.c, src/wc.c, src/grep.c, src/ls.c, src/echo.c, src/rm.c, src/mkdir.c, src/ln.c, src/kill.c, src/mycat2.c,
  and \<open>gets\<close> and \<open>stat\<close> of src/ulib.c.

  A program sees of the kernel the results of its system calls. What the coming reads of a file deliver is a list of pieces,
  so that a read may return less than was asked for, or fail (\<open>None\<close>); a call that changes something is recorded, and fails if the
  kernel does not allow it. A C string is the list of its bytes before the NUL.
\<close>

section \<open>System calls\<close>

type_synonym upath = "u8 list"

record ustat =
  st_type :: int
  st_ino :: u32
  st_size :: u32

datatype call = Write nat "u8 list" | Unlink upath | Mkdir upath | Link upath upath | Kill u32

record os =
  ofd :: "nat \<Rightarrow> (upath \<times> u8 list option list) option"
  osfiles :: "upath \<Rightarrow> u8 list option list option"
  ometa :: "upath \<Rightarrow> ustat option"
  allows :: "call \<Rightarrow> bool"
  calls :: "call list"

text \<open>A program's part returns, or the program has exited; \<open>None\<close> is a loop that does not end.\<close>

type_synonym 'a prog = "os \<Rightarrow> ('a option \<times> os) option"

definition ubind :: "'a prog \<Rightarrow> ('a \<Rightarrow> 'b prog) \<Rightarrow> 'b prog" where
  "ubind m f s = Option.bind (m s) (\<lambda>(r, s'). case r of None \<Rightarrow> Some (None, s') | Some x \<Rightarrow> f x s')"

abbreviation useq :: "'a prog \<Rightarrow> 'b prog \<Rightarrow> 'b prog" where
  "useq m n \<equiv> ubind m (\<lambda>_. n)"

definition uret :: "'a \<Rightarrow> 'a prog" where
  "uret x s = Some (Some x, s)"

definition uexit :: "'a prog" where
  "uexit s = Some (None, s)"

lemma ubind_mono [partial_function_mono]:
  assumes "\<And>x s. mono_option (\<lambda>g. f g x s)"
  shows "mono_option (\<lambda>g. ubind m (f g) s)"
proof -
  have "mono_option (\<lambda>g. case r of None \<Rightarrow> Some (None, s') | Some x \<Rightarrow> f g x s')" for r s' by (cases r) (simp_all add: option.const_mono assms)
  then show ?thesis unfolding ubind_def split_def by (intro bind_mono option.const_mono)
qed

lemma if_mono [partial_function_mono]:
  "mono_option (\<lambda>g. f g s) \<Longrightarrow> mono_option (\<lambda>g. h g s) \<Longrightarrow> mono_option (\<lambda>g. (if b then f g else h g) s)"
  by (cases b) simp_all

definition read :: "nat \<Rightarrow> nat \<Rightarrow> u8 list option prog" where
  "read fd n s =
     Some (case ofd s fd of
        None \<Rightarrow> (Some None, s)
      | Some (p, []) \<Rightarrow> (Some (Some []), s)
      | Some (p, None # cs) \<Rightarrow> (Some None, s\<lparr>ofd := (ofd s)(fd \<mapsto> (p, cs))\<rparr>)
      | Some (p, Some c # cs) \<Rightarrow>
          (Some (Some (take n c)), s\<lparr>ofd := (ofd s)(fd \<mapsto> (p, if length c \<le> n then cs else Some (drop n c) # cs))\<rparr>))"

definition perform :: "call \<Rightarrow> bool prog" where
  "perform c s = Some (Some (allows s c), s\<lparr>calls := calls s @ [c]\<rparr>)"

definition fd_of :: "os \<Rightarrow> nat option" where
  "fd_of s = find (\<lambda>fd. ofd s fd = None) [0..<16]"

definition open_file :: "upath \<Rightarrow> nat option prog" where
  "open_file p s =
     Some (case (osfiles s p, fd_of s) of
        (Some cs, Some fd) \<Rightarrow> (Some (Some fd), s\<lparr>ofd := (ofd s)(fd \<mapsto> (p, cs))\<rparr>)
      | _ \<Rightarrow> (Some None, s))"

definition close :: "nat \<Rightarrow> unit prog" where
  "close fd s = Some (Some (), s\<lparr>ofd := (ofd s)(fd := None)\<rparr>)"

definition fstat :: "nat \<Rightarrow> ustat option prog" where
  "fstat fd s = Some (Some (case ofd s fd of None \<Rightarrow> None | Some (p, _) \<Rightarrow> ometa s p), s)"

text \<open>The bytes of \<open>printf\<close> (src/printf.c) are written one at a time; the results of these writes are not looked at.\<close>

definition asc :: "string \<Rightarrow> u8 list" where
  "asc = map of_char"

datatype arg = Num u32 | Str "u8 list"

definition strings_of :: "arg list \<Rightarrow> u32 \<Rightarrow> u8 list" where
  "strings_of as p = (case as ! (unat p - 1) of Str x \<Rightarrow> x | Num _ \<Rightarrow> [])"

definition words_of :: "arg list \<Rightarrow> u32 list" where
  "words_of as = map (\<lambda>i. case as ! i of Num x \<Rightarrow> x | Str _ \<Rightarrow> of_nat (i + 1)) [0..<length as]"

definition uprintf :: "nat \<Rightarrow> string \<Rightarrow> arg list \<Rightarrow> unit prog" where
  "uprintf fd fmt as s =
     map_option (\<lambda>ws. (Some (), s\<lparr>calls := calls s @ map (\<lambda>(d, b). Write (nat d) [b]) ws\<rparr>)) (printf (int fd) (strings_of as) (asc fmt) (words_of as))"

section \<open>The user library\<close>

text \<open>The loop of \<open>gets\<close>; the characters read so far are \<open>xs\<close>.\<close>

partial_function (option) gets_loop :: "nat \<Rightarrow> u8 list \<Rightarrow> u8 list prog" where
  "gets_loop maxlen xs s =
     (if length xs + 1 < maxlen then
        ubind (read 0 1) (\<lambda>r.
        case r of
          None \<Rightarrow> uret xs
        | Some cs \<Rightarrow>
            if cs = [] then uret xs
            else if hd cs = 10 \<or> hd cs = 13 then uret (xs @ [hd cs])
            else gets_loop maxlen (xs @ [hd cs])) s
      else uret xs s)"

definition gets_line :: "nat \<Rightarrow> u8 list prog" where
  "gets_line maxlen = gets_loop maxlen []"

definition stat_path :: "upath \<Rightarrow> ustat option prog" where
  "stat_path p =
     ubind (open_file p) (\<lambda>fd.
     case fd of
       None \<Rightarrow> uret None
     | Some fd \<Rightarrow> ubind (fstat fd) (\<lambda>r. useq (close fd) (uret r)))"

section \<open>cat and wc\<close>

partial_function (option) cat :: "nat \<Rightarrow> unit prog" where
  "cat fd s =
     ubind (read fd 512) (\<lambda>r.
     case r of
       None \<Rightarrow> useq (uprintf 1 ''cat: read error\<newline>'' []) uexit
     | Some buf \<Rightarrow>
         if buf = [] then uret ()
         else
           ubind (perform (Write 1 buf)) (\<lambda>ok.
           if \<not> ok then useq (uprintf 1 ''cat: write error\<newline>'' []) uexit
           else cat fd)) s"

text \<open>The loop over the arguments that cat, wc and grep share, with the name of the program and what it does with the file.\<close>

primrec each_file :: "string \<Rightarrow> (nat \<Rightarrow> upath \<Rightarrow> unit prog) \<Rightarrow> upath list \<Rightarrow> unit prog" where
  "each_file prog f [] = uexit"
| "each_file prog f (p # ps) =
     ubind (open_file p) (\<lambda>fd.
     case fd of
       None \<Rightarrow> useq (uprintf 1 (prog @ '': cannot open %s\<newline>'') [Str p]) uexit
     | Some fd \<Rightarrow> useq (f fd p) (useq (close fd) (each_file prog f ps)))"

definition cat_main :: "upath list \<Rightarrow> unit prog" where
  "cat_main argv =
     (if length argv \<le> 1 then useq (cat 0) uexit
      else each_file ''cat'' (\<lambda>fd _. cat fd) (tl argv))"

record counts =
  lines_n :: u32
  words_n :: u32
  chars_n :: u32
  inword :: bool

text \<open>The string \<open>" \r\t\n\v"\<close>.\<close>

definition blanks :: "u8 list" where
  "blanks = [32, 13, 9, 10, 11]"

definition wc_char :: "counts \<Rightarrow> u8 \<Rightarrow> counts" where
  "wc_char k b =
     (let k = k\<lparr>chars_n := chars_n k + 1\<rparr>;
          k = (if b = 10 then k\<lparr>lines_n := lines_n k + 1\<rparr> else k)
      in if strchr (of_string blanks) b \<noteq> Some None then k\<lparr>inword := False\<rparr>
         else if \<not> inword k then k\<lparr>words_n := words_n k + 1, inword := True\<rparr>
         else k)"

partial_function (option) wc_loop :: "nat \<Rightarrow> counts \<Rightarrow> counts prog" where
  "wc_loop fd k s =
     ubind (read fd 512) (\<lambda>r.
     case r of
       None \<Rightarrow> useq (uprintf 1 ''wc: read error\<newline>'' []) uexit
     | Some buf \<Rightarrow> if buf = [] then uret k else wc_loop fd (foldl wc_char k buf)) s"

definition wc :: "nat \<Rightarrow> u8 list \<Rightarrow> unit prog" where
  "wc fd name =
     ubind (wc_loop fd \<lparr>lines_n = 0, words_n = 0, chars_n = 0, inword = False\<rparr>) (\<lambda>k.
     uprintf 1 ''%d %d %d %s\<newline>'' [Num (lines_n k), Num (words_n k), Num (chars_n k), Str name])"

definition wc_main :: "upath list \<Rightarrow> unit prog" where
  "wc_main argv = (if length argv \<le> 1 then useq (wc 0 []) uexit else each_file ''wc'' wc (tl argv))"

section \<open>grep\<close>

definition text_of :: "u8 list \<Rightarrow> string" where
  "text_of = map (\<lambda>b. char_of (unat b))"

text \<open>The inner loop of \<open>grep\<close>: the bytes of the buffer from \<open>p\<close> on; it returns those left at its end.\<close>

partial_function (option) grep_lines :: "u8 list \<Rightarrow> u8 list \<Rightarrow> u8 list prog" where
  "grep_lines pattern xs s =
     (case strchr (of_string xs) 10 of
        Some (Some q) \<Rightarrow>
          useq (if match (text_of pattern) (text_of (take q xs)) then perform (Write 1 (take (q + 1) xs)) else uret True)
          (grep_lines pattern (drop (q + 1) xs)) s
      | _ \<Rightarrow> uret xs s)"

text \<open>The first \<open>m\<close> bytes of the buffer are \<open>held\<close>.\<close>

partial_function (option) grep_loop :: "u8 list \<Rightarrow> nat \<Rightarrow> u8 list \<Rightarrow> unit prog" where
  "grep_loop pattern fd held s =
     ubind (read fd (1024 - length held - 1)) (\<lambda>r.
     case r of
       None \<Rightarrow> uret ()
     | Some buf \<Rightarrow>
         if buf = [] then uret ()
         else
           ubind (grep_lines pattern (held @ buf)) (\<lambda>xs.
           grep_loop pattern fd (if length xs = length (held @ buf) then [] else xs))) s"

definition grep :: "u8 list \<Rightarrow> nat \<Rightarrow> unit prog" where
  "grep pattern fd = grep_loop pattern fd []"

definition grep_main :: "upath list \<Rightarrow> unit prog" where
  "grep_main argv =
     (if length argv \<le> 1 then useq (uprintf 2 ''usage: grep pattern [file ...]\<newline>'' []) uexit
      else if length argv \<le> 2 then useq (grep (argv ! 1) 0) uexit
      else each_file ''grep'' (\<lambda>fd _. grep (argv ! 1) fd) (drop 2 argv))"

section \<open>ls\<close>

text \<open>The offset after the last slash among the first \<open>p\<close> characters.\<close>

primrec after_slash :: "upath \<Rightarrow> nat \<Rightarrow> nat" where
  "after_slash path 0 = 0"
| "after_slash path (Suc p) = (if path ! p = 47 then Suc p else after_slash path p)"

definition fmtname :: "upath \<Rightarrow> u8 list" where
  "fmtname path =
     (let p = drop (after_slash path (length path)) path in
      if 14 \<le> length p then p else p @ replicate (14 - length p) 32)"

definition ls_print :: "upath \<Rightarrow> ustat \<Rightarrow> unit prog" where
  "ls_print path st = uprintf 1 ''%s %d %d %d\<newline>'' [Str (fmtname path), Num (word_of_int (st_type st)), Num (st_ino st), Num (st_size st)]"

text \<open>One entry of a directory: the inode number and the name.\<close>

definition ls_entry :: "upath \<Rightarrow> u8 list \<Rightarrow> unit prog" where
  "ls_entry path de =
     (if de ! 0 = 0 \<and> de ! 1 = 0 then uret ()
      else
        let buf = path @ [47] @ takeWhile (\<lambda>b. b \<noteq> 0) (drop 2 de) in
        ubind (stat_path buf) (\<lambda>st.
        case st of
          None \<Rightarrow> uprintf 1 ''ls: cannot stat %s\<newline>'' [Str buf]
        | Some st \<Rightarrow> ls_print buf st))"

partial_function (option) ls_loop :: "nat \<Rightarrow> upath \<Rightarrow> unit prog" where
  "ls_loop fd path s =
     ubind (read fd 16) (\<lambda>r.
     case r of
       None \<Rightarrow> uret ()
     | Some de \<Rightarrow> if length de = 16 then useq (ls_entry path de) (ls_loop fd path) else uret ()) s"

definition ls :: "upath \<Rightarrow> unit prog" where
  "ls path =
     ubind (open_file path) (\<lambda>fd.
     case fd of
       None \<Rightarrow> uprintf 2 ''ls: cannot open %s\<newline>'' [Str path]
     | Some fd \<Rightarrow>
         ubind (fstat fd) (\<lambda>st.
         case st of
           None \<Rightarrow> useq (uprintf 2 ''ls: cannot stat %s\<newline>'' [Str path]) (close fd)
         | Some st \<Rightarrow>
             useq
               (if st_type st = 2 then ls_print path st
                else if st_type st = 1 then
                  (if length path + 1 + 14 + 1 > 512 then uprintf 1 ''ls: path too long\<newline>'' []
                   else ls_loop fd path)
                else uret ())
             (close fd)))"

primrec each_path :: "(upath \<Rightarrow> unit prog) \<Rightarrow> upath list \<Rightarrow> unit prog" where
  "each_path f [] = uexit"
| "each_path f (p # ps) = useq (f p) (each_path f ps)"

definition ls_main :: "upath list \<Rightarrow> unit prog" where
  "ls_main argv = (if length argv < 2 then useq (ls [46]) uexit else each_path ls (tl argv))"

section \<open>echo, rm, mkdir, ln and kill\<close>

primrec echo_args :: "upath list \<Rightarrow> unit prog" where
  "echo_args [] = uexit"
| "echo_args (a # as) = useq (uprintf 1 ''%s%s'' [Str a, Str (if as \<noteq> [] then [32] else [10])]) (echo_args as)"

definition echo_main :: "upath list \<Rightarrow> unit prog" where
  "echo_main argv = echo_args (tl argv)"

primrec until_failure :: "(upath \<Rightarrow> call) \<Rightarrow> string \<Rightarrow> upath list \<Rightarrow> unit prog" where
  "until_failure c msg [] = uexit"
| "until_failure c msg (p # ps) =
     ubind (perform (c p)) (\<lambda>ok. if ok then until_failure c msg ps else useq (uprintf 2 msg [Str p]) uexit)"

definition rm_main :: "upath list \<Rightarrow> unit prog" where
  "rm_main argv =
     (if length argv < 2 then useq (uprintf 2 ''Usage: rm files...\<newline>'' []) uexit
      else until_failure Unlink ''rm: %s failed to delete\<newline>'' (tl argv))"

definition mkdir_main :: "upath list \<Rightarrow> unit prog" where
  "mkdir_main argv =
     (if length argv < 2 then useq (uprintf 2 ''Usage: mkdir files...\<newline>'' []) uexit
      else until_failure Mkdir ''mkdir: %s failed to create\<newline>'' (tl argv))"

definition ln_main :: "upath list \<Rightarrow> unit prog" where
  "ln_main argv =
     (if length argv \<noteq> 3 then useq (uprintf 2 ''Usage: ln old new\<newline>'' []) uexit
      else
        ubind (perform (Link (argv ! 1) (argv ! 2))) (\<lambda>ok.
        if ok then uexit else useq (uprintf 2 ''link %s %s: failed\<newline>'' [Str (argv ! 1), Str (argv ! 2)]) uexit))"

definition kill_arg :: "upath \<Rightarrow> unit prog" where
  "kill_arg a s = Option.bind (atoi (of_string a)) (\<lambda>pid. useq (perform (Kill pid)) (uret ()) s)"

definition kill_main :: "upath list \<Rightarrow> unit prog" where
  "kill_main argv =
     (if length argv < 2 then useq (uprintf 2 ''usage: kill pid...\<newline>'' []) uexit
      else each_path kill_arg (tl argv))"

section \<open>mycat2\<close>

definition byte_read :: "u8 list option \<Rightarrow> u8 \<Rightarrow> u8" where
  "byte_read r b = (case r of Some (c # _) \<Rightarrow> c | _ \<Rightarrow> b)"

text \<open>The do-while loop over the bytes; \<open>b\<close> is the first byte of the buffer. It returns whether the last read failed.\<close>

partial_function (option) mycat2_loop :: "nat \<Rightarrow> u8 \<Rightarrow> bool prog" where
  "mycat2_loop fd b s =
     ubind (read fd 1) (\<lambda>r.
     useq (perform (Write 1 [byte_read r b]))
     (case r of
        None \<Rightarrow> uret True
      | Some cs \<Rightarrow> if cs = [] then uret False else mycat2_loop fd (byte_read r b))) s"

text \<open>The descriptor -1 is closed without effect, and \<open>main\<close> returns instead of calling \<open>exit\<close>.\<close>

definition mycat2_file :: "upath \<Rightarrow> unit prog" where
  "mycat2_file path =
     ubind (open_file path) (\<lambda>fd.
     case fd of
       None \<Rightarrow> useq (perform (Write 2 (asc ''Error Opening to file:\<newline>''))) (uret ())
     | Some fd \<Rightarrow>
         ubind (mycat2_loop fd 0) (\<lambda>failed.
         useq (if failed then perform (Write 2 (asc ''Error: Writing to file:\<newline>'' @ [0])) else uret True)
         (close fd)))"

primrec mycat2_files :: "upath list \<Rightarrow> unit prog" where
  "mycat2_files [] = uret ()"
| "mycat2_files (p # ps) = useq (mycat2_file p) (mycat2_files ps)"

definition mycat2_main :: "upath list \<Rightarrow> unit prog" where
  "mycat2_main argv =
     (if length argv \<le> 1 then useq (perform (Write 2 (asc ''Usage: <path>\<newline>''))) (uret ())
      else mycat2_files (tl argv))"

section \<open>What is printed\<close>

lemma putc_owrites: "owrites (putcFunction S_putc fd base len i c k) = owrites k @ [(fd, c)]"
  by (simp add: putcFunction_def s_putc_def)

lemma puts_putc: "fst (puts_loop S_putc fd len i cs k) = i + of_nat (length cs)" "owrites (snd (puts_loop S_putc fd len i cs k)) = owrites k @ map (Pair fd) cs"
  by (induction cs arbitrary: i k) (simp_all add: putc_owrites)

lemma printint_putc: "unat j + length cs \<le> unat len \<Longrightarrow> owrites (printint_loop S_putc fd base len j cs k) = owrites k @ map (Pair fd) cs"
proof (induction cs arbitrary: j k)
  case (Cons c cs)
  then have "unat j + 1 \<le> unat len" by simp
  then have "j < len" "unat (j + 1) = unat j + 1" using unat32_less [of len] by (simp add: word_less_nat_alt, intro unat_Suc32, linarith)
  then show ?case using Cons by (simp add: putc_owrites)
qed simp

lemma s_printint_putc:
  assumes "base = 10 \<or> base = 16" "unat i + length (render x (unat base) sg) \<le> unat len" "i \<le> len"
  shows "fst (s_printint S_putc fd (unat i) (len - i) x base sg k) = of_nat (length (render x (unat base) sg))"
    "owrites (snd (s_printint S_putc fd (unat i) (len - i) x base sg k)) = owrites k @ map (Pair fd) (render x (unat base) sg)"
proof -
  have r: "rev (s_getReverseDigits 16 x base sg) = render x (unat base) sg" by (rule s_getReverseDigits_render [OF assms(1)])
  have l: "length (s_getReverseDigits 16 x base sg) = length (render x (unat base) sg)" unfolding r [symmetric] by simp
  have "unat (len - i) = unat len - unat i" using assms(3) by (simp add: unat_sub)
  then show "fst (s_printint S_putc fd (unat i) (len - i) x base sg k) = of_nat (length (render x (unat base) sg))"
    "owrites (snd (s_printint S_putc fd (unat i) (len - i) x base sg k)) = owrites k @ map (Pair fd) (render x (unat base) sg)"
    using assms(2) by (simp_all add: s_printint_def Let_def l r printint_putc)
qed

lemma s_printf_loop_putc:
  assumes "fmt_out strs fmt st ap = Some out" "unat i + length out < unat len"
  shows "\<exists>i' k'. s_printf_loop S_putc fd len strs fmt st i ap k = Some (i', k') \<and> owrites k' = owrites k @ map (Pair fd) out"
  using assms
proof (induction fmt arbitrary: st ap out i k)
  case (Cons c fmt)
  note S = Cons.prems(2)
  have lt: "i < len" using S by (simp add: word_less_nat_alt)
  have step: ?case
    if "out = x @ r" "fmt_out strs fmt st' ap' = Some r" "owrites k'' = owrites k @ map (Pair fd) x"
      "s_printf_loop S_putc fd len strs (c # fmt) st i ap k = s_printf_loop S_putc fd len strs fmt st' (i + of_nat (length x)) ap' k''" for st' x ap' k'' r
  proof -
    have "unat (i + of_nat (length x)) = unat i + length x" 
      using S [unfolded that(1) length_append] unat32_less [of len] by (intro unat_add32) linarith
    then show ?thesis using Cons.IH [OF that(2), of "i + of_nat (length x)" k''] S that by auto
  qed
  consider (plain) "\<not> st" | (num) "st" "c \<in> {100, 120, 112}" | (str) "st" "c = 115" | (chr) "st" "c = 99" | (other) "st" "c \<notin> {100, 120, 112, 115, 99}" by auto
  then show ?case
  proof cases
    case plain
    show ?thesis
    proof (cases "c = 37")
      case True
      then show ?thesis using plain Cons.prems(1) lt by (intro step [of "[]" out True ap k]) auto
    next
      case False
      then obtain r where "out = [c] @ r" "fmt_out strs fmt False ap = Some r" using plain Cons.prems(1) by auto
      then show ?thesis using plain False lt by (intro step) (auto simp: putc_owrites)
    qed
  next
    case num
    define base :: u32 where "base = (if c = 100 then 10 else 16)"
    from num Cons.prems obtain a ap' r where o: "ap = a # ap'" "out = render a (unat base) (c = 100) @ r" "fmt_out strs fmt False ap' = Some r"
      by (auto simp: base_def split: list.splits)
    note P = s_printint_putc [of base i a "c = 100" len fd k]
    show ?thesis
      using num lt o S P by (intro step [OF o(2,3), of "snd (s_printint S_putc fd (unat i) (len - i) a base (c = 100) k)"]) (auto simp: base_def word_le_nat_alt word_less_nat_alt split: prod.splits)
  next
    case str
    with Cons.prems obtain a ap' r where o: "ap = a # ap'" "out = arg_str strs a @ r" "fmt_out strs fmt False ap' = Some r" by (auto split: list.splits)
    show ?thesis
      using str lt o(1) puts_putc [of fd len i "arg_str strs a" k] by (intro step [OF o(2,3), of "snd (puts_loop S_putc fd len i (arg_str strs a) k)"]) (auto split: prod.splits)
  next
    case chr
    with Cons.prems obtain a ap' r where o: "ap = a # ap'" "out = [ucast a] @ r" "fmt_out strs fmt False ap' = Some r" by (auto split: list.splits)
    show ?thesis using chr lt o(1) by (intro step [OF o(2,3)]) (auto simp: putc_owrites)
  next
    case other
    then obtain r where o: "out = (if c = 37 then [37] else [37, c]) @ r" "fmt_out strs fmt False ap = Some r" using Cons.prems(1) by auto
    show ?thesis
      using other lt by (intro step [OF o, of "if c = 37 then putcFunction S_putc fd 0 len i c k else putcFunction S_putc fd 0 len (i + 1) c (putcFunction S_putc fd 0 len i 37 k)"])
        (auto simp: putc_owrites add.assoc)
  qed
qed simp

lemma printf_text:
  assumes "fmt_out strs fmt False ap = Some out" "length out < 2 ^ 30 - 1"
  shows "printf fd strs fmt ap = Some (map (Pair fd) out)"
  using s_printf_loop_putc [OF assms(1), of 0 "push_bit 30 1 - 1" fd "\<lparr>obuf = \<lambda>_. 0, owrites = []\<rparr>"] assms(2)
  by (auto simp: printf_def s_printf_def)

section \<open>Reading a file to its end\<close>

text \<open>The coming reads deliver the bytes \<open>xs\<close>, in pieces, and then the end of the file.\<close>

definition delivers :: "os \<Rightarrow> nat \<Rightarrow> u8 list \<Rightarrow> bool" where
  "delivers s fd xs \<longleftrightarrow> (\<exists>p cs. ofd s fd = Some (p, map Some cs) \<and> [] \<notin> set cs \<and> concat cs = xs)"

lemma ubind_simps [simp]:
  "ubind (uret x) f s = f x s" "ubind uexit f s = Some (None, s)" "ubind (perform c) f s = f (allows s c) (s\<lparr>calls := calls s @ [c]\<rparr>)"
  by (simp_all add: ubind_def uret_def uexit_def perform_def)

lemma ubind_read: "read fd n s = Some (Some x, s') \<Longrightarrow> ubind (read fd n) f s = f x s'"
  by (simp add: ubind_def)

lemma read_delivers:
  assumes "delivers s fd xs" "0 < n"
  obtains ys zs t where "read fd n s = Some (Some (Some ys), s\<lparr>ofd := t\<rparr>)" "xs = ys @ zs" "ys \<noteq> [] \<or> xs = []" "length ys \<le> n" "delivers (s\<lparr>ofd := t\<rparr>) fd zs"
proof -
  obtain p cs where cs: "ofd s fd = Some (p, map Some cs)" "[] \<notin> set cs" "concat cs = xs" using assms(1) unfolding delivers_def by blast
  show thesis
  proof (cases cs)
    case Nil
    then show thesis using cs assms(1) by (intro that [of "[]" "ofd s" "[]"]) (simp_all add: read_def)
  next
    case (Cons c ds)
    let ?t = "(ofd s)(fd \<mapsto> (p, map Some (if length c \<le> n then ds else drop n c # ds)))"
    have "delivers (s\<lparr>ofd := ?t\<rparr>) fd (drop n c @ concat ds)" using cs(2) unfolding delivers_def Cons by (auto intro!: exI [of _ "if length c \<le> n then ds else drop n c # ds"])
    then show thesis using cs Cons assms(2) by (intro that [of "take n c" ?t "drop n c @ concat ds"]) (auto simp: read_def)
  qed
qed

lemma cat_copies:
  assumes "delivers s fd xs" "\<forall>w. allows s (Write 1 w)"
  shows "\<exists>s' ws. cat fd s = Some (Some (), s') \<and> calls s' = calls s @ map (Write 1) ws \<and> concat ws = xs \<and> delivers s' fd []"
  using assms
proof (induction "length xs" arbitrary: xs s rule: less_induct)
  case less
  obtain ys zs t where r: "read fd 512 s = Some (Some (Some ys), s\<lparr>ofd := t\<rparr>)" "xs = ys @ zs" "ys \<noteq> [] \<or> xs = []" "length ys \<le> 512"
    "delivers (s\<lparr>ofd := t\<rparr>) fd zs" by (rule read_delivers [OF less.prems(1), of 512]) (simp, rule that)
  show ?case
  proof (cases "ys = []")
    case True
    then have "cat fd s = Some (Some (), s\<lparr>ofd := t\<rparr>)" by (subst cat.simps) (simp add: ubind_read [OF r(1)] uret_def)
    moreover have "xs = []" using True r(3) by blast
    moreover have "zs = []" using r(2) calculation(2) by simp
    ultimately show ?thesis using r(5) by (intro exI [of _ "s\<lparr>ofd := t\<rparr>"] exI [of _ "[]"]) simp
  next
    case False
    let ?s = "s\<lparr>ofd := t, calls := calls s @ [Write 1 ys]\<rparr>"
    have "delivers ?s fd zs" using r(5) by (simp add: delivers_def)
    moreover have "\<forall>w. allows ?s (Write 1 w)" "length zs < length xs" using r(2) False less.prems(2) by simp_all
    ultimately obtain s' ws where c: "cat fd ?s = Some (Some (), s')" "calls s' = calls ?s @ map (Write 1) ws" "concat ws = zs" "delivers s' fd []"
      using less.hyps by blast
    have "cat fd s = Some (Some (), s')" using c(1) False less.prems(2) by (subst cat.simps) (simp add: ubind_read [OF r(1)])
    then show ?thesis using c r(2) by (intro exI [of _ s'] exI [of _ "ys # ws"]) simp
  qed
qed

section \<open>Counting\<close>

lemma wc_loop_fold:
  assumes "delivers s fd xs"
  shows "\<exists>t. wc_loop fd k s = Some (Some (foldl wc_char k xs), s\<lparr>ofd := t\<rparr>)"
  using assms
proof (induction "length xs" arbitrary: xs s k rule: less_induct)
  case less
  obtain ys zs t where r: "read fd 512 s = Some (Some (Some ys), s\<lparr>ofd := t\<rparr>)" "xs = ys @ zs" "ys \<noteq> [] \<or> xs = []" "length ys \<le> 512"
    "delivers (s\<lparr>ofd := t\<rparr>) fd zs" by (rule read_delivers [OF less.prems, of 512]) (simp, rule that)
  show ?case
  proof (cases "ys = []")
    case True
    then show ?thesis using r(3) by (subst wc_loop.simps) (intro exI [of _ t], simp add: ubind_read [OF r(1)] uret_def)
  next
    case False
    then have "length zs < length xs" using r(2) by simp
    then obtain t' where "wc_loop fd (foldl wc_char k ys) (s\<lparr>ofd := t\<rparr>) = Some (Some (foldl wc_char (foldl wc_char k ys) zs), s\<lparr>ofd := t'\<rparr>)"
      using less.hyps [OF _ r(5)] by fastforce
    then show ?thesis using False r(2) by (subst wc_loop.simps) (intro exI [of _ t'], simp add: ubind_read [OF r(1)])
  qed
qed

text \<open>A word starts at a character that is no blank, first in the text or after a blank.\<close>

definition word_starts :: "u8 list \<Rightarrow> nat set" where
  "word_starts xs = {i. i < length xs \<and> xs ! i \<notin> set blanks \<and> (i = 0 \<or> xs ! (i - 1) \<in> set blanks)}"

lemma word_starts_snoc:
  "word_starts (xs @ [b]) = (if b \<notin> set blanks \<and> (xs = [] \<or> last xs \<in> set blanks) then insert (length xs) (word_starts xs) else word_starts xs)"
proof -
  have "i \<in> word_starts (xs @ [b]) \<longleftrightarrow> i \<in> word_starts xs" if "i < length xs" for i
    using that less_imp_diff_less [OF that, of 1] by (simp add: word_starts_def nth_append)
  moreover have "length xs \<in> word_starts (xs @ [b]) \<longleftrightarrow> b \<notin> set blanks \<and> (xs = [] \<or> last xs \<in> set blanks)"
    by (cases "xs = []") (simp_all add: word_starts_def nth_append last_conv_nth)
  moreover have "i < length (xs @ [b])" if "i \<in> word_starts (xs @ [b])" for i using that by (simp add: word_starts_def)
  moreover have "i < length xs" if "i \<in> word_starts xs" for i using that by (simp add: word_starts_def)
  ultimately have "i \<in> word_starts (xs @ [b]) \<longleftrightarrow> i \<in> word_starts xs \<or> i = length xs \<and> b \<notin> set blanks \<and> (xs = [] \<or> last xs \<in> set blanks)" for i
    by (cases i "length xs" rule: linorder_cases) fastforce+
  then show ?thesis by (simp add: set_eq_iff) blast
qed

lemma strchr_blanks: "strchr (of_string blanks) b = Some None \<longleftrightarrow> b \<notin> set blanks"
proof -
  have "cstring_at (of_string blanks) 0 blanks" by (rule cstring_at_of_string) (simp add: blanks_def)
  then show ?thesis by (simp add: strchr_cstring)
qed

lemma wc_fold:
  "foldl wc_char \<lparr>lines_n = 0, words_n = 0, chars_n = 0, inword = False\<rparr> xs
   = \<lparr>lines_n = of_nat (count_list xs 10), words_n = of_nat (card (word_starts xs)), chars_n = of_nat (length xs), inword = (xs \<noteq> [] \<and> last xs \<notin> set blanks)\<rparr>"
proof (induction xs rule: rev_induct)
  case Nil
  then show ?case by (simp add: word_starts_def)
next
  case (snoc b xs)
  have "finite (word_starts xs)" "length xs \<notin> word_starts xs" "10 \<in> set blanks" by (simp_all add: word_starts_def blanks_def)
  then show ?case using snoc by (simp add: wc_char_def Let_def strchr_blanks word_starts_snoc add.commute)
qed

lemma render_nat: "n < 2 ^ 31 \<Longrightarrow> render (of_nat n) 10 True = radix 10 n"
  by (simp add: render_def sint_small)

text \<open>
  C25 wc counts a file whose bytes come in pieces of any size: it returns, having printed the number of newlines, of words and of
  bytes and the name. A word is a longest run of characters other than blanks.
\<close>

theorem wc_counts:
  assumes "delivers s fd xs" "length xs < 2 ^ 31" "length name < 2 ^ 29"
  shows "\<exists>s'. wc fd name s = Some (Some (), s')
    \<and> calls s' = calls s @ map (\<lambda>b. Write 1 [b])
        (radix 10 (count_list xs 10) @ [32] @ radix 10 (card (word_starts xs)) @ [32] @ radix 10 (length xs) @ [32] @ name @ [10])"
proof -
  let ?l = "count_list xs 10" and ?w = "card (word_starts xs)" and ?c = "length xs"
  let ?as = "[Num (of_nat ?l), Num (of_nat ?w), Num (of_nat ?c), Str name]" and ?out = "radix 10 ?l @ [32] @ radix 10 ?w @ [32] @ radix 10 ?c @ [32] @ name @ [10]"
  obtain t where t: "wc_loop fd \<lparr>lines_n = 0, words_n = 0, chars_n = 0, inword = False\<rparr> s
    = Some (Some \<lparr>lines_n = of_nat ?l, words_n = of_nat ?w, chars_n = of_nat ?c, inword = (xs \<noteq> [] \<and> last xs \<notin> set blanks)\<rparr>, s\<lparr>ofd := t\<rparr>)"
    using wc_loop_fold [OF assms(1), of "\<lparr>lines_n = 0, words_n = 0, chars_n = 0, inword = False\<rparr>"] unfolding wc_fold by blast
  have "word_starts xs \<subseteq> {..<?c}" by (auto simp: word_starts_def)
  then have "?w \<le> ?c" using card_mono [of "{..<?c}"] by fastforce
  then have n: "?l < 2 ^ 31" "?w < 2 ^ 31" using assms(2) count_le_length [of xs 10] by linarith+
  have "words_of ?as = [of_nat ?l, of_nat ?w, of_nat ?c, 4]" "strings_of ?as 4 = name" by (simp_all add: words_of_def strings_of_def upt_rec)
  then have "fmt_out (strings_of ?as) (asc ''%d %d %d %s\<newline>'') False (words_of ?as) = Some ?out"
    using n assms(2) by (simp add: asc_def arg_str_def render_nat)
  moreover have "length (radix 10 ?l) \<le> 10" "length (radix 10 ?w) \<le> 10" "length (radix 10 ?c) \<le> 10"
    using n assms(2) by (intro length_radix [of 10 _ 9, simplified], simp)+
  then have "length ?out < 2 ^ 30 - 1" using assms(3) by simp
  ultimately have "printf 1 (strings_of ?as) (asc ''%d %d %d %s\<newline>'') (words_of ?as) = Some (map (Pair 1) ?out)" by (rule printf_text)
  then show ?thesis unfolding wc_def ubind_def t by (simp add: uprintf_def)
qed

section \<open>Lines that match\<close>

text \<open>The complete lines of a text, without their newlines, and what follows the last of them.\<close>

function lines_of :: "u8 list \<Rightarrow> u8 list list" where
  "lines_of xs = (if 10 \<in> set xs then takeWhile (\<lambda>b. b \<noteq> 10) xs # lines_of (tl (dropWhile (\<lambda>b. b \<noteq> 10) xs)) else [])"
  by pat_completeness auto
termination
proof (relation "measure length")
  fix xs :: "u8 list"
  assume "10 \<in> set xs"
  then have "dropWhile (\<lambda>b. b \<noteq> 10) xs \<noteq> []" by simp
  then show "(tl (dropWhile (\<lambda>b. b \<noteq> 10) xs), xs) \<in> measure length" using length_dropWhile_le [of "\<lambda>b. b \<noteq> 10" xs] by (cases "dropWhile (\<lambda>b. b \<noteq> 10) xs") auto
qed simp

declare lines_of.simps [simp del]

definition rest_of :: "u8 list \<Rightarrow> u8 list" where
  "rest_of xs = rev (takeWhile (\<lambda>b. b \<noteq> 10) (rev xs))"

lemma split_line:
  assumes "10 \<in> set xs"
  obtains l ys where "xs = l @ 10 # ys" "10 \<notin> set l"
  using split_list_first [OF assms] by blast

lemma lines_of_line: "10 \<notin> set l \<Longrightarrow> lines_of (l @ 10 # ys) = l # lines_of ys"
proof -
  assume "10 \<notin> set l"
  then have "takeWhile (\<lambda>b. b \<noteq> 10) (l @ 10 # ys) = l" "dropWhile (\<lambda>b. b \<noteq> 10) (l @ 10 # ys) = 10 # ys"
    by (auto simp: takeWhile_append dropWhile_append)
  then show ?thesis by (subst lines_of.simps) simp
qed

lemma rest_of_line: "rest_of (l @ 10 # ys) = rest_of ys"
  by (auto simp: rest_of_def takeWhile_append takeWhile_eq_all_conv [THEN iffD2])

lemma lines_rest_none: "10 \<notin> set xs \<Longrightarrow> lines_of xs = []" "10 \<notin> set xs \<Longrightarrow> rest_of xs = xs"
  by (simp add: lines_of.simps) (auto simp: rest_of_def takeWhile_eq_all_conv rev_swap)

lemma lines_of_append: "lines_of (xs @ ys) = lines_of xs @ lines_of (rest_of xs @ ys)"
proof (induction xs rule: lines_of.induct)
  case (1 xs)
  show ?case
  proof (cases "10 \<in> set xs")
    case True
    then obtain l zs where xs: "xs = l @ 10 # zs" "10 \<notin> set l" by (rule split_line)
    then have "tl (dropWhile (\<lambda>b. b \<noteq> 10) xs) = zs" by (auto simp: dropWhile_append)
    then show ?thesis using 1 [OF True] xs by (simp add: lines_of_line rest_of_line)
  qed (simp add: lines_rest_none)
qed

lemma rest_of_append: "10 \<in> set c \<Longrightarrow> rest_of (held @ c) = rest_of c" "10 \<in> set c \<Longrightarrow> length (rest_of c) < length c"
proof -
  assume "10 \<in> set c"
  then obtain l ys where c: "c = l @ 10 # ys" by (rule split_line)
  show "rest_of (held @ c) = rest_of c" unfolding c using rest_of_line [of "held @ l" ys] by (simp add: rest_of_line)
  have "length (rest_of ys) \<le> length ys" using length_takeWhile_le [of _ "rev ys"] by (simp add: rest_of_def)
  then show "length (rest_of c) < length c" unfolding c by (simp add: rest_of_line)
qed

text \<open>The lines of a text that grep prints.\<close>

definition matching :: "u8 list \<Rightarrow> u8 list \<Rightarrow> u8 list list" where
  "matching pattern xs = filter (\<lambda>l. grep_spec (text_of pattern) (text_of l)) (lines_of xs)"

lemma grep_lines_eq:
  assumes "0 \<notin> set xs"
  shows "grep_lines pattern xs s = Some (Some (rest_of xs), s\<lparr>calls := calls s @ map (\<lambda>l. Write 1 (l @ [10])) (matching pattern xs)\<rparr>)"
  using assms
proof (induction xs arbitrary: s rule: lines_of.induct)
  case (1 xs)
  have c: "strchr (of_string xs) 10 = Some (if 10 \<in> set xs then Some (length (takeWhile (\<lambda>x. x \<noteq> 10) xs)) else None)"
    by (rule strchr_cstring [OF cstring_at_of_string [OF "1.prems"]])
  show ?case
  proof (cases "10 \<in> set xs")
    case True
    then obtain l zs where xs: "xs = l @ 10 # zs" "10 \<notin> set l" by (rule split_line)
    then have w: "takeWhile (\<lambda>b. b \<noteq> 10) xs = l" "tl (dropWhile (\<lambda>b. b \<noteq> 10) xs) = zs" by (auto simp: dropWhile_append takeWhile_append)
    have "0 \<notin> set zs" using "1.prems" xs by simp
    note IH = "1.IH" [OF True, unfolded w(2), OF this]
    show ?thesis unfolding grep_lines.simps [of pattern xs] c w(1) using True xs(2)
      by (simp add: xs(1) IH matching_def lines_of_line rest_of_line match_spec)
  next
    case False
    then show ?thesis unfolding grep_lines.simps [of pattern xs] c by (simp add: matching_def lines_rest_none uret_def)
  qed
qed

lemma grep_loop_eq:
  assumes "ofd s fd = Some (p, map Some cs)" "\<forall>c \<in> set cs. 10 \<in> set c \<and> length c \<le> 512 \<and> 0 \<notin> set c" "10 \<notin> set held" "0 \<notin> set held" "length held < 512"
  shows "\<exists>t. grep_loop pattern fd held s = Some (Some (), s\<lparr>ofd := t, calls := calls s @ map (\<lambda>l. Write 1 (l @ [10])) (matching pattern (held @ concat cs))\<rparr>)"
  using assms
proof (induction cs arbitrary: s held)
  case Nil
  then have "read fd (1024 - length held - 1) s = Some (Some (Some []), s)" by (simp add: read_def)
  then have "grep_loop pattern fd held s = Some (Some (), s)" by (subst grep_loop.simps) (simp add: ubind_read uret_def)
  then show ?case using Nil(3) by (intro exI [of _ "ofd s"]) (simp add: matching_def lines_rest_none)
next
  case (Cons c cs)
  let ?s = "s\<lparr>ofd := (ofd s)(fd \<mapsto> (p, map Some cs)), calls := calls s @ map (\<lambda>l. Write 1 (l @ [10])) (matching pattern (held @ c))\<rparr>"
  have c: "10 \<in> set c" "length c \<le> 512" "0 \<notin> set c" "c \<noteq> []" using Cons.prems(2) by auto
  have "read fd (1024 - length held - 1) s = Some (Some (Some c), s\<lparr>ofd := (ofd s)(fd \<mapsto> (p, map Some cs))\<rparr>)"
    using Cons.prems(1,5) c(2) by (simp add: read_def)
  moreover have "grep_lines pattern (held @ c) (s\<lparr>ofd := (ofd s)(fd \<mapsto> (p, map Some cs))\<rparr>) = Some (Some (rest_of c), ?s)"
    using grep_lines_eq [of "held @ c"] Cons.prems(4) c rest_of_append(1) [OF c(1)] by simp
  ultimately have "grep_loop pattern fd held s = grep_loop pattern fd (rest_of c) ?s"
    using c(4) rest_of_append(2) [OF c(1)] by (subst grep_loop.simps) (simp add: ubind_read ubind_def [of "grep_lines _ _"])
  moreover have "10 \<notin> set (rest_of c)" "0 \<notin> set (rest_of c)" using c(3) by (auto simp: rest_of_def dest: set_takeWhileD)
  then obtain t where "grep_loop pattern fd (rest_of c) ?s
    = Some (Some (), ?s\<lparr>ofd := t, calls := calls ?s @ map (\<lambda>l. Write 1 (l @ [10])) (matching pattern (rest_of c @ concat cs))\<rparr>)"
    using Cons.IH [of ?s "rest_of c"] Cons.prems(2) c(2) rest_of_append(2) [OF c(1)] by auto
  moreover have "matching pattern (held @ c @ concat cs) = matching pattern (held @ c) @ matching pattern (rest_of c @ concat cs)"
    using lines_of_append [of "held @ c" "concat cs"] rest_of_append(1) [OF c(1), of held] by (simp add: matching_def)
  ultimately show ?case by (intro exI [of _ t]) simp
qed

text \<open>
  C17 grep prints the matching lines: if each piece that the reads deliver, at most 512 bytes as from a pipe, has a newline in it and no NUL, grep
  returns, having written to its standard output exactly those complete lines, in order and each with its newline, that contain a word of the
  language the pattern denotes, respecting the anchors.
\<close>

theorem grep_prints:
  assumes "ofd s fd = Some (p, map Some cs)" "\<forall>c \<in> set cs. 10 \<in> set c \<and> length c \<le> 512 \<and> 0 \<notin> set c"
  shows "\<exists>s'. grep pattern fd s = Some (Some (), s') \<and> calls s' = calls s @ map (\<lambda>l. Write 1 (l @ [10])) (matching pattern (concat cs))"
  using grep_loop_eq [OF assms, of "[]" pattern] by (auto simp: grep_def)

text \<open>A line that comes in two pieces is lost, and so is one that the text ends with.\<close>

definition ex_os :: "u8 list list \<Rightarrow> os" where
  "ex_os cs = \<lparr>ofd = [0 \<mapsto> ([], map Some cs)], osfiles = (\<lambda>_. None), ometa = (\<lambda>_. None), allows = (\<lambda>_. True), calls = []\<rparr>"

lemma grep_loses_pieces: "map_option (calls \<circ> snd) (grep [97] 0 (ex_os [[97], [98, 10]])) = Some []"
proof -
  have r: "read 0 1023 (ex_os [[97], [98, 10]]) = Some (Some (Some [97]), ex_os [[98, 10]])" "read 0 1023 (ex_os [[98, 10]]) = Some (Some (Some [98, 10]), ex_os [])"
    "read 0 1023 (ex_os []) = Some (Some (Some []), ex_os [])" by (simp_all add: read_def ex_os_def)
  have "matching [97] [97] = []" "matching [97] [98, 10] = []" "rest_of [97] = [97]" "rest_of [98, 10] = []"
    by (simp_all add: matching_def lines_of.simps rest_of_def match_spec [symmetric] text_of_def) (simp_all add: match_def match_loop.simps matchhere.simps char_of_def)
  then have "grep_lines [97] [97] s = Some (Some [97], s)" "grep_lines [97] [98, 10] s = Some (Some [], s)" for s
    by (simp_all add: grep_lines_eq)
  then show ?thesis by (simp add: grep_def ex_os_def [symmetric] grep_loop.simps ubind_read [OF r(1)] ubind_read [OF r(2)] ubind_read [OF r(3)] ubind_def [of "grep_lines _ _"] uret_def) (simp add: ex_os_def)
qed

section \<open>mycat2\<close>

text \<open>The last byte of the file is written twice, and for an empty file a NUL is written.\<close>

lemma mycat2_repeats:
  assumes "delivers s fd xs"
  shows "\<exists>s'. mycat2_loop fd b s = Some (Some False, s') \<and> calls s' = calls s @ map (\<lambda>c. Write 1 [c]) (xs @ [last (b # xs)])"
  using assms
proof (induction "length xs" arbitrary: xs s b rule: less_induct)
  case less
  obtain ys zs t where r: "read fd 1 s = Some (Some (Some ys), s\<lparr>ofd := t\<rparr>)" "xs = ys @ zs" "ys \<noteq> [] \<or> xs = []" "length ys \<le> 1"
    "delivers (s\<lparr>ofd := t\<rparr>) fd zs" by (rule read_delivers [OF less.prems, of 1]) (simp, rule that)
  show ?case
  proof (cases ys)
    case Nil
    then have "xs = []" using r(3) by blast
    then show ?thesis using Nil unfolding mycat2_loop.simps [of fd b s] ubind_read [OF r(1)] by (simp add: byte_read_def uret_def)
  next
    case (Cons c ds)
    let ?s = "s\<lparr>ofd := t, calls := calls s @ [Write 1 [c]]\<rparr>"
    have x: "ys = [c]" "xs = c # zs" using Cons r(2,4) by auto
    have "delivers ?s fd zs" using r(5) by (simp add: delivers_def)
    then obtain s' where "mycat2_loop fd c ?s = Some (Some False, s')" "calls s' = calls ?s @ map (\<lambda>c. Write 1 [c]) (zs @ [last (c # zs)])"
      using less.hyps [of zs ?s c] x(2) by auto
    then show ?thesis using x unfolding mycat2_loop.simps [of fd b s] ubind_read [OF r(1)] by (simp add: byte_read_def)
  qed
qed

theorem wc_counts_witness:
  "\<exists>s'. wc 0 [120] (ex_os [[97], [98, 32, 99], [10]]) = Some (Some (), s')
     \<and> calls s' = map (\<lambda>b. Write 1 [b]) [49, 32, 50, 32, 53, 32, 120, 10]"
proof -
  have d: "delivers (ex_os [[97], [98, 32, 99], [10]]) 0 [97, 98, 32, 99, 10]"
    by (auto simp: delivers_def ex_os_def intro!: exI [of _ "[[97], [98, 32, 99], [10]]"])
  have "word_starts [97, 98, 32, 99, 10] = {0, 3}"
    using word_starts_snoc [of "[97, 98, 32, 99]" 10] word_starts_snoc [of "[97, 98, 32]" 99] word_starts_snoc [of "[97, 98]" 32]
      word_starts_snoc [of "[97]" 98] word_starts_snoc [of "[]" 97] by (auto simp: blanks_def word_starts_def [of "[]"])
  then have "card (word_starts [97, 98, 32, 99, 10]) = 2" by simp
  then show ?thesis using wc_counts [OF d, of "[120]"] by (simp add: ex_os_def radix.simps digit_def digits_def)
qed

theorem grep_prints_witness:
  "\<exists>s'. grep [97, 36] 0 (ex_os [[98, 97, 10, 97], [98, 10, 97]]) = Some (Some (), s') \<and> calls s' = [Write 1 [98, 97, 10]]"
proof -
  have c: "char_of (97 :: nat) = CHR ''a''" "char_of (98 :: nat) = CHR ''b''" "char_of (36 :: nat) = CHR ''$''" by (simp_all add: char_of_def bit_0)
  have "match ''a$'' ''ba''" "\<not> match ''a$'' ''ab''" by (simp_all add: match_def match_loop.simps matchhere.simps)
  then have "matching [97, 36] (concat [[98, 97, 10, 97], [98, 10, 97]]) = [[98, 97]]"
    by (simp add: matching_def lines_of.simps match_spec [symmetric] text_of_def c)
  then show ?thesis
    using grep_prints [of "ex_os [[98, 97, 10, 97], [98, 10, 97]]" 0 "[]" "[[98, 97, 10, 97], [98, 10, 97]]" "[97, 36]"] by (auto simp: ex_os_def)
qed

end
