(* ===== verification/Umalloc.thy ===== *)
theory Umalloc
  imports Prelude
begin

text \<open>
  The allocator of user programs (src/umalloc.c). The heap is a map from the address of a header to the header; addresses are
  those of C, on which arithmetic does not wrap, and sizes are unsigned integers of 32 bits, on which it does. The free list is a ring
  through the static header \<open>base\<close>. The kernel's part is the program break and whether it may be raised (\<open>ok\<close>).
  \<open>None\<close> is a loop that does not end.
\<close>

section \<open>Headers\<close>

record header =
  hptr :: nat
  hsize :: u32

record um_st =
  hdr :: "nat \<Rightarrow> header"
  freep :: nat
  brk :: nat

text \<open>The address \<open>p + p->s.size\<close>.\<close>

definition hend :: "(nat \<Rightarrow> header) \<Rightarrow> nat \<Rightarrow> nat" where
  "hend h p = p + 8 * unat (hsize (h p))"

text \<open>The argument of the system call is a signed integer: from \<open>2 ^ 31\<close> on it lowers the break.\<close>

definition sbrk :: "(nat \<Rightarrow> int \<Rightarrow> bool) \<Rightarrow> u32 \<Rightarrow> um_st \<Rightarrow> nat option \<times> um_st" where
  "sbrk ok n s = (if ok (brk s) (sint n) then (Some (brk s), s\<lparr>brk := nat (int (brk s) + sint n)\<rparr>) else (None, s))"

section \<open>Operations\<close>

partial_function (option) free_search :: "(nat \<Rightarrow> header) \<Rightarrow> nat \<Rightarrow> nat \<Rightarrow> nat option" where
  "free_search h bp p =
     (if p < bp \<and> bp < hptr (h p) then Some p
      else if hptr (h p) \<le> p \<and> (p < bp \<or> bp < hptr (h p)) then Some p
      else free_search h bp (hptr (h p)))"

definition free_upper :: "nat \<Rightarrow> nat \<Rightarrow> (nat \<Rightarrow> header) \<Rightarrow> nat \<Rightarrow> header" where
  "free_upper p bp h =
     (if hend h bp = hptr (h p) then h(bp := \<lparr>hptr = hptr (h (hptr (h p))), hsize = hsize (h bp) + hsize (h (hptr (h p)))\<rparr>)
      else h(bp := (h bp)\<lparr>hptr := hptr (h p)\<rparr>))"

definition free_lower :: "nat \<Rightarrow> nat \<Rightarrow> (nat \<Rightarrow> header) \<Rightarrow> nat \<Rightarrow> header" where
  "free_lower p bp h =
     (if hend h p = bp then h(p := \<lparr>hptr = hptr (h bp), hsize = hsize (h p) + hsize (h bp)\<rparr>)
      else h(p := (h p)\<lparr>hptr := bp\<rparr>))"

definition free :: "nat \<Rightarrow> um_st \<Rightarrow> um_st option" where
  "free ap s =
     (let bp = ap - 8 in
      case free_search (hdr s) bp (freep s) of
        None \<Rightarrow> None
      | Some p \<Rightarrow> Some (s\<lparr>hdr := free_lower p bp (free_upper p bp (hdr s)), freep := p\<rparr>))"

text \<open>The header that \<open>morecore\<close> returns, 0 if there is no more memory.\<close>

definition morecore :: "(nat \<Rightarrow> int \<Rightarrow> bool) \<Rightarrow> u32 \<Rightarrow> um_st \<Rightarrow> (nat \<times> um_st) option" where
  "morecore ok nu s =
     (let nu = (if nu < 4096 then 4096 else nu) in
      case sbrk ok (nu * 8) s of
        (None, s) \<Rightarrow> Some (0, s)
      | (Some p, s) \<Rightarrow>
          (case free (p + 8) (s\<lparr>hdr := (hdr s)(p := (hdr s p)\<lparr>hsize := nu\<rparr>)\<rparr>) of
             None \<Rightarrow> None
           | Some s \<Rightarrow> Some (freep s, s)))"

definition malloc_take :: "u32 \<Rightarrow> nat \<Rightarrow> nat \<Rightarrow> um_st \<Rightarrow> nat \<times> um_st" where
  "malloc_take nunits prevp p s =
     (if hsize (hdr s p) = nunits then
        (p + 8, s\<lparr>hdr := (hdr s)(prevp := (hdr s prevp)\<lparr>hptr := hptr (hdr s p)\<rparr>), freep := prevp\<rparr>)
      else
        let h = (hdr s)(p := (hdr s p)\<lparr>hsize := hsize (hdr s p) - nunits\<rparr>); q = hend h p in
        (q + 8, s\<lparr>hdr := h(q := (h q)\<lparr>hsize := nunits\<rparr>), freep := prevp\<rparr>))"

partial_function (option) malloc_loop :: "(nat \<Rightarrow> int \<Rightarrow> bool) \<Rightarrow> u32 \<Rightarrow> nat \<Rightarrow> nat \<Rightarrow> um_st \<Rightarrow> (nat \<times> um_st) option" where
  "malloc_loop ok nunits prevp p s =
     (if nunits \<le> hsize (hdr s p) then Some (malloc_take nunits prevp p s)
      else if p = freep s then
        Option.bind (morecore ok nunits s) (\<lambda>(p, s).
        if p = 0 then Some (0, s) else malloc_loop ok nunits p (hptr (hdr s p)) s)
      else malloc_loop ok nunits p (hptr (hdr s p)) s)"

definition nunits_of :: "u32 \<Rightarrow> u32" where
  "nunits_of nbytes = (nbytes + 8 - 1) div 8 + 1"

definition malloc :: "nat \<Rightarrow> (nat \<Rightarrow> int \<Rightarrow> bool) \<Rightarrow> u32 \<Rightarrow> um_st \<Rightarrow> (nat \<times> um_st) option" where
  "malloc base ok nbytes s =
     (let s = (if freep s = 0 then s\<lparr>hdr := (hdr s)(base := \<lparr>hptr = base, hsize = 0\<rparr>), freep := base\<rparr> else s) in
      malloc_loop ok (nunits_of nbytes) (freep s) (hptr (hdr s (freep s))) s)"

section \<open>The free list\<close>

text \<open>The headers \<open>xs\<close> follow one another from \<open>a\<close> to \<open>e\<close>; their blocks lie in ascending order from \<open>a\<close> up, with space in between.\<close>

primrec links :: "(nat \<Rightarrow> header) \<Rightarrow> nat \<Rightarrow> nat list \<Rightarrow> nat \<Rightarrow> bool" where
  "links h a [] e \<longleftrightarrow> hptr (h a) = e"
| "links h a (b # bs) e \<longleftrightarrow> hptr (h a) = b \<and> links h b bs e"

primrec spaced :: "(nat \<Rightarrow> header) \<Rightarrow> nat \<Rightarrow> nat list \<Rightarrow> nat \<Rightarrow> bool" where
  "spaced h a [] e \<longleftrightarrow> hend h a < e"
| "spaced h a (b # bs) e \<longleftrightarrow> hend h a < b \<and> 0 < hsize (h b) \<and> spaced h b bs e"

definition heap_ok :: "nat \<Rightarrow> nat list \<Rightarrow> um_st \<Rightarrow> bool" where
  "heap_ok base xs s \<longleftrightarrow> 0 < base \<and> base < brk s \<and> hsize (hdr s base) = 0 \<and> links (hdr s) base xs base \<and> spaced (hdr s) base xs (brk s + 1)
     \<and> freep s \<in> set (base # xs) \<and> brk s < 2 ^ 32"

definition free_bytes :: "nat list \<Rightarrow> um_st \<Rightarrow> nat set" where
  "free_bytes xs s = (\<Union>a \<in> set xs. {a..<hend (hdr s) a})"

lemma links_append: "links h a (us @ v # vs) e \<longleftrightarrow> links h a us v \<and> links h v vs e"
  by (induction us arbitrary: a) auto

lemma links_upd: "b \<notin> set (a # xs) \<Longrightarrow> links (h(b := x)) a xs e = links h a xs e"
  by (induction xs arbitrary: a) auto

lemma spaced_upd: "b \<notin> set (a # xs) \<Longrightarrow> spaced (h(b := x)) a xs e = spaced h a xs e"
  by (induction xs arbitrary: a) (auto simp: hend_def)

lemma spaced_append: "spaced h a (us @ v # vs) e \<longleftrightarrow> spaced h a us v \<and> 0 < hsize (h v) \<and> spaced h v vs e"
  by (induction us arbitrary: a) auto

lemma hend_ge: "p \<le> hend h p" "0 < hsize (h p) \<Longrightarrow> p < hend h p"
  by (simp_all add: hend_def unat_gt_0)

lemma spaced_end: "spaced h a xs e \<Longrightarrow> hend h a < e"
proof (induction xs arbitrary: a)
  case (Cons b xs)
  then have "hend h b < e" by simp
  then show ?case using Cons.prems hend_ge(1) [of b h] by simp
qed simp

lemma spaced_mem:
  assumes "spaced h a xs e" "b \<in> set xs"
  shows "hend h a < b" "0 < hsize (h b)" "hend h b < e"
proof -
  obtain us vs where "xs = us @ b # vs" using assms(2) by (meson split_list)
  then have "spaced h a us b" "0 < hsize (h b)" "spaced h b vs e" using assms(1) by (simp_all add: spaced_append)
  then show "hend h a < b" "0 < hsize (h b)" "hend h b < e" by (simp_all add: spaced_end)
qed

lemma spaced_sorted: "spaced h a xs e \<Longrightarrow> sorted_wrt (<) (a # xs)"
proof (induction xs arbitrary: a)
  case (Cons b xs)
  then have "a < b" "sorted_wrt (<) (b # xs)" using hend_ge(1) [of a h] by auto
  then show ?case by auto
qed simp

text \<open>The search of \<open>free\<close> ends at the last header below the block.\<close>

lemma search_below:
  assumes "links h a us w" "sorted_wrt (<) (a # us)" "\<forall>u \<in> set (a # us). u < bp" "bp < w \<or> w \<le> a"
  shows "free_search h bp a = Some (last (a # us))"
  using assms
proof (induction us arbitrary: a)
  case Nil
  then show ?case by (subst free_search.simps) auto
next
  case (Cons b us)
  then have "free_search h bp b = Some (last (b # us))" by (intro Cons.IH) auto
  then show ?case using Cons.prems by (subst free_search.simps) auto
qed

lemma search_above:
  assumes "links h a us base" "sorted_wrt (<) (a # us)" "\<forall>u \<in> set (a # us). bp < u" "base < bp"
  shows "free_search h bp a = free_search h bp base"
  using assms
proof (induction us arbitrary: a)
  case Nil
  then show ?case by (subst free_search.simps) auto
next
  case (Cons b us)
  then have "free_search h bp b = free_search h bp base" by (intro Cons.IH) auto
  then show ?case using Cons.prems by (subst free_search.simps) auto
qed

lemma search_ring:
  assumes l: "links h base (us @ vs) base" and srt: "sorted_wrt (<) (base # us @ vs)" and b: "base < bp" "\<forall>u \<in> set us. u < bp" "\<forall>v \<in> set vs. bp < v"
    and st: "st \<in> set (base # us @ vs)"
  shows "free_search h bp st = Some (last (base # us))"
proof -
  have w: "\<exists>w. links h base us w \<and> (bp < w \<or> w = base)" using l b(3) by (cases vs) (auto simp: links_append)
  then obtain w where w: "links h base us w" "bp < w \<or> w = base" by blast
  have low: "free_search h bp a = Some (last (base # us))" if mem: "a \<in> set (base # us)" for a
  proof -
    obtain u1 u2 where s: "base # us = u1 @ a # u2" using mem by (meson split_list)
    have "links h a u2 w" using w(1) s by (cases u1) (auto simp: links_append)
    moreover have "sorted_wrt (<) (a # u2)" "\<forall>u \<in> set (a # u2). u < bp" "w \<le> a \<or> bp < w"
      using srt s b(1,2) w(2) by (cases u1; auto simp: sorted_wrt_append)+
    ultimately have "free_search h bp a = Some (last (a # u2))" by (intro search_below) auto
    then show ?thesis by (simp add: s)
  qed
  show ?thesis
  proof (cases "st \<in> set (base # us)")
    case False
    then obtain v1 v2 where v: "vs = v1 @ st # v2" using st by (auto dest: split_list)
    then have "links h st v2 base" using l links_append [of h base "us @ v1" st v2 base] by simp
    then have "free_search h bp st = free_search h bp base" using srt b v by (intro search_above) (auto simp: sorted_wrt_append)
    then show ?thesis using low [of base] by simp
  qed (rule low)
qed

section \<open>Giving a block back\<close>

text \<open>A block that is not in the free list.\<close>

definition taken_block :: "nat \<Rightarrow> nat list \<Rightarrow> um_st \<Rightarrow> nat \<Rightarrow> bool" where
  "taken_block base xs s bp \<longleftrightarrow> base < bp \<and> 0 < hsize (hdr s bp) \<and> hend (hdr s) bp \<le> brk s
     \<and> {bp..<hend (hdr s) bp} \<inter> free_bytes xs s = {}"

lemma filter_split: "sorted_wrt (<) xs \<Longrightarrow> filter (\<lambda>a. a < n) xs @ filter (\<lambda>a. \<not> a < n) xs = xs" for n :: nat
proof (induction xs)
  case (Cons a xs)
  moreover have "filter (\<lambda>a. a < n) xs = []" if "\<not> a < n" using Cons.prems that by (auto simp: filter_empty_conv)
  ultimately show ?case by auto
qed simp

lemma taken_split:
  assumes "heap_ok base xs s" "taken_block base xs s bp"
  obtains us vs where "xs = us @ vs" "\<forall>u \<in> set us. u < bp \<and> hend (hdr s) u \<le> bp" "\<forall>v \<in> set vs. bp < v \<and> hend (hdr s) bp \<le> v"
proof
  let ?h = "hdr s"
  have sp: "spaced ?h base xs (brk s + 1)" using assms(1) by (simp add: heap_ok_def)
  have b: "bp < hend ?h bp" using assms(2) by (simp add: taken_block_def hend_ge)
  have d: "a < bp \<and> hend ?h a \<le> bp \<or> bp < a \<and> hend ?h bp \<le> a" if "a \<in> set xs" for a
  proof -
    have "{bp..<hend ?h bp} \<inter> {a..<hend ?h a} = {}" using assms(2) that unfolding taken_block_def free_bytes_def by blast
    moreover have "a < hend ?h a" using spaced_mem(2) [OF sp that] by (rule hend_ge)
    ultimately have "hend ?h a \<le> bp \<or> hend ?h bp \<le> a" using b by (auto simp: Int_atLeastLessThan)
    then show ?thesis using b \<open>a < hend ?h a\<close> by linarith
  qed
  show "xs = filter (\<lambda>a. a < bp) xs @ filter (\<lambda>a. \<not> a < bp) xs" using filter_split spaced_sorted [OF sp] by simp
  show "\<forall>u \<in> set (filter (\<lambda>a. a < bp) xs). u < bp \<and> hend ?h u \<le> bp" using d by fastforce
  show "\<forall>v \<in> set (filter (\<lambda>a. \<not> a < bp) xs). bp < v \<and> hend ?h bp \<le> v" using d by fastforce
qed

lemma links_start:
  assumes "links h v vs e" "hptr (h' b) = hptr (h v)" "\<forall>a \<in> set vs. h' a = h a"
  shows "links h' b vs e"
proof -
  have "links h' a xs e = links h a xs e" if "\<forall>c \<in> set (a # xs). h' c = h c" for a xs using that by (induction xs arbitrary: a) auto
  then show ?thesis using assms by (cases vs) auto
qed

lemma spaced_le:
  assumes "spaced h v vs e" "hend h' b \<le> hend h v" "\<forall>a \<in> set vs. h' a = h a"
  shows "spaced h' b vs e"
proof -
  have "spaced h' a xs e = spaced h a xs e" if "\<forall>c \<in> set (a # xs). h' c = h c" for a xs using that by (induction xs arbitrary: a) (auto simp: hend_def)
  then show ?thesis using assms by (cases vs) auto
qed

lemmas spaced_start = spaced_le [OF _ eq_refl]

lemma spaced_sizes: "(\<And>c. hsize (h' c) = hsize (h c)) \<Longrightarrow> spaced h' a xs e = spaced h a xs e"
  by (induction xs arbitrary: a) (simp_all add: hend_def)

lemma hend_join:
  assumes "hend h a = b" "hend h b \<le> 2 ^ 32" "hsize (h' a) = hsize (h a) + hsize (h b)"
  shows "hend h' a = hend h b"
proof -
  have "unat (hsize (h a)) + unat (hsize (h b)) < 2 ^ 32" using assms(1,2) by (simp add: hend_def)
  then show ?thesis using assms(1,3) by (simp add: hend_def unat_plus_simple [THEN iffD1] no_olen_add_nat)
qed

text \<open>Joining the block with the one above it.\<close>

lemma upper_ok:
  assumes l: "hptr (h p) = hd (vs @ [base])" "vs \<noteq> [] \<Longrightarrow> links h (hd vs) (tl vs) base \<and> 0 < hsize (h (hd vs)) \<and> spaced h (hd vs) (tl vs) e"
    and b: "0 < hsize (h bp)" "hend h bp < e" "\<forall>v \<in> set vs. bp < v \<and> hend h bp \<le> v" "base < bp" "e \<le> 2 ^ 32"
  defines "vs' \<equiv> (if vs \<noteq> [] \<and> hend h bp = hd vs then tl vs else vs)" and "h' \<equiv> free_upper p bp h"
  shows "links h' bp vs' base" "spaced h' bp vs' e" "0 < hsize (h' bp)" "\<And>a. a \<noteq> bp \<Longrightarrow> h' a = h a"
    "(\<Union>a \<in> set (bp # vs'). {a..<hend h' a}) = (\<Union>a \<in> set (bp # vs). {a..<hend h a})"
proof -
  show o: "\<And>a. a \<noteq> bp \<Longrightarrow> h' a = h a" by (simp add: h'_def free_upper_def)
  have "links h' bp vs' base \<and> spaced h' bp vs' e \<and> 0 < hsize (h' bp)
    \<and> (\<Union>a \<in> set (bp # vs'). {a..<hend h' a}) = (\<Union>a \<in> set (bp # vs). {a..<hend h a})"
  proof (cases "vs \<noteq> [] \<and> hend h bp = hd vs")
    case True
    then obtain v vt where v: "vs = v # vt" "hend h bp = v" by (cases vs) auto
    have x: "h' bp = \<lparr>hptr = hptr (h v), hsize = hsize (h bp) + hsize (h v)\<rparr>" "vs' = vt" using v l(1) by (simp_all add: h'_def free_upper_def vs'_def)
    have L: "links h v vt base" "spaced h v vt e" using l(2) v(1) by simp_all
    have "hend h v \<le> 2 ^ 32" using spaced_end [OF L(2)] b(5) by simp
    then have j: "hend h' bp = hend h v" using hend_join [of h bp v h'] v(2) x(1) by simp
    have s: "\<forall>a \<in> set vt. h' a = h a" using b(3) v(1) o by auto
    have "links h' bp vt base" by (rule links_start [OF L(1) _ s]) (simp add: x)
    moreover have "spaced h' bp vt e" by (rule spaced_start [OF L(2) j s])
    moreover have "bp < hend h bp" "v \<le> hend h v" using b(1) by (simp_all add: hend_ge)
    moreover have "0 < hsize (h' bp)" using j \<open>bp < hend h bp\<close> \<open>v \<le> hend h v\<close> v(2) by (cases "hsize (h' bp) = 0") (auto simp: hend_def word_gt_0)
    moreover have "(\<Union>a \<in> set vt. {a..<hend h' a}) = (\<Union>a \<in> set vt. {a..<hend h a})" using s by (simp add: hend_def)
    ultimately show ?thesis using v(2) ivl_disj_un_two(3) [of bp v "hend h v"] by (simp add: x(2) v(1) j Un_assoc [symmetric])
  next
    case False
    then have x: "h' bp = (h bp)\<lparr>hptr := hd (vs @ [base])\<rparr>" "vs' = vs" using l(1) b(4) hend_ge(1) [of bp h] by (cases vs; simp add: h'_def free_upper_def vs'_def)+
    have e: "hend h' a = hend h a" for a using x(1) o by (cases "a = bp") (simp_all add: hend_def)
    have s: "\<forall>a \<in> set vs. h' a = h a" using b(3) o by auto
    have "links h' bp vs base \<and> spaced h' bp vs e"
    proof (cases vs)
      case (Cons v vt)
      then have L: "links h v vt base" "spaced h v vt e" "0 < hsize (h v)" using l(2) by simp_all
      have "links h' v vt base" by (rule links_start [OF L(1)]) (use s Cons in auto)
      moreover have "spaced h' v vt e" by (rule spaced_start [OF L(2) e]) (use s Cons in auto)
      moreover have "hend h bp < v" using False b(3) Cons by fastforce
      ultimately show ?thesis using x(1) Cons L(3) s by (simp add: e)
    qed (use x b(2) e in simp)
    then show ?thesis using x b(1) by (simp add: e)
  qed
  then show "links h' bp vs' base" "spaced h' bp vs' e" "0 < hsize (h' bp)" 
    "(\<Union>a \<in> set (bp # vs'). {a..<hend h' a}) = (\<Union>a \<in> set (bp # vs). {a..<hend h a})" by simp_all
qed

text \<open>Joining it with the one below.\<close>

lemma links_last:
  assumes "links h a us w" "distinct (a # us)" "hptr x = w'"
  shows "links (h(last (a # us) := x)) a us w'"
  using assms
proof (induction us arbitrary: a)
  case (Cons b us)
  have "links (h(last (b # us) := x)) b us w'" by (rule Cons.IH) (use Cons.prems in auto)
  moreover have "last (b # us) \<noteq> a" using Cons.prems(2) last_in_set [of "b # us"] by auto
  moreover have "last (a # b # us) = last (b # us)" by simp
  ultimately show ?case using Cons.prems(1) by (simp del: last.simps fun_upd_apply add: fun_upd_other)
qed simp

lemma links_lastD: "links h a us w \<Longrightarrow> hptr (h (last (a # us))) = w"
  by (induction us arbitrary: a) auto

lemma spaced_lastD: "spaced h a us e \<Longrightarrow> hend h (last (a # us)) < e"
  by (induction us arbitrary: a) auto

lemma spaced_last: "spaced h a us e \<Longrightarrow> hend h (last (a # us)) < e' \<Longrightarrow> spaced h a us e'"
  by (induction us arbitrary: a) (auto split: if_splits)

lemma lower_ok:
  assumes l: "links h base us w" "spaced h base us (bp + 1)" "hsize (h base) = 0" "base < bp" "\<forall>u \<in> set us. u < bp"
    and b: "links h bp vs base" "spaced h bp vs e" "0 < hsize (h bp)" "e \<le> 2 ^ 32"
  defines "p \<equiv> last (base # us)"
  defines "us' \<equiv> (if hend h p = bp then us else us @ [bp])" and "h' \<equiv> free_lower p bp h"
  shows "links h' base (us' @ vs) base" "spaced h' base (us' @ vs) e" "hsize (h' base) = 0" "p \<in> set (base # us' @ vs)" "\<And>a. a \<noteq> p \<Longrightarrow> h' a = h a"
    "(\<Union>a \<in> set (us' @ vs). {a..<hend h' a}) = (\<Union>a \<in> set (us @ bp # vs). {a..<hend h a})"
proof -
  show o: "\<And>a. a \<noteq> p \<Longrightarrow> h' a = h a" by (simp add: h'_def free_lower_def)
  have p: "p \<in> set (base # us)" unfolding p_def by (rule last_in_set) simp
  then show "p \<in> set (base # us' @ vs)" by (auto simp: us'_def)
  have lt: "p < bp" "\<forall>v \<in> set vs. bp < v" using p l(4,5) spaced_sorted [OF b(2)] by auto
  then have s: "\<forall>a \<in> set vs. h' a = h a" "h' bp = h bp" using o by auto
  have "links h' base (us' @ vs) base \<and> spaced h' base (us' @ vs) e \<and> hsize (h' base) = 0
    \<and> (\<Union>a \<in> set (us' @ vs). {a..<hend h' a}) = (\<Union>a \<in> set (us @ bp # vs). {a..<hend h a})"
  proof (cases "hend h p = bp")
    case True
    then have "p \<noteq> base" using l(3,4) by (auto simp: hend_def)
    then obtain u0 where u: "us = u0 @ [p]" using p_def by (cases us rule: rev_cases) auto
    have x: "h' p = \<lparr>hptr = hptr (h bp), hsize = hsize (h p) + hsize (h bp)\<rparr>" "us' = us" using True by (simp_all add: h'_def free_lower_def us'_def)
    have nb: "p \<notin> set (base # u0)" using spaced_sorted [OF l(2)] u \<open>p \<noteq> base\<close> by (auto simp: sorted_wrt_append)
    then have s0: "\<forall>a \<in> set (base # u0). h' a = h a" using o by metis
    have j: "hend h' p = hend h bp" using hend_join [of h p bp h'] True spaced_end [OF b(2)] b(4) x(1) by simp
    have "links h' base u0 p" "spaced h' base u0 p" using l(1,2) s0 u links_start [of h base u0 p h' base] spaced_start [of h base u0 p h' base]
      by (auto simp: links_append spaced_append hend_def)
    moreover have "links h' p vs base" by (rule links_start [OF b(1) _ s(1)]) (simp add: x)
    moreover have "spaced h' p vs e" by (rule spaced_start [OF b(2) j s(1)])
    moreover have "0 < hsize (h' p)" using j b(3) lt hend_ge(1) [of bp h] by (cases "hsize (h' p) = 0") (auto simp: hend_def word_gt_0)
    moreover have "(\<Union>a \<in> set u0. {a..<hend h' a}) = (\<Union>a \<in> set u0. {a..<hend h a})" "(\<Union>a \<in> set vs. {a..<hend h' a}) = (\<Union>a \<in> set vs. {a..<hend h a})"
      using s s0 by (simp_all add: hend_def)
    moreover have "{p..<hend h' p} = {p..<hend h p} \<union> {bp..<hend h bp}" unfolding j True using lt(1) hend_ge(1) [of bp h] by auto
    ultimately show ?thesis using s0 l(3) by (simp add: links_append spaced_append u x(2) Un_ac)
  next
    case False
    then have x: "h' = h(p := (h p)\<lparr>hptr := bp\<rparr>)" "us' = us @ [bp]" by (simp_all add: h'_def free_lower_def us'_def)
    have e: "hend h' a = hend h a" "hsize (h' a) = hsize (h a)" for a by (simp_all add: x(1) hend_def)
    have "links h' base us bp" unfolding x(1) p_def by (rule links_last [OF l(1)]) (use strict_sorted_iff spaced_sorted [OF l(2)] in auto)
    moreover have "spaced h base us bp" using spaced_last [OF l(2)] spaced_lastD [OF l(2)] False by (simp add: p_def)
    then have "spaced h' base us bp" using spaced_sizes [of h' h] e(2) by simp
    moreover have "links h' bp vs base" by (rule links_start [OF b(1)]) (use s in auto)
    moreover have "spaced h' bp vs e" by (rule spaced_start [OF b(2) e(1) s(1)])
    ultimately show ?thesis using b(3) l(3) by (simp add: links_append spaced_append x(2) e)
  qed
  then show "links h' base (us' @ vs) base" "spaced h' base (us' @ vs) e" "hsize (h' base) = 0"
    "(\<Union>a \<in> set (us' @ vs). {a..<hend h' a}) = (\<Union>a \<in> set (us @ bp # vs). {a..<hend h a})" by blast+
qed

lemma free_ok:
  assumes H: "heap_ok base xs s" and T: "taken_block base xs s bp"
  obtains xs' s' where "free (bp + 8) s = Some s'" "heap_ok base xs' s'" "free_bytes xs' s' = free_bytes xs s \<union> {bp..<hend (hdr s) bp}" "brk s' = brk s"
    "\<And>a. a \<notin> insert bp (set (base # xs)) \<Longrightarrow> hdr s' a = hdr s a"
proof -
  let ?h = "hdr s"
  obtain us vs where x: "xs = us @ vs" "\<forall>u \<in> set us. u < bp \<and> hend ?h u \<le> bp" "\<forall>v \<in> set vs. bp < v \<and> hend ?h bp \<le> v"
    by (rule taken_split [OF H T]) (rule that)
  have k: "0 < base" "hsize (?h base) = 0" "links ?h base xs base" "spaced ?h base xs (brk s + 1)" "freep s \<in> set (base # xs)" "brk s < 2 ^ 32"
    using H by (simp_all add: heap_ok_def)
  have t: "base < bp" "0 < hsize (?h bp)" "hend ?h bp < brk s + 1" using T by (simp_all add: taken_block_def)
  let ?p = "last (base # us)"
  have f: "free_search ?h bp (freep s) = Some ?p"
    by (rule search_ring [of ?h base us vs]) (use k spaced_sorted [OF k(4)] x t in auto)
  let ?w = "hd (vs @ [base])"
  have u: "links ?h base us ?w" "\<exists>e. spaced ?h base us e" using k(3,4) x(1) by (cases vs; auto simp: links_append spaced_append)+
  have p: "?p \<in> set (base # us)" by (rule last_in_set) simp
  then have "hend ?h ?p < bp + 1" using x(2) t(1) k(2) by (auto simp: hend_def)
  then have us: "spaced ?h base us (bp + 1)" using u(2) spaced_last by blast
  have v: "vs \<noteq> [] \<Longrightarrow> links ?h (hd vs) (tl vs) base \<and> 0 < hsize (?h (hd vs)) \<and> spaced ?h (hd vs) (tl vs) (brk s + 1)"
    using k(3,4) x(1) by (cases vs) (auto simp: links_append spaced_append)
  have e32: "brk s + 1 \<le> 2 ^ 32" using k(6) by simp
  define h1 where "h1 = free_upper ?p bp ?h"
  obtain vs' where U: "links h1 bp vs' base" "spaced h1 bp vs' (brk s + 1)" "0 < hsize (h1 bp)" "\<And>a. a \<noteq> bp \<Longrightarrow> h1 a = ?h a"
    "(\<Union>a \<in> set (bp # vs'). {a..<hend h1 a}) = (\<Union>a \<in> set (bp # vs). {a..<hend ?h a})"
    using upper_ok [OF links_lastD [OF u(1)] v t(2,3) x(3) t(1) e32, folded h1_def] by (rule that)
  have s1: "\<forall>a \<in> set us. h1 a = ?h a" "h1 base = ?h base" using U(4) x(2) t(1) by auto
  have l1: "links h1 base us ?w" "spaced h1 base us (bp + 1)" "hsize (h1 base) = 0" "\<forall>u \<in> set us. u < bp"
    using links_start [OF u(1) _ s1(1), of base] spaced_start [OF us _ s1(1), of base] s1(2) k(2) x(2) by (simp_all add: hend_def)
  define h2 where "h2 = free_lower ?p bp h1"
  obtain us' where L: "links h2 base (us' @ vs') base" "spaced h2 base (us' @ vs') (brk s + 1)" "hsize (h2 base) = 0" "?p \<in> set (base # us' @ vs')"
    "\<And>a. a \<noteq> ?p \<Longrightarrow> h2 a = h1 a" "(\<Union>a \<in> set (us' @ vs'). {a..<hend h2 a}) = (\<Union>a \<in> set (us @ bp # vs'). {a..<hend h1 a})"
    using lower_ok [OF l1(1-3) t(1) l1(4) U(1-3) e32, folded h2_def] by (rule that)
  let ?s = "s\<lparr>hdr := h2, freep := ?p\<rparr>"
  show thesis
  proof
    show "free (bp + 8) s = Some ?s" using f by (simp add: free_def h2_def h1_def)
    show "heap_ok base (us' @ vs') ?s" using L(1-4) k(1,6) H by (simp add: heap_ok_def)
    have "free_bytes (us' @ vs') ?s = (\<Union>a \<in> set (us @ bp # vs'). {a..<hend h1 a})" using L(6) by (simp add: free_bytes_def)
    also have "\<dots> = (\<Union>a \<in> set us. {a..<hend h1 a}) \<union> (\<Union>a \<in> set (bp # vs'). {a..<hend h1 a})" by (simp only: set_append UN_Un)
    also have "(\<Union>a \<in> set us. {a..<hend h1 a}) = (\<Union>a \<in> set us. {a..<hend ?h a})" using s1(1) by (simp add: hend_def)
    finally show "free_bytes (us' @ vs') ?s = free_bytes xs s \<union> {bp..<hend ?h bp}" unfolding U(5) by (simp add: free_bytes_def x(1) Un_ac)
    show "hdr ?s a = ?h a" if "a \<notin> insert bp (set (base # xs))" for a
    proof -
      have "a \<noteq> ?p" "a \<noteq> bp" using that p x(1) by auto
      then show ?thesis using L(5) U(4) by simp
    qed
  qed simp
qed

section \<open>Taking a block\<close>

lemma heap_okD:
  assumes "heap_ok base xs s"
  shows "0 < base" "base < brk s" "hsize (hdr s base) = 0" "links (hdr s) base xs base" "spaced (hdr s) base xs (brk s + 1)" "freep s \<in> set (base # xs)"
    "brk s < 2 ^ 32" "sorted_wrt (<) (base # xs)" "distinct (base # xs)"
  using assms spaced_sorted [of "hdr s" base xs] strict_sorted_iff [of "base # xs"] by (auto simp: heap_ok_def)

lemma ring_pred:
  assumes H: "heap_ok base xs s" and x: "xs = us @ p # vs" and q: "q \<in> set (base # xs)" "hptr (hdr s q) = p"
  shows "q = last (base # us)"
proof -
  note D = heap_okD [OF H]
  obtain a1 a2 where a: "base # xs = a1 @ q # a2" using q(1) by (meson split_list)
  have l: "links (hdr s) q a2 base" using D(4) a by (cases a1) (auto simp: links_append)
  have "p \<noteq> base" using D(9) x by auto
  then obtain a3 where a3: "a2 = p # a3" using l q(2) by (cases a2) auto
  have "(base # us) @ p # vs = (a1 @ [q]) @ p # a3" using a a3 x by simp
  moreover have "p \<notin> set (base # us)" "p \<notin> set vs" using D(9) x by auto
  ultimately have "base # us = a1 @ [q]" using append_Cons_eq_iff [of p "base # us" vs] by blast
  then show ?thesis by (metis last_snoc)
qed

lemma free_bytes_split:
  assumes "spaced (hdr s) base (us @ p # vs) e"
  shows "free_bytes (us @ p # vs) s = free_bytes (us @ vs) s \<union> {p..<hend (hdr s) p}" "free_bytes (us @ vs) s \<inter> {p..<hend (hdr s) p} = {}"
proof -
  have s: "spaced (hdr s) base us p" "spaced (hdr s) p vs e" using assms by (simp_all add: spaced_append)
  show "free_bytes (us @ p # vs) s = free_bytes (us @ vs) s \<union> {p..<hend (hdr s) p}" by (simp add: free_bytes_def Un_ac)
  show "free_bytes (us @ vs) s \<inter> {p..<hend (hdr s) p} = {}"
    using spaced_mem(3) [OF s(1)] spaced_mem(1) [OF s(2)] by (fastforce simp: free_bytes_def)
qed

text \<open>A part of one free block is taken, from its end.\<close>

definition took :: "nat \<Rightarrow> nat list \<Rightarrow> um_st \<Rightarrow> u32 \<Rightarrow> nat \<Rightarrow> nat list \<Rightarrow> um_st \<Rightarrow> bool" where
  "took base xs s n q xs' s' \<longleftrightarrow> heap_ok base xs' s' \<and> brk s' = brk s \<and> hsize (hdr s' q) = n \<and> base < q
     \<and> {q..<hend (hdr s') q} \<subseteq> free_bytes xs s \<and> free_bytes xs' s' = free_bytes xs s - {q..<hend (hdr s') q}
     \<and> (\<forall>a. a \<notin> insert q (set (base # xs)) \<longrightarrow> hdr s' a = hdr s a)"

lemma take_exact:
  assumes H: "heap_ok base xs s" and x: "xs = us @ p # vs" and n: "hsize (hdr s p) = n" "0 < n" and q: "q = last (base # us)"
    and s': "s' = s\<lparr>hdr := (hdr s)(q := (hdr s q)\<lparr>hptr := hptr (hdr s p)\<rparr>), freep := q\<rparr>"
  shows "took base xs s n p (us @ vs) s'"
proof -
  note D = heap_okD [OF H]
  let ?h = "hdr s"
  have m: "q \<in> set (base # us)" unfolding q by (rule last_in_set) simp
  have s: "spaced ?h base us p" "spaced ?h p vs (brk s + 1)" "links ?h base us p" "links ?h p vs base"
    using D(4,5) x by (simp_all add: spaced_append links_append)
  have pne: "p \<noteq> q" "base < p" "\<forall>v \<in> set vs. v \<noteq> q" using m D(8,9) x by auto
  have sz: "hsize (hdr s' a) = hsize (?h a)" and f: "hptr (hdr s' a) = (if a = q then hptr (?h p) else hptr (?h a))" for a by (simp_all add: s')
  have e: "hend (hdr s') = hend ?h" by (simp add: hend_def fun_eq_iff sz)
  have l: "links (hdr s') base us (hptr (?h p))" using links_last [OF s(3), of "(?h q)\<lparr>hptr := hptr (?h p)\<rparr>" "hptr (?h p)"] D(9) by (simp add: x s' q)
  have pe: "p \<le> hend ?h p" by (rule hend_ge)
  have "links (hdr s') base (us @ vs) base \<and> spaced ?h base (us @ vs) (brk s + 1)"
  proof (cases vs)
    case Nil
    then show ?thesis using l s(2,4) spaced_last [OF s(1)] spaced_lastD [OF s(1)] pe by simp
  next
    case (Cons v vt)
    have "links (hdr s') v vt base" by (rule links_start [where h = ?h and v = v]) (use s(4) Cons pne(3) s' in auto)
    moreover have "spaced ?h base us v" using spaced_last [OF s(1)] spaced_lastD [OF s(1)] pe s(2) Cons by simp
    ultimately show ?thesis using l s(2,4) Cons by (simp add: links_append spaced_append)
  qed
  then have "heap_ok base (us @ vs) s'" using D m spaced_sizes [of "hdr s'" ?h, OF sz] sz by (auto simp: heap_ok_def s')
  moreover have "free_bytes (us @ vs) s' = free_bytes (us @ vs) s" by (simp add: free_bytes_def e)
  moreover have "hdr s' a = ?h a" if "a \<notin> insert p (set (base # xs))" for a using that m by (auto simp: s' x)
  moreover have "brk s' = brk s" by (simp add: s')
  moreover note free_bytes_split [OF D(5) [unfolded x]]
  ultimately show ?thesis unfolding took_def e x using n pne sz by auto
qed

lemma take_part:
  assumes H: "heap_ok base xs s" and x: "xs = us @ p # vs" and n: "n < hsize (hdr s p)" "0 < n" and f: "f \<in> set (base # xs)"
    and h1: "h1 = (hdr s)(p := (hdr s p)\<lparr>hsize := hsize (hdr s p) - n\<rparr>)" "q = hend h1 p"
    and s': "s' = s\<lparr>hdr := h1(q := (h1 q)\<lparr>hsize := n\<rparr>), freep := f\<rparr>"
  shows "took base xs s n q xs s'"
proof -
  note D = heap_okD [OF H]
  let ?h = "hdr s"
  have u: "unat (hsize (?h p) - n) = unat (hsize (?h p)) - unat n" "unat n < unat (hsize (?h p))" "0 < unat n"
    using n unat_sub [of n "hsize (?h p)"] by (simp_all add: word_less_nat_alt word_le_nat_alt)
  then have q: "p < q" "q + 8 * unat n = hend ?h p" by (simp_all add: h1 hend_def)
  have s: "spaced ?h base us p" "spaced ?h p vs (brk s + 1)" "links ?h base us p" "links ?h p vs base" using D(4,5) x by (simp_all add: spaced_append links_append)
  have v: "q < v" if "v \<in> set vs" for v using spaced_mem(1) [OF s(2) that] q(2) by simp
  have qn: "q \<notin> set (base # xs)" using D(8) q(1) v by (auto simp: x sorted_wrt_append)
  have h': "hdr s' a = ?h a" if "a \<noteq> p" "a \<noteq> q" for a using that by (simp add: s' h1)
  have hp: "hptr (hdr s' p) = hptr (?h p)" "hend (hdr s') p = q" "hend (hdr s') q = hend ?h p" "hsize (hdr s' q) = n"
    using q by (simp_all add: s' hend_def h1(1)) (simp_all add: h1 hend_def)
  have us: "\<forall>a \<in> set (base # us). hdr s' a = ?h a" "\<forall>a \<in> set vs. hdr s' a = ?h a" using D(9) qn x by (auto intro!: h')
  have "links (hdr s') base us p" "spaced (hdr s') base us p"
    using links_start [OF s(3), of "hdr s'" base] spaced_start [OF s(1), of "hdr s'" base] us(1) by (simp_all add: hend_def)
  moreover have "links (hdr s') p vs base" by (rule links_start [OF s(4) hp(1) us(2)])
  moreover have "spaced (hdr s') p vs (brk s + 1)" by (rule spaced_le [OF s(2) _ us(2)]) (use hp(2) q(2) in simp)
  moreover have "0 < hsize (hdr s' p)" using hp(2) q(1) by (cases "hsize (hdr s' p) = 0") (auto simp: hend_def word_gt_0)
  ultimately have "heap_ok base xs s'" using D us f by (simp add: heap_ok_def x links_append spaced_append s')
  moreover have "free_bytes (us @ vs) s' = free_bytes (us @ vs) s" using us by (simp add: free_bytes_def hend_def)
  then have "free_bytes xs s' = free_bytes (us @ vs) s \<union> {p..<q}" using hp(2) by (simp add: free_bytes_def x Un_ac)
  moreover note free_bytes_split [OF D(5) [unfolded x], folded x]
  moreover have "{p..<hend ?h p} = {p..<q} \<union> {q..<hend ?h p}" using q by auto
  moreover have "hdr s' a = ?h a" if "a \<notin> insert q (set (base # xs))" for a using that h' by (auto simp: x)
  moreover have "brk s' = brk s" by (simp add: s')
  ultimately show ?thesis unfolding took_def hp using q(1) D(8) by (auto simp: x)
qed

lemma take_ok:
  assumes H: "heap_ok base xs s" and q: "q \<in> set (base # xs)" "hptr (hdr s q) = p" and n: "n \<le> hsize (hdr s p)" "0 < n"
  obtains xs' r s' where "malloc_take n q p s = (r + 8, s')" "took base xs s n r xs' s'"
proof -
  note D = heap_okD [OF H]
  have "p \<in> set (base # xs)"
  proof -
    obtain a1 a2 where a: "base # xs = a1 @ q # a2" using q(1) by (meson split_list)
    then have "links (hdr s) q a2 base" using D(4) by (cases a1) (auto simp: links_append)
    then have "p = base \<or> p \<in> set (a1 @ q # a2)" using q(2) by (cases a2) auto
    then show ?thesis unfolding a [symmetric] by auto
  qed
  then have "p \<in> set xs" using n D(3) by auto
  then obtain us vs where x: "xs = us @ p # vs" by (meson split_list)
  show thesis
  proof (cases "hsize (hdr s p) = n")
    case True
    show thesis by (rule that [OF _ take_exact [OF H x True n(2) ring_pred [OF H x q] refl]]) (simp add: malloc_take_def True)
  next
    case False
    then have "n < hsize (hdr s p)" using n by simp
    note T = take_part [OF H x this n(2) q(1) refl refl refl]
    show thesis by (rule that [OF _ T]) (use False in \<open>simp add: malloc_take_def Let_def\<close>)
  qed
qed

section \<open>The search of malloc\<close>

text \<open>The ring, read from any of its headers on.\<close>

lemma ring_from:
  assumes H: "heap_ok base xs s" and f: "f \<in> set (base # xs)"
  obtains ws where "links (hdr s) f ws f" "f \<notin> set ws" "set (f # ws) = set (base # xs)"
proof (cases "f = base")
  case True
  then show thesis using that [of xs] heap_okD [OF H] by simp
next
  case False
  then obtain us vs where x: "xs = us @ f # vs" using f by (auto dest: split_list)
  then have "links (hdr s) f (vs @ base # us) f" using heap_okD(4) [OF H] by (simp add: links_append)
  then show thesis using that [of "vs @ base # us"] heap_okD(9) [OF H] x by auto
qed

lemma loop_finds:
  assumes "links (hdr s) q ws (freep s)" "freep s \<notin> set ws" "\<exists>a \<in> set (ws @ [freep s]). n \<le> hsize (hdr s a)"
  shows "\<exists>q' p. malloc_loop ok n q (hptr (hdr s q)) s = Some (malloc_take n q' p s) \<and> q' \<in> set (q # ws) \<and> hptr (hdr s q') = p \<and> n \<le> hsize (hdr s p)"
  using assms
proof (induction ws arbitrary: q)
  case Nil
  then show ?case by (subst malloc_loop.simps) auto
next
  case (Cons w ws)
  show ?case
  proof (cases "n \<le> hsize (hdr s w)")
    case True
    then show ?thesis using Cons.prems by (subst malloc_loop.simps) auto
  next
    case False
    then obtain q' p where "malloc_loop ok n w (hptr (hdr s w)) s = Some (malloc_take n q' p s)" "q' \<in> set (w # ws)" "hptr (hdr s q') = p" "n \<le> hsize (hdr s p)"
      using Cons.IH [of w] Cons.prems by auto
    moreover have "malloc_loop ok n q (hptr (hdr s q)) s = malloc_loop ok n w (hptr (hdr s w)) s"
      using Cons.prems False by (subst malloc_loop.simps) auto
    ultimately show ?thesis by auto
  qed
qed

lemma loop_misses:
  assumes "links (hdr s) q ws (freep s)" "freep s \<notin> set ws" "\<forall>a \<in> set (ws @ [freep s]). \<not> n \<le> hsize (hdr s a)"
  shows "malloc_loop ok n q (hptr (hdr s q)) s = Option.bind (morecore ok n s) (\<lambda>(p, s).
        if p = 0 then Some (0, s) else malloc_loop ok n p (hptr (hdr s p)) s)"
  using assms
proof (induction ws arbitrary: q)
  case Nil
  then show ?case by (subst malloc_loop.simps) auto
next
  case (Cons w ws)
  then have "malloc_loop ok n q (hptr (hdr s q)) s = malloc_loop ok n w (hptr (hdr s w)) s" by (subst malloc_loop.simps) auto
  then show ?case using Cons.IH [of w] Cons.prems by simp
qed

text \<open>A piece of free memory is a part of one block, as no two of them meet.\<close>

lemma one_block:
  assumes H: "heap_ok base xs s" and F: "{b..<b + 8 * m} \<subseteq> free_bytes xs s" "0 < m"
  shows "\<exists>a \<in> set xs. m \<le> unat (hsize (hdr s a))"
proof -
  let ?h = "hdr s"
  note D = heap_okD [OF H]
  have "b \<in> free_bytes xs s" using F by auto
  then obtain a where a: "a \<in> set xs" "a \<le> b" "b < hend ?h a" by (auto simp: free_bytes_def)
  obtain us vs where x: "xs = us @ a # vs" using a(1) by (meson split_list)
  have s: "spaced ?h base us a" "spaced ?h a vs (brk s + 1)" using D(5) x by (simp_all add: spaced_append)
  have "\<not> hend ?h a < b + 8 * m"
  proof
    assume "hend ?h a < b + 8 * m"
    then have "hend ?h a \<in> free_bytes xs s" using F a(3) by auto
    then obtain c where c: "c \<in> set xs" "c \<le> hend ?h a" "hend ?h a < hend ?h c" by (auto simp: free_bytes_def)
    then have "c \<in> set us \<or> c \<in> set vs" using x by auto
    then show False using spaced_mem(3) [OF s(1), of c] spaced_mem(1) [OF s(2), of c] c a by auto
  qed
  then have "m \<le> unat (hsize (?h a))" using a(2) by (simp add: hend_def)
  then show ?thesis using a(1) by blast
qed

section \<open>Properties\<close>

lemma morecore_ok:
  assumes H: "heap_ok base xs s" and ok: "\<And>b n. ok b n \<Longrightarrow> int b + n < 2 ^ 32" and n: "0 < n" "unat n < 2 ^ 28"
  obtains "morecore ok n s = Some (0, s)" "\<not> ok (brk s) (int (8 * max 4096 (unat n)))"
  | xs' s' m where "morecore ok n s = Some (freep s', s')" "heap_ok base xs' s'" "unat n \<le> m" "brk s' = brk s + 8 * m"
      "free_bytes xs' s' = free_bytes xs s \<union> {brk s..<brk s'}" "\<And>a. a < brk s \<Longrightarrow> a \<notin> set (base # xs) \<Longrightarrow> hdr s' a = hdr s a"
proof -
  note D = heap_okD [OF H]
  define nu where "nu = (if n < 4096 then 4096 else n)"
  have nu: "unat n \<le> unat nu" "unat nu < 2 ^ 28" "0 < unat nu" using n by (auto simp: nu_def word_less_nat_alt)
  then have "unat (nu * 8) = 8 * unat nu" by (simp add: unat_word_ariths)
  moreover have "sint (nu * 8) = int (unat (nu * 8))" using nu(2) calculation
    by (intro sint_small) simp
  ultimately have m8: "sint (nu * 8) = int (8 * unat nu)" by simp
  have raised: "nat (int (brk s) + int (8 * unat nu)) = brk s + 8 * unat nu" by linarith
  show thesis
  proof (cases "ok (brk s) (int (8 * unat nu))")
    case False
    moreover have "unat nu = max 4096 (unat n)" by (auto simp: nu_def word_less_nat_alt)
    ultimately show thesis using that(1) by (simp add: morecore_def sbrk_def m8 flip: nu_def)
  next
    case True
    let ?p = "brk s" and ?s = "s\<lparr>brk := brk s + 8 * unat nu, hdr := (hdr s)(brk s := (hdr s (brk s))\<lparr>hsize := nu\<rparr>)\<rparr>"
    have lt: "a < ?p" if "a \<in> set xs" for a
      using spaced_mem(3) [OF D(5) that] hend_ge(2) [of "hdr s" a] spaced_mem(2) [OF D(5) that] by linarith
    then have same: "\<forall>a \<in> set xs. hdr ?s a = hdr s a" "hdr ?s base = hdr s base" using D(2) by auto
    have fb: "free_bytes xs ?s = free_bytes xs s" using same(1) by (simp add: free_bytes_def hend_def)
    have "links (hdr ?s) base xs base" by (rule links_start [OF D(4) _ same(1)]) (simp add: same(2))
    moreover have "spaced (hdr ?s) base xs (brk s + 1)" by (rule spaced_start [OF D(5) _ same(1)]) (simp only: hend_def same(2))
    then have "spaced (hdr ?s) base xs (brk ?s + 1)" by (rule spaced_last) (use spaced_lastD \<open>spaced (hdr ?s) base xs (brk s + 1)\<close> in fastforce)
    moreover have b32: "brk s + 8 * unat nu < 2 ^ 32" using ok [OF True] by (simp del: of_nat_unat)
    ultimately have "heap_ok base xs ?s" unfolding heap_ok_def using D b32 same(2) by simp
    moreover have "free_bytes xs s \<subseteq> {..<?p}" using spaced_mem(3) [OF D(5)] by (fastforce simp: free_bytes_def)
    then have "taken_block base xs ?s ?p" unfolding taken_block_def fb using D(2) nu(3) by (auto simp: hend_def word_gt_0)
    ultimately obtain xs' s' where F: "free (?p + 8) ?s = Some s'" "heap_ok base xs' s'" "free_bytes xs' s' = free_bytes xs ?s \<union> {?p..<hend (hdr ?s) ?p}"
      "brk s' = brk ?s" "\<And>a. a \<notin> insert ?p (set (base # xs)) \<Longrightarrow> hdr s' a = hdr ?s a" by (rule free_ok) (rule that)
    show thesis
    proof (rule that(2) [of s' xs' "unat nu"])
      show "morecore ok n s = Some (freep s', s')" using True F(1) by (simp add: morecore_def sbrk_def m8 raised del: of_nat_mult flip: nu_def)
      show "free_bytes xs' s' = free_bytes xs s \<union> {brk s..<brk s'}" using F(3,4) fb by (simp add: hend_def)
      show "hdr s' a = hdr s a" if "a < brk s" "a \<notin> set (base # xs)" for a using F(5) [of a] that by simp
    qed (use F nu in simp_all)
  qed
qed

text \<open>
  Whether the list is set up yet or not.
\<close>

definition heap_state :: "nat \<Rightarrow> nat list \<Rightarrow> um_st \<Rightarrow> bool" where
  "heap_state base xs s \<longleftrightarrow> heap_ok base xs s \<or> freep s = 0 \<and> xs = [] \<and> 0 < base \<and> base < brk s \<and> brk s < 2 ^ 32"

lemma nunits_bytes:
  assumes "unat nbytes \<le> 2 ^ 30"
  shows "unat (nunits_of nbytes) = (unat nbytes + 7) div 8 + 1"
proof -
  have "unat (nbytes + 8 - 1) = unat nbytes + 7" using assms by (simp add: unat_word_ariths)
  then show ?thesis using assms by (simp add: nunits_of_def unat_word_ariths unat_div)
qed

lemma malloc_loop_ok:
  assumes H: "heap_ok base xs s" and ok: "\<And>b n. ok b n \<Longrightarrow> int b + n < 2 ^ 32" and n: "0 < n" "unat n < 2 ^ 28"
  obtains s' where "malloc_loop ok n (freep s) (hptr (hdr s (freep s))) s = Some (0, s')" "s' = s"
      "\<not> ok (brk s) (int (8 * max 4096 (unat n)))" "\<forall>a \<in> set xs. hsize (hdr s a) < n"
  | xs1 s1 q xs' s' where "malloc_loop ok n (freep s) (hptr (hdr s (freep s))) s = Some (q + 8, s')" "took base xs1 s1 n q xs' s'" "heap_ok base xs1 s1" "brk s \<le> brk s1"
      "free_bytes xs1 s1 = free_bytes xs s \<union> {brk s..<brk s1}" "\<And>a. a < brk s \<Longrightarrow> a \<notin> set (base # xs) \<Longrightarrow> hdr s1 a = hdr s a"
proof -
  note D = heap_okD [OF H] and result = that
  obtain ws where w: "links (hdr s) (freep s) ws (freep s)" "freep s \<notin> set ws" "set (freep s # ws) = set (base # xs)" using ring_from [OF H D(6)] .
  have found: thesis if t: "heap_ok base xs1 t" "\<exists>a \<in> set (base # xs1). n \<le> hsize (hdr t a)" "brk s \<le> brk t" "free_bytes xs1 t = free_bytes xs s \<union> {brk s..<brk t}"
    "\<And>a. a < brk s \<Longrightarrow> a \<notin> set (base # xs) \<Longrightarrow> hdr t a = hdr s a"
    "malloc_loop ok n (freep s) (hptr (hdr s (freep s))) s = malloc_loop ok n (freep t) (hptr (hdr t (freep t))) t" for xs1 t
  proof -
    obtain ws where w: "links (hdr t) (freep t) ws (freep t)" "freep t \<notin> set ws" "set (freep t # ws) = set (base # xs1)"
      using ring_from [OF t(1) heap_okD(6) [OF t(1)]] .
    then have "\<exists>a \<in> set (ws @ [freep t]). n \<le> hsize (hdr t a)" using t(2) by auto
    then obtain q p where q: "malloc_loop ok n (freep t) (hptr (hdr t (freep t))) t = Some (malloc_take n q p t)" "q \<in> set (base # xs1)" "hptr (hdr t q) = p" "n \<le> hsize (hdr t p)"
      using loop_finds [OF w(1,2)] w(3) by metis
    obtain xs' r s' where r: "malloc_take n q p t = (r + 8, s')" "took base xs1 t n r xs' s'" by (rule take_ok [OF t(1) q(2-4) n(1)])
    show thesis by (rule result(2) [OF _ r(2) t(1,3-5)]) (use t(6) q(1) r(1) in simp)
  qed
  show thesis
  proof (cases "\<exists>a \<in> set (base # xs). n \<le> hsize (hdr s a)")
    case True
    then show thesis by (intro found [OF H]) simp_all
  next
    case False
    then have m: "\<forall>a \<in> set (ws @ [freep s]). \<not> n \<le> hsize (hdr s a)" using w(3) by auto
    note L = loop_misses [OF w(1,2) m, of ok]
    show thesis
    proof (rule morecore_ok [OF H ok n])
      assume "morecore ok n s = Some (0, s)" "\<not> ok (brk s) (int (8 * max 4096 (unat n)))"
      then show thesis using result(1) L False by (simp add: not_le)
    next
      fix xs' s' k
      assume a: "morecore ok n s = Some (freep s', s')" "heap_ok base xs' s'" "unat n \<le> k" "brk s' = brk s + 8 * k"
        "free_bytes xs' s' = free_bytes xs s \<union> {brk s..<brk s'}" "\<And>a. a < brk s \<Longrightarrow> a \<notin> set (base # xs) \<Longrightarrow> hdr s' a = hdr s a"
      have "0 < k" using a(3) n(1) by (cases k) (auto simp: word_gt_0 unat_eq_0)
      then obtain b where b: "b \<in> set xs'" "k \<le> unat (hsize (hdr s' b))" using one_block [OF a(2), of "brk s" k] a(4,5) by auto
      have "n \<le> hsize (hdr s' b)" using b(2) a(3) by (simp add: word_le_nat_alt)
      then have "\<exists>a \<in> set (base # xs'). n \<le> hsize (hdr s' a)" using b(1) by auto
      moreover have "freep s' \<noteq> 0" using heap_okD(1,6,8) [OF a(2)] by auto
      ultimately show thesis using L a by (intro found [OF a(2)]) simp_all
    qed
  qed
qed

lemma heap_members:
  assumes "heap_ok base xs s"
  shows "freep s \<noteq> 0" "a \<in> set xs \<Longrightarrow> a \<in> free_bytes xs s"
proof -
  note D = heap_okD [OF assms]
  show "freep s \<noteq> 0" using D(1,6,8) by auto
  show "a \<in> set xs \<Longrightarrow> a \<in> free_bytes xs s" using hend_ge(2) [of "hdr s" a] spaced_mem(2) [OF D(5), of a] by (auto simp: free_bytes_def)
qed

lemma malloc_start:
  assumes "heap_state base xs s"
  obtains t where "malloc base ok nbytes s = malloc_loop ok (nunits_of nbytes) (freep t) (hptr (hdr t (freep t))) t" "heap_ok base xs t"
    "free_bytes xs t = free_bytes xs s" "brk t = brk s" "\<And>a. a \<noteq> base \<Longrightarrow> hdr t a = hdr s a"
proof (cases "freep s = 0")
  case True
  let ?t = "s\<lparr>hdr := (hdr s)(base := \<lparr>hptr = base, hsize = 0\<rparr>), freep := base\<rparr>"
  have "xs = []" "0 < base" "base < brk s" "brk s < 2 ^ 32" using True assms heap_members(1) [of base xs s] by (auto simp: heap_state_def)
  then show thesis by (intro that [of ?t]) (simp_all add: True malloc_def heap_ok_def hend_def free_bytes_def)
next
  case False
  then show thesis using assms by (intro that [of s]) (auto simp: heap_state_def malloc_def)
qed

text \<open>
  C15 \<open>malloc\<close> of at most \<open>2 ^ 30\<close> bytes always returns. It returns 0 only if no free block has room for the bytes and a header and the kernel refuses to
  raise the break by what \<open>morecore\<close> asks for (the units needed, but at least 4096), and then nothing has changed in the free list; otherwise it
  returns a block with room for the bytes asked for, which was free, or comes from the memory the break was raised by, and is no longer
  free. Headers of blocks in use are left alone, and the free list is a ring of blocks in ascending order again, no two of which meet.
\<close>

theorem malloc_allocates:
  assumes "heap_state base xs s" "\<And>b n. ok b n \<Longrightarrow> int b + n < 2 ^ 32" "unat nbytes \<le> 2 ^ 30"
  shows "(\<exists>s'. malloc base ok nbytes s = Some (0, s') \<and> \<not> ok (brk s) (int (8 * max 4096 ((unat nbytes + 7) div 8 + 1)))
         \<and> (\<forall>a \<in> set xs. hend (hdr s) a < a + 8 + unat nbytes)
         \<and> heap_ok base xs s' \<and> free_bytes xs s' = free_bytes xs s \<and> brk s' = brk s)
    \<or> (\<exists>q xs' s'. malloc base ok nbytes s = Some (q + 8, s') \<and> heap_ok base xs' s' \<and> base < q \<and> q + 8 + unat nbytes \<le> hend (hdr s') q
         \<and> {q..<hend (hdr s') q} \<subseteq> free_bytes xs s \<union> {brk s..<brk s'}
         \<and> free_bytes xs' s' = free_bytes xs s \<union> {brk s..<brk s'} - {q..<hend (hdr s') q}
         \<and> (\<forall>a < brk s. a \<notin> insert q (set (base # xs)) \<and> a \<notin> free_bytes xs s \<longrightarrow> hdr s' a = hdr s a))"
proof -
  let ?n = "nunits_of nbytes"
  have u: "unat ?n = (unat nbytes + 7) div 8 + 1" by (rule nunits_bytes [OF assms(3)])
  then have n: "0 < ?n" "unat ?n < 2 ^ 28" using assms(3) by (auto simp: word_gt_0)
  obtain t where t: "malloc base ok nbytes s = malloc_loop ok ?n (freep t) (hptr (hdr t (freep t))) t" "heap_ok base xs t"
    "free_bytes xs t = free_bytes xs s" "brk t = brk s" "\<And>a. a \<noteq> base \<Longrightarrow> hdr t a = hdr s a" by (rule malloc_start [OF assms(1)]) (rule that)
  show ?thesis
  proof (rule malloc_loop_ok [OF t(2) assms(2) n])
    fix s'
    assume r: "malloc_loop ok ?n (freep t) (hptr (hdr t (freep t))) t = Some (0, s')" "s' = t"
      "\<not> ok (brk t) (int (8 * max 4096 (unat ?n)))" "\<forall>a \<in> set xs. hsize (hdr t a) < ?n"
    have "hend (hdr s) a < a + 8 + unat nbytes" if "a \<in> set xs" for a
    proof -
      have "a \<noteq> base" using spaced_mem(1) [OF heap_okD(5) [OF t(2)] that] hend_ge(1) [of base "hdr t"] by auto
      moreover have "unat (hsize (hdr t a)) \<le> (unat nbytes + 7) div 8" using r(4) that u by (auto simp: word_less_nat_alt)
      ultimately show ?thesis using t(5) [of a] by (simp add: hend_def)
    qed
    then show ?thesis using t(1-4) r(1-3) u by auto
  next
    fix xs1 s1 q xs' s'
    assume r: "malloc_loop ok ?n (freep t) (hptr (hdr t (freep t))) t = Some (q + 8, s')" "took base xs1 s1 ?n q xs' s'" "heap_ok base xs1 s1" "brk t \<le> brk s1"
      "free_bytes xs1 s1 = free_bytes xs t \<union> {brk t..<brk s1}" "\<And>a. a < brk t \<Longrightarrow> a \<notin> set (base # xs) \<Longrightarrow> hdr s1 a = hdr t a"
    note T = r(2) [unfolded took_def]
    have x: "a \<notin> set xs1" if "a < brk s" "a \<notin> free_bytes xs s" for a using that heap_members(2) [OF r(3), of a] r(5) t(3,4) by auto
    have "q + 8 + unat nbytes \<le> hend (hdr s') q" using T u by (simp add: hend_def)
    moreover have "hdr s' a = hdr s a" if "a < brk s" "a \<notin> insert q (set (base # xs))" "a \<notin> free_bytes xs s" for a
      using T x [OF that(1,3)] r(6) [of a] t(4,5) that by auto
    ultimately show ?thesis using T r(1,5) t(1,3,4) by auto
  qed
qed

text \<open>
  C21 \<open>free\<close> of a block in use always returns. The bytes of the block, its header included, are added to the free ones, and
  nothing else is: the block is joined with free blocks that meet it, so that the list is a ring of blocks in ascending order again, no two of which
  meet. Headers of other blocks in use are left alone.
\<close>

theorem free_frees:
  assumes "heap_ok base xs s" "taken_block base xs s bp"
  shows "\<exists>xs' s'. free (bp + 8) s = Some s' \<and> heap_ok base xs' s' \<and> free_bytes xs' s' = free_bytes xs s \<union> {bp..<hend (hdr s) bp} \<and> brk s' = brk s
    \<and> (\<forall>a. a \<notin> insert bp (set (base # xs)) \<longrightarrow> hdr s' a = hdr s a)"
  by (rule free_ok [OF assms]) blast

definition ex_um :: um_st where
  "ex_um = \<lparr>hdr = (\<lambda>_. \<lparr>hptr = 0, hsize = 0\<rparr>), freep = 0, brk = 4096\<rparr>"

lemma ex_malloc: "\<exists>s'. malloc 16 (\<lambda>b n. int b + n < 2 ^ 20) 10 ex_um = Some (36848, s')"
proof -
  have n: "nunits_of 10 = 3" by (simp add: nunits_of_def)
  let ?t = "ex_um\<lparr>hdr := (hdr ex_um)(16 := \<lparr>hptr = 16, hsize = 0\<rparr>), freep := 16\<rparr>"
  let ?h = "(hdr ?t)(4096 := \<lparr>hptr = 16, hsize = 4096\<rparr>, 16 := \<lparr>hptr = 4096, hsize = 0\<rparr>)"
  have "free_search ((hdr ?t)(4096 := \<lparr>hptr = 0, hsize = 4096\<rparr>)) 4096 16 = Some 16" by (subst free_search.simps) simp
  then have "morecore (\<lambda>b n. int b + n < 2 ^ 20) 3 ?t = Some (16, ?t\<lparr>brk := 36864, hdr := ?h\<rparr>)"
    by (simp add: morecore_def sbrk_def free_def free_upper_def free_lower_def ex_um_def hend_def fun_upd_twist)
  then show ?thesis
    using n by (simp add: malloc_def ex_um_def) (subst malloc_loop.simps, simp, subst malloc_loop.simps, simp add: malloc_take_def hend_def)
qed

theorem malloc_allocates_witness:
  "\<exists>s' xs'. malloc 16 (\<lambda>b n. int b + n < 2 ^ 20) 10 ex_um = Some (36848, s') \<and> heap_ok 16 xs' s' \<and> 36858 \<le> hend (hdr s') 36840
     \<and> free_bytes xs' s' = {4096..<brk s'} - {36840..<hend (hdr s') 36840}"
proof -
  obtain t where t: "malloc 16 (\<lambda>b n. int b + n < 2 ^ 20) 10 ex_um = Some (36848, t)" using ex_malloc by blast
  have "heap_state 16 [] ex_um" "unat (10 :: u32) \<le> 2 ^ 30" by (simp_all add: heap_state_def ex_um_def)
  note M = malloc_allocates [OF this(1) _ this(2), of "\<lambda>b n. int b + n < 2 ^ 20", unfolded t]
  have "free_bytes [] ex_um = {}" "brk ex_um = 4096" by (simp_all add: free_bytes_def ex_um_def)
  then show ?thesis using M t by auto
qed

definition ex_heap :: um_st where
  "ex_heap = \<lparr>hdr = (\<lambda>_. \<lparr>hptr = 0, hsize = 0\<rparr>)(16 := \<lparr>hptr = 32, hsize = 0\<rparr>, 32 := \<lparr>hptr = 16, hsize = 2\<rparr>, 48 := \<lparr>hptr = 0, hsize = 3\<rparr>), freep = 32, brk = 128\<rparr>"

theorem free_frees_witness:
  "\<exists>xs' s'. free (48 + 8) ex_heap = Some s' \<and> heap_ok 16 xs' s' \<and> free_bytes xs' s' = {32..<72}"
proof -
  have h: "heap_ok 16 [32] ex_heap" "taken_block 16 [32] ex_heap 48" by (simp_all add: heap_ok_def taken_block_def ex_heap_def hend_def free_bytes_def)
  have "free_bytes [32] ex_heap \<union> {48..<hend (hdr ex_heap) 48} = {32..<72}" by (auto simp: ex_heap_def free_bytes_def hend_def)
  then show ?thesis using free_frees [OF h] by auto
qed

end
