(* ===== verification/Spinlock.thy ===== *)
theory Spinlock
  imports Prelude
begin

text \<open>
  Spin locks and the interrupt flag (src/spinlock.c, \<open>mycpu\<close> of src/proc.c), on a machine with
  several processors. The operations are written for the processor \<open>c\<close> that runs them; the
  step relation at the end interleaves the processors at the grain of the atomic exchange and of
  the single stores of \<open>acquire\<close> and \<open>release\<close>.
\<close>

section \<open>Processors and locks\<close>

text \<open>
  \<open>struct cpu\<close>, as far as locking uses it; \<open>flag_IF\<close> is the FL_IF bit of the processor's eflags. \<open>ncli\<close> counts the locks a processor holds, so
  that the limit of the C type is out of reach.
\<close>

record cpu =
  apicid :: u8
  ncli :: int
  intena :: bool
  flag_IF :: bool

record spinlock =
  locked :: bool
  cpu :: "nat option"
  pcs :: "u32 list"

record 'l machine =
  ncpu :: nat
  cpus :: "nat \<Rightarrow> cpu"
  lk :: "'l \<Rightarrow> spinlock"

definition initlock :: "'l \<Rightarrow> (unit, 'l machine) kop" where
  "initlock l = modify (\<lambda>s. s\<lparr>lk := (lk s)(l := (lk s l)\<lparr>locked := False, cpu := None\<rparr>)\<rparr>)"

definition upd_cpu :: "nat \<Rightarrow> (cpu \<Rightarrow> cpu) \<Rightarrow> 'l machine \<Rightarrow> 'l machine" where
  "upd_cpu c f s = s\<lparr>cpus := (cpus s)(c := f (cpus s c))\<rparr>"

definition upd_lk :: "'l \<Rightarrow> (spinlock \<Rightarrow> spinlock) \<Rightarrow> 'l machine \<Rightarrow> 'l machine" where
  "upd_lk l f s = s\<lparr>lk := (lk s)(l := f (lk s l))\<rparr>"

text \<open>The search of \<open>mycpu\<close> for the processor whose APIC id is that of the running one.\<close>

definition find_cpu :: "'l machine \<Rightarrow> u8 \<Rightarrow> nat option" where
  "find_cpu s a = find (\<lambda>i. apicid (cpus s i) = a) [0..<ncpu s]"

definition mycpu :: "nat \<Rightarrow> (nat, 'l machine) kop" where
  "mycpu c s =
     (if flag_IF (cpus s c) then Panic ''mycpu called with interrupts enabled\<newline>''
      else case find_cpu s (apicid (cpus s c)) of Some i \<Rightarrow> Ok i s | None \<Rightarrow> Panic ''unknown apicid\<newline>'')"

section \<open>Disabling interrupts\<close>

definition pushcli :: "nat \<Rightarrow> (unit, 'l machine) kop" where
  "pushcli c =
     bind (gets (\<lambda>s. flag_IF (cpus s c))) (\<lambda>eflags.
     seq (modify (upd_cpu c (\<lambda>x. x\<lparr>flag_IF := False\<rparr>)))
     (bind (mycpu c) (\<lambda>i.
     seq (modify (\<lambda>s. if ncli (cpus s i) = 0 then upd_cpu i (\<lambda>x. x\<lparr>intena := eflags\<rparr>) s else s))
     (modify (upd_cpu i (\<lambda>x. x\<lparr>ncli := ncli x + 1\<rparr>))))))"

definition popcli :: "nat \<Rightarrow> (unit, 'l machine) kop" where
  "popcli c =
     bind (gets (\<lambda>s. flag_IF (cpus s c))) (\<lambda>iflag.
     if iflag then panic ''popcli - interruptible''
     else bind (mycpu c) (\<lambda>i.
       seq (modify (upd_cpu i (\<lambda>x. x\<lparr>ncli := ncli x - 1\<rparr>)))
       (bind (gets (\<lambda>s. cpus s i)) (\<lambda>x.
       if ncli x < 0 then panic ''popcli''
       else if ncli x = 0 \<and> intena x then modify (upd_cpu c (\<lambda>x. x\<lparr>flag_IF := True\<rparr>))
       else skip))))"

section \<open>Locks\<close>

definition holding :: "nat \<Rightarrow> 'l \<Rightarrow> (bool, 'l machine) kop" where
  "holding c l =
     seq (pushcli c)
     (bind (mycpu c) (\<lambda>i.
     bind (gets (\<lambda>s. locked (lk s l) \<and> cpu (lk s l) = Some i)) (\<lambda>r.
     seq (popcli c) (ret r))))"

text \<open>\<open>acquire\<close> up to its spin loop, one turn of the loop, and what follows it.\<close>

definition acquire_begin :: "nat \<Rightarrow> 'l \<Rightarrow> (unit, 'l machine) kop" where
  "acquire_begin c l =
     seq (pushcli c)
     (bind (holding c l) (\<lambda>h. if h then panic ''acquire'' else skip))"

definition xchg :: "'l \<Rightarrow> (bool, 'l machine) kop" where
  "xchg l = bind (gets (\<lambda>s. locked (lk s l))) (\<lambda>old.
     seq (modify (upd_lk l (\<lambda>x. x\<lparr>locked := True\<rparr>))) (ret old))"

definition acquire_end :: "nat \<Rightarrow> 'l \<Rightarrow> u32 list \<Rightarrow> (unit, 'l machine) kop" where
  "acquire_end c l callers =
     bind (mycpu c) (\<lambda>i. modify (upd_lk l (\<lambda>x. x\<lparr>cpu := Some i, pcs := callers\<rparr>)))"

text \<open>\<open>release\<close> up to the barrier, and the store that frees the lock with the \<open>popcli\<close> after it.\<close>

definition release_begin :: "nat \<Rightarrow> 'l \<Rightarrow> (unit, 'l machine) kop" where
  "release_begin c l =
     bind (holding c l) (\<lambda>h.
     if \<not> h then panic ''release''
     else modify (upd_lk l (\<lambda>x. x\<lparr>pcs := (pcs x)[0 := 0], cpu := None\<rparr>)))"

definition release_end :: "nat \<Rightarrow> 'l \<Rightarrow> (unit, 'l machine) kop" where
  "release_end c l =
     seq (modify (upd_lk l (\<lambda>x. x\<lparr>locked := False\<rparr>))) (popcli c)"

definition spin_release :: "nat \<Rightarrow> 'l \<Rightarrow> (unit, 'l machine) kop" where
  "spin_release c l = seq (release_begin c l) (release_end c l)"

text \<open>
  \<open>getcallerpcs\<close>: at most ten saved return addresses along the frame-pointer chain in the memory
  \<open>m\<close>, padded with zeros. \<open>v\<close> is the address of the first argument of the caller.
\<close>

fun frame_chain :: "bytes \<Rightarrow> nat \<Rightarrow> u32 \<Rightarrow> u32 list" where
  "frame_chain m 0 ebp = []"
| "frame_chain m (Suc n) ebp =
     (if ebp = 0 \<or> ebp < 0x80000000 \<or> ebp = 0xffffffff then []
      else get32 m (unat (ebp + 4)) # frame_chain m n (get32 m (unat ebp)))"

definition getcallerpcs :: "bytes \<Rightarrow> u32 \<Rightarrow> u32 list" where
  "getcallerpcs m v =
     (let xs = frame_chain m 10 (v - 8) in xs @ replicate (10 - length xs) 0)"

lemma length_frame_chain: "length (frame_chain m n ebp) \<le> n"
  by (induction m n ebp rule: frame_chain.induct) auto

lemma length_getcallerpcs: "length (getcallerpcs m v) = 10"
  using length_frame_chain [of m 10 "v - 8"] by (simp add: getcallerpcs_def Let_def)

section \<open>What the operations do on a well-formed machine\<close>

definition cpus_ok :: "'l machine \<Rightarrow> bool" where
  "cpus_ok s \<longleftrightarrow> inj_on (\<lambda>i. apicid (cpus s i)) {..<ncpu s}"

lemma machine_upd [simp]:
  "cpus (upd_cpu c f s) = (cpus s)(c := f (cpus s c))"
  "lk (upd_cpu c f s) = lk s" "ncpu (upd_cpu c f s) = ncpu s"
  "lk (upd_lk l g s) = (lk s)(l := g (lk s l))"
  "cpus (upd_lk l g s) = cpus s" "ncpu (upd_lk l g s) = ncpu s"
  by (simp_all add: upd_cpu_def upd_lk_def)

lemma upd_cpu_comp [simp]: "upd_cpu c f (upd_cpu c g s) = upd_cpu c (\<lambda>x. f (g x)) s"
  by (simp add: upd_cpu_def)

lemma upd_cpu_ident: "f (cpus s c) = cpus s c \<Longrightarrow> upd_cpu c f s = s"
  by (simp add: upd_cpu_def)

lemma cpus_ok_upd [simp]:
  "(\<And>x. apicid (f x) = apicid x) \<Longrightarrow> cpus_ok (upd_cpu c f s) = cpus_ok s"
  "cpus_ok (upd_lk l g s) = cpus_ok s"
proof -
  assume "\<And>x. apicid (f x) = apicid x"
  then have "(\<lambda>i. apicid (cpus (upd_cpu c f s) i)) = (\<lambda>i. apicid (cpus s i))" by (simp add: fun_eq_iff)
  then show "cpus_ok (upd_cpu c f s) = cpus_ok s" by (simp only: cpus_ok_def machine_upd)
qed (simp add: cpus_ok_def)

lemma find_cpu_self:
  assumes "cpus_ok s" "c < ncpu s"
  shows "find_cpu s (apicid (cpus s c)) = Some c"
proof -
  have "apicid (cpus s i) \<noteq> apicid (cpus s c)" if "i < c" for i
    using assms that by (force simp: cpus_ok_def inj_on_def)
  then show ?thesis
    using assms(2) unfolding find_cpu_def find_Some_iff
    by (intro exI [of _ c]) auto
qed

lemma mycpu_self:
  "\<lbrakk>cpus_ok s; c < ncpu s; \<not> flag_IF (cpus s c)\<rbrakk> \<Longrightarrow> mycpu c s = Ok c s"
  by (simp add: mycpu_def find_cpu_self)

definition push_cpu :: "cpu \<Rightarrow> cpu" where
  "push_cpu x = x\<lparr>flag_IF := False, intena := (if ncli x = 0 then flag_IF x else intena x), ncli := ncli x + 1\<rparr>"

definition pop_cpu :: "cpu \<Rightarrow> cpu" where
  "pop_cpu x = x\<lparr>ncli := ncli x - 1, flag_IF := (ncli x = 1 \<and> intena x)\<rparr>"

lemma push_pop_cpu_simps [simp]:
  "apicid (push_cpu x) = apicid x" "ncli (push_cpu x) = ncli x + 1" "\<not> flag_IF (push_cpu x)"
  "apicid (pop_cpu x) = apicid x" "ncli (pop_cpu x) = ncli x - 1"
  by (simp_all add: push_cpu_def pop_cpu_def)

lemma pushcli_eq:
  assumes "cpus_ok s" "c < ncpu s"
  shows "pushcli c s = Ok () (upd_cpu c push_cpu s)"
proof -
  let ?s = "upd_cpu c (\<lambda>x. x\<lparr>flag_IF := False\<rparr>) s"
  have "mycpu c ?s = Ok c ?s" using assms by (intro mycpu_self) auto
  then show ?thesis
    by (simp add: pushcli_def upd_cpu_def push_cpu_def)
qed

lemma popcli_eq:
  assumes "cpus_ok s" "c < ncpu s" "\<not> flag_IF (cpus s c)" "0 < ncli (cpus s c)"
  shows "popcli c s = Ok () (upd_cpu c pop_cpu s)"
  using assms by (cases "cpus s c") (auto simp: popcli_def mycpu_self upd_cpu_def pop_cpu_def)

text \<open>\<open>holding\<close> run with interrupts already off leaves the machine as it was.\<close>

lemma holding_result:
  assumes "cpus_ok s" "c < ncpu s" "0 \<le> ncli (cpus s c)"
  shows "holding c l s = Ok (locked (lk s l) \<and> cpu (lk s l) = Some c) (upd_cpu c (\<lambda>x. pop_cpu (push_cpu x)) s)"
proof -
  let ?s = "upd_cpu c push_cpu s"
  have "mycpu c ?s = Ok c ?s" using assms by (intro mycpu_self) auto
  moreover have "popcli c ?s = Ok () (upd_cpu c pop_cpu ?s)" using assms by (intro popcli_eq) auto
  ultimately show ?thesis using assms by (simp add: holding_def pushcli_eq)
qed

lemma holding_eq:
  assumes "cpus_ok s" "c < ncpu s" "\<not> flag_IF (cpus s c)" "0 < ncli (cpus s c)"
  shows "holding c l s = Ok (locked (lk s l) \<and> cpu (lk s l) = Some c) s"
proof -
  have "upd_cpu c (\<lambda>x. pop_cpu (push_cpu x)) s = s"
    using assms by (simp add: upd_cpu_ident push_cpu_def pop_cpu_def)
  then show ?thesis using assms by (simp add: holding_result)
qed

lemma acquire_begin_eq:
  assumes "cpus_ok s" "c < ncpu s" "0 \<le> ncli (cpus s c)"
  shows "acquire_begin c l s =
    (if locked (lk s l) \<and> cpu (lk s l) = Some c then Panic ''acquire''
     else Ok () (upd_cpu c push_cpu s))"
  using assms by (simp add: acquire_begin_def pushcli_eq holding_eq)

lemma xchg_eq: "xchg l s = Ok (locked (lk s l)) (upd_lk l (\<lambda>x. x\<lparr>locked := True\<rparr>) s)"
  by (simp add: xchg_def)

lemma acquire_end_eq:
  "\<lbrakk>cpus_ok s; c < ncpu s; \<not> flag_IF (cpus s c)\<rbrakk> \<Longrightarrow>
   acquire_end c l ps s = Ok () (upd_lk l (\<lambda>x. x\<lparr>cpu := Some c, pcs := ps\<rparr>) s)"
  by (simp add: acquire_end_def mycpu_self)

lemma release_begin_eq:
  assumes "cpus_ok s" "c < ncpu s" "\<not> flag_IF (cpus s c)" "0 < ncli (cpus s c)"
  shows "release_begin c l s =
    (if locked (lk s l) \<and> cpu (lk s l) = Some c
     then Ok () (upd_lk l (\<lambda>x. x\<lparr>pcs := (pcs x)[0 := 0], cpu := None\<rparr>) s)
     else Panic ''release'')"
  using assms by (simp add: release_begin_def holding_eq)

lemma release_end_eq:
  assumes "cpus_ok s" "c < ncpu s" "\<not> flag_IF (cpus s c)" "0 < ncli (cpus s c)"
  shows "release_end c l s = Ok () (upd_cpu c pop_cpu (upd_lk l (\<lambda>x. x\<lparr>locked := False\<rparr>) s))"
  using assms by (simp add: release_end_def popcli_eq)

section \<open>Nesting\<close>

primrec repeat_op :: "nat \<Rightarrow> (unit, 's) kop \<Rightarrow> (unit, 's) kop" where
  "repeat_op 0 m = skip"
| "repeat_op (Suc n) m = seq m (repeat_op n m)"

lemma repeat_pushcli:
  assumes "cpus_ok s" "c < ncpu s"
  shows "repeat_op n (pushcli c) s = Ok () (upd_cpu c (push_cpu ^^ n) s)"
  using assms
proof (induction n arbitrary: s)
  case (Suc n)
  then show ?case by (simp add: pushcli_eq Suc funpow_swap1)
qed (simp add: upd_cpu_ident)

lemma repeat_popcli:
  assumes "cpus_ok s" "c < ncpu s" "n = 0 \<or> \<not> flag_IF (cpus s c)" "int n \<le> ncli (cpus s c)"
  shows "repeat_op n (popcli c) s = Ok () (upd_cpu c (pop_cpu ^^ n) s)"
  using assms
proof (induction n arbitrary: s)
  case (Suc n)
  have "repeat_op n (popcli c) (upd_cpu c pop_cpu s) = Ok () (upd_cpu c (pop_cpu ^^ n) (upd_cpu c pop_cpu s))"
    using Suc.prems by (intro Suc.IH) (auto simp: pop_cpu_def)
  then show ?case using Suc.prems by (simp add: popcli_eq funpow_swap1)
qed (simp add: upd_cpu_ident)

lemma push_cpu_funpow:
  "(push_cpu ^^ Suc n) x = x\<lparr>flag_IF := False, intena := (if ncli x = 0 then flag_IF x else intena x),
     ncli := ncli x + int n + 1\<rparr>" if "0 \<le> ncli x"
  using that by (induction n) (simp_all add: push_cpu_def)

lemma pop_cpu_funpow:
  "(pop_cpu ^^ Suc n) x = x\<lparr>ncli := ncli x - int n - 1, flag_IF := (ncli x = int n + 1 \<and> intena x)\<rparr>"
proof (induction n)
  case (Suc n)
  have "(pop_cpu ^^ Suc (Suc n)) x = pop_cpu ((pop_cpu ^^ Suc n) x)" by simp
  also have "\<dots> = x\<lparr>ncli := ncli x - int (Suc n) - 1, flag_IF := (ncli x = int (Suc n) + 1 \<and> intena x)\<rparr>"
    by (simp add: Suc pop_cpu_def diff_eq_eq del: funpow.simps)
  finally show ?case .
qed (simp add: pop_cpu_def)

text \<open>
   \<open>pushcli\<close> and \<open>popcli\<close> are matched: on a processor that is not inside any \<open>pushcli\<close>,
  \<open>n\<close> calls of \<open>pushcli\<close> and \<open>k \<le> n\<close> calls of \<open>popcli\<close> leave interrupts off while \<open>k < n\<close>, and
  restore the interrupt flag to what it was when \<open>k = n\<close>; none of the calls panics and the
  nesting depth is \<open>n - k\<close>.
\<close>

theorem pushcli_popcli_matched:
  assumes "cpus_ok s" "c < ncpu s" "ncli (cpus s c) = 0" "k \<le> n"
  shows "\<exists>s'. seq (repeat_op n (pushcli c)) (repeat_op k (popcli c)) s = Ok () s'
     \<and> ncli (cpus s' c) = int (n - k)
     \<and> flag_IF (cpus s' c) = (if k = n then flag_IF (cpus s c) else False)
     \<and> (\<forall>d. d \<noteq> c \<longrightarrow> cpus s' d = cpus s d) \<and> lk s' = lk s"
proof (cases n)
  case 0
  then show ?thesis using assms by simp
next
  case (Suc m)
  let ?s = "upd_cpu c (push_cpu ^^ n) s"
  have ok: "apicid ((push_cpu ^^ i) x) = apicid x" for i x by (induction i) auto
  have x: "cpus ?s c = (cpus s c)\<lparr>flag_IF := False, intena := flag_IF (cpus s c), ncli := int n\<rparr>"
    using assms(3) push_cpu_funpow [of "cpus s c" m] by (simp add: Suc del: funpow.simps)
  have "repeat_op k (popcli c) ?s = Ok () (upd_cpu c (pop_cpu ^^ k) ?s)"
    using assms x ok by (intro repeat_popcli) auto
  then have "seq (repeat_op n (pushcli c)) (repeat_op k (popcli c)) s = Ok () (upd_cpu c (pop_cpu ^^ k) ?s)"
    using assms by (simp add: repeat_pushcli)
  moreover have "ncli ((pop_cpu ^^ k) (cpus ?s c)) = int (n - k)
      \<and> flag_IF ((pop_cpu ^^ k) (cpus ?s c)) = (if k = n then flag_IF (cpus s c) else False)"
    using assms(4) Suc x by (cases k) (auto simp: pop_cpu_funpow simp del: funpow.simps fun_upd_apply)
  ultimately show ?thesis by auto
qed

theorem pushcli_popcli_matched_witness:
  defines "s \<equiv> \<lparr>ncpu = 1, cpus = (\<lambda>_. \<lparr>apicid = 0, ncli = 0, intena = False, flag_IF = True\<rparr>),
      lk = (\<lambda>l :: nat. \<lparr>locked = False, cpu = None, pcs = []\<rparr>)\<rparr>"
  shows "\<exists>s'. seq (repeat_op 3 (pushcli 0)) (repeat_op 3 (popcli 0)) s = Ok () s'
     \<and> ncli (cpus s' 0) = 0 \<and> flag_IF (cpus s' 0)"
  using pushcli_popcli_matched [of s 0 3 3] by (auto simp: s_def cpus_ok_def inj_on_def)

section \<open>Processors running concurrently\<close>

text \<open>
  Where a processor is in the locking code: outside it, spinning in \<open>acquire\<close>, between the
  exchange that took the lock and the end of \<open>acquire\<close>, or between the two halves of \<open>release\<close>.
\<close>

datatype 'l where_at = Outside | Spinning 'l | Taken 'l | Releasing 'l

text \<open>
  The machine with the position of each processor and two ghost components: the locks whose
  \<open>acquire\<close> has returned and whose \<open>release\<close> has not been called, and the number of open
  \<open>pushcli\<close> calls that belong to no lock.
\<close>

record 'l system =
  mach :: "'l machine"
  at :: "nat \<Rightarrow> 'l where_at"
  inside :: "nat \<Rightarrow> 'l set"
  pushed :: "nat \<Rightarrow> nat"

text \<open>
  One step of processor \<open>c\<close>. \<open>acquire\<close> may be called on any lock, \<open>release\<close> too: a call that
  panics takes no step. A processor that is not inside \<open>pushcli\<close> may switch its interrupts on
  (\<open>sti\<close> in the scheduler).
\<close>

inductive lock_step :: "'l system \<Rightarrow> 'l system \<Rightarrow> bool" where
  enter: "\<lbrakk>c < ncpu (mach s); at s c = Outside; acquire_begin c l (mach s) = Ok () m\<rbrakk>
    \<Longrightarrow> lock_step s (s\<lparr>mach := m, at := (at s)(c := Spinning l)\<rparr>)"
| spin: "\<lbrakk>c < ncpu (mach s); at s c = Spinning l; xchg l (mach s) = Ok True m\<rbrakk>
    \<Longrightarrow> lock_step s (s\<lparr>mach := m\<rparr>)"
| take: "\<lbrakk>c < ncpu (mach s); at s c = Spinning l; xchg l (mach s) = Ok False m\<rbrakk>
    \<Longrightarrow> lock_step s (s\<lparr>mach := m, at := (at s)(c := Taken l)\<rparr>)"
| enter_end: "\<lbrakk>c < ncpu (mach s); at s c = Taken l; acquire_end c l ps (mach s) = Ok () m\<rbrakk>
    \<Longrightarrow> lock_step s (s\<lparr>mach := m, at := (at s)(c := Outside),
          inside := (inside s)(c := insert l (inside s c))\<rparr>)"
| leave: "\<lbrakk>c < ncpu (mach s); at s c = Outside; release_begin c l (mach s) = Ok () m\<rbrakk>
    \<Longrightarrow> lock_step s (s\<lparr>mach := m, at := (at s)(c := Releasing l),
          inside := (inside s)(c := inside s c - {l})\<rparr>)"
| leave_end: "\<lbrakk>c < ncpu (mach s); at s c = Releasing l; release_end c l (mach s) = Ok () m\<rbrakk>
    \<Longrightarrow> lock_step s (s\<lparr>mach := m, at := (at s)(c := Outside)\<rparr>)"
| push: "\<lbrakk>c < ncpu (mach s); at s c = Outside; pushcli c (mach s) = Ok () m\<rbrakk>
    \<Longrightarrow> lock_step s (s\<lparr>mach := m, pushed := (pushed s)(c := pushed s c + 1)\<rparr>)"
| pop: "\<lbrakk>c < ncpu (mach s); at s c = Outside; 0 < pushed s c; popcli c (mach s) = Ok () m\<rbrakk>
    \<Longrightarrow> lock_step s (s\<lparr>mach := m, pushed := (pushed s)(c := pushed s c - 1)\<rparr>)"
| sti: "\<lbrakk>c < ncpu (mach s); at s c = Outside; ncli (cpus (mach s) c) = 0\<rbrakk>
    \<Longrightarrow> lock_step s (s\<lparr>mach := upd_cpu c (\<lambda>x. x\<lparr>flag_IF := True\<rparr>) (mach s)\<rparr>)"

text \<open>Booted: nobody in the locking code, all locks free.\<close>

definition lock_init :: "'l system \<Rightarrow> bool" where
  "lock_init s \<longleftrightarrow> cpus_ok (mach s)
     \<and> (\<forall>c < ncpu (mach s). ncli (cpus (mach s) c) = 0)
     \<and> (\<forall>c. at s c = Outside \<and> inside s c = {} \<and> pushed s c = 0)
     \<and> (\<forall>l. \<not> locked (lk (mach s) l) \<and> cpu (lk (mach s) l) = None)"

text \<open>What one processor contributes to the invariant, and what the lock words do.\<close>

definition cpu_inv :: "cpu \<Rightarrow> 'l set \<Rightarrow> nat \<Rightarrow> 'l where_at \<Rightarrow> bool" where
  "cpu_inv x ins n a \<longleftrightarrow> finite ins
     \<and> ncli x = int (card ins) + int n + (if a = Outside then 0 else 1)
     \<and> (flag_IF x \<longrightarrow> ncli x = 0)
     \<and> (\<forall>l. a = Spinning l \<or> a = Taken l \<or> a = Releasing l \<longrightarrow> l \<notin> ins)"

definition owns :: "'l system \<Rightarrow> nat \<Rightarrow> 'l \<Rightarrow> bool" where
  "owns s c l \<longleftrightarrow> c < ncpu (mach s) \<and> (l \<in> inside s c \<or> at s c = Taken l \<or> at s c = Releasing l)"

definition word_inv :: "'l system \<Rightarrow> 'l \<Rightarrow> bool" where
  "word_inv s l \<longleftrightarrow> (locked (lk (mach s) l) \<longleftrightarrow> (\<exists>c. owns s c l))
     \<and> (\<forall>c d. owns s c l \<and> owns s d l \<longrightarrow> c = d)
     \<and> (\<forall>c. cpu (lk (mach s) l) = Some c \<longleftrightarrow> c < ncpu (mach s) \<and> l \<in> inside s c)"

definition lock_inv :: "'l system \<Rightarrow> bool" where
  "lock_inv s \<longleftrightarrow> cpus_ok (mach s)
     \<and> (\<forall>c < ncpu (mach s). cpu_inv (cpus (mach s) c) (inside s c) (pushed s c) (at s c))
     \<and> (\<forall>l. word_inv s l)"

lemma lock_inv_init: "lock_init s \<Longrightarrow> lock_inv s"
  by (simp add: lock_init_def lock_inv_def word_inv_def owns_def cpu_inv_def)

lemma cpu_inv_off:
  assumes "cpu_inv x ins n a" "a \<noteq> Outside \<or> l \<in> ins \<or> 0 < n"
  shows "\<not> flag_IF x \<and> 0 < ncli x"
proof -
  have "0 < card ins" if "l \<in> ins" using that assms(1) by (auto simp: card_gt_0_iff cpu_inv_def)
  then have "0 < ncli x" using assms by (auto simp: cpu_inv_def split: if_splits)
  then show ?thesis using assms(1) by (auto simp: cpu_inv_def)
qed

lemma lock_invD:
  assumes "lock_inv s" "c < ncpu (mach s)"
  shows "cpus_ok (mach s)" "0 \<le> ncli (cpus (mach s) c)"
    "cpu_inv (cpus (mach s) c) (inside s c) (pushed s c) (at s c)"
    "at s c \<noteq> Outside \<or> l \<in> inside s c \<or> 0 < pushed s c
      \<Longrightarrow> \<not> flag_IF (cpus (mach s) c) \<and> 0 < ncli (cpus (mach s) c)"
    "locked (lk (mach s) l) \<and> cpu (lk (mach s) l) = Some c \<longleftrightarrow> l \<in> inside s c"
    "owns s c l \<or> \<not> locked (lk (mach s) l) \<Longrightarrow> locked (lk (mach s) l) = owns s c l
      \<and> cpu (lk (mach s) l) = (if l \<in> inside s c then Some c else None)"
proof -
  show c: "cpu_inv (cpus (mach s) c) (inside s c) (pushed s c) (at s c)" and "cpus_ok (mach s)"
    using assms by (simp_all add: lock_inv_def)
  show "0 \<le> ncli (cpus (mach s) c)" using c by (auto simp: cpu_inv_def)
  show "\<not> flag_IF (cpus (mach s) c) \<and> 0 < ncli (cpus (mach s) c)"
    if "at s c \<noteq> Outside \<or> l \<in> inside s c \<or> 0 < pushed s c"
    using cpu_inv_off [OF c that] .
  have "word_inv s l" using assms by (simp add: lock_inv_def)
  then show "locked (lk (mach s) l) \<and> cpu (lk (mach s) l) = Some c \<longleftrightarrow> l \<in> inside s c"
    using assms(2) by (auto simp: word_inv_def owns_def)
  have own: "cpu (lk (mach s) l) = Some d \<Longrightarrow> owns s d l" for d
    using \<open>word_inv s l\<close> by (auto simp: word_inv_def owns_def)
  show "locked (lk (mach s) l) = owns s c l \<and> cpu (lk (mach s) l) = (if l \<in> inside s c then Some c else None)"
    if "owns s c l \<or> \<not> locked (lk (mach s) l)"
    using that own \<open>word_inv s l\<close> assms(2)
    by (cases "cpu (lk (mach s) l)") (auto simp: word_inv_def)
qed

text \<open>
  To preserve the invariant it is enough to look at the processor that moved and its lock: unless
  another processor owns the lock, the new lock word must say whether this one does.
\<close>

lemma lock_inv_move:
  fixes s l w a I
  defines "own' \<equiv> l \<in> I \<or> a = Taken l \<or> a = Releasing l"
  assumes inv: "lock_inv s" "c < ncpu (mach s)"
    and m: "ncpu m = ncpu (mach s)" "cpus_ok m" "lk m = (lk (mach s))(l := w)" "cpus m = (cpus (mach s))(c := x)"
    and cpu: "cpu_inv x I n a"
    and other: "\<And>k. k \<noteq> l \<Longrightarrow> (k \<in> I \<longleftrightarrow> k \<in> inside s c)
      \<and> (a = Taken k \<or> a = Releasing k \<longleftrightarrow> at s c = Taken k \<or> at s c = Releasing k)"
    and word: "if owns s c l \<or> \<not> locked (lk (mach s) l)
      then locked w = own' \<and> cpu w = (if l \<in> I then Some c else None)
      else \<not> own' \<and> w = lk (mach s) l"
  shows "lock_inv (s\<lparr>mach := m, at := (at s)(c := a), inside := (inside s)(c := I), pushed := (pushed s)(c := n)\<rparr>)"
    (is "lock_inv ?s")
proof -
  have W: "word_inv s k" for k using inv by (simp add: lock_inv_def)
  have owns: "owns ?s d k \<longleftrightarrow> (if d = c \<and> k = l then own' else owns s d k)" for d k
    using inv(2) m(1) other [of k] by (auto simp: owns_def own'_def)
  have "word_inv ?s k" for k
  proof (cases "k = l")
    case False
    have "owns ?s d k = owns s d k" for d using owns False by auto
    moreover have "k \<in> inside ?s d \<longleftrightarrow> k \<in> inside s d" for d using other [OF False] by auto
    ultimately show ?thesis using W [of k] m False unfolding word_inv_def by simp
  next
    case True
    show ?thesis
    proof (cases "owns s c l \<or> \<not> locked (lk (mach s) l)")
      case no: True
      then have "\<not> owns s d l" if "d \<noteq> c" for d using W [of l] that by (auto simp: word_inv_def)
      then have o1: "owns ?s d l \<longleftrightarrow> d = c \<and> own'" for d using owns by auto
      have "l \<notin> inside s d" if "d \<noteq> c" "d < ncpu (mach s)" for d
        using \<open>d \<noteq> c \<Longrightarrow> \<not> owns s d l\<close> that by (auto simp: owns_def)
      with o1 no word inv(2) m show ?thesis
        by (auto simp: word_inv_def True split: if_splits)
    next
      case False
      then have "\<not> own'" "w = lk (mach s) l" "\<not> owns s c l" using word by auto
      then have "owns ?s d l = owns s d l" "l \<in> inside ?s d \<longleftrightarrow> (if d = c then l \<in> inside s c else l \<in> inside s d)" for d
        using owns inv(2) by (auto simp: owns_def own'_def)
      with W [of l] m \<open>w = lk (mach s) l\<close> show ?thesis unfolding word_inv_def True by simp
    qed
  qed
  with inv cpu m show ?thesis by (simp add: lock_inv_def)
qed

lemmas lock_eqs = acquire_begin_eq xchg_eq acquire_end_eq release_begin_eq release_end_eq pushcli_eq popcli_eq

lemma lock_step_inv:
  assumes "lock_step s s'" "lock_inv s"
  shows "lock_inv s'"
  using assms
proof (induction rule: lock_step.induct)
  case (enter c s l m)
  note D = lock_invD [OF enter.prems enter.hyps(1)]
  have m: "m = upd_cpu c push_cpu (mach s)" and l: "l \<notin> inside s c"
    using enter.hyps D(1,2) D(5) [of l] by (auto simp: lock_eqs split: if_splits)
  have "lock_inv (s\<lparr>mach := m, at := (at s)(c := Spinning l), inside := (inside s)(c := inside s c),
      pushed := (pushed s)(c := pushed s c)\<rparr>)"
    by (rule lock_inv_move [OF enter.prems enter.hyps(1), where l = l and w = "lk (mach s) l"])
      (use D(1,3) D(6) [of l] enter.hyps l in \<open>auto simp: m cpu_inv_def owns_def\<close>)
  then show ?case by simp
next
  case (spin c s l m)
  then have "m = mach s"
    by (cases "mach s", cases "lk (mach s) l") (auto simp: lock_eqs upd_lk_def)
  then show ?case using spin.prems by simp
next
  case (take c s l m)
  note D = lock_invD [OF take.prems take.hyps(1)]
  have m: "m = upd_lk l (\<lambda>x. x\<lparr>locked := True\<rparr>) (mach s)" "\<not> locked (lk (mach s) l)"
    using take.hyps by (auto simp: lock_eqs)
  have "lock_inv (s\<lparr>mach := m, at := (at s)(c := Taken l), inside := (inside s)(c := inside s c),
      pushed := (pushed s)(c := pushed s c)\<rparr>)"
    by (rule lock_inv_move [OF take.prems take.hyps(1), where l = l and w = "(lk (mach s) l)\<lparr>locked := True\<rparr>"])
      (use D(1,3) D(6) [of l] take.hyps m in \<open>auto simp: cpu_inv_def owns_def\<close>)
  then show ?case by simp
next
  case (enter_end c s l ps m)
  note D = lock_invD [OF enter_end.prems enter_end.hyps(1)]
  have m: "m = upd_lk l (\<lambda>x. x\<lparr>cpu := Some c, pcs := ps\<rparr>) (mach s)"
    using enter_end.hyps D(1) D(4) by (auto simp: lock_eqs)
  have "lock_inv (s\<lparr>mach := m, at := (at s)(c := Outside), inside := (inside s)(c := insert l (inside s c)),
      pushed := (pushed s)(c := pushed s c)\<rparr>)"
    by (rule lock_inv_move [OF enter_end.prems enter_end.hyps(1), where l = l and w = "(lk (mach s) l)\<lparr>cpu := Some c, pcs := ps\<rparr>"])
      (use D(1,3) D(6) [of l] enter_end.hyps m in \<open>auto simp: cpu_inv_def owns_def\<close>)
  then show ?case by simp
next
  case (leave c s l m)
  note D = lock_invD [OF leave.prems leave.hyps(1)]
  have l: "l \<in> inside s c"
    using leave.hyps D(1,2) D(5) [of l]
    by (auto simp: release_begin_def holding_result)
  then have m: "m = upd_lk l (\<lambda>x. x\<lparr>pcs := (pcs x)[0 := 0], cpu := None\<rparr>) (mach s)"
    using leave.hyps D(1) D(4) [of l] D(5) [of l] by (auto simp: lock_eqs split: if_splits)
  have "0 < card (inside s c)" using l D(3) by (auto simp: cpu_inv_def card_gt_0_iff)
  then have inv: "cpu_inv (cpus (mach s) c) (inside s c - {l}) (pushed s c) (Releasing l)"
    using l D(3) leave.hyps by (auto simp: cpu_inv_def of_nat_diff Suc_le_eq)
  have "lock_inv (s\<lparr>mach := m, at := (at s)(c := Releasing l), inside := (inside s)(c := inside s c - {l}),
      pushed := (pushed s)(c := pushed s c)\<rparr>)"
    by (rule lock_inv_move [OF leave.prems leave.hyps(1), where l = l
          and w = "(lk (mach s) l)\<lparr>pcs := (pcs (lk (mach s) l))[0 := 0], cpu := None\<rparr>"])
      (use D(1,3) D(6) [of l] l leave.hyps m inv in \<open>auto simp: owns_def\<close>)
  then show ?case by simp
next
  case (leave_end c s l m)
  note D = lock_invD [OF leave_end.prems leave_end.hyps(1)]
  have m: "m = upd_cpu c pop_cpu (upd_lk l (\<lambda>x. x\<lparr>locked := False\<rparr>) (mach s))"
    using leave_end.hyps D(1) D(4) by (auto simp: lock_eqs)
  have "lock_inv (s\<lparr>mach := m, at := (at s)(c := Outside), inside := (inside s)(c := inside s c),
      pushed := (pushed s)(c := pushed s c)\<rparr>)"
    by (rule lock_inv_move [OF leave_end.prems leave_end.hyps(1), where l = l and w = "(lk (mach s) l)\<lparr>locked := False\<rparr>"])
      (use D(1,3) D(6) [of l] leave_end.hyps m in \<open>auto simp: cpu_inv_def owns_def pop_cpu_def\<close>)
  then show ?case by simp
next
  case (push c s m)
  note D = lock_invD [OF push.prems push.hyps(1)]
  have m: "m = upd_cpu c push_cpu (mach s)"
    using push.hyps D(1) by (auto simp: lock_eqs)
  have "lock_inv (s\<lparr>mach := m, at := (at s)(c := at s c), inside := (inside s)(c := inside s c),
      pushed := (pushed s)(c := pushed s c + 1)\<rparr>)"
    by (rule lock_inv_move [OF push.prems push.hyps(1), where w = "lk (mach s) undefined" and l = undefined])
      (use D(1,3) D(6) [of undefined] push.hyps m in \<open>auto simp: cpu_inv_def owns_def\<close>)
  then show ?case by simp
next
  case (pop c s m)
  note D = lock_invD [OF pop.prems pop.hyps(1)]
  have m: "m = upd_cpu c pop_cpu (mach s)"
    using pop.hyps D(1) D(4) by (auto simp: lock_eqs)
  have "lock_inv (s\<lparr>mach := m, at := (at s)(c := at s c), inside := (inside s)(c := inside s c),
      pushed := (pushed s)(c := pushed s c - 1)\<rparr>)"
    by (rule lock_inv_move [OF pop.prems pop.hyps(1), where w = "lk (mach s) undefined" and l = undefined])
      (use D(1,3) D(6) [of undefined] pop.hyps m in \<open>auto simp: cpu_inv_def owns_def pop_cpu_def\<close>)
  then show ?case by simp
next
  case (sti c s)
  note D = lock_invD [OF sti.prems sti.hyps(1)]
  have "lock_inv (s\<lparr>mach := upd_cpu c (\<lambda>x. x\<lparr>flag_IF := True\<rparr>) (mach s), at := (at s)(c := at s c),
      inside := (inside s)(c := inside s c), pushed := (pushed s)(c := pushed s c)\<rparr>)"
    by (rule lock_inv_move [OF sti.prems sti.hyps(1), where w = "lk (mach s) undefined" and l = undefined])
      (use D(1,3) D(6) [of undefined] sti.hyps in \<open>auto simp: cpu_inv_def owns_def\<close>)
  then show ?case by simp
qed

lemma lock_reachable_inv: "lock_step\<^sup>*\<^sup>* s s' \<Longrightarrow> lock_inv s \<Longrightarrow> lock_inv s'"
  by (induction rule: rtranclp_induct) (auto intro: lock_step_inv)

text \<open>
  C3 Mutual exclusion and interrupt masking: in every interleaving of the processors'
  \<open>acquire\<close>, \<open>release\<close>, \<open>pushcli\<close>, \<open>popcli\<close> and \<open>sti\<close> from a booted machine, while one processor is
  between its \<open>acquire\<close> and its \<open>release\<close> of a lock, no other processor is, nor has taken the lock
  word; the processor has interrupts off, a second \<open>acquire\<close> by it panics instead of deadlocking,
  and its \<open>release\<close> does not panic.
\<close>

theorem spinlock_mutual_exclusion:
  assumes "lock_init s0" "lock_step\<^sup>*\<^sup>* s0 s" "c < ncpu (mach s)" "l \<in> inside s c"
  shows "(\<forall>d. d \<noteq> c \<longrightarrow> \<not> owns s d l) \<and> \<not> flag_IF (cpus (mach s) c)
    \<and> acquire_begin c l (mach s) = Panic ''acquire''
    \<and> (\<exists>m. spin_release c l (mach s) = Ok () m \<and> \<not> locked (lk m l))"
proof -
  have inv: "lock_inv s" using assms by (auto intro: lock_reachable_inv lock_inv_init)
  note D = lock_invD [OF inv assms(3)]
  have off: "\<not> flag_IF (cpus (mach s) c)" "0 < ncli (cpus (mach s) c)" using D(4) [of l] assms(4) by auto
  have "owns s c l" using assms(3,4) by (simp add: owns_def)
  then have "\<forall>d. d \<noteq> c \<longrightarrow> \<not> owns s d l" using inv by (auto simp: lock_inv_def word_inv_def)
  then show ?thesis
    using D(1,2) D(5) [of l] off assms(3,4) by (simp add: lock_eqs spin_release_def)
qed

theorem spinlock_mutual_exclusion_witness:
  defines "s0 \<equiv> \<lparr>mach = \<lparr>ncpu = 2, cpus = (\<lambda>i. \<lparr>apicid = of_nat i, ncli = 0, intena = False, flag_IF = True\<rparr>),
        lk = (\<lambda>l. \<lparr>locked = False, cpu = None, pcs = []\<rparr>)\<rparr>,
      at = (\<lambda>_. Outside), inside = (\<lambda>_. {}), pushed = (\<lambda>_. 0)\<rparr> :: nat system"
  shows "\<exists>s. lock_step\<^sup>*\<^sup>* s0 s \<and> 7 \<in> inside s 0 \<and> at s 1 = Spinning 7 \<and> \<not> owns s 1 7"
proof -
  have ok: "cpus_ok (mach s0)" by (simp add: s0_def cpus_ok_def numeral_2_eq_2 lessThan_Suc)
  define m1 where "m1 = upd_cpu 0 push_cpu (mach s0)"
  define m2 where "m2 = upd_lk 7 (\<lambda>x. x\<lparr>locked := True\<rparr>) m1"
  define m3 where "m3 = upd_lk 7 (\<lambda>x. x\<lparr>cpu := Some 0, pcs := []\<rparr>) m2"
  define m4 where "m4 = upd_cpu 1 push_cpu m3"
  note ms = m1_def m2_def m3_def m4_def
  define s1 where "s1 = s0\<lparr>mach := m1, at := (at s0)(0 := Spinning 7)\<rparr>"
  define s2 where "s2 = s1\<lparr>mach := m2, at := (at s1)(0 := Taken 7)\<rparr>"
  define s3 where "s3 = s2\<lparr>mach := m3, at := (at s2)(0 := Outside), inside := (inside s2)(0 := insert 7 (inside s2 0))\<rparr>"
  define s4 where "s4 = s3\<lparr>mach := m4, at := (at s3)(1 := Spinning 7)\<rparr>"
  have "lock_step s0 s1" unfolding s1_def
    by (rule lock_step.enter) (use ok in \<open>simp_all add: m1_def s0_def acquire_begin_eq\<close>)
  moreover have "lock_step s1 s2" unfolding s2_def
    by (rule lock_step.take) (simp_all add: m2_def xchg_eq s1_def, simp_all add: m1_def s0_def)
  moreover have "lock_step s2 s3" unfolding s3_def
    by (rule lock_step.enter_end) (use ok in \<open>simp_all add: s2_def m3_def m2_def m1_def acquire_end_eq, simp_all add: s0_def acquire_end_eq\<close>)
  moreover have "lock_step s3 s4" unfolding s4_def
    by (rule lock_step.enter) (use ok in \<open>simp_all add: m4_def acquire_begin_eq s3_def s2_def s1_def m3_def m2_def m1_def, simp_all add: s0_def acquire_begin_eq\<close>)
  ultimately have run: "lock_step\<^sup>*\<^sup>* s0 s4"
    by (meson converse_rtranclp_into_rtranclp rtranclp.rtrancl_refl)
  have "lock_init s0" using ok by (simp add: lock_init_def s0_def)
  then have "\<forall>d. d \<noteq> 0 \<longrightarrow> \<not> owns s4 d 7"
    using spinlock_mutual_exclusion [OF _ run, of 0 7] by (simp add: s4_def s3_def ms s0_def)
  with run show ?thesis by (intro exI [of _ s4]) (simp add: s4_def s3_def)
qed

end
