(* ===== verification/KState.thy ===== *)
theory KState
  imports Prelude CString
begin

text \<open>
  The state every kernel thread works on (src/proc.h, src/sleeplock.h, the process table of
  src/proc.c) and the parts of src/proc.c and src/sleeplock.c that the rest of the kernel calls to
  lock, sleep and wake up.

  An operation is run by one kernel thread. Spin locks are the list \<open>held\<close> of those this processor
  holds, the innermost first (theory Spinlock has the lock words and \<open>ncli\<close>, and shows that a held
  lock excludes the other processors); waiting for another processor to release a lock has no visible effect. A thread that
  gives up the processor ends with \<open>Swtch\<close>, and \<open>sleep_return\<close> and \<open>yield_return\<close> are what it runs
  when it is resumed. The later theories extend the record by their own components.
\<close>

section \<open>Names of locks and channels\<close>

text \<open>
  The kernel's locks and sleep channels are addresses. They are named here by the object whose
  address is taken; the numbers index the tables the objects live in.
\<close>

datatype slid = SL_buf nat | SL_ino nat | SL_flock nat

datatype lockid =
    L_ptable | L_kmem | L_bcache | L_ide | L_log | L_icache | L_ftable | L_tickslock | L_cons
  | L_pipe nat | L_sl slid

datatype chan =
    C_ticks | C_log | C_buf nat | C_sl slid | C_proc nat | C_pread nat | C_pwrite nat | C_input

section \<open>Processes\<close>

abbreviation (input) NPROC :: nat where "NPROC \<equiv> 64"
abbreviation (input) NOFILE :: nat where "NOFILE \<equiv> 16"

datatype procstate = UNUSED | EMBRYO | SLEEPING | RUNNABLE | RUNNING | ZOMBIE

record trapframe =
  tf_edi :: u32
  tf_esi :: u32
  tf_ebp :: u32
  tf_ebx :: u32
  tf_edx :: u32
  tf_ecx :: u32
  tf_eax :: u32
  tf_gs :: u16
  tf_fs :: u16
  tf_es :: u16
  tf_ds :: u16
  tf_trapno :: u32
  tf_err :: u32
  tf_eip :: u32
  tf_cs :: u16
  tf_eflags :: u32
  tf_esp :: u32
  tf_ss :: u16

text \<open>
  \<open>struct context\<close>. The instruction pointer of a thread that has not run yet is the address of
  \<open>forkret\<close>, which the linker chooses.
\<close>

datatype kernel_pc = Forkret | Kernel_pc u32

record pcontext =
  c_edi :: u32
  c_esi :: u32
  c_ebx :: u32
  c_ebp :: u32
  c_eip :: kernel_pc

text \<open>
  \<open>struct proc\<close>. Pointers into the tables of processes, files and inodes are indices; \<open>pgdir\<close> and
  \<open>kstack\<close> are kernel virtual addresses. The trap frame and the saved context, which the code
  keeps at the top of the kernel stack, are fields.
\<close>

record proc =
  sz :: u32
  pgdir :: u32
  kstack :: u32
  pstate :: procstate
  pid :: u32
  parent :: "nat option"
  tf :: trapframe
  pcontext :: pcontext
  chan :: "chan option"
  killed :: bool
  ofile :: "nat option list"
  cwd :: "nat option"
  pname :: bytes
  ticksAtStart :: u32
  ticksScheduled :: u32
  priority :: u32

record sleeplock =
  slocked :: bool
  slpid :: u32

record kst =
  held :: "lockid list"
  curproc :: "nat option"
  ptable :: "nat \<Rightarrow> proc"
  initproc :: "nat option"
  nextpid :: u32
  slocks :: "slid \<Rightarrow> sleeplock"
  ticks :: u32

text \<open>The zeroed structures of the kernel's static data.\<close>

definition proc0 :: proc where
  "proc0 = \<lparr>sz = 0, pgdir = 0, kstack = 0, pstate = UNUSED, pid = 0, parent = None,
     tf = \<lparr>tf_edi = 0, tf_esi = 0, tf_ebp = 0, tf_ebx = 0, tf_edx = 0, tf_ecx = 0, tf_eax = 0, tf_gs = 0,
       tf_fs = 0, tf_es = 0, tf_ds = 0, tf_trapno = 0, tf_err = 0, tf_eip = 0, tf_cs = 0, tf_eflags = 0,
       tf_esp = 0, tf_ss = 0\<rparr>,
     pcontext = \<lparr>c_edi = 0, c_esi = 0, c_ebx = 0, c_ebp = 0, c_eip = Kernel_pc 0\<rparr>,
     chan = None, killed = False, ofile = replicate NOFILE None, cwd = None, pname = (\<lambda>_. 0),
     ticksAtStart = 0, ticksScheduled = 0, priority = 0\<rparr>"

definition upd_proc :: "nat \<Rightarrow> (proc \<Rightarrow> proc) \<Rightarrow> 'a kst_scheme \<Rightarrow> 'a kst_scheme" where
  "upd_proc i f s = s\<lparr>ptable := (ptable s)(i := f (ptable s i))\<rparr>"

section \<open>Locks and the current process\<close>

definition acquire :: "lockid \<Rightarrow> (unit, 'a kst_scheme) kop" where
  "acquire l s = (if l \<in> set (held s) then Panic ''acquire'' else Ok () (s\<lparr>held := l # held s\<rparr>))"

definition release :: "lockid \<Rightarrow> (unit, 'a kst_scheme) kop" where
  "release l s = (if l \<notin> set (held s) then Panic ''release'' else Ok () (s\<lparr>held := remove1 l (held s)\<rparr>))"

definition myproc :: "(nat option, 'a kst_scheme) kop" where
  "myproc = gets curproc"

text \<open>\<open>myproc()->...\<close>: following the null pointer is a fault.\<close>

definition cur :: "(nat, 'a kst_scheme) kop" where
  "cur s = (case curproc s of Some p \<Rightarrow> Ok p s | None \<Rightarrow> Panic ''null pointer'')"

section \<open>Giving up the processor\<close>

text \<open>
  \<open>sched\<close> up to its \<open>swtch\<close>. Its last check, that interrupts are off, cannot fail once the lock
  count is one.
\<close>

definition sched :: "(unit, 'a kst_scheme) kop" where
  "sched =
     bind cur (\<lambda>p.
     bind (gets held) (\<lambda>h.
     if L_ptable \<notin> set h then panic ''sched ptable.lock''
     else if length h \<noteq> 1 then panic ''sched locks''
     else bind (gets (\<lambda>s. pstate (ptable s p))) (\<lambda>st.
     if st = RUNNING then panic ''sched running''
     else seq (modify (upd_proc p (\<lambda>x. x\<lparr>ticksScheduled := ticksScheduled x + 1\<rparr>))) Swtch)))"

definition yield :: "(unit, 'a kst_scheme) kop" where
  "yield =
     seq (acquire L_ptable)
     (bind cur (\<lambda>p.
     seq (modify (upd_proc p (\<lambda>x. x\<lparr>pstate := RUNNABLE\<rparr>)))
     sched))"

definition yield_return :: "(unit, 'a kst_scheme) kop" where
  "yield_return = release L_ptable"

definition sleep :: "chan \<Rightarrow> lockid \<Rightarrow> (unit, 'a kst_scheme) kop" where
  "sleep c lk =
     bind myproc (\<lambda>me. case me of
       None \<Rightarrow> panic ''sleep''
     | Some p \<Rightarrow>
         seq (if lk \<noteq> L_ptable then seq (acquire L_ptable) (release lk) else skip)
         (seq (modify (upd_proc p (\<lambda>x. x\<lparr>chan := Some c, pstate := SLEEPING\<rparr>)))
         sched))"

definition sleep_return :: "lockid \<Rightarrow> (unit, 'a kst_scheme) kop" where
  "sleep_return lk =
     bind cur (\<lambda>p.
     seq (modify (upd_proc p (\<lambda>x. x\<lparr>chan := None\<rparr>)))
     (if lk \<noteq> L_ptable then seq (release L_ptable) (acquire lk) else skip))"

definition wakeup1 :: "chan \<Rightarrow> (unit, 'a kst_scheme) kop" where
  "wakeup1 c =
     foreach [0..<NPROC] (\<lambda>p.
     bind (gets (\<lambda>s. ptable s p)) (\<lambda>x.
     if pstate x = SLEEPING \<and> chan x = Some c
     then modify (upd_proc p (\<lambda>x. x\<lparr>pstate := RUNNABLE\<rparr>)) else skip))"

definition wakeup :: "chan \<Rightarrow> (unit, 'a kst_scheme) kop" where
  "wakeup c = seq (acquire L_ptable) (seq (wakeup1 c) (release L_ptable))"

section \<open>Sleep locks\<close>

definition upd_sl :: "slid \<Rightarrow> (sleeplock \<Rightarrow> sleeplock) \<Rightarrow> 'a kst_scheme \<Rightarrow> 'a kst_scheme" where
  "upd_sl l f s = s\<lparr>slocks := (slocks s)(l := f (slocks s l))\<rparr>"

definition initsleeplock :: "slid \<Rightarrow> (unit, 'a kst_scheme) kop" where
  "initsleeplock l = modify (upd_sl l (\<lambda>x. x\<lparr>slocked := False, slpid := 0\<rparr>))"

text \<open>
  A thread that finds the lock taken goes to sleep; when it is resumed it runs \<open>sleep_return\<close> and
  tests the lock again, as \<open>acquiresleep_loop\<close> does.
\<close>

definition acquiresleep_loop :: "slid \<Rightarrow> (unit, 'a kst_scheme) kop" where
  "acquiresleep_loop l =
     bind (gets (\<lambda>s. slocked (slocks s l))) (\<lambda>taken.
     if taken then sleep (C_sl l) (L_sl l)
     else
       seq (modify (upd_sl l (\<lambda>x. x\<lparr>slocked := True\<rparr>)))
       (bind cur (\<lambda>p.
       seq (modify (\<lambda>s. upd_sl l (\<lambda>x. x\<lparr>slpid := pid (ptable s p)\<rparr>) s))
       (release (L_sl l)))))"

definition acquiresleep :: "slid \<Rightarrow> (unit, 'a kst_scheme) kop" where
  "acquiresleep l = seq (acquire (L_sl l)) (acquiresleep_loop l)"

definition releasesleep :: "slid \<Rightarrow> (unit, 'a kst_scheme) kop" where
  "releasesleep l =
     seq (acquire (L_sl l))
     (seq (modify (upd_sl l (\<lambda>x. x\<lparr>slocked := False, slpid := 0\<rparr>)))
     (seq (wakeup (C_sl l))
     (release (L_sl l))))"

definition holdingsleep :: "slid \<Rightarrow> (bool, 'a kst_scheme) kop" where
  "holdingsleep l =
     seq (acquire (L_sl l))
     (bind (gets (\<lambda>s. slocks s l)) (\<lambda>k.
     bind (if slocked k then bind cur (\<lambda>p. gets (\<lambda>s. slpid k = pid (ptable s p))) else ret False) (\<lambda>r.
     seq (release (L_sl l)) (ret r))))"

section \<open>Effects\<close>

lemma kst_upd [simp]:
  "held (upd_proc i f s) = held s" "curproc (upd_proc i f s) = curproc s"
  "ptable (upd_proc i f s) = (ptable s)(i := f (ptable s i))" "initproc (upd_proc i f s) = initproc s"
  "nextpid (upd_proc i f s) = nextpid s" "slocks (upd_proc i f s) = slocks s" "ticks (upd_proc i f s) = ticks s"
  "kst.more (upd_proc i f s) = kst.more s"
  "held (upd_sl l g s) = held s" "curproc (upd_sl l g s) = curproc s" "ptable (upd_sl l g s) = ptable s"
  "initproc (upd_sl l g s) = initproc s" "nextpid (upd_sl l g s) = nextpid s"
  "slocks (upd_sl l g s) = (slocks s)(l := g (slocks s l))" "ticks (upd_sl l g s) = ticks s"
  "kst.more (upd_sl l g s) = kst.more s"
  by (simp_all add: upd_proc_def upd_sl_def)

lemma wp_locks [simp, wp_simps]:
  "wp (acquire l) Q s \<longleftrightarrow> l \<notin> set (held s) \<and> Q () (s\<lparr>held := l # held s\<rparr>)"
  "wp (release l) Q s \<longleftrightarrow> l \<in> set (held s) \<and> Q () (s\<lparr>held := remove1 l (held s)\<rparr>)"
  "wp myproc R s \<longleftrightarrow> R (curproc s) s"
  "wp cur P s \<longleftrightarrow> (case curproc s of Some p \<Rightarrow> P p s | None \<Rightarrow> False)"
  by (simp_all add: wp_def acquire_def release_def myproc_def cur_def split: option.splits)

lemma wp_sched [simp, wp_simps]: "wp sched Q s = False"
  by (simp add: sched_def split: option.splits)

lemma wp_sleep [simp, wp_simps]: "wp (sleep c l) Q s = False"
  by (simp add: sleep_def split: option.splits)

text \<open>What \<open>wakeup\<close> makes of the process table.\<close>

definition wake :: "chan \<Rightarrow> (nat \<Rightarrow> proc) \<Rightarrow> nat \<Rightarrow> proc" where
  "wake c pt i =
     (if i < NPROC \<and> pstate (pt i) = SLEEPING \<and> chan (pt i) = Some c then (pt i)\<lparr>pstate := RUNNABLE\<rparr>
      else pt i)"

lemma foreach_proc:
  assumes "\<And>p s. body p s = Ok () (upd_proc p (g p) s)" "distinct ps"
  shows "foreach ps body s = Ok () (s\<lparr>ptable := \<lambda>i. if i \<in> set ps then g i (ptable s i) else ptable s i\<rparr>)"
  using assms(2)
proof (induction ps arbitrary: s)
  case (Cons p ps)
  have "foreach (p # ps) body s = foreach ps body (upd_proc p (g p) s)"
    by (simp add: assms(1))
  also have "\<dots> = Ok () (s\<lparr>ptable := \<lambda>i. if i \<in> set (p # ps) then g i (ptable s i) else ptable s i\<rparr>)"
    using Cons by (auto simp: upd_proc_def fun_eq_iff)
  finally show ?case .
qed simp

lemma upd_proc_ident [simp]: "f (ptable s p) = ptable s p \<Longrightarrow> upd_proc p f s = s"
  by (simp add: upd_proc_def)

lemma wakeup1_eq: "wakeup1 c s = Ok () (s\<lparr>ptable := wake c (ptable s)\<rparr>)"
  unfolding wakeup1_def wake_def [abs_def]
  by (subst foreach_proc [where g = "\<lambda>p x. if pstate x = SLEEPING \<and> chan x = Some c then x\<lparr>pstate := RUNNABLE\<rparr> else x"])
    (auto simp: upd_proc_def intro!: arg_cong [where f = "\<lambda>f. ptable_update (\<lambda>_. f) s"])

lemma wp_wakeup1 [simp, wp_simps]: "wp (wakeup1 c) Q s \<longleftrightarrow> Q () (s\<lparr>ptable := wake c (ptable s)\<rparr>)"
  by (simp add: wp_def wakeup1_eq)

lemma wp_wakeup [simp, wp_simps]:
  "wp (wakeup c) Q s \<longleftrightarrow> L_ptable \<notin> set (held s) \<and> Q () (s\<lparr>ptable := wake c (ptable s)\<rparr>)"
  by (auto simp: wakeup_def)

lemma kst_self_upd [simp]:
  "s\<lparr>held := held s\<rparr> = s" "s\<lparr>ptable := ptable s\<rparr> = s" "s\<lparr>slocks := slocks s\<rparr> = s" "s\<lparr>curproc := curproc s\<rparr> = s"
  by simp_all

lemma wp_acquiresleep [simp, wp_simps]:
  "wp (acquiresleep l) Q s \<longleftrightarrow> L_sl l \<notin> set (held s) \<and> \<not> slocked (slocks s l)
     \<and> (case curproc s of None \<Rightarrow> False
        | Some p \<Rightarrow> Q () (s\<lparr>slocks := (slocks s)(l := \<lparr>slocked = True, slpid = pid (ptable s p)\<rparr>)\<rparr>))"
  by (cases "slocks s l") (auto simp: acquiresleep_def acquiresleep_loop_def upd_sl_def split: option.splits)

lemma wp_releasesleep [simp, wp_simps]:
  "wp (releasesleep l) Q s \<longleftrightarrow> L_sl l \<notin> set (held s) \<and> L_ptable \<notin> set (held s)
     \<and> Q () (s\<lparr>slocks := (slocks s)(l := \<lparr>slocked = False, slpid = 0\<rparr>), ptable := wake (C_sl l) (ptable s)\<rparr>)"
  by (cases "slocks s l") (auto simp: releasesleep_def upd_sl_def)

lemma wp_holdingsleep [simp, wp_simps]:
  "wp (holdingsleep l) Q s \<longleftrightarrow> L_sl l \<notin> set (held s)
     \<and> (if slocked (slocks s l)
        then (case curproc s of None \<Rightarrow> False | Some p \<Rightarrow> Q (slpid (slocks s l) = pid (ptable s p)) s)
        else Q False s)"
  by (auto simp: holdingsleep_def split: option.splits)

text \<open>What locking, sleeping and waking leave alone in the process table.\<close>

definition proc_frame :: "proc \<Rightarrow> proc \<Rightarrow> bool" where
  "proc_frame x y \<longleftrightarrow>
     y = x\<lparr>pstate := pstate y, chan := chan y, ticksScheduled := ticksScheduled y\<rparr>
     \<and> (pstate y = pstate x \<or> pstate x = SLEEPING \<and> pstate y = RUNNABLE) \<and> (pstate y = SLEEPING \<longrightarrow> chan y = chan x)"

definition same_thread :: "'a kst_scheme \<Rightarrow> 'b kst_scheme \<Rightarrow> bool" where
  "same_thread s s' \<longleftrightarrow> held s' = held s \<and> curproc s' = curproc s \<and> initproc s' = initproc s
     \<and> nextpid s' = nextpid s \<and> ticks s' = ticks s \<and> (\<forall>i. proc_frame (ptable s i) (ptable s' i))"

lemma proc_frame_refl [simp, intro]: "proc_frame x x"
  by (simp add: proc_frame_def)

lemma proc_frame_trans: "proc_frame x y \<Longrightarrow> proc_frame y z \<Longrightarrow> proc_frame x z"
  by (cases x; cases y; cases z) (auto simp: proc_frame_def)

lemma proc_frameD:
  assumes "proc_frame x y"
  shows "pid y = pid x" "sz y = sz x" "pgdir y = pgdir x" "kstack y = kstack x" "parent y = parent x"
    "tf y = tf x" "killed y = killed x" "ofile y = ofile x" "cwd y = cwd x" "pname y = pname x"
    "priority y = priority x" "ticksAtStart y = ticksAtStart x"
    "pstate x \<noteq> SLEEPING \<Longrightarrow> pstate y = pstate x"
    "pstate x = SLEEPING \<Longrightarrow> pstate y = RUNNABLE \<or> pstate y = SLEEPING \<and> chan y = chan x"
  using assms by (cases x; cases y; auto simp: proc_frame_def)+

lemma wake_frame [simp]: "proc_frame (pt i) (wake c pt i)"
  by (simp add: wake_def proc_frame_def)

text \<open>A process that sleeps on a channel.\<close>

definition sleeps_on :: "chan \<Rightarrow> 'a kst_scheme \<Rightarrow> nat \<Rightarrow> bool" where
  "sleeps_on c s q \<longleftrightarrow> pstate (ptable s q) = SLEEPING \<and> chan (ptable s q) = Some c"

lemma sleeps_on_wake [simp]:
  "sleeps_on c (s\<lparr>ptable := wake d (ptable t)\<rparr>) j \<longleftrightarrow> sleeps_on c t j \<and> (c = d \<longrightarrow> NPROC \<le> j)"
  by (auto simp: sleeps_on_def wake_def)

lemma same_thread_refl [simp, intro]: "same_thread s s"
  by (simp add: same_thread_def)

lemma same_thread_trans [trans]: "same_thread s s' \<Longrightarrow> same_thread s' s'' \<Longrightarrow> same_thread s s''"
  by (auto simp: same_thread_def intro: proc_frame_trans)

lemma same_threadD:
  assumes "same_thread s s'"
  shows "held s' = held s" "curproc s' = curproc s" "pid (ptable s' i) = pid (ptable s i)"
    "pstate (ptable s i) = RUNNING \<Longrightarrow> pstate (ptable s' i) = RUNNING"
  using assms proc_frameD [of "ptable s i" "ptable s' i"] by (auto simp: same_thread_def)

lemma same_thread_sleeper:
  assumes "same_thread s s'" "sleeps_on c s i"
  shows "pstate (ptable s' i) = RUNNABLE \<or> sleeps_on c s' i"
  using assms proc_frameD(14) [of "ptable s i" "ptable s' i"] by (auto simp: same_thread_def sleeps_on_def)

end
