(* ===== verification/Ide.thy ===== *)
theory Ide
  imports KState
begin

text \<open>
  Buffers and the disk drivers: src/buf.h, src/ide.c and the in-memory driver src/memide.c.

  The controller is its task-file registers, the status byte the driver reads back, and the
  sectors of the two drives. A write reaches the drive when its command is issued; a read is
  delivered when the driver drains the data port. \<open>idewait\<close> polls until the controller is ready:
  the status byte of the model is the one of the last poll. A block is one sector
  (BSIZE = SECTOR_SIZE = 512), held as a function on byte offsets below 512. The ghost component
  \<open>wtrace\<close> records the writes in the order in which the drive receives them.
\<close>

section \<open>State\<close>

abbreviation (input) BSIZE :: nat where "BSIZE \<equiv> 512"
abbreviation (input) FSSIZE :: nat where "FSSIZE \<equiv> 2000"
abbreviation (input) NBUF :: nat where "NBUF \<equiv> 30"

text \<open>
  \<open>struct buf\<close>: the flag bits B_VALID and B_DIRTY are two booleans, buffer pointers are indices
  below NBUF, and NBUF is the list head \<open>bcache.head\<close>.
\<close>

record buf =
  valid :: bool
  dirty :: bool
  dev :: nat
  blockno :: nat
  refcnt :: u32
  prev :: nat
  nxt :: nat
  qnext :: "nat option"
  data :: bytes

text \<open>The registers at ports 0x1f2 to 0x1f6.\<close>

record ide_regs =
  r_count :: u8
  r_lba0 :: u8
  r_lba1 :: u8
  r_lba2 :: u8
  r_drive :: u8

record bio_st = kst +
  bufs :: "nat \<Rightarrow> buf"
  idequeue :: "nat option"
  havedisk1 :: bool
  regs :: ide_regs
  status :: u8
  disk :: "nat \<Rightarrow> nat \<Rightarrow> bytes"
  wtrace :: "(nat \<times> nat \<times> bytes) list"

definition upd_buf :: "nat \<Rightarrow> (buf \<Rightarrow> buf) \<Rightarrow> 'a bio_st_scheme \<Rightarrow> 'a bio_st_scheme" where
  "upd_buf i f s = s\<lparr>bufs := (bufs s)(i := f (bufs s i))\<rparr>"

text \<open>The drive and the sector the registers select (28-bit LBA).\<close>

definition sel_drive :: "ide_regs \<Rightarrow> nat" where
  "sel_drive r = (if bit (r_drive r) 4 then 1 else 0)"

definition sel_sector :: "ide_regs \<Rightarrow> nat" where
  "sel_sector r = unat (r_lba0 r) + unat (r_lba1 r) * 2 ^ 8 + unat (r_lba2 r) * 2 ^ 16
     + unat (r_drive r AND 0x0f) * 2 ^ 24"

section \<open>The IDE driver (ide.c)\<close>

definition idewait :: "bool \<Rightarrow> 'a bio_st_scheme \<Rightarrow> int" where
  "idewait checkerr s = (if checkerr \<and> status s AND (0x20 OR 0x01) \<noteq> 0 then - 1 else 0)"

text \<open>\<open>present\<close> is what the thousand polls for drive 1 find.\<close>

definition ideinit :: "bool \<Rightarrow> (unit, 'a bio_st_scheme) kop" where
  "ideinit present =
     seq (modify (\<lambda>s. s\<lparr>regs := (regs s)\<lparr>r_drive := 0xe0 OR push_bit 4 1\<rparr>\<rparr>))
     (seq (if present then modify (\<lambda>s. s\<lparr>havedisk1 := True\<rparr>) else skip)
     (modify (\<lambda>s. s\<lparr>regs := (regs s)\<lparr>r_drive := 0xe0 OR push_bit 4 0\<rparr>\<rparr>)))"

text \<open>
  The number of sectors per block is 1. The write of 0 to the device control register (0x3f6), by which the drive interrupts when it is
  done, is left out: the drive always interrupts.
\<close>

definition idestart :: "nat option \<Rightarrow> (unit, 'a bio_st_scheme) kop" where
  "idestart ob = (case ob of
     None \<Rightarrow> panic ''idestart''
   | Some b \<Rightarrow>
     bind (gets (\<lambda>s. bufs s b)) (\<lambda>x.
     if blockno x \<ge> FSSIZE then panic ''incorrect blockno''
     else
       let sector_per_block = 1; sector = of_nat (blockno x * sector_per_block) :: u32
       in
       seq (modify (\<lambda>s. s\<lparr>regs := \<lparr>r_count = of_nat sector_per_block, r_lba0 = ucast (sector AND 0xff),
              r_lba1 = ucast (drop_bit 8 sector AND 0xff), r_lba2 = ucast (drop_bit 16 sector AND 0xff),
              r_drive = 0xe0 OR push_bit 4 (of_nat (dev x) AND 1) OR ucast (drop_bit 24 sector AND 0x0f)\<rparr>\<rparr>))
       (if dirty x
        then modify (\<lambda>s. let d = sel_drive (regs s); n = sel_sector (regs s) in
               s\<lparr>disk := (disk s)(d := (disk s d)(n := data x)), wtrace := wtrace s @ [(d, n, data x)]\<rparr>)
        else skip)))"

definition ideintr :: "(unit, 'a bio_st_scheme) kop" where
  "ideintr =
     seq (acquire L_ide)
     (bind (gets idequeue) (\<lambda>q. case q of
       None \<Rightarrow> release L_ide
     | Some b \<Rightarrow>
         seq (modify (\<lambda>s. s\<lparr>idequeue := qnext (bufs s b)\<rparr>))
         (seq (modify (\<lambda>s. if \<not> dirty (bufs s b) \<and> idewait True s \<ge> 0
             then upd_buf b (\<lambda>x. x\<lparr>data := disk s (sel_drive (regs s)) (sel_sector (regs s))\<rparr>) s else s))
         (seq (modify (upd_buf b (\<lambda>x. x\<lparr>valid := True\<rparr>)))
         (seq (modify (upd_buf b (\<lambda>x. x\<lparr>dirty := False\<rparr>)))
         (seq (wakeup (C_buf b))
         (bind (gets idequeue) (\<lambda>q.
         seq (if q \<noteq> None then idestart q else skip)
         (release L_ide)))))))))"

text \<open>
  The walk along \<open>qnext\<close> to the last request of the queue. \<open>None\<close>: the links form a cycle and the
  walk does not end.
\<close>

primrec ideq_last :: "nat \<Rightarrow> (nat \<Rightarrow> buf) \<Rightarrow> nat \<Rightarrow> nat option" where
  "ideq_last 0 bs b = None"
| "ideq_last (Suc n) bs b = (case qnext (bs b) of None \<Rightarrow> Some b | Some b' \<Rightarrow> ideq_last n bs b')"

definition ideq_append :: "nat \<Rightarrow> (unit, 'a bio_st_scheme) kop" where
  "ideq_append b =
     seq (modify (upd_buf b (\<lambda>x. x\<lparr>qnext := None\<rparr>)))
     (bind (gets id) (\<lambda>s. case idequeue s of
       None \<Rightarrow> modify (\<lambda>s. s\<lparr>idequeue := Some b\<rparr>)
     | Some h \<Rightarrow> (case ideq_last (NBUF + 1) (bufs s) h of
         None \<Rightarrow> panic ''idequeue does not end''
       | Some l \<Rightarrow> modify (upd_buf l (\<lambda>x. x\<lparr>qnext := Some b\<rparr>)))))"

text \<open>
  Sleeping for a device: the processor goes to its scheduler loop, where no lock is held and no
  process runs; the interrupt handler \<open>h\<close> runs there; then the sleeper is dispatched if it has
  been woken (\<open>scheduler\<close> of proc.c) and returns from \<open>sleep\<close>. Other processes that the scheduler might
  dispatch before it are not part of the run.
\<close>

definition sleep_intr :: "(unit, 'a kst_scheme) kop \<Rightarrow> chan \<Rightarrow> lockid \<Rightarrow> (unit, 'a kst_scheme) kop" where
  "sleep_intr h c lk s = (case (curproc s, sleep c lk s) of
     (Some p, Swtch s1) \<Rightarrow> (case h (s1\<lparr>held := [], curproc := None\<rparr>) of
       Ok _ s2 \<Rightarrow>
         if pstate (ptable s2 p) = RUNNABLE
         then sleep_return lk (upd_proc p (\<lambda>x. x\<lparr>pstate := RUNNING\<rparr>) (s2\<lparr>held := [L_ptable], curproc := Some p\<rparr>))
         else Swtch s2
     | r \<Rightarrow> r)
   | (_, r) \<Rightarrow> r)"

text \<open>
  The wait of \<open>iderw\<close>: every turn of the loop sleeps through one interrupt. \<open>n\<close> is the number of
  interrupts the disk delivers; a process that still has to wait after them stays asleep.
\<close>

primrec iderw_wait :: "nat \<Rightarrow> nat \<Rightarrow> (unit, 'a bio_st_scheme) kop" where
  "iderw_wait 0 b =
     bind (gets (\<lambda>s. bufs s b)) (\<lambda>x. if valid x \<and> \<not> dirty x then skip else sleep (C_buf b) L_ide)"
| "iderw_wait (Suc n) b =
     bind (gets (\<lambda>s. bufs s b)) (\<lambda>x. if valid x \<and> \<not> dirty x then skip
       else seq (sleep_intr ideintr (C_buf b) L_ide) (iderw_wait n b))"

text \<open>One interrupt per buffer is enough: every interrupt completes the request at the head.\<close>

definition iderw :: "nat \<Rightarrow> (unit, 'a bio_st_scheme) kop" where
  "iderw b =
     bind (holdingsleep (SL_buf b)) (\<lambda>h.
     bind (gets (\<lambda>s. bufs s b)) (\<lambda>x.
     bind (gets havedisk1) (\<lambda>have1.
     if \<not> h then panic ''iderw: buf not locked''
     else if valid x \<and> \<not> dirty x then panic ''iderw: nothing to do''
     else if dev x \<noteq> 0 \<and> \<not> have1 then panic ''iderw: ide disk 1 not present''
     else
       seq (acquire L_ide)
       (seq (ideq_append b)
       (bind (gets idequeue) (\<lambda>q.
       seq (if q = Some b then idestart (Some b) else skip)
       (seq (iderw_wait NBUF b)
       (release L_ide))))))))"

section \<open>The memory disk (memide.c)\<close>

text \<open>\<open>disksize\<close> is the number of blocks of the linked-in file system image.\<close>

definition mem_iderw :: "nat \<Rightarrow> nat \<Rightarrow> (unit, 'a bio_st_scheme) kop" where
  "mem_iderw disksize b =
     bind (holdingsleep (SL_buf b)) (\<lambda>h.
     bind (gets (\<lambda>s. bufs s b)) (\<lambda>x.
     if \<not> h then panic ''iderw: buf not locked''
     else if valid x \<and> \<not> dirty x then panic ''iderw: nothing to do''
     else if dev x \<noteq> 1 then panic ''iderw: request not for disk 1''
     else if blockno x \<ge> disksize then panic ''iderw: block out of range''
     else
       seq (if dirty x
        then seq (modify (upd_buf b (\<lambda>x. x\<lparr>dirty := False\<rparr>)))
          (modify (\<lambda>s. s\<lparr>disk := (disk s)(1 := (disk s 1)(blockno x := data x)),
             wtrace := wtrace s @ [(1, blockno x, data x)]\<rparr>))
        else modify (\<lambda>s. upd_buf b (\<lambda>y. y\<lparr>data := disk s 1 (blockno x)\<rparr>) s))
       (modify (upd_buf b (\<lambda>x. x\<lparr>valid := True\<rparr>)))))"

definition mem_ideintr :: "(unit, 'a bio_st_scheme) kop" where
  "mem_ideintr = skip"

section \<open>What a transfer does\<close>


text \<open>The registers \<open>idestart\<close> writes select the buffer's block.\<close>

definition start_regs :: "nat \<Rightarrow> nat \<Rightarrow> ide_regs" where
  "start_regs d n = (let sector = of_nat n :: u32 in
     \<lparr>r_count = 1, r_lba0 = ucast (sector AND 0xff),
      r_lba1 = ucast (drop_bit 8 sector AND 0xff), r_lba2 = ucast (drop_bit 16 sector AND 0xff),
      r_drive = 0xe0 OR push_bit 4 (of_nat d AND 1) OR ucast (drop_bit 24 sector AND 0x0f)\<rparr>)"

lemma sel_start_regs:
  assumes "n < FSSIZE"
  shows "sel_drive (start_regs d n) = d mod 2" "sel_sector (start_regs d n) = n"
proof -
  let ?w = "of_nat n :: u32"
  have mask8: "(0xff :: u32) = mask 8" by (simp add: mask_eq_exp_minus_1)
  have n: "unat ?w = n" using assms by simp
  have byte: "unat (ucast (w AND 0xff) :: u8) = unat w mod 256" for w :: u32
  proof -
    have "ucast (w AND 0xff) = (ucast w :: u8)"
      by (rule bit_word_eqI) (simp add: bit_simps mask8)
    then show ?thesis by (simp add: unsigned_ucast_eq take_bit_eq_mod)
  qed
  have z: "drop_bit 24 ?w = 0" "unat (drop_bit 16 ?w) = 0" "unat (drop_bit 8 ?w) = n div 256"
    using assms by (simp_all only: word_unat_eq_iff unat_drop_bit_eq n) (simp_all add: drop_bit_eq_div)
  have drive: "r_drive (start_regs d n) = 0xe0 OR push_bit 4 (of_nat d AND 1)"
    by (simp add: start_regs_def Let_def z(1))
  show "sel_drive (start_regs d n) = d mod 2"
    unfolding sel_drive_def drive by (simp add: bit_simps bit_0 odd_iff_mod_2_eq_one)
  have "r_drive (start_regs d n) AND 0x0f = 0"
    unfolding drive by (simp add: bit.conj_disj_distrib2 and.assoc)
  then show "sel_sector (start_regs d n) = n"
    using assms by (simp add: sel_sector_def start_regs_def Let_def byte n z)
qed


lemma bio_upd [simp]:
  "bufs (upd_buf i f s) = (bufs s)(i := f (bufs s i))" "held (upd_buf i f s) = held s"
  "curproc (upd_buf i f s) = curproc s" "ptable (upd_buf i f s) = ptable s" "slocks (upd_buf i f s) = slocks s"
  "idequeue (upd_buf i f s) = idequeue s" "havedisk1 (upd_buf i f s) = havedisk1 s" "regs (upd_buf i f s) = regs s"
  "status (upd_buf i f s) = status s" "disk (upd_buf i f s) = disk s" "wtrace (upd_buf i f s) = wtrace s"
  "initproc (upd_buf i f s) = initproc s" "nextpid (upd_buf i f s) = nextpid s" "ticks (upd_buf i f s) = ticks s"
  "bio_st.more (upd_buf i f s) = bio_st.more s"
  by (simp_all add: upd_buf_def)

lemma sleep_eq:
  assumes "held s = [lk]" "lk \<noteq> L_ptable" "curproc s = Some p"
  shows "sleep c lk s = Swtch (upd_proc p (\<lambda>x. x\<lparr>chan := Some c, pstate := SLEEPING, ticksScheduled := ticksScheduled x + 1\<rparr>)
    (s\<lparr>held := [L_ptable]\<rparr>))"
  using assms by (simp add: sleep_def myproc_def acquire_def release_def sched_def cur_def upd_proc_def)

lemma idestart_eq:
  assumes "blockno (bufs s b) < FSSIZE"
  shows "idestart (Some b) s = Ok () (let x = bufs s b; d = dev x mod 2; s' = s\<lparr>regs := start_regs (dev x) (blockno x)\<rparr> in
    if dirty x then s'\<lparr>disk := (disk s)(d := (disk s d)(blockno x := data x)),
      wtrace := wtrace s @ [(d, blockno x, data x)]\<rparr> else s')"
  using assms sel_start_regs [OF assms, of "dev (bufs s b)"]
  by (simp add: idestart_def Let_def start_regs_def)

lemma ideintr_eq:
  assumes "held s = []" "idequeue s = Some b" "qnext (bufs s b) = None"
  shows "ideintr s = Ok () (s\<lparr>idequeue := None,
     bufs := (bufs s)(b := (bufs s b)\<lparr>valid := True, dirty := False,
       data := (if \<not> dirty (bufs s b) \<and> idewait True s \<ge> 0 then disk s (sel_drive (regs s)) (sel_sector (regs s))
                else data (bufs s b))\<rparr>),
     ptable := wake (C_buf b) (ptable s)\<rparr>)"
  using assms
  by (auto simp: ideintr_def acquire_def release_def wakeup_def wakeup1_eq upd_buf_def idewait_def intro!: bio_st.equality)

lemma iderw_wait_done: "valid (bufs s b) \<and> \<not> dirty (bufs s b) \<Longrightarrow> iderw_wait n b s = Ok () s"
  by (cases n) simp_all

lemma sleep_ideintr_eq:
  assumes "held s = [L_ide]" "curproc s = Some p" "p < NPROC" "pstate (ptable s p) = RUNNING"
    "idequeue s = Some b" "qnext (bufs s b) = None"
  shows "sleep_intr ideintr (C_buf b) L_ide s = Ok () (s\<lparr>idequeue := None,
     bufs := (bufs s)(b := (bufs s b)\<lparr>valid := True, dirty := False,
       data := (if \<not> dirty (bufs s b) \<and> idewait True s \<ge> 0 then disk s (sel_drive (regs s)) (sel_sector (regs s))
                else data (bufs s b))\<rparr>),
     ptable := (wake (C_buf b) (ptable s))(p := (ptable s p)\<lparr>chan := None, ticksScheduled := ticksScheduled (ptable s p) + 1\<rparr>)\<rparr>)"
proof -
  let ?s1 = "upd_proc p (\<lambda>x. x\<lparr>chan := Some (C_buf b), pstate := SLEEPING, ticksScheduled := ticksScheduled x + 1\<rparr>)
    (s\<lparr>held := [L_ptable]\<rparr>)"
  have 1: "sleep (C_buf b) L_ide s = Swtch ?s1" using assms by (intro sleep_eq) auto
  let ?s2 = "?s1\<lparr>held := [], curproc := None\<rparr>"
  have 2: "ideintr ?s2 = Ok () (?s2\<lparr>idequeue := None,
     bufs := (bufs ?s2)(b := (bufs ?s2 b)\<lparr>valid := True, dirty := False,
       data := (if \<not> dirty (bufs ?s2 b) \<and> idewait True ?s2 \<ge> 0 then disk ?s2 (sel_drive (regs ?s2)) (sel_sector (regs ?s2))
                else data (bufs ?s2 b))\<rparr>),
     ptable := wake (C_buf b) (ptable ?s2)\<rparr>)"
    by (rule ideintr_eq) (use assms in \<open>simp_all add: upd_proc_def\<close>)
  show ?thesis
    unfolding sleep_intr_def 1 assms(2) prod.case option.case outcome.case 2
    using assms
    by (auto simp: upd_proc_def wake_def sleep_return_def cur_def release_def
         acquire_def idewait_def intro!: bio_st.equality ext)
qed

text \<open>A buffer this thread may hand to the driver, with the driver idle and the disk working.\<close>

definition ide_ready :: "'a bio_st_scheme \<Rightarrow> bool" where
  "ide_ready s \<longleftrightarrow> idequeue s = None \<and> havedisk1 s \<and> status s AND 0x21 = 0"

definition running :: "'a kst_scheme \<Rightarrow> nat \<Rightarrow> bool" where
  "running s p \<longleftrightarrow> curproc s = Some p \<and> p < NPROC \<and> pstate (ptable s p) = RUNNING"

definition sl_mine :: "'a kst_scheme \<Rightarrow> slid \<Rightarrow> bool" where
  "sl_mine s l \<longleftrightarrow> slocked (slocks s l)
     \<and> (case curproc s of None \<Rightarrow> False | Some p \<Rightarrow> slpid (slocks s l) = pid (ptable s p))"

text \<open>What a transfer does to the buffer and to the disk.\<close>

definition xfer_buf :: "'a bio_st_scheme \<Rightarrow> nat \<Rightarrow> buf" where
  "xfer_buf s b = (let x = bufs s b in x\<lparr>valid := True, dirty := False,
     data := (if dirty x then data x else disk s (dev x mod 2) (blockno x))\<rparr>)"

definition xfer_disk :: "'a bio_st_scheme \<Rightarrow> nat \<Rightarrow> nat \<Rightarrow> nat \<Rightarrow> bytes" where
  "xfer_disk s b = (let x = bufs s b; d = dev x mod 2 in
     if dirty x then (disk s)(d := (disk s d)(blockno x := data x)) else disk s)"

definition xfer_trace :: "'a bio_st_scheme \<Rightarrow> nat \<Rightarrow> (nat \<times> nat \<times> bytes) list" where
  "xfer_trace s b = (let x = bufs s b in
     wtrace s @ (if dirty x then [(dev x mod 2, blockno x, data x)] else []))"

lemma iderw_eq:
  assumes "held s = []" "running s p" "sl_mine s (SL_buf b)" "ide_ready s"
    "blockno (bufs s b) < FSSIZE" "\<not> (valid (bufs s b) \<and> \<not> dirty (bufs s b))"
  shows "iderw b s = Ok () (s\<lparr>regs := start_regs (dev (bufs s b)) (blockno (bufs s b)),
     bufs := (bufs s)(b := (xfer_buf s b)\<lparr>qnext := None\<rparr>), disk := xfer_disk s b, wtrace := xfer_trace s b,
     ptable := (wake (C_buf b) (ptable s))(p := (ptable s p)\<lparr>chan := None, ticksScheduled := ticksScheduled (ptable s p) + 1\<rparr>)\<rparr>)"
proof -
  have h: "holdingsleep (SL_buf b) s = Ok True s"
    using assms by (auto simp: holdingsleep_def acquire_def release_def cur_def sl_mine_def running_def
        intro!: bio_st.equality)
  let ?s1 = "s\<lparr>held := [L_ide], idequeue := Some b, bufs := (bufs s)(b := (bufs s b)\<lparr>qnext := None\<rparr>)\<rparr>"
  have a: "acquire L_ide s = Ok () (s\<lparr>held := [L_ide]\<rparr>)" using assms(1) by (simp add: acquire_def)
  have q: "ideq_append b (s\<lparr>held := [L_ide]\<rparr>) = Ok () ?s1"
    using assms(4) by (auto simp: ideq_append_def upd_buf_def ide_ready_def intro!: bio_st.equality)
  let ?s2 = "?s1\<lparr>regs := start_regs (dev (bufs s b)) (blockno (bufs s b)),
     disk := xfer_disk s b, wtrace := xfer_trace s b\<rparr>"
  have st: "idestart (Some b) ?s1 = Ok () ?s2"
    using assms(5)
    by (subst idestart_eq) (auto simp: Let_def xfer_disk_def xfer_trace_def intro!: bio_st.equality)
  let ?s3 = "s\<lparr>held := [L_ide], regs := start_regs (dev (bufs s b)) (blockno (bufs s b)),
     bufs := (bufs s)(b := (xfer_buf s b)\<lparr>qnext := None\<rparr>), disk := xfer_disk s b, wtrace := xfer_trace s b,
     ptable := (wake (C_buf b) (ptable s))(p := (ptable s p)\<lparr>chan := None, ticksScheduled := ticksScheduled (ptable s p) + 1\<rparr>)\<rparr>"
  have z: "sleep_intr ideintr (C_buf b) L_ide ?s2 = Ok () ?s3"
    using assms(2,4-6)
    by (subst sleep_ideintr_eq [where p = p])
      (auto simp: running_def sel_start_regs xfer_buf_def xfer_disk_def Let_def
        ide_ready_def idewait_def intro!: bio_st.equality)
  have "iderw_wait 29 b ?s3 = Ok () ?s3"
    by (rule iderw_wait_done) (simp add: xfer_buf_def Let_def)
  then have "iderw_wait (Suc 29) b ?s2 = Ok () ?s3"
    unfolding iderw_wait.simps(2) using z assms(6) by auto
  then have w: "iderw_wait NBUF b ?s2 = Ok () ?s3" by simp
  have r: "release L_ide ?s3 = Ok () (?s3\<lparr>held := []\<rparr>)" by (simp add: release_def)
  have "iderw b s = seq (acquire L_ide) (seq (ideq_append b) (bind (gets idequeue) (\<lambda>q.
       seq (if q = Some b then idestart (Some b) else skip) (seq (iderw_wait NBUF b) (release L_ide))))) s"
    using h assms(4,6) by (auto simp: iderw_def ide_ready_def)
  also have "\<dots> = Ok () (?s3\<lparr>held := []\<rparr>)"
    by (simp add: a q st w r)
  finally show ?thesis using assms(1) by (auto intro!: bio_st.equality)
qed
lemma mem_iderw_eq:
  assumes "held s = []" "sl_mine s (SL_buf b)" "dev (bufs s b) = 1"
    "blockno (bufs s b) < n" "\<not> (valid (bufs s b) \<and> \<not> dirty (bufs s b))"
  shows "mem_iderw n b s = Ok () (s\<lparr>bufs := (bufs s)(b := xfer_buf s b), disk := xfer_disk s b, wtrace := xfer_trace s b\<rparr>)"
proof -
  have h: "holdingsleep (SL_buf b) s = Ok True s"
    using assms(1,2) by (auto simp: holdingsleep_def acquire_def release_def cur_def sl_mine_def
        intro!: bio_st.equality split: option.splits)
  show ?thesis
    using assms h
    by (cases "dirty (bufs s b)")
      (auto simp: mem_iderw_def upd_buf_def xfer_buf_def xfer_disk_def xfer_trace_def Let_def intro!: bio_st.equality)
qed

section \<open>Block devices\<close>

text \<open>
  What the buffer cache relies on, whichever driver is linked in: a request for a buffer the
  caller has locked returns, and has made the buffer and its block equal.
\<close>

locale block_device =
  fixes rw :: "nat \<Rightarrow> (unit, 'a bio_st_scheme) kop"
    and ready :: "'a bio_st_scheme \<Rightarrow> nat \<Rightarrow> bool"
  assumes rw_xfer: "\<lbrakk>ready s b; \<not> (valid (bufs s b) \<and> \<not> dirty (bufs s b))\<rbrakk> \<Longrightarrow>
      \<exists>s'. rw b s = Ok () s' \<and> disk s' = xfer_disk s b \<and> wtrace s' = xfer_trace s b
        \<and> (bufs s' b)\<lparr>qnext := None\<rparr> = (xfer_buf s b)\<lparr>qnext := None\<rparr>
        \<and> (\<forall>c. c \<noteq> b \<longrightarrow> bufs s' c = bufs s c) \<and> (\<forall>c. ready s c \<longrightarrow> ready s' c)"
begin

lemma rw_fields:
  assumes "ready s b" "\<not> (valid (bufs s b) \<and> \<not> dirty (bufs s b))" "rw b s = Ok () s'"
  shows "valid (bufs s' b)" "\<not> dirty (bufs s' b)" "dev (bufs s' b) = dev (bufs s b)"
    "blockno (bufs s' b) = blockno (bufs s b)" "data (bufs s' b) = disk s' (dev (bufs s b) mod 2) (blockno (bufs s b))"
    "dirty (bufs s b) \<Longrightarrow> data (bufs s' b) = data (bufs s b)"
proof -
  obtain t where t: "rw b s = Ok () t" "disk t = xfer_disk s b" "(bufs t b)\<lparr>qnext := None\<rparr> = (xfer_buf s b)\<lparr>qnext := None\<rparr>"
    using rw_xfer [OF assms(1,2)] by blast
  then have "s' = t" using assms(3) by simp
  have *: "f (bufs t b) = f (xfer_buf s b)" if "\<And>x. f (x\<lparr>qnext := None\<rparr>) = f x" for f :: "buf \<Rightarrow> 'z"
    using that t(3) by metis
  show "valid (bufs s' b)" "\<not> dirty (bufs s' b)" "dev (bufs s' b) = dev (bufs s b)"
    "blockno (bufs s' b) = blockno (bufs s b)" "data (bufs s' b) = disk s' (dev (bufs s b) mod 2) (blockno (bufs s b))"
    "dirty (bufs s b) \<Longrightarrow> data (bufs s' b) = data (bufs s b)"
    using * [of valid] * [of dirty] * [of dev] * [of blockno] * [of data] t(2)
    by (auto simp: \<open>s' = t\<close> xfer_buf_def xfer_disk_def Let_def)
qed

text \<open>Writing a buffer out and reading its block into another buffer gives the bytes back.\<close>

lemma write_read:
  assumes "ready s b" "ready s c" "b \<noteq> c" "dirty (bufs s b)" "\<not> valid (bufs s c)" "\<not> dirty (bufs s c)"
    "dev (bufs s c) = dev (bufs s b)" "blockno (bufs s c) = blockno (bufs s b)"
  shows "\<exists>s'. seq (rw b) (rw c) s = Ok () s' \<and> data (bufs s' c) = data (bufs s b)"
proof -
  obtain t where t: "rw b s = Ok () t" "\<forall>c. c \<noteq> b \<longrightarrow> bufs t c = bufs s c" "ready t c"
    using rw_xfer [OF assms(1)] assms(2,4) by blast
  have c: "bufs t c = bufs s c" using t assms(3) by simp
  note b = rw_fields [OF assms(1) _ t(1)]
  obtain u where u: "rw c t = Ok () u" "disk u = xfer_disk t c"
    using rw_xfer [OF t(3)] c assms(5) by auto
  note f = rw_fields [OF t(3) _ u(1)]
  have "data (bufs u c) = disk t (dev (bufs s b) mod 2) (blockno (bufs s b))"
    using f(5) u(2) c assms(5-8) by (simp add: xfer_disk_def)
  also have "\<dots> = data (bufs s b)" using b(5,6) assms(4) by simp
  finally show ?thesis using t(1) u(1) by auto
qed

end

definition ide_req :: "'a bio_st_scheme \<Rightarrow> nat \<Rightarrow> bool" where
  "ide_req s b \<longleftrightarrow> held s = [] \<and> (\<exists>p. running s p) \<and> sl_mine s (SL_buf b) \<and> ide_ready s \<and> blockno (bufs s b) < FSSIZE"

definition mem_req :: "nat \<Rightarrow> 'a bio_st_scheme \<Rightarrow> nat \<Rightarrow> bool" where
  "mem_req n s b \<longleftrightarrow> held s = [] \<and> sl_mine s (SL_buf b) \<and> dev (bufs s b) = 1 \<and> blockno (bufs s b) < n"

interpretation ide: block_device iderw ide_req
proof
  fix s :: "'a bio_st_scheme" and b
  assume "ide_req s b" "\<not> (valid (bufs s b) \<and> \<not> dirty (bufs s b))"
  then obtain p where *: "held s = []" "running s p" "sl_mine s (SL_buf b)" "ide_ready s" "blockno (bufs s b) < FSSIZE"
      "\<not> (valid (bufs s b) \<and> \<not> dirty (bufs s b))"
    by (auto simp: ide_req_def)
  then show "\<exists>s'. iderw b s = Ok () s' \<and> disk s' = xfer_disk s b \<and> wtrace s' = xfer_trace s b
        \<and> (bufs s' b)\<lparr>qnext := None\<rparr> = (xfer_buf s b)\<lparr>qnext := None\<rparr>
        \<and> (\<forall>c. c \<noteq> b \<longrightarrow> bufs s' c = bufs s c) \<and> (\<forall>c. ide_req s c \<longrightarrow> ide_req s' c)"
    by (subst iderw_eq [OF *])
      (auto simp: ide_req_def running_def sl_mine_def ide_ready_def xfer_buf_def Let_def wake_def split: option.splits)
qed

interpretation memdisk: block_device "mem_iderw n" "mem_req n"
proof
  fix s :: "'a bio_st_scheme" and b
  assume *: "mem_req n s b" "\<not> (valid (bufs s b) \<and> \<not> dirty (bufs s b))"
  then have "mem_iderw n b s = Ok () (s\<lparr>bufs := (bufs s)(b := xfer_buf s b), disk := xfer_disk s b, wtrace := xfer_trace s b\<rparr>)"
    by (intro mem_iderw_eq) (auto simp: mem_req_def)
  with * show "\<exists>s'. mem_iderw n b s = Ok () s' \<and> disk s' = xfer_disk s b \<and> wtrace s' = xfer_trace s b
        \<and> (bufs s' b)\<lparr>qnext := None\<rparr> = (xfer_buf s b)\<lparr>qnext := None\<rparr>
        \<and> (\<forall>c. c \<noteq> b \<longrightarrow> bufs s' c = bufs s c) \<and> (\<forall>c. mem_req n s c \<longrightarrow> mem_req n s' c)"
    by (auto simp: mem_req_def sl_mine_def xfer_buf_def Let_def split: option.splits)
qed

section \<open>Properties\<close>

text \<open>
  C35 The interrupt-driven driver and the memory disk implement the same device: for a buffer the
  process has locked, whose block lies on disk 1, both return; they leave the same bytes in the
  buffer, the same disk and the same order of writes; the buffer is then valid, clean and equal to
  its block, the queue is empty again, and the process still runs and holds what it held.
\<close>

theorem iderw_memide_agree:
  assumes "held s = []" "running s p" "sl_mine s (SL_buf b)" "ide_ready s" "dev (bufs s b) = 1"
    "blockno (bufs s b) < n" "n \<le> FSSIZE" "\<not> (valid (bufs s b) \<and> \<not> dirty (bufs s b))"
  shows "\<exists>s1 s2. iderw b s = Ok () s1 \<and> mem_iderw n b s = Ok () s2
     \<and> disk s1 = disk s2 \<and> wtrace s1 = wtrace s2 \<and> (\<forall>i. (bufs s1 i)\<lparr>qnext := None\<rparr> = (bufs s2 i)\<lparr>qnext := None\<rparr>)
     \<and> valid (bufs s1 b) \<and> \<not> dirty (bufs s1 b) \<and> data (bufs s1 b) = disk s1 1 (blockno (bufs s b))
     \<and> (if dirty (bufs s b) then disk s1 = (disk s)(1 := (disk s 1)(blockno (bufs s b) := data (bufs s b)))
        else disk s1 = disk s)
     \<and> idequeue s1 = None \<and> running s1 p \<and> held s1 = [] \<and> slocks s1 = slocks s"
proof -
  note 1 = iderw_eq [OF assms(1-4) _ assms(8)] and 2 = mem_iderw_eq [OF assms(1,3,5,6,8)]
  show ?thesis
    unfolding 2 using assms
    by (subst 1) (auto simp: xfer_buf_def xfer_disk_def xfer_trace_def Let_def running_def ide_ready_def)
qed

text \<open>The kernel with one running process that holds the lock of buffer 3, a write to block 5.\<close>

definition ex_bio :: bio_st where
  "ex_bio = \<lparr>held = [], curproc = Some 0, ptable = (\<lambda>_. proc0\<lparr>pstate := RUNNING, pid := 1\<rparr>), initproc = Some 0,
     nextpid = 2, slocks = (\<lambda>l. \<lparr>slocked = True, slpid = 1\<rparr>), ticks = 0,
     bufs = (\<lambda>i. \<lparr>valid = False, dirty = (i = 3), dev = 1, blockno = 5, refcnt = 1, prev = 0, nxt = 0,
       qnext = None, data = (\<lambda>k. of_nat (i + k))\<rparr>),
     idequeue = None, havedisk1 = True, regs = start_regs 0 0, status = 0x40, disk = (\<lambda>_ _ _. 9), wtrace = []\<rparr>"

lemma ex_bio_ready:
  "held ex_bio = []" "running ex_bio 0" "sl_mine ex_bio l" "ide_ready ex_bio" "ide_req ex_bio b"
  by (auto simp: ex_bio_def running_def sl_mine_def ide_ready_def ide_req_def)

lemma ex_bio_fields:
  "dev (bufs ex_bio b) = 1" "blockno (bufs ex_bio b) = 5" "\<not> valid (bufs ex_bio b)" "dirty (bufs ex_bio b) \<longleftrightarrow> b = 3"
  "data (bufs ex_bio b) = (\<lambda>k. of_nat (b + k))" "disk ex_bio = (\<lambda>_ _ _. 9)" "qnext (bufs ex_bio b) = None"
  by (simp_all add: ex_bio_def)

theorem iderw_memide_agree_witness:
  "\<exists>s1 s2. iderw 3 ex_bio = Ok () s1 \<and> mem_iderw 6 3 ex_bio = Ok () s2 \<and> disk s1 1 5 7 = 10 \<and> disk s2 1 5 7 = 10
     \<and> disk s1 1 4 7 = 9"
proof -
  from iderw_memide_agree [of ex_bio 0 3 6] ex_bio_ready ex_bio_fields obtain s1 s2 where
    "iderw 3 ex_bio = Ok () s1" "mem_iderw 6 3 ex_bio = Ok () s2" "disk s1 = disk s2"
    "disk s1 = (\<lambda>_ _ _. 9)(1 := (\<lambda>_ _. 9)(5 := \<lambda>k. of_nat (3 + k)))"
    by auto
  moreover from this(4) have "disk s1 1 5 7 = 10 \<and> disk s1 1 4 7 = 9" by simp
  ultimately show ?thesis by auto
qed

text \<open>
   A block written from one buffer and read into another comes back byte for byte, through
  the whole path of the driver: queue, controller registers, interrupt, wakeup.
\<close>

theorem disk_write_read:
  assumes "ide_req s b" "ide_req s c" "b \<noteq> c" "dirty (bufs s b)" "\<not> valid (bufs s c)" "\<not> dirty (bufs s c)"
    "dev (bufs s c) = dev (bufs s b)" "blockno (bufs s c) = blockno (bufs s b)"
  shows "\<exists>s'. seq (iderw b) (iderw c) s = Ok () s' \<and> data (bufs s' c) = data (bufs s b)"
  by (rule ide.write_read [OF assms])

theorem disk_write_read_witness:
  "\<exists>s'. seq (iderw 3) (iderw 4) ex_bio = Ok () s' \<and> data (bufs s' 4) = (\<lambda>k. of_nat (3 + k))"
  using disk_write_read [of ex_bio 3 4] ex_bio_ready ex_bio_fields by auto

text \<open>
   A read the drive reports as failed: the interrupt handler skips the transfer and still
  marks the buffer valid, so the caller of \<open>bread\<close> is given whatever the buffer held before.
\<close>

theorem ideintr_error_marks_valid:
  assumes "held s = []" "idequeue s = Some b" "qnext (bufs s b) = None" "\<not> dirty (bufs s b)"
    "status s AND 0x21 \<noteq> 0"
  shows "\<exists>s'. ideintr s = Ok () s' \<and> valid (bufs s' b) \<and> data (bufs s' b) = data (bufs s b)"
  using assms by (subst ideintr_eq) (auto simp: idewait_def)

theorem ideintr_error_marks_valid_witness:
  "\<exists>s'. ideintr (ex_bio\<lparr>idequeue := Some 4, status := 0x41\<rparr>) = Ok () s' \<and> valid (bufs s' 4)
     \<and> data (bufs s' 4) \<noteq> disk s' 1 5"
proof -
  have "(\<lambda>k. of_nat (4 + k)) \<noteq> (\<lambda>_. 9 :: u8)" by (auto dest: fun_cong [where x = 0])
  moreover have "ideintr (ex_bio\<lparr>idequeue := Some 4, status := 0x41\<rparr>) = Ok () s' \<Longrightarrow> disk s' = disk ex_bio" for s'
    by (subst (asm) ideintr_eq) (auto simp: ex_bio_def)
  ultimately show ?thesis
    using ideintr_error_marks_valid [of "ex_bio\<lparr>idequeue := Some 4, status := 0x41\<rparr>" 4]
    by (auto simp: ex_bio_def)
qed

end
