(* ===== verification/Ring.thy ===== *)
theory Ring
  imports Main
begin

text \<open>
  Circular doubly linked lists through a head, as arrays of next and previous links, and the list
  of nodes they represent (used for the buffer cache of src/bio.c).
\<close>

primrec link_path :: "(nat \<Rightarrow> nat) \<Rightarrow> nat \<Rightarrow> nat list \<Rightarrow> nat \<Rightarrow> bool" where
  "link_path f a [] b \<longleftrightarrow> f a = b"
| "link_path f a (x # xs) b \<longleftrightarrow> f a = x \<and> link_path f x xs b"

lemma path_append: "link_path f a (xs @ x # ys) b \<longleftrightarrow> link_path f a xs x \<and> link_path f x ys b"
  by (induction xs arbitrary: a) auto

lemma path_upd_other [simp]: "i \<noteq> a \<Longrightarrow> i \<notin> set xs \<Longrightarrow> link_path (f(i := v)) a xs b = link_path f a xs b"
  by (induction xs arbitrary: a) auto

lemma path_upd_last: "link_path f a xs b \<Longrightarrow> distinct (a # xs) \<Longrightarrow> link_path (f(last (a # xs) := c)) a xs c"
  by (induction xs arbitrary: a) auto

lemma path_first: "link_path f a xs b \<Longrightarrow> f a = hd (xs @ [b])"
  by (cases xs) auto

text \<open>\<open>xs\<close> from the head along \<open>N\<close>, and backwards along \<open>P\<close>.\<close>

definition ring :: "(nat \<Rightarrow> nat) \<Rightarrow> (nat \<Rightarrow> nat) \<Rightarrow> nat \<Rightarrow> nat list \<Rightarrow> bool" where
  "ring N P H xs \<longleftrightarrow> distinct (H # xs) \<and> link_path N H xs H \<and> link_path P H (rev xs) H"

text \<open>The list is determined by the links.\<close>

lemma path_unique:
  assumes "link_path f a xs e" "link_path f a ys e" "e \<notin> set xs" "e \<notin> set ys"
  shows "xs = ys"
  using assms
proof (induction xs arbitrary: a ys)
  case Nil
  then show ?case by (cases ys) auto
next
  case (Cons x xs)
  then show ?case by (cases ys) auto
qed

lemma ring_unique: "ring N P H xs \<Longrightarrow> ring N P H ys \<Longrightarrow> xs = ys"
  by (rule path_unique [of N H xs H ys]) (auto simp: ring_def)

lemma path_unlink:
  assumes "link_path f a (ys @ b # zs) c" "distinct (a # ys @ b # zs)"
  shows "link_path (f(last (a # ys) := f b)) a (ys @ zs) c"
proof -
  have p: "link_path f a ys b" "link_path f b zs c" using assms(1) by (simp_all add: path_append)
  have 1: "link_path (f(last (a # ys) := f b)) a ys (f b)" using p(1) assms(2) by (intro path_upd_last) auto
  have l: "last (a # ys) \<in> insert a (set ys)" by (auto simp: last_in_set)
  show ?thesis
  proof (cases zs)
    case Nil
    then show ?thesis using 1 p(2) by simp
  next
    case (Cons z zs')
    with p(2) have z: "f b = z" "link_path f z zs' c" by simp_all
    have "last (a # ys) \<noteq> z" "last (a # ys) \<notin> set zs'" using l assms(2) Cons by auto
    then have "link_path (f(last (a # ys) := f b)) z zs' c" using z by simp
    then show ?thesis using 1 z Cons by (simp add: path_append)
  qed
qed

lemma ring_neighbours:
  assumes "ring N P H (ys @ b # zs)"
  shows "P b = last (H # ys)" "N b = hd (zs @ [H])"
proof -
  have "link_path N b zs H" "link_path P b (rev ys) H" using assms by (auto simp: ring_def path_append)
  then show "P b = last (H # ys)" "N b = hd (zs @ [H])"
    by (auto dest: path_first simp: hd_append hd_rev split: if_splits)
qed

lemma ring_unlink:
  assumes "ring N P H (ys @ b # zs)"
  shows "ring (N(P b := N b)) (P(N b := P b)) H (ys @ zs)"
proof -
  have d: "distinct (H # ys @ b # zs)" "link_path N H (ys @ b # zs) H" "link_path P H (rev zs @ b # rev ys) H"
    using assms by (simp_all add: ring_def)
  have "N b = last (H # rev zs)" "P b = last (H # ys)"
    using ring_neighbours [OF assms] by (cases zs; simp)+
  moreover have "link_path (P(last (H # rev zs) := P b)) H (rev zs @ rev ys) H"
    using d by (intro path_unlink) auto
  moreover have "link_path (N(last (H # ys) := N b)) H (ys @ zs) H" using d by (intro path_unlink) auto
  ultimately show ?thesis using d(1) by (simp add: ring_def)
qed

lemma path_snoc: "link_path f a (xs @ [x]) b \<longleftrightarrow> link_path f a xs x \<and> f x = b"
  by (simp add: path_append)

lemma ring_push:
  assumes "ring N P H xs" "b \<noteq> H" "b \<notin> set xs"
  shows "ring (N(b := N H, H := b)) (P(b := H, N H := b)) H (b # xs)"
proof -
  have d: "distinct (H # xs)" "link_path N H xs H" "link_path P H (rev xs) H" using assms(1) by (simp_all add: ring_def)
  have n: "N H = hd (xs @ [H])" using d(2) by (rule path_first)
  have "link_path (N(b := N H, H := b)) b xs H"
  proof (cases xs)
    case Nil
    then show ?thesis using n assms(2) by simp
  next
    case (Cons x xs')
    then have "link_path N x xs' H" using d(2) by simp
    then show ?thesis using Cons d(1) n assms by auto
  qed
  moreover have "link_path (P(b := H, N H := b)) H (rev xs) b"
  proof -
    have "link_path (P(b := H)) H (rev xs) H" using d(3) assms by simp
    then have "link_path ((P(b := H))(last (H # rev xs) := b)) H (rev xs) b"
      using d(1) by (intro path_upd_last) auto
    moreover have "last (H # rev xs) = N H" using n by (cases xs) simp_all
    ultimately show ?thesis by simp
  qed
  moreover have "(P(b := H, N H := b)) b = H" using n assms by (cases xs) auto
  ultimately show ?thesis using d(1) assms by (auto simp: ring_def path_snoc)
qed

lemma ring_move_front:
  assumes "ring N P H (ys @ b # zs)"
  defines "N1 \<equiv> N(P b := N b)" and "P1 \<equiv> P(N b := P b)"
  shows "ring (N1(b := N1 H, H := b)) (P1(b := H, N1 H := b)) H (b # ys @ zs)"
  using assms(1) unfolding N1_def P1_def
  by (intro ring_push ring_unlink) (auto simp: ring_def)

text \<open>
  Walking along the links until the head comes up again, looking for a node: \<open>Some (Some i)\<close> when
  found, \<open>Some None\<close> at the head, \<open>None\<close> when the walk does not end within \<open>n\<close> nodes.
\<close>

primrec scan :: "nat \<Rightarrow> (nat \<Rightarrow> nat) \<Rightarrow> nat \<Rightarrow> (nat \<Rightarrow> bool) \<Rightarrow> nat \<Rightarrow> nat option option" where
  "scan 0 f H good b = None"
| "scan (Suc n) f H good b =
     (if b = H then Some None else if good b then Some (Some b) else scan n f H good (f b))"

lemma scan_path:
  "link_path f a xs H \<Longrightarrow> H \<notin> set xs \<Longrightarrow> length xs < n \<Longrightarrow> scan n f H good (f a) = Some (find good xs)"
proof (induction xs arbitrary: a n)
  case Nil
  then show ?case by (cases n) auto
next
  case (Cons x xs)
  then obtain m where "n = Suc m" by (cases n) auto
  with Cons show ?case by auto
qed

end
