(* ===== verification/Bio.thy ===== *)
theory Bio
  imports Ide Ring
begin

text \<open>
  The buffer cache (src/bio.c): a table of buffers on a circular doubly linked list, most recently
  used first. The second half abstracts the cache to what its clients see, the current contents of
  every block of the root device, and shows that \<open>bread\<close>, \<open>bwrite\<close> and \<open>brelse\<close> implement it.
\<close>

section \<open>Operations (bio.c)\<close>

abbreviation (input) bhead :: nat where "bhead \<equiv> NBUF"

text \<open>Insert \<open>b\<close> behind the head: the last four assignments of \<open>brelse\<close>, the body of the loop of \<open>binit\<close>.\<close>

definition bpush :: "nat \<Rightarrow> (unit, 'a bio_st_scheme) kop" where
  "bpush b =
     seq (modify (\<lambda>s. upd_buf b (\<lambda>x. x\<lparr>nxt := nxt (bufs s bhead)\<rparr>) s))
     (seq (modify (upd_buf b (\<lambda>x. x\<lparr>prev := bhead\<rparr>)))
     (seq (modify (\<lambda>s. upd_buf (nxt (bufs s bhead)) (\<lambda>x. x\<lparr>prev := b\<rparr>) s))
     (modify (upd_buf bhead (\<lambda>x. x\<lparr>nxt := b\<rparr>)))))"

definition binit :: "(unit, 'a bio_st_scheme) kop" where
  "binit =
     seq (modify (upd_buf bhead (\<lambda>x. x\<lparr>prev := bhead\<rparr>)))
     (seq (modify (upd_buf bhead (\<lambda>x. x\<lparr>nxt := bhead\<rparr>)))
     (foreach [0..<NBUF] (\<lambda>b. seq (initsleeplock (SL_buf b)) (bpush b))))"

text \<open>
  The two searches of \<open>bget\<close>. The fuel covers every buffer and the head, so it runs out only on a
  list that does not come back to the head.
\<close>

definition find_cached :: "'a bio_st_scheme \<Rightarrow> nat \<Rightarrow> nat \<Rightarrow> nat option option" where
  "find_cached s d n = scan (NBUF + 1) (\<lambda>i. nxt (bufs s i)) bhead
     (\<lambda>i. dev (bufs s i) = d \<and> blockno (bufs s i) = n) (nxt (bufs s bhead))"

definition find_unused :: "'a bio_st_scheme \<Rightarrow> nat option option" where
  "find_unused s = scan (NBUF + 1) (\<lambda>i. prev (bufs s i)) bhead
     (\<lambda>i. refcnt (bufs s i) = 0 \<and> \<not> dirty (bufs s i)) (prev (bufs s bhead))"

definition bget :: "nat \<Rightarrow> nat \<Rightarrow> (nat, 'a bio_st_scheme) kop" where
  "bget d n =
     seq (acquire L_bcache)
     (bind (gets (\<lambda>s. find_cached s d n)) (\<lambda>r. case r of
       None \<Rightarrow> panic ''buffer list does not end''
     | Some (Some b) \<Rightarrow>
         seq (modify (upd_buf b (\<lambda>x. x\<lparr>refcnt := refcnt x + 1\<rparr>)))
         (seq (release L_bcache)
         (seq (acquiresleep (SL_buf b))
         (ret b)))
     | Some None \<Rightarrow>
         bind (gets find_unused) (\<lambda>r. case r of
           None \<Rightarrow> panic ''buffer list does not end''
         | Some None \<Rightarrow> panic ''bget: no buffers''
         | Some (Some b) \<Rightarrow>
             seq (modify (upd_buf b (\<lambda>x. x\<lparr>dev := d, blockno := n, valid := False, dirty := False, refcnt := 1\<rparr>)))
             (seq (release L_bcache)
             (seq (acquiresleep (SL_buf b))
             (ret b))))))"

definition bread :: "nat \<Rightarrow> nat \<Rightarrow> (nat, 'a bio_st_scheme) kop" where
  "bread d n =
     bind (bget d n) (\<lambda>b.
     bind (gets (\<lambda>s. bufs s b)) (\<lambda>x.
     seq (if \<not> valid x then iderw b else skip)
     (ret b)))"

definition bwrite :: "nat \<Rightarrow> (unit, 'a bio_st_scheme) kop" where
  "bwrite b =
     bind (holdingsleep (SL_buf b)) (\<lambda>h.
     if \<not> h then panic ''bwrite''
     else
       seq (modify (upd_buf b (\<lambda>x. x\<lparr>dirty := True\<rparr>)))
       (iderw b))"

definition bunlink :: "nat \<Rightarrow> (unit, 'a bio_st_scheme) kop" where
  "bunlink b =
     seq (modify (\<lambda>s. upd_buf (nxt (bufs s b)) (\<lambda>x. x\<lparr>prev := prev (bufs s b)\<rparr>) s))
     (modify (\<lambda>s. upd_buf (prev (bufs s b)) (\<lambda>x. x\<lparr>nxt := nxt (bufs s b)\<rparr>) s))"

definition brelse :: "nat \<Rightarrow> (unit, 'a bio_st_scheme) kop" where
  "brelse b =
     bind (holdingsleep (SL_buf b)) (\<lambda>h.
     if \<not> h then panic ''brelse''
     else
       seq (releasesleep (SL_buf b))
       (seq (acquire L_bcache)
       (seq (modify (upd_buf b (\<lambda>x. x\<lparr>refcnt := refcnt x - 1\<rparr>)))
       (bind (gets (\<lambda>s. refcnt (bufs s b))) (\<lambda>r.
       seq (if r = 0 then seq (bunlink b) (bpush b) else skip)
       (release L_bcache))))))"

section \<open>The list\<close>

definition bring :: "'a bio_st_scheme \<Rightarrow> nat list \<Rightarrow> bool" where
  "bring s xs \<longleftrightarrow> ring (\<lambda>i. nxt (bufs s i)) (\<lambda>i. prev (bufs s i)) bhead xs"

text \<open>Two buffers that differ in their links only.\<close>

definition same_buf :: "buf \<Rightarrow> buf \<Rightarrow> bool" where
  "same_buf x y \<longleftrightarrow> y = x\<lparr>prev := prev y, nxt := nxt y\<rparr>"

lemma same_buf_refl [simp, intro]: "same_buf x x"
  by (simp add: same_buf_def)

lemma same_buf_trans: "same_buf x y \<Longrightarrow> same_buf y z \<Longrightarrow> same_buf x z"
  by (cases x; cases y; cases z) (auto simp: same_buf_def)

lemma same_buf_links [simp]: "same_buf x (x\<lparr>prev := p\<rparr>)" "same_buf x (x\<lparr>nxt := n\<rparr>)"
  by (simp_all add: same_buf_def)

lemma same_bufD:
  assumes "same_buf x y"
  shows "valid y = valid x" "dirty y = dirty x" "dev y = dev x" "blockno y = blockno x" "refcnt y = refcnt x"
    "data y = data x" "qnext y = qnext x"
  using assms by (cases x; cases y; simp add: same_buf_def)+

lemma bpush_links:
  assumes "b \<noteq> bhead"
  obtains bs where "bpush b s = Ok () (s\<lparr>bufs := bs\<rparr>)" "\<And>i. same_buf (bufs s i) (bs i)"
    "(\<lambda>i. nxt (bs i)) = (\<lambda>i. nxt (bufs s i))(b := nxt (bufs s bhead), bhead := b)"
    "(\<lambda>i. prev (bs i)) = (\<lambda>i. prev (bufs s i))(b := bhead, nxt (bufs s bhead) := b)"
proof -
  define b1 where "b1 = (bufs s)(b := (bufs s b)\<lparr>nxt := nxt (bufs s bhead), prev := bhead\<rparr>)"
  define h where "h = nxt (bufs s bhead)"
  define b2 where "b2 = b1(h := (b1 h)\<lparr>prev := b\<rparr>)"
  define b3 where "b3 = b2(bhead := (b2 bhead)\<lparr>nxt := b\<rparr>)"
  show thesis
  proof (rule that [of b3])
    show "bpush b s = Ok () (s\<lparr>bufs := b3\<rparr>)"
      using assms by (simp add: bpush_def upd_buf_def b3_def b2_def b1_def h_def)
    show "same_buf (bufs s i) (b3 i)" for i
      by (simp add: b3_def b2_def b1_def same_buf_def)
    show "(\<lambda>i. nxt (b3 i)) = (\<lambda>i. nxt (bufs s i))(b := nxt (bufs s bhead), bhead := b)"
      using assms by (auto simp: b3_def b2_def b1_def fun_eq_iff)
    show "(\<lambda>i. prev (b3 i)) = (\<lambda>i. prev (bufs s i))(b := bhead, nxt (bufs s bhead) := b)"
      using assms by (auto simp: b3_def b2_def b1_def fun_eq_iff h_def)
  qed
qed

lemma bunlink_links:
  assumes "nxt (bufs s b) \<noteq> b"
  obtains bs where "bunlink b s = Ok () (s\<lparr>bufs := bs\<rparr>)" "\<And>i. same_buf (bufs s i) (bs i)"
    "(\<lambda>i. nxt (bs i)) = (\<lambda>i. nxt (bufs s i))(prev (bufs s b) := nxt (bufs s b))"
    "(\<lambda>i. prev (bs i)) = (\<lambda>i. prev (bufs s i))(nxt (bufs s b) := prev (bufs s b))"
proof -
  define n where "n = nxt (bufs s b)"
  define p where "p = prev (bufs s b)"
  define b1 where "b1 = (bufs s)(n := (bufs s n)\<lparr>prev := p\<rparr>)"
  define b2 where "b2 = b1(p := (b1 p)\<lparr>nxt := n\<rparr>)"
  show thesis
  proof (rule that [of b2])
    show "bunlink b s = Ok () (s\<lparr>bufs := b2\<rparr>)"
      using assms by (simp add: bunlink_def upd_buf_def b2_def b1_def n_def p_def)
    show "same_buf (bufs s i) (b2 i)" for i
      by (simp add: b2_def b1_def same_buf_def)
  qed (use assms in \<open>auto simp: b2_def b1_def n_def p_def fun_eq_iff\<close>)
qed

lemma bring_unlink_push:
  assumes "bring s (ys @ b # zs)"
  obtains bs where "seq (bunlink b) (bpush b) s = Ok () (s\<lparr>bufs := bs\<rparr>)" "\<And>i. same_buf (bufs s i) (bs i)"
    "bring (s\<lparr>bufs := bs\<rparr>) (b # ys @ zs)"
proof -
  let ?N = "\<lambda>i. nxt (bufs s i)" and ?P = "\<lambda>i. prev (bufs s i)"
  have r: "ring ?N ?P bhead (ys @ b # zs)" using assms by (simp add: bring_def)
  then have b: "b \<noteq> bhead" by (auto simp: ring_def)
  have "?N b \<noteq> b" using ring_neighbours(2) [OF r] r by (cases zs) (auto simp: ring_def)
  then obtain b1 where 1: "bunlink b s = Ok () (s\<lparr>bufs := b1\<rparr>)" "\<And>i. same_buf (bufs s i) (b1 i)"
    "(\<lambda>i. nxt (b1 i)) = ?N(?P b := ?N b)" "(\<lambda>i. prev (b1 i)) = ?P(?N b := ?P b)"
    by (rule bunlink_links [of s b]) blast
  obtain b2 where 2: "bpush b (s\<lparr>bufs := b1\<rparr>) = Ok () (s\<lparr>bufs := b2\<rparr>)" "\<And>i. same_buf (b1 i) (b2 i)"
    "(\<lambda>i. nxt (b2 i)) = (\<lambda>i. nxt (b1 i))(b := nxt (b1 bhead), bhead := b)"
    "(\<lambda>i. prev (b2 i)) = (\<lambda>i. prev (b1 i))(b := bhead, nxt (b1 bhead) := b)"
    using b by (rule bpush_links [of b "s\<lparr>bufs := b1\<rparr>"]) auto
  have "nxt (b1 bhead) = (?N(?P b := ?N b)) bhead" using 1(3) by (rule fun_cong)
  then have "ring (\<lambda>i. nxt (b2 i)) (\<lambda>i. prev (b2 i)) bhead (b # ys @ zs)"
    using ring_move_front [OF r] by (simp add: 1(3,4) 2(3,4))
  with 1 2 show thesis by (intro that [of b2]) (auto simp: bring_def intro: same_buf_trans)
qed

section \<open>The cache as its clients see it\<close>

abbreviation (input) ROOTDEV :: nat where "ROOTDEV \<equiv> 1"

text \<open>
  The abstract cache of the root device: the contents of every block, the blocks whose buffers the
  running process has locked, the blocks whose buffers are dirty, the disk below and the writes it
  received.
\<close>

record cache =
  c_blk :: "nat \<Rightarrow> bytes"
  c_lock :: "nat \<Rightarrow> nat option"
  c_dirty :: "nat set"
  c_disk :: "nat \<Rightarrow> bytes"
  c_trace :: "(nat \<times> bytes) list"

definition cached :: "'a bio_st_scheme \<Rightarrow> nat \<Rightarrow> nat \<Rightarrow> bool" where
  "cached s n i \<longleftrightarrow> i < NBUF \<and> valid (bufs s i) \<and> dev (bufs s i) = ROOTDEV \<and> blockno (bufs s i) = n"

definition block_of :: "'a bio_st_scheme \<Rightarrow> nat \<Rightarrow> bytes" where
  "block_of s n = (case find (cached s n) [0..<NBUF] of Some i \<Rightarrow> data (bufs s i) | None \<Rightarrow> disk s 1 n)"

definition cache_of :: "'a bio_st_scheme \<Rightarrow> cache" where
  "cache_of s = \<lparr>c_blk = block_of s,
     c_lock = (\<lambda>i. if i < NBUF \<and> slocked (slocks s (SL_buf i)) then Some (blockno (bufs s i)) else None),
     c_dirty = {blockno (bufs s i) |i. i < NBUF \<and> dirty (bufs s i)},
     c_disk = disk s 1,
     c_trace = map (\<lambda>(d, n, x). (n, x)) (wtrace s)\<rparr>"

text \<open>
  The invariant between operations of one process: the list holds every buffer once; no block is
  in two buffers; a buffer is referenced exactly while this process has it locked, and is then
  valid; a dirty buffer is valid; an unlocked clean buffer equals its block on disk; the disk
  driver is idle.
\<close>

definition buf_inv :: "'a bio_st_scheme \<Rightarrow> nat \<Rightarrow> bool" where
  "buf_inv s i \<longleftrightarrow> (let x = bufs s i; l = slocked (slocks s (SL_buf i)) in
     refcnt x = (if l then 1 else 0) \<and> (l \<longrightarrow> sl_mine s (SL_buf i) \<and> valid x)
     \<and> (dirty x \<longrightarrow> valid x) \<and> (valid x \<longrightarrow> dev x = ROOTDEV \<and> blockno x < FSSIZE) \<and> dev x \<le> ROOTDEV
     \<and> (valid x \<and> \<not> dirty x \<and> \<not> l \<longrightarrow> data x = disk s 1 (blockno x)))"

definition uniq_bufs :: "'a bio_st_scheme \<Rightarrow> bool" where
  "uniq_bufs s \<longleftrightarrow> (\<forall>i j. i < NBUF \<and> j < NBUF \<and> dev (bufs s i) = ROOTDEV \<and> dev (bufs s j) = ROOTDEV
     \<and> blockno (bufs s i) = blockno (bufs s j) \<longrightarrow> i = j)"

definition bio_inv :: "'a bio_st_scheme \<Rightarrow> bool" where
  "bio_inv s \<longleftrightarrow> (\<exists>xs. bring s xs \<and> set xs = {..<NBUF}) \<and> uniq_bufs s \<and> (\<forall>i < NBUF. buf_inv s i)
     \<and> (\<exists>p. running s p) \<and> held s = [] \<and> ide_ready s"

text \<open>A free buffer is left for a block that may not be cached.\<close>

definition room :: "cache \<Rightarrow> bool" where
  "room c \<longleftrightarrow> card (ran (c_lock c) \<union> c_dirty c) < NBUF"

lemma block_of_cached:
  assumes "uniq_bufs s" "cached s n i"
  shows "block_of s n = data (bufs s i)"
proof -
  have "find (cached s n) [0..<NBUF] \<noteq> None"
    using assms(2) by (auto simp: find_None_iff cached_def)
  then obtain j where j: "find (cached s n) [0..<NBUF] = Some j" by blast
  then have "cached s n j" by (auto simp: find_Some_iff)
  then have "j = i" using assms unfolding cached_def uniq_bufs_def by blast
  with j show ?thesis by (simp add: block_of_def)
qed

lemma block_of_uncached: "(\<And>i. \<not> cached s n i) \<Longrightarrow> block_of s n = disk s 1 n"
  by (simp add: block_of_def find_None_iff [THEN iffD2])

text \<open>A sufficient condition for two states to have the same contents.\<close>

lemma block_of_cong:
  assumes "uniq_bufs s" "uniq_bufs s'"
    and "\<And>i. cached s n i \<Longrightarrow> (cached s' n i \<and> data (bufs s' i) = data (bufs s i))
        \<or> ((\<forall>j. \<not> cached s' n j) \<and> data (bufs s i) = disk s' 1 n)"
    and "(\<And>i. \<not> cached s n i) \<Longrightarrow> (\<exists>i. cached s' n i \<and> data (bufs s' i) = disk s 1 n)
        \<or> ((\<forall>j. \<not> cached s' n j) \<and> disk s' 1 n = disk s 1 n)"
  shows "block_of s' n = block_of s n"
proof (cases "\<exists>i. cached s n i")
  case True
  then obtain i where i: "cached s n i" by blast
  then have s: "block_of s n = data (bufs s i)" using assms(1) by (simp add: block_of_cached)
  from assms(3) [OF i] show ?thesis
    using assms(2) s by (auto simp: block_of_cached block_of_uncached)
next
  case False
  then have s: "block_of s n = disk s 1 n" by (simp add: block_of_uncached)
  from False assms(4) show ?thesis using assms(2) s by (auto simp: block_of_cached block_of_uncached)
qed

lemma cache_of_simps [simp]:
  "c_blk (cache_of s) = block_of s" "c_disk (cache_of s) = disk s 1"
  "c_trace (cache_of s) = map (\<lambda>(d, n, x). (n, x)) (wtrace s)"
  by (simp_all add: cache_of_def)

lemma c_lock_Some: "c_lock (cache_of s) i = Some n \<longleftrightarrow> i < NBUF \<and> slocked (slocks s (SL_buf i)) \<and> blockno (bufs s i) = n"
  by (auto simp: cache_of_def)

lemma c_dirty_iff: "n \<in> c_dirty (cache_of s) \<longleftrightarrow> (\<exists>i < NBUF. dirty (bufs s i) \<and> blockno (bufs s i) = n)"
  by (auto simp: cache_of_def)

text \<open>What holding the lock of a buffer says about it.\<close>

lemma locked_buf:
  assumes "bio_inv s" "c_lock (cache_of s) i = Some n"
  shows "i < NBUF" "valid (bufs s i)" "dev (bufs s i) = ROOTDEV" "blockno (bufs s i) = n" "n < FSSIZE"
    "data (bufs s i) = c_blk (cache_of s) n" "sl_mine s (SL_buf i)" "refcnt (bufs s i) = 1"
    "dirty (bufs s i) \<longleftrightarrow> n \<in> c_dirty (cache_of s)"
proof -
  have i: "i < NBUF" "slocked (slocks s (SL_buf i))" "blockno (bufs s i) = n"
    using assms(2) by (auto simp: c_lock_Some)
  then have b: "buf_inv s i" "uniq_bufs s" using assms(1) by (auto simp: bio_inv_def)
  then show *: "i < NBUF" "valid (bufs s i)" "dev (bufs s i) = ROOTDEV" "blockno (bufs s i) = n" "n < FSSIZE"
    "sl_mine s (SL_buf i)" "refcnt (bufs s i) = 1"
    using i by (auto simp: buf_inv_def Let_def)
  then show "data (bufs s i) = c_blk (cache_of s) n"
    using b(2) by (simp add: block_of_cached [of s n i] cached_def)
  show "dirty (bufs s i) \<longleftrightarrow> n \<in> c_dirty (cache_of s)"
  proof
    assume "n \<in> c_dirty (cache_of s)"
    then obtain j where j: "j < NBUF" "dirty (bufs s j)" "blockno (bufs s j) = n" by (auto simp: c_dirty_iff)
    then have "buf_inv s j" using assms(1) by (auto simp: bio_inv_def)
    then have "dev (bufs s j) = ROOTDEV" using j by (auto simp: buf_inv_def Let_def)
    then have "j = i" using b(2) j * unfolding uniq_bufs_def by blast
    then show "dirty (bufs s i)" using j by simp
  qed (use i in \<open>auto simp: c_dirty_iff\<close>)
qed

section \<open>Reading a block\<close>


lemma bring_scan:
  assumes "bring s xs" "set xs = {..<NBUF}"
  shows "find_cached s d n = Some (find (\<lambda>i. dev (bufs s i) = d \<and> blockno (bufs s i) = n) xs)"
    "find_unused s = Some (find (\<lambda>i. refcnt (bufs s i) = 0 \<and> \<not> dirty (bufs s i)) (rev xs))"
proof -
  have r: "distinct (bhead # xs)" "link_path (\<lambda>i. nxt (bufs s i)) bhead xs bhead"
    "link_path (\<lambda>i. prev (bufs s i)) bhead (rev xs) bhead"
    using assms(1) by (simp_all add: bring_def ring_def)
  have "length xs = NBUF" using assms(2) r(1) distinct_card [of xs] by simp
  then show "find_cached s d n = Some (find (\<lambda>i. dev (bufs s i) = d \<and> blockno (bufs s i) = n) xs)"
    "find_unused s = Some (find (\<lambda>i. refcnt (bufs s i) = 0 \<and> \<not> dirty (bufs s i)) (rev xs))"
    unfolding find_cached_def find_unused_def
    using scan_path [OF r(2)] scan_path [OF r(3)] r(1) by simp_all
qed

text \<open>If fewer blocks than buffers are locked or dirty, some buffer can be recycled.\<close>

lemma room_unused:
  assumes "bio_inv s" "room (cache_of s)"
  shows "\<exists>i < NBUF. refcnt (bufs s i) = 0 \<and> \<not> dirty (bufs s i)"
proof (rule ccontr)
  assume *: "\<not> ?thesis"
  let ?B = "ran (c_lock (cache_of s)) \<union> c_dirty (cache_of s)"
  have inv: "buf_inv s i" if "i < NBUF" for i using assms(1) that by (simp add: bio_inv_def)
  have busy: "blockno (bufs s i) \<in> ?B \<and> dev (bufs s i) = ROOTDEV" if "i < NBUF" for i
  proof (cases "dirty (bufs s i)")
    case True
    then show ?thesis using that inv [OF that] by (auto simp: c_dirty_iff buf_inv_def Let_def)
  next
    case False
    then have "slocked (slocks s (SL_buf i))" using * that inv [OF that] by (auto simp: buf_inv_def Let_def split: if_splits)
    then have "c_lock (cache_of s) i = Some (blockno (bufs s i))" using that by (simp add: c_lock_Some)
    then show ?thesis using locked_buf(3) [OF assms(1)] by (auto simp: ran_def)
  qed
  have "inj_on (\<lambda>i. blockno (bufs s i)) {..<NBUF}"
    using assms(1) busy unfolding bio_inv_def uniq_bufs_def inj_on_def by blast
  moreover have "finite ?B"
  proof (rule finite_subset)
    show "?B \<subseteq> (\<lambda>i. blockno (bufs s i)) ` {..<NBUF}"
      by (auto simp: c_dirty_iff ran_def c_lock_Some)
  qed simp
  ultimately have "card {..<NBUF} \<le> card ?B" using busy by (intro card_inj_on_le) auto
  then show False using assms(2) by (simp add: room_def)
qed

lemma find_held [simp]:
  "find_cached (s\<lparr>held := h\<rparr>) d n = find_cached s d n" "find_unused (s\<lparr>held := h\<rparr>) = find_unused s"
  by (simp_all add: find_cached_def find_unused_def)

lemma bget_cases:
  assumes inv: "bio_inv s" "running s p" and n: "n \<notin> ran (c_lock (cache_of s))"
    and r: "room (cache_of s) \<or> n \<in> c_dirty (cache_of s)"
  obtains i X where "bget ROOTDEV n s = Ok i (s\<lparr>bufs := (bufs s)(i := X),
       slocks := (slocks s)(SL_buf i := \<lparr>slocked = True, slpid = pid (ptable s p)\<rparr>)\<rparr>)"
    "i < NBUF" "\<not> slocked (slocks s (SL_buf i))"
    "X = (bufs s i)\<lparr>refcnt := 1\<rparr> \<and> dev (bufs s i) = ROOTDEV \<and> blockno (bufs s i) = n
     \<or> X = (bufs s i)\<lparr>dev := ROOTDEV, blockno := n, valid := False, dirty := False, refcnt := 1\<rparr>
       \<and> \<not> dirty (bufs s i) \<and> (\<forall>j < NBUF. \<not> (dev (bufs s j) = ROOTDEV \<and> blockno (bufs s j) = n))"
proof -
  obtain xs where xs: "bring s xs" "set xs = {..<NBUF}" and h: "held s = []"
    using inv by (auto simp: bio_inv_def)
  note scan = bring_scan [OF xs]
  have i: "buf_inv s i" if "i < NBUF" for i using inv that by (simp add: bio_inv_def)
  have sl: "acquiresleep (SL_buf i) t = Ok () (t\<lparr>slocks := (slocks t)(SL_buf i := \<lparr>slocked = True, slpid = pid (ptable s p)\<rparr>)\<rparr>)"
    if "held t = []" "curproc t = curproc s" "ptable t = ptable s" "\<not> slocked (slocks t (SL_buf i))" for i t
    using that inv(2) wp_acquiresleep [of "SL_buf i" "\<lambda>_ s'. s' = t\<lparr>slocks := (slocks t)(SL_buf i := \<lparr>slocked = True, slpid = pid (ptable s p)\<rparr>)\<rparr>" t]
    by (auto simp: wp_Ok running_def)
  show thesis
  proof (cases "find (\<lambda>i. dev (bufs s i) = ROOTDEV \<and> blockno (bufs s i) = n) xs")
    case (Some i)
    then have b: "i < NBUF" "dev (bufs s i) = ROOTDEV" "blockno (bufs s i) = n"
      using xs(2) by (auto simp: find_Some_iff)
    have nl: "\<not> slocked (slocks s (SL_buf i))"
      using n b by (auto simp: ran_def c_lock_Some)
    then have "refcnt (bufs s i) = 0" using i [OF b(1)] by (auto simp: buf_inv_def Let_def)
    moreover have "find_cached s ROOTDEV n = Some (Some i)" using scan(1) Some by simp
    ultimately have "bget ROOTDEV n s = Ok i (s\<lparr>bufs := (bufs s)(i := (bufs s i)\<lparr>refcnt := 1\<rparr>),
       slocks := (slocks s)(SL_buf i := \<lparr>slocked = True, slpid = pid (ptable s p)\<rparr>)\<rparr>)"
      using h nl by (auto simp: bget_def acquire_def release_def upd_buf_def sl intro!: bio_st.equality simp del: One_nat_def)
    with b nl show thesis by (intro that [of i "(bufs s i)\<lparr>refcnt := 1\<rparr>"]) auto
  next
    case None
    then have none: "\<forall>j < NBUF. \<not> (dev (bufs s j) = ROOTDEV \<and> blockno (bufs s j) = n)"
      using xs(2) by (auto simp: find_None_iff)
    have "n \<notin> c_dirty (cache_of s)"
      using none i by (auto simp: c_dirty_iff buf_inv_def Let_def)
    then obtain j where "j < NBUF" "refcnt (bufs s j) = 0" "\<not> dirty (bufs s j)"
      using room_unused [OF inv(1)] r by blast
    then have "find (\<lambda>i. refcnt (bufs s i) = 0 \<and> \<not> dirty (bufs s i)) (rev xs) \<noteq> None"
      using xs(2) by (auto simp: find_None_iff)
    then obtain k where k: "find (\<lambda>i. refcnt (bufs s i) = 0 \<and> \<not> dirty (bufs s i)) (rev xs) = Some k" by blast
    then obtain m where "m < length (rev xs)" "k = rev xs ! m" "refcnt (bufs s k) = 0" "\<not> dirty (bufs s k)"
      by (auto simp: find_Some_iff)
    moreover from this have "k \<in> set (rev xs)" by (metis nth_mem)
    ultimately have b: "k < NBUF" "refcnt (bufs s k) = 0" "\<not> dirty (bufs s k)" using xs(2) by auto
    then have nl: "\<not> slocked (slocks s (SL_buf k))" using i [OF b(1)] by (auto simp: buf_inv_def Let_def)
    let ?X = "(bufs s k)\<lparr>dev := ROOTDEV, blockno := n, valid := False, dirty := False, refcnt := 1\<rparr>"
    have "find_cached s ROOTDEV n = Some None" "find_unused s = Some (Some k)" using scan None k by simp_all
    then have "bget ROOTDEV n s = Ok k (s\<lparr>bufs := (bufs s)(k := ?X),
       slocks := (slocks s)(SL_buf k := \<lparr>slocked = True, slpid = pid (ptable s p)\<rparr>)\<rparr>)"
      using h nl by (auto simp: bget_def acquire_def release_def upd_buf_def sl intro!: bio_st.equality simp del: One_nat_def)
    with b nl none show thesis by (intro that [of k ?X]) auto
  qed
qed
text \<open>Buffer \<open>i\<close> now holds block \<open>n\<close>, locked, with its current contents.\<close>

definition got :: "'a bio_st_scheme \<Rightarrow> nat \<Rightarrow> nat \<Rightarrow> buf \<Rightarrow> bool" where
  "got s i n X \<longleftrightarrow> i < NBUF \<and> \<not> slocked (slocks s (SL_buf i)) \<and> prev X = prev (bufs s i) \<and> nxt X = nxt (bufs s i)
     \<and> valid X \<and> dev X = ROOTDEV \<and> blockno X = n \<and> refcnt X = 1 \<and> data X = block_of s n
     \<and> dirty X = dirty (bufs s i)
     \<and> (dev (bufs s i) = ROOTDEV \<and> blockno (bufs s i) = n
        \<or> \<not> dirty (bufs s i) \<and> (\<forall>j < NBUF. \<not> (dev (bufs s j) = ROOTDEV \<and> blockno (bufs s j) = n)))"

lemma bread_got:
  assumes inv: "bio_inv s" "running s p" and n: "n \<notin> ran (c_lock (cache_of s))" "n < FSSIZE"
    and r: "room (cache_of s) \<or> n \<in> c_dirty (cache_of s)"
  obtains i X s' where "bread ROOTDEV n s = Ok i s'" "got s i n X" "bufs s' = (bufs s)(i := X)"
    "slocks s' = (slocks s)(SL_buf i := \<lparr>slocked = True, slpid = pid (ptable s p)\<rparr>)"
    "disk s' = disk s" "wtrace s' = wtrace s" "same_thread s s'" "ide_ready s'" "bio_st.more s' = bio_st.more s"
proof -
  obtain i X where X: "bget ROOTDEV n s = Ok i (s\<lparr>bufs := (bufs s)(i := X),
       slocks := (slocks s)(SL_buf i := \<lparr>slocked = True, slpid = pid (ptable s p)\<rparr>)\<rparr>)" (is "_ = Ok i ?t")
    and i: "i < NBUF" "\<not> slocked (slocks s (SL_buf i))"
    and c: "X = (bufs s i)\<lparr>refcnt := 1\<rparr> \<and> dev (bufs s i) = ROOTDEV \<and> blockno (bufs s i) = n
     \<or> X = (bufs s i)\<lparr>dev := ROOTDEV, blockno := n, valid := False, dirty := False, refcnt := 1\<rparr>
       \<and> \<not> dirty (bufs s i) \<and> (\<forall>j < NBUF. \<not> (dev (bufs s j) = ROOTDEV \<and> blockno (bufs s j) = n))"
    using bget_cases [OF inv n(1) r] by blast
  have bi: "buf_inv s i" "uniq_bufs s" "held s = []" "ide_ready s" using inv i by (auto simp: bio_inv_def)
  show thesis
  proof (cases "valid X")
    case True
    then have c1: "X = (bufs s i)\<lparr>refcnt := 1\<rparr>" "dev (bufs s i) = ROOTDEV" "blockno (bufs s i) = n" using c by auto
    then have "block_of s n = data X" using True i bi(2) by (simp add: block_of_cached [of s n i] cached_def)
    with c1 True i have "got s i n X" by (simp add: got_def)
    then show thesis
      using X True bi(4) by (intro that [of i ?t X]) (auto simp: bread_def same_thread_def ide_ready_def)
  next
    case False
    have d: "\<not> dirty X" using c False bi(1) by (auto simp: buf_inv_def Let_def)
    have nc: "\<not> cached s n j" for j
    proof
      assume j: "cached s n j"
      then have "X = (bufs s i)\<lparr>refcnt := 1\<rparr>" "dev (bufs s i) = ROOTDEV" "blockno (bufs s i) = n"
        using c by (auto simp: cached_def)
      moreover from this j have "j = i" using bi(2) i(1) unfolding cached_def uniq_bufs_def by blast
      ultimately show False using j False by (simp add: cached_def)
    qed
    have b: "blockno X = n" "dev X = ROOTDEV" using c by auto
    have rw: "iderw i ?t = Ok () (?t\<lparr>regs := start_regs (dev (bufs ?t i)) (blockno (bufs ?t i)),
     bufs := (bufs ?t)(i := (xfer_buf ?t i)\<lparr>qnext := None\<rparr>), disk := xfer_disk ?t i, wtrace := xfer_trace ?t i,
     ptable := (wake (C_buf i) (ptable ?t))(p := (ptable ?t p)\<lparr>chan := None, ticksScheduled := ticksScheduled (ptable ?t p) + 1\<rparr>)\<rparr>)"
      (is "_ = Ok () ?u")
      by (rule iderw_eq) (use inv(2) bi(3,4) b False n(2) in \<open>auto simp: running_def sl_mine_def ide_ready_def\<close>)
    have "bread ROOTDEV n s = Ok i ?u" using X False rw by (simp add: bread_def)
    moreover have "block_of s n = disk s 1 n" using nc by (rule block_of_uncached)
    then have "got s i n (bufs ?u i)"
      using c d i b by (elim disjE) (simp_all add: got_def xfer_buf_def Let_def)
    moreover have "same_thread s ?u"
      using inv(2) by (auto simp: same_thread_def running_def proc_frame_def [of "ptable s p"])
    moreover have "disk ?u = disk s" "wtrace ?u = wtrace s" "ide_ready ?u"
      using d bi(4) by (simp_all add: xfer_disk_def xfer_trace_def Let_def ide_ready_def)
    ultimately show thesis
      by (intro that [of i ?u "bufs ?u i"]) simp_all
  qed
qed
lemma running_same: "same_thread s s' \<Longrightarrow> running s p \<Longrightarrow> running s' p"
  using same_threadD(2,4) [of s s'] by (simp add: running_def)

lemma sl_mine_same:
  "same_thread s s' \<Longrightarrow> slocks s' l = slocks s l \<Longrightarrow> sl_mine s' l = sl_mine s l"
  using same_threadD(2,3) [of s s'] by (auto simp: sl_mine_def split: option.splits)

lemma buf_inv_same:
  "\<lbrakk>buf_inv s i; same_thread s s'; bufs s' i = bufs s i; slocks s' (SL_buf i) = slocks s (SL_buf i);
    disk s' 1 (blockno (bufs s i)) = disk s 1 (blockno (bufs s i))\<rbrakk> \<Longrightarrow> buf_inv s' i"
  by (simp add: buf_inv_def Let_def sl_mine_same)

lemma got_block_of:
  assumes "bio_inv s" "got s i n X" "bufs s' = (bufs s)(i := X)" "disk s' = disk s" "uniq_bufs s'"
  shows "block_of s' m = block_of s m"
proof (rule block_of_cong [OF _ assms(5)])
  show u: "uniq_bufs s" using assms(1) by (simp add: bio_inv_def)
  have X: "i < NBUF" "valid X" "dev X = ROOTDEV" "blockno X = n" "data X = block_of s n"
    using assms(2) by (auto simp: got_def)
  show "(cached s' m j \<and> data (bufs s' j) = data (bufs s j)) \<or> ((\<forall>k. \<not> cached s' m k) \<and> data (bufs s j) = disk s' 1 m)"
    if j: "cached s m j" for j
  proof (cases "j = i")
    case False
    then show ?thesis using j assms(3) by (simp add: cached_def)
  next
    case True
    show ?thesis
    proof (cases "m = n")
      case True
      then have "data X = data (bufs s j)" using X(5) block_of_cached [OF u j] by simp
      then show ?thesis using X assms(3) \<open>j = i\<close> True by (simp add: cached_def)
    next
      case False
      then have m: "\<not> dirty (bufs s i)" "\<not> slocked (slocks s (SL_buf i))"
        using assms(2) j \<open>j = i\<close> by (auto simp: got_def cached_def)
      then have "data (bufs s j) = disk s' 1 m"
        using assms(1,4) X(1) j \<open>j = i\<close> by (auto simp: bio_inv_def buf_inv_def Let_def cached_def)
      moreover have "\<not> cached s' m k" for k
      proof
        assume k: "cached s' m k"
        then have "k \<noteq> i" using False X(4) assms(3) by (auto simp: cached_def)
        then have "cached s m k" using k assms(3) by (simp add: cached_def)
        then have "k = j" using j u unfolding cached_def uniq_bufs_def by blast
        then show False using \<open>k \<noteq> i\<close> \<open>j = i\<close> by simp
      qed
      ultimately show ?thesis by blast
    qed
  qed
  show "(\<exists>j. cached s' m j \<and> data (bufs s' j) = disk s 1 m) \<or> ((\<forall>j. \<not> cached s' m j) \<and> disk s' 1 m = disk s 1 m)"
    if no: "\<And>j. \<not> cached s m j"
  proof (cases "m = n")
    case True
    then show ?thesis using X no assms(3) by (intro disjI1 exI [of _ i]) (simp add: cached_def block_of_uncached)
  next
    case False
    then have "\<not> cached s' m j" for j using no [of j] X(4) assms(3) by (auto simp: cached_def split: if_splits)
    then show ?thesis using assms(4) by simp
  qed
qed

lemma got_inv:
  assumes inv: "bio_inv s" "running s p" and g: "got s i n X" "n < FSSIZE" and b: "bufs s' = (bufs s)(i := X)"
    and sl: "slocks s' = (slocks s)(SL_buf i := \<lparr>slocked = True, slpid = pid (ptable s p)\<rparr>)"
    and d: "disk s' = disk s" and t: "same_thread s s'" and r: "ide_ready s'"
  shows "bio_inv s'"
proof -
  obtain xs where xs: "bring s xs" "set xs = {..<NBUF}" using inv by (auto simp: bio_inv_def)
  have links: "(\<lambda>j. nxt (bufs s' j)) = (\<lambda>j. nxt (bufs s j))" "(\<lambda>j. prev (bufs s' j)) = (\<lambda>j. prev (bufs s j))"
    using g(1) b by (auto simp: fun_eq_iff got_def)
  have "bring s' xs" using xs(1) by (simp add: bring_def links)
  moreover have "uniq_bufs s'"
  proof -
    have key: "dev (bufs s k) = ROOTDEV \<and> blockno (bufs s k) = n \<Longrightarrow> k < NBUF \<Longrightarrow> k = i" for k
      using g(1) inv(1) unfolding got_def bio_inv_def uniq_bufs_def by blast
    have u: "uniq_bufs s" using inv by (simp add: bio_inv_def)
    have Xd: "blockno X = n" using g(1) by (simp add: got_def)
    show ?thesis
      unfolding uniq_bufs_def b
    proof (intro allI impI, elim conjE)
      fix j k
      assume a: "j < NBUF" "k < NBUF" "dev (((bufs s)(i := X)) j) = ROOTDEV" "dev (((bufs s)(i := X)) k) = ROOTDEV"
        "blockno (((bufs s)(i := X)) j) = blockno (((bufs s)(i := X)) k)"
      consider "j = i" | "k = i" | "j \<noteq> i" "k \<noteq> i" by blast
      then show "j = k"
      proof cases
        case 1
        have "k = i"
        proof (rule ccontr)
          assume "k \<noteq> i"
          with a 1 Xd have "dev (bufs s k) = ROOTDEV \<and> blockno (bufs s k) = n" by simp
          with key a(2) \<open>k \<noteq> i\<close> show False by blast
        qed
        with 1 show ?thesis by simp
      next
        case 2
        have "j = i"
        proof (rule ccontr)
          assume "j \<noteq> i"
          with a 2 Xd have "dev (bufs s j) = ROOTDEV \<and> blockno (bufs s j) = n" by simp
          with key a(1) \<open>j \<noteq> i\<close> show False by blast
        qed
        with 2 show ?thesis by simp
      next
        case 3
        with a have "dev (bufs s j) = ROOTDEV" "dev (bufs s k) = ROOTDEV" "blockno (bufs s j) = blockno (bufs s k)"
          by simp_all
        with a(1,2) u show ?thesis unfolding uniq_bufs_def by blast
      qed
    qed
  qed
  moreover have "buf_inv s' j" if j: "j < NBUF" for j
  proof (cases "j = i")
    case True
    then show ?thesis
      using g b sl t inv(2) by (auto simp: buf_inv_def Let_def got_def sl_mine_def running_def same_threadD)
  next
    case False
    then show ?thesis
      using inv(1) j b sl d t by (intro buf_inv_same [of s j s']) (auto simp: bio_inv_def)
  qed
  moreover have "running s' p" "held s' = []"
    using inv t by (auto simp: running_same same_threadD bio_inv_def)
  ultimately show ?thesis using xs r by (auto simp: bio_inv_def)
qed

text \<open>\<open>bread\<close>: a buffer that was not locked comes back locked with the block's contents; nothing else changes.\<close>

lemma bread_spec:
  assumes inv: "bio_inv s" and n: "n \<notin> ran (c_lock (cache_of s))" "n < FSSIZE"
    and r: "room (cache_of s) \<or> n \<in> c_dirty (cache_of s)"
  obtains i s' where "bread ROOTDEV n s = Ok i s'" "bio_inv s'" "c_lock (cache_of s) i = None"
    "cache_of s' = (cache_of s)\<lparr>c_lock := (c_lock (cache_of s))(i \<mapsto> n)\<rparr>"
    "same_thread s s'" "bio_st.more s' = bio_st.more s"
    "\<And>l. (\<forall>j. l \<noteq> SL_buf j) \<Longrightarrow> slocks s' l = slocks s l"
proof -
  obtain p where p: "running s p" using inv by (auto simp: bio_inv_def)
  obtain i X s' where *: "bread ROOTDEV n s = Ok i s'" "got s i n X" "bufs s' = (bufs s)(i := X)"
    "slocks s' = (slocks s)(SL_buf i := \<lparr>slocked = True, slpid = pid (ptable s p)\<rparr>)"
    "disk s' = disk s" "wtrace s' = wtrace s" "same_thread s s'" "ide_ready s'" "bio_st.more s' = bio_st.more s"
    by (rule bread_got [OF inv p n r]) (rule that)
  have inv': "bio_inv s'" using got_inv [OF inv p *(2) n(2) *(3,4,5,7,8)] .
  have "cache_of s' = (cache_of s)\<lparr>c_lock := (c_lock (cache_of s))(i \<mapsto> n)\<rparr>"
  proof (rule cache.equality)
    show "c_blk (cache_of s') = c_blk ((cache_of s)\<lparr>c_lock := (c_lock (cache_of s))(i \<mapsto> n)\<rparr>)"
      using got_block_of [OF inv *(2,3,5)] inv' by (auto simp: bio_inv_def)
    show "c_lock (cache_of s') = c_lock ((cache_of s)\<lparr>c_lock := (c_lock (cache_of s))(i \<mapsto> n)\<rparr>)"
      using * by (auto simp: cache_of_def fun_eq_iff got_def)
    show "c_dirty (cache_of s') = c_dirty ((cache_of s)\<lparr>c_lock := (c_lock (cache_of s))(i \<mapsto> n)\<rparr>)"
      using *(2,3) by (auto simp: cache_of_def got_def split: if_splits)
  qed (use * in simp_all)
  moreover have "c_lock (cache_of s) i = None" using *(2) by (simp add: got_def cache_of_def)
  ultimately show thesis using * inv' by (intro that [of i s']) auto
qed
section \<open>Changing, writing and releasing a locked buffer\<close>

text \<open>Steps that keep which buffer caches which block.\<close>

definition same_keys :: "'a bio_st_scheme \<Rightarrow> 'a bio_st_scheme \<Rightarrow> bool" where
  "same_keys s s' \<longleftrightarrow> (\<forall>j. valid (bufs s' j) = valid (bufs s j) \<and> dev (bufs s' j) = dev (bufs s j)
     \<and> blockno (bufs s' j) = blockno (bufs s j))"

lemma same_keys_cached: "same_keys s s' \<Longrightarrow> cached s' n i = cached s n i"
  by (simp add: same_keys_def cached_def)

lemma same_keys_uniq: "same_keys s s' \<Longrightarrow> uniq_bufs s' = uniq_bufs s"
  by (simp add: same_keys_def uniq_bufs_def)

lemma same_keys_inv:
  assumes "bio_inv s" "same_keys s s'" "bring s' xs" "set xs = {..<NBUF}" "same_thread s s'" "ide_ready s'"
    "\<And>j. j < NBUF \<Longrightarrow> buf_inv s' j"
  shows "bio_inv s'"
proof -
  obtain p where "running s p" using assms(1) by (auto simp: bio_inv_def)
  then have "running s' p" using assms(5) by (simp add: running_same)
  then show ?thesis
    using assms by (auto simp: bio_inv_def same_keys_uniq same_threadD)
qed

lemma same_keys_block_of:
  assumes "bio_inv s" "same_keys s s'"
  shows "cached s n i \<Longrightarrow> block_of s' n = data (bufs s' i)"
    "\<lbrakk>\<And>i. cached s n i \<Longrightarrow> data (bufs s' i) = data (bufs s i); disk s' 1 n = disk s 1 n\<rbrakk> \<Longrightarrow> block_of s' n = block_of s n"
proof -
  have u: "uniq_bufs s'" "uniq_bufs s" using assms by (simp_all add: same_keys_uniq bio_inv_def)
  show "block_of s' n = data (bufs s' i)" if "cached s n i"
    using u that assms(2) by (intro block_of_cached) (simp_all add: same_keys_cached)
  show "block_of s' n = block_of s n" if "\<And>i. cached s n i \<Longrightarrow> data (bufs s' i) = data (bufs s i)" "disk s' 1 n = disk s 1 n"
    using u that assms(2) by (intro block_of_cong) (auto simp: same_keys_cached)
qed

lemma locked_cached: "bio_inv s \<Longrightarrow> c_lock (cache_of s) i = Some n \<Longrightarrow> cached s m i \<longleftrightarrow> m = n"
  using locked_buf [of s i n] by (auto simp: cached_def)

lemma other_block:
  assumes "bio_inv s" "c_lock (cache_of s) i = Some n" "j < NBUF" "j \<noteq> i" "dev (bufs s j) = ROOTDEV"
  shows "blockno (bufs s j) \<noteq> n"
  using assms locked_buf(1,3,4) [OF assms(1,2)] unfolding bio_inv_def uniq_bufs_def by blast

text \<open>Whatever a process does to the contents of a buffer it has locked, and to that block on disk.\<close>

lemma locked_change:
  fixes s s' :: "'a bio_st_scheme"
  assumes inv: "bio_inv s" "c_lock (cache_of s) i = Some n"
    and b: "bufs s' = (bufs s)(i := X)" "prev X = prev (bufs s i)" "nxt X = nxt (bufs s i)"
      "valid X = valid (bufs s i)" "dev X = dev (bufs s i)" "blockno X = blockno (bufs s i)" "refcnt X = refcnt (bufs s i)"
    and d: "disk s' = (disk s)(1 := (disk s 1)(n := D))"
    and rest: "slocks s' = slocks s" "same_thread s s'" "ide_ready s'"
  shows "bio_inv s'" "cache_of s' = (cache_of s)\<lparr>c_blk := (c_blk (cache_of s))(n := data X),
      c_dirty := (if dirty X then insert n (c_dirty (cache_of s)) else c_dirty (cache_of s) - {n}),
      c_disk := (c_disk (cache_of s))(n := D), c_trace := map (\<lambda>(d, n, x). (n, x)) (wtrace s')\<rparr>"
proof -
  note L = locked_buf [OF inv]
  have keys: "same_keys s s'" using b by (simp add: same_keys_def)
  obtain xs where xs: "bring s xs" "set xs = {..<NBUF}" using inv by (auto simp: bio_inv_def)
  have "(\<lambda>j. nxt (bufs s' j)) = (\<lambda>j. nxt (bufs s j))" "(\<lambda>j. prev (bufs s' j)) = (\<lambda>j. prev (bufs s j))"
    using b by (auto simp: fun_eq_iff)
  then have ring: "bring s' xs" using xs(1) by (simp add: bring_def)
  have bi: "buf_inv s' j" if j: "j < NBUF" for j
  proof (cases "j = i")
    case True
    have "slocked (slocks s' (SL_buf i))" "sl_mine s' (SL_buf i)"
      using inv(2) L(7) rest by (simp_all add: c_lock_Some sl_mine_same)
    then show ?thesis using L b True by (simp add: buf_inv_def)
  next
    case False
    have "buf_inv s j" using inv(1) j by (simp add: bio_inv_def)
    moreover have "blockno (bufs s j) \<noteq> n" if "valid (bufs s j)"
      using other_block [OF inv j False] that \<open>buf_inv s j\<close> by (auto simp: buf_inv_def Let_def)
    ultimately show ?thesis
      using False b(1) d rest by (auto simp: buf_inv_def Let_def sl_mine_same)
  qed
  show "bio_inv s'" by (rule same_keys_inv [OF inv(1) keys ring xs(2) rest(2,3) bi])
  have blk: "block_of s' m = (if m = n then data X else block_of s m)" for m
  proof (cases "m = n")
    case True
    then show ?thesis
      using same_keys_block_of(1) [OF inv(1) keys, of n i] locked_cached [OF inv] b(1) by simp
  next
    case False
    have "data (bufs s' j) = data (bufs s j)" if "cached s m j" for j
      using that False locked_cached [OF inv] b(1) by auto
    then show ?thesis using False d same_keys_block_of(2) [OF inv(1) keys, of m] by simp
  qed
  have dirty: "m \<in> c_dirty (cache_of s') \<longleftrightarrow> (if m = n then dirty X else m \<in> c_dirty (cache_of s))" for m
  proof (cases "m = n")
    case True
    have "n \<in> c_dirty (cache_of s') \<longleftrightarrow> dirty (bufs s' i)"
      using locked_buf(9) [OF \<open>bio_inv s'\<close>, of i n] inv(2) b rest(1) by (simp add: c_lock_Some)
    then show ?thesis using True b(1) by simp
  next
    case False
    have "dirty (bufs s' j) \<and> blockno (bufs s' j) = m \<longleftrightarrow> dirty (bufs s j) \<and> blockno (bufs s j) = m" for j
      using False b L(4) by auto
    then show ?thesis using False by (simp add: c_dirty_iff)
  qed
  have dset: "c_dirty (cache_of s') = (if dirty X then insert n (c_dirty (cache_of s)) else c_dirty (cache_of s) - {n})"
    by (rule set_eqI) (simp add: dirty)
  have lock: "c_lock (cache_of s') = c_lock (cache_of s)"
    using b rest(1) by (auto simp: cache_of_def fun_eq_iff)
  show "cache_of s' = (cache_of s)\<lparr>c_blk := (c_blk (cache_of s))(n := data X),
      c_dirty := (if dirty X then insert n (c_dirty (cache_of s)) else c_dirty (cache_of s) - {n}),
      c_disk := (c_disk (cache_of s))(n := D), c_trace := map (\<lambda>(d, n, x). (n, x)) (wtrace s')\<rparr>"
    by (rule cache.equality) (simp_all add: lock d blk dset fun_eq_iff)
qed

text \<open>Assigning to the data of a locked buffer, and marking it dirty.\<close>

lemma bset_spec:
  fixes f :: "bytes \<Rightarrow> bytes"
  assumes "bio_inv s" "c_lock (cache_of s) i = Some n"
  defines "s' \<equiv> upd_buf i (\<lambda>x. x\<lparr>data := f (data x)\<rparr>) s"
  shows "bio_inv s'" "cache_of s' = (cache_of s)\<lparr>c_blk := (c_blk (cache_of s))(n := f (c_blk (cache_of s) n))\<rparr>"
proof -
  have *: "bio_inv s'" "cache_of s' = (cache_of s)\<lparr>c_blk := (c_blk (cache_of s))(n := f (data (bufs s i))),
      c_dirty := (if dirty (bufs s i) then insert n (c_dirty (cache_of s)) else c_dirty (cache_of s) - {n}),
      c_disk := (c_disk (cache_of s))(n := disk s 1 n), c_trace := map (\<lambda>(d, n, x). (n, x)) (wtrace s')\<rparr>"
    using locked_change [OF assms(1,2), of s' "(bufs s i)\<lparr>data := f (data (bufs s i))\<rparr>" "disk s 1 n"] assms(1)
    by (simp_all add: s'_def upd_buf_def same_thread_def bio_inv_def ide_ready_def)
  show "bio_inv s'" by (rule *)
  show "cache_of s' = (cache_of s)\<lparr>c_blk := (c_blk (cache_of s))(n := f (c_blk (cache_of s) n))\<rparr>"
    unfolding *(2) using locked_buf(6,9) [OF assms(1,2)]
    by (intro cache.equality) (simp_all add: insert_absorb s'_def)
qed

lemma bdirty_spec:
  assumes "bio_inv s" "c_lock (cache_of s) i = Some n"
  defines "s' \<equiv> upd_buf i (\<lambda>x. x\<lparr>dirty := True\<rparr>) s"
  shows "bio_inv s'" "cache_of s' = (cache_of s)\<lparr>c_dirty := insert n (c_dirty (cache_of s))\<rparr>"
proof -
  have *: "bio_inv s'" "cache_of s' = (cache_of s)\<lparr>c_blk := (c_blk (cache_of s))(n := data (bufs s i)),
      c_dirty := insert n (c_dirty (cache_of s)),
      c_disk := (c_disk (cache_of s))(n := disk s 1 n), c_trace := map (\<lambda>(d, n, x). (n, x)) (wtrace s')\<rparr>"
    using locked_change [OF assms(1,2), of s' "(bufs s i)\<lparr>dirty := True\<rparr>" "disk s 1 n"] assms(1)
    by (simp_all add: s'_def upd_buf_def same_thread_def bio_inv_def ide_ready_def)
  show "bio_inv s'" by (rule *)
  show "cache_of s' = (cache_of s)\<lparr>c_dirty := insert n (c_dirty (cache_of s))\<rparr>"
    unfolding *(2) using locked_buf(6) [OF assms(1,2)]
    by (intro cache.equality) (simp_all add: insert_absorb s'_def)
qed
lemma holdingsleep_mine: "held s = [] \<Longrightarrow> sl_mine s l \<Longrightarrow> holdingsleep l s = Ok True s"
  using wp_holdingsleep [of l "\<lambda>r s'. r \<and> s' = s" s] by (auto simp: wp_Ok sl_mine_def split: option.splits)

text \<open>\<open>bwrite\<close>: the block on disk becomes the buffer's contents, and the write is the next of the trace.\<close>

lemma bwrite_spec:
  assumes inv: "bio_inv s" "c_lock (cache_of s) i = Some n"
  obtains s' where "bwrite i s = Ok () s'" "bio_inv s'" "same_thread s s'" "bio_st.more s' = bio_st.more s"
    "slocks s' = slocks s"
    "cache_of s' = (cache_of s)\<lparr>c_disk := (c_disk (cache_of s))(n := c_blk (cache_of s) n),
       c_dirty := c_dirty (cache_of s) - {n}, c_trace := c_trace (cache_of s) @ [(n, c_blk (cache_of s) n)]\<rparr>"
proof -
  note L = locked_buf [OF inv]
  obtain p where p: "running s p" "held s = []" "ide_ready s" using inv by (auto simp: bio_inv_def)
  let ?t = "upd_buf i (\<lambda>x. x\<lparr>dirty := True\<rparr>) s"
  have rw: "iderw i ?t = Ok () (?t\<lparr>regs := start_regs (dev (bufs ?t i)) (blockno (bufs ?t i)),
     bufs := (bufs ?t)(i := (xfer_buf ?t i)\<lparr>qnext := None\<rparr>), disk := xfer_disk ?t i, wtrace := xfer_trace ?t i,
     ptable := (wake (C_buf i) (ptable ?t))(p := (ptable ?t p)\<lparr>chan := None, ticksScheduled := ticksScheduled (ptable ?t p) + 1\<rparr>)\<rparr>)"
    (is "_ = Ok () ?u")
    by (rule iderw_eq) (use p L in \<open>simp_all add: running_def sl_mine_def ide_ready_def\<close>)
  have b: "bufs ?u = (bufs s)(i := (bufs s i)\<lparr>valid := True, dirty := False, qnext := None\<rparr>)"
    and d: "disk ?u = (disk s)(1 := (disk s 1)(n := data (bufs s i)))"
    and w: "wtrace ?u = wtrace s @ [(1, n, data (bufs s i))]"
    using L by (auto simp: xfer_buf_def xfer_disk_def xfer_trace_def Let_def)
  have th: "same_thread s ?u"
    using p(1) by (auto simp: same_thread_def running_def proc_frame_def [of "ptable s p"])
  have u: "bio_inv ?u" "cache_of ?u = (cache_of s)\<lparr>c_blk := (c_blk (cache_of s))(n := data (bufs s i)),
      c_dirty := c_dirty (cache_of s) - {n}, c_disk := (c_disk (cache_of s))(n := data (bufs s i)),
      c_trace := map (\<lambda>(d, n, x). (n, x)) (wtrace ?u)\<rparr>"
    using locked_change [OF inv b _ _ _ _ _ _ d _ th] L p(3) by (simp_all add: ide_ready_def)
  have "cache_of ?u = (cache_of s)\<lparr>c_disk := (c_disk (cache_of s))(n := c_blk (cache_of s) n),
       c_dirty := c_dirty (cache_of s) - {n}, c_trace := c_trace (cache_of s) @ [(n, c_blk (cache_of s) n)]\<rparr>"
    unfolding u(2) w using L(6) by (intro cache.equality) simp_all
  moreover have "bwrite i s = Ok () ?u"
    using rw holdingsleep_mine [OF p(2) L(7)] by (simp add: bwrite_def)
  moreover have "bio_st.more ?u = bio_st.more s" "slocks ?u = slocks s" by simp_all
  ultimately show thesis by (intro that [of ?u] u(1) th)
qed

text \<open>\<open>brelse\<close>: the lock is given up; a clean buffer must equal its block by then.\<close>

lemma brelse_spec:
  assumes inv: "bio_inv s" "c_lock (cache_of s) i = Some n"
    and clean: "n \<in> c_dirty (cache_of s) \<or> c_blk (cache_of s) n = c_disk (cache_of s) n"
  obtains s' where "brelse i s = Ok () s'" "bio_inv s'" "same_thread s s'" "bio_st.more s' = bio_st.more s"
    "\<And>l. (\<forall>j. l \<noteq> SL_buf j) \<Longrightarrow> slocks s' l = slocks s l"
    "cache_of s' = (cache_of s)\<lparr>c_lock := (c_lock (cache_of s))(i := None)\<rparr>"
    "\<And>xs. bring s xs \<Longrightarrow> set xs = {..<NBUF} \<Longrightarrow> bring s' (i # remove1 i xs)"
proof -
  note L = locked_buf [OF inv]
  obtain p xs where p: "running s p" "held s = []" "ide_ready s" and xs: "bring s xs" "set xs = {..<NBUF}"
    using inv by (auto simp: bio_inv_def)
  obtain ys zs where yz: "xs = ys @ i # zs" using L(1) xs(2) by (metis lessThan_iff split_list)
  let ?t = "s\<lparr>slocks := (slocks s)(SL_buf i := \<lparr>slocked = False, slpid = 0\<rparr>), ptable := wake (C_sl (SL_buf i)) (ptable s),
    held := [L_bcache], bufs := (bufs s)(i := (bufs s i)\<lparr>refcnt := 0\<rparr>)\<rparr>"
  have links: "(\<lambda>j. nxt (bufs ?t j)) = (\<lambda>j. nxt (bufs s j))" "(\<lambda>j. prev (bufs ?t j)) = (\<lambda>j. prev (bufs s j))"
    by (auto simp: fun_eq_iff)
  have "bring ?t (ys @ i # zs)" using xs(1) unfolding bring_def links yz .
  then obtain bs where bs: "seq (bunlink i) (bpush i) ?t = Ok () (?t\<lparr>bufs := bs\<rparr>)" "\<And>j. same_buf (bufs ?t j) (bs j)"
    "bring (?t\<lparr>bufs := bs\<rparr>) (i # ys @ zs)"
    by (rule bring_unlink_push) (rule that)
  let ?u = "?t\<lparr>bufs := bs, held := []\<rparr>"
  have "releasesleep (SL_buf i) s = Ok () (s\<lparr>slocks := (slocks s)(SL_buf i := \<lparr>slocked = False, slpid = 0\<rparr>),
      ptable := wake (C_sl (SL_buf i)) (ptable s)\<rparr>)"
    using wp_releasesleep [of "SL_buf i" "\<lambda>_ s'. s' = s\<lparr>slocks := (slocks s)(SL_buf i := \<lparr>slocked = False, slpid = 0\<rparr>),
      ptable := wake (C_sl (SL_buf i)) (ptable s)\<rparr>" s] p(2) by (auto simp: wp_Ok)
  then have r: "brelse i s = Ok () ?u"
    using bs(1) holdingsleep_mine [OF p(2) L(7)] p(2) L(8)
    by (simp add: brelse_def acquire_def release_def upd_buf_def)
  note B = same_bufD [OF bs(2)]
  have f: "valid (bs j) = valid (bufs s j)" "dirty (bs j) = dirty (bufs s j)" "dev (bs j) = dev (bufs s j)"
    "blockno (bs j) = blockno (bufs s j)" "data (bs j) = data (bufs s j)"
    "refcnt (bs j) = (if j = i then 0 else refcnt (bufs s j))" for j
    using B [of j] by simp_all
  have keys: "same_keys s ?u" using f by (simp add: same_keys_def)
  have th: "same_thread s ?u" using p(2) by (simp add: same_thread_def)
  have bi: "buf_inv ?u j" if j: "j < NBUF" for j
  proof (cases "j = i")
    case True
    then show ?thesis using L f clean by (auto simp: buf_inv_def Let_def)
  next
    case False
    have "buf_inv s j" using inv(1) j by (simp add: bio_inv_def)
    then show ?thesis using f False sl_mine_same [OF th, of "SL_buf j"] by (simp add: buf_inv_def Let_def)
  qed
  have "bio_inv ?u"
    by (rule same_keys_inv [OF inv(1) keys _ _ th _ bi, of "i # ys @ zs"])
      (use bs(3) xs(2) yz p(3) in \<open>auto simp: bring_def ide_ready_def\<close>)
  moreover have "cache_of ?u = (cache_of s)\<lparr>c_lock := (c_lock (cache_of s))(i := None)\<rparr>"
  proof (rule cache.equality)
    show "c_blk (cache_of ?u) = c_blk ((cache_of s)\<lparr>c_lock := (c_lock (cache_of s))(i := None)\<rparr>)"
      using same_keys_block_of(2) [OF inv(1) keys] f by (auto simp: fun_eq_iff)
  qed (auto simp: cache_of_def f fun_eq_iff)
  moreover have "bring ?u (i # remove1 i ws)" if w: "bring s ws" "set ws = {..<NBUF}" for ws
  proof -
    have "ws = xs" using w(1) xs(1) unfolding bring_def by (rule ring_unique)
    moreover have "i \<notin> set ys" using xs(1) yz by (simp add: bring_def ring_def)
    ultimately have "remove1 i ws = ys @ zs" using yz by (simp add: remove1_append)
    then show ?thesis using bs(3) by (simp add: bring_def)
  qed
  ultimately show thesis using r th by (intro that [of ?u]) auto
qed

section \<open>Rules for the clients\<close>

lemma wp_bread:
  assumes "bio_inv s" "n \<notin> ran (c_lock (cache_of s))" "n < FSSIZE" "room (cache_of s) \<or> n \<in> c_dirty (cache_of s)"
    and "\<And>i s'. \<lbrakk>bio_inv s'; c_lock (cache_of s) i = None;
      cache_of s' = (cache_of s)\<lparr>c_lock := (c_lock (cache_of s))(i \<mapsto> n)\<rparr>;
      same_thread s s'; bio_st.more s' = bio_st.more s; \<And>l. (\<forall>j. l \<noteq> SL_buf j) \<Longrightarrow> slocks s' l = slocks s l\<rbrakk> \<Longrightarrow> Q i s'"
  shows "wp (bread ROOTDEV n) Q s"
proof -
  obtain i s' where "bread ROOTDEV n s = Ok i s'" "bio_inv s'" "c_lock (cache_of s) i = None"
    "cache_of s' = (cache_of s)\<lparr>c_lock := (c_lock (cache_of s))(i \<mapsto> n)\<rparr>"
    "same_thread s s'" "bio_st.more s' = bio_st.more s" "\<And>l. (\<forall>j. l \<noteq> SL_buf j) \<Longrightarrow> slocks s' l = slocks s l"
    by (rule bread_spec [OF assms(1-4)]) (rule that)
  with assms(5) [of s' i] show ?thesis unfolding wp_Ok by blast
qed

lemma wp_bwrite:
  assumes "bio_inv s" "c_lock (cache_of s) i = Some n"
    and "\<And>s'. \<lbrakk>bio_inv s'; same_thread s s'; bio_st.more s' = bio_st.more s; slocks s' = slocks s;
      cache_of s' = (cache_of s)\<lparr>c_disk := (c_disk (cache_of s))(n := c_blk (cache_of s) n),
       c_dirty := c_dirty (cache_of s) - {n}, c_trace := c_trace (cache_of s) @ [(n, c_blk (cache_of s) n)]\<rparr>\<rbrakk> \<Longrightarrow> Q () s'"
  shows "wp (bwrite i) Q s"
proof -
  obtain s' where "bwrite i s = Ok () s'" "bio_inv s'" "same_thread s s'" "bio_st.more s' = bio_st.more s"
    "slocks s' = slocks s" "cache_of s' = (cache_of s)\<lparr>c_disk := (c_disk (cache_of s))(n := c_blk (cache_of s) n),
       c_dirty := c_dirty (cache_of s) - {n}, c_trace := c_trace (cache_of s) @ [(n, c_blk (cache_of s) n)]\<rparr>"
    by (rule bwrite_spec [OF assms(1,2)]) (rule that)
  with assms(3) [of s'] show ?thesis unfolding wp_Ok by blast
qed

lemma wp_brelse:
  assumes "bio_inv s" "c_lock (cache_of s) i = Some n" "n \<in> c_dirty (cache_of s) \<or> c_blk (cache_of s) n = c_disk (cache_of s) n"
    and "\<And>s'. \<lbrakk>bio_inv s'; same_thread s s'; bio_st.more s' = bio_st.more s;
      \<And>l. (\<forall>j. l \<noteq> SL_buf j) \<Longrightarrow> slocks s' l = slocks s l;
      cache_of s' = (cache_of s)\<lparr>c_lock := (c_lock (cache_of s))(i := None)\<rparr>\<rbrakk> \<Longrightarrow> Q () s'"
  shows "wp (brelse i) Q s"
proof -
  obtain s' where "brelse i s = Ok () s'" "bio_inv s'" "same_thread s s'" "bio_st.more s' = bio_st.more s"
    "\<And>l. (\<forall>j. l \<noteq> SL_buf j) \<Longrightarrow> slocks s' l = slocks s l"
    "cache_of s' = (cache_of s)\<lparr>c_lock := (c_lock (cache_of s))(i := None)\<rparr>"
    by (rule brelse_spec [OF assms(1-3)]) (rule that)
  with assms(4) [of s'] show ?thesis unfolding wp_Ok by blast
qed

section \<open>Initialisation\<close>

text \<open>The zeroed buffers before \<open>binit\<close>.\<close>

definition buf0 :: buf where
  "buf0 = \<lparr>valid = False, dirty = False, dev = 0, blockno = 0, refcnt = 0, prev = 0, nxt = 0, qnext = None, data = (\<lambda>_. 0)\<rparr>"

lemma binit_ring:
  obtains bs where "binit s = Ok () (s\<lparr>bufs := bs,
      slocks := (\<lambda>l. case l of SL_buf i \<Rightarrow> (if i < NBUF then \<lparr>slocked = False, slpid = 0\<rparr> else slocks s l) | _ \<Rightarrow> slocks s l)\<rparr>)"
    "\<And>i. same_buf (bufs s i) (bs i)" "bring (s\<lparr>bufs := bs\<rparr>) (rev [0..<NBUF])"
proof -
  define sl where "sl k l = (case l of SL_buf i \<Rightarrow> (if i < k then \<lparr>slocked = False, slpid = 0\<rparr> else slocks s l)
    | _ \<Rightarrow> slocks s l)" for k l
  let ?h = "(bufs s)(bhead := (bufs s bhead)\<lparr>prev := bhead, nxt := bhead\<rparr>)"
  let ?I = "\<lambda>xs t. \<exists>bs. t = s\<lparr>bufs := bs, slocks := sl (length (xs :: nat list))\<rparr>
      \<and> (\<forall>i. same_buf (bufs s i) (bs i)) \<and> bring t (rev [0..<length xs])"
  have sl0: "sl 0 = slocks s" by (auto simp: fun_eq_iff sl_def split: slid.split)
  have "wp (foreach [0..<NBUF] (\<lambda>b. seq (initsleeplock (SL_buf b)) (bpush b))) (\<lambda>_. ?I [0..<NBUF]) (s\<lparr>bufs := ?h\<rparr>)"
  proof (rule wp_foreach)
    have "bring (s\<lparr>bufs := ?h, slocks := sl 0\<rparr>) (rev [0..<0])" by (simp add: bring_def ring_def)
    then show "?I [] (s\<lparr>bufs := ?h\<rparr>)"
      unfolding list.size sl0 by (intro exI [of _ ?h]) (auto simp: same_buf_def sl0)
  next
    fix ys b zs t
    assume split: "[0..<NBUF] = ys @ b # zs" and I: "?I ys t"
    define k where "k = length ys"
    obtain bs where k: "t = s\<lparr>bufs := bs, slocks := sl k\<rparr>"
      "\<forall>i. same_buf (bufs s i) (bs i)" "bring t (rev [0..<k])" using I unfolding k_def by blast
    have "b = [0..<NBUF] ! k" unfolding split k_def by (simp add: nth_append)
    moreover have "length [0..<NBUF] = k + Suc (length zs)" unfolding split k_def by simp
    ultimately have b: "b = k" "k < NBUF" by auto
    then have nb: "b \<noteq> bhead" by simp
    let ?t = "t\<lparr>slocks := sl (Suc k)\<rparr>"
    have init: "initsleeplock (SL_buf b) t = Ok () ?t"
      by (auto simp: initsleeplock_def upd_sl_def k b fun_eq_iff sl_def split: slid.split)
    obtain cs where cs: "bpush b ?t = Ok () (?t\<lparr>bufs := cs\<rparr>)" "\<And>i. same_buf (bufs ?t i) (cs i)"
      "(\<lambda>i. nxt (cs i)) = (\<lambda>i. nxt (bufs ?t i))(b := nxt (bufs ?t bhead), bhead := b)"
      "(\<lambda>i. prev (cs i)) = (\<lambda>i. prev (bufs ?t i))(b := bhead, nxt (bufs ?t bhead) := b)"
      by (rule bpush_links [OF nb, of ?t]) (rule that)
    have "bring (?t\<lparr>bufs := cs\<rparr>) (b # rev [0..<k])"
      using ring_push [OF k(3) [unfolded bring_def], of b] b by (simp add: bring_def cs(3,4))
    moreover have "\<forall>i. same_buf (bufs s i) (cs i)" using k(1,2) cs(2) by (auto intro: same_buf_trans)
    moreover have "?t\<lparr>bufs := cs\<rparr> = s\<lparr>bufs := cs, slocks := sl (Suc k)\<rparr>" by (simp add: k(1))
    ultimately have "?I (ys @ [b]) (?t\<lparr>bufs := cs\<rparr>)"
      using b by (intro exI [of _ cs]) (simp add: k_def)
    then show "wp (seq (initsleeplock (SL_buf b)) (bpush b)) (\<lambda>_. ?I (ys @ [b])) t"
      using init cs(1) by (simp add: wp_def)
  qed
  then obtain t where t: "foreach [0..<NBUF] (\<lambda>b. seq (initsleeplock (SL_buf b)) (bpush b)) (s\<lparr>bufs := ?h\<rparr>) = Ok () t"
    "?I [0..<NBUF] t" by (auto simp: wp_Ok)
  then obtain bs where bs: "t = s\<lparr>bufs := bs, slocks := sl NBUF\<rparr>" "\<forall>i. same_buf (bufs s i) (bs i)"
    "bring t (rev [0..<NBUF])" by auto
  have "binit s = foreach [0..<NBUF] (\<lambda>b. seq (initsleeplock (SL_buf b)) (bpush b)) (s\<lparr>bufs := ?h\<rparr>)"
    by (simp add: binit_def upd_buf_def)
  with t(1) bs show thesis by (intro that [of bs]) (simp_all add: bring_def sl_def [abs_def])
qed
lemma binit_inv:
  fixes s :: "'a bio_st_scheme"
  assumes "bufs s = (\<lambda>_. buf0)"
  obtains s' where "binit s = Ok () s'"
    "\<And>(t :: 'a bio_st_scheme) p. \<lbrakk>bufs t = bufs s'; slocks t = slocks s'; running t p; held t = []; ide_ready t\<rbrakk> \<Longrightarrow>
       bio_inv t \<and> cache_of t = \<lparr>c_blk = disk t 1, c_lock = (\<lambda>_. None), c_dirty = {}, c_disk = disk t 1,
         c_trace = map (\<lambda>(d, n, x). (n, x)) (wtrace t)\<rparr>"
    "curproc s' = curproc s" "ptable s' = ptable s" "held s' = held s" "ide_ready s' = ide_ready s"
    "disk s' = disk s" "wtrace s' = wtrace s" "bio_st.more s' = bio_st.more s"
    "\<And>l. (\<forall>j. l \<noteq> SL_buf j) \<Longrightarrow> slocks s' l = slocks s l"
proof -
  let ?sl = "\<lambda>l. case l of SL_buf i \<Rightarrow> (if i < NBUF then \<lparr>slocked = False, slpid = 0\<rparr> else slocks s l) | _ \<Rightarrow> slocks s l"
  obtain bs where bs: "binit s = Ok () (s\<lparr>bufs := bs, slocks := ?sl\<rparr>)"
    "\<And>i. same_buf (bufs s i) (bs i)" "bring (s\<lparr>bufs := bs\<rparr>) (rev [0..<NBUF])"
    by (rule binit_ring) (rule that)
  have b: "valid (bs i) = False" "dirty (bs i) = False" "dev (bs i) = 0" "refcnt (bs i) = 0" for i
    using same_bufD [OF bs(2) [of i]] assms by (simp_all add: buf0_def)
  have *: "bio_inv t \<and> cache_of t = \<lparr>c_blk = disk t 1, c_lock = (\<lambda>_. None), c_dirty = {}, c_disk = disk t 1,
      c_trace = map (\<lambda>(d, n, x). (n, x)) (wtrace t)\<rparr>"
    if t: "bufs t = bs" "slocks t = ?sl" "running t p" "held t = []" "ide_ready t" for t :: "'a bio_st_scheme" and p
  proof
    have "buf_inv t i" if "i < NBUF" for i using that b [of i] t(1,2) by (simp add: buf_inv_def Let_def)
    moreover have "uniq_bufs t" using b t(1) by (simp add: uniq_bufs_def)
    moreover have "bring t (rev [0..<NBUF])" using bs(3) t(1) by (simp add: bring_def)
    moreover have "set (rev [0..<NBUF]) = {..<NBUF}" by auto
    ultimately show "bio_inv t" using t(3-5) unfolding bio_inv_def by blast
    have "block_of t n = disk t 1 n" for n
      using b t(1) by (intro block_of_uncached) (simp add: cached_def)
    then show "cache_of t = \<lparr>c_blk = disk t 1, c_lock = (\<lambda>_. None), c_dirty = {}, c_disk = disk t 1,
      c_trace = map (\<lambda>(d, n, x). (n, x)) (wtrace t)\<rparr>"
      using b t(1,2) by (auto simp: cache_of_def fun_eq_iff)
  qed
  show thesis
  proof (rule that [OF bs(1)])
    fix t :: "'a bio_st_scheme" and p
    assume "bufs t = bufs (s\<lparr>bufs := bs, slocks := ?sl\<rparr>)" "slocks t = slocks (s\<lparr>bufs := bs, slocks := ?sl\<rparr>)"
      "running t p" "held t = []" "ide_ready t"
    then show "bio_inv t \<and> cache_of t = \<lparr>c_blk = disk t 1, c_lock = (\<lambda>_. None), c_dirty = {}, c_disk = disk t 1,
      c_trace = map (\<lambda>(d, n, x). (n, x)) (wtrace t)\<rparr>"
      by (intro *) simp_all
  qed (auto simp: ide_ready_def split: slid.split)
qed

section \<open>Properties\<close>

text \<open>
   \<open>binit\<close> links all buffers into the list and leaves the cache empty: from then on, whenever
  a process runs with the disk idle, the cache invariant holds, every block reads as it is on the
  disk, and nothing is locked or dirty.
\<close>

theorem binit_establishes:
  fixes s :: "'a bio_st_scheme"
  assumes "bufs s = (\<lambda>_. buf0)"
  shows "\<exists>s'. binit s = Ok () s' \<and> (\<forall>(t :: 'a bio_st_scheme) p. bufs t = bufs s' \<and> slocks t = slocks s' \<and> running t p \<and> held t = [] \<and> ide_ready t
     \<longrightarrow> bio_inv t \<and> c_blk (cache_of t) = disk t 1 \<and> c_lock (cache_of t) = (\<lambda>_. None) \<and> c_dirty (cache_of t) = {})"
proof -
  obtain s' where s': "binit s = Ok () s'" "\<And>(t :: 'a bio_st_scheme) p. \<lbrakk>bufs t = bufs s'; slocks t = slocks s'; running t p; held t = []; ide_ready t\<rbrakk> \<Longrightarrow>
       bio_inv t \<and> cache_of t = \<lparr>c_blk = disk t 1, c_lock = (\<lambda>_. None), c_dirty = {}, c_disk = disk t 1,
         c_trace = map (\<lambda>(d, n, x). (n, x)) (wtrace t)\<rparr>"
    by (rule binit_inv [OF assms]) (rule that)
  show ?thesis
  proof (intro exI [of _ s'] conjI allI impI s'(1))
    fix t :: "'a bio_st_scheme" and p
    assume "bufs t = bufs s' \<and> slocks t = slocks s' \<and> running t p \<and> held t = [] \<and> ide_ready t"
    then have "bio_inv t \<and> cache_of t = \<lparr>c_blk = disk t 1, c_lock = (\<lambda>_. None), c_dirty = {}, c_disk = disk t 1,
         c_trace = map (\<lambda>(d, n, x). (n, x)) (wtrace t)\<rparr>" by (intro s'(2) [of t p]) simp_all
    then show "bio_inv t" "c_blk (cache_of t) = disk t 1" "c_lock (cache_of t) = (\<lambda>_. None)" "c_dirty (cache_of t) = {}"
      by simp_all
  qed
qed

definition ex_boot :: bio_st where
  "ex_boot = ex_bio\<lparr>bufs := (\<lambda>_. buf0), slocks := (\<lambda>_. \<lparr>slocked = False, slpid = 0\<rparr>)\<rparr>"

theorem binit_establishes_witness:
  "\<exists>s'. binit ex_boot = Ok () s' \<and> (running s' 0 \<and> held s' = [] \<and> ide_ready s' \<longrightarrow> bio_inv s')"
  using binit_establishes [of ex_boot] by (auto simp: ex_boot_def)

text \<open>The example kernel with its cache initialised.\<close>

lemma ex_cache:
  obtains s where "bio_inv s" "cache_of s = \<lparr>c_blk = (\<lambda>_ _. 9), c_lock = (\<lambda>_. None), c_dirty = {}, c_disk = (\<lambda>_ _. 9), c_trace = []\<rparr>"
    "binit ex_boot = Ok () s"
proof -
  have 0: "bufs ex_boot = (\<lambda>_. buf0)" by (simp add: ex_boot_def)
  have f: "ide_ready ex_boot" "disk ex_boot = (\<lambda>_ _ _. 9)" "wtrace ex_boot = []" "held ex_boot = []" "running ex_boot 0"
    using ex_bio_ready by (auto simp: ex_boot_def ide_ready_def ex_bio_def running_def)
  obtain s where s: "binit ex_boot = Ok () s" "\<And>(t :: bio_st) p. \<lbrakk>bufs t = bufs s; slocks t = slocks s; running t p; held t = []; ide_ready t\<rbrakk> \<Longrightarrow>
       bio_inv t \<and> cache_of t = \<lparr>c_blk = disk t 1, c_lock = (\<lambda>_. None), c_dirty = {}, c_disk = disk t 1,
         c_trace = map (\<lambda>(d, n, x). (n, x)) (wtrace t)\<rparr>"
    "curproc s = curproc ex_boot" "ptable s = ptable ex_boot" "held s = held ex_boot" "ide_ready s = ide_ready ex_boot"
    "disk s = disk ex_boot" "wtrace s = wtrace ex_boot"
    by (rule binit_inv [OF 0]) (rule that)
  have "running s 0" using f(5) s(3,4) by (simp add: running_def)
  then have "bio_inv s \<and> cache_of s = \<lparr>c_blk = disk s 1, c_lock = (\<lambda>_. None), c_dirty = {}, c_disk = disk s 1,
         c_trace = map (\<lambda>(d, n, x). (n, x)) (wtrace s)\<rparr>"
    using f s(5,6) by (intro s(2)) simp_all
  with f s show thesis by (intro that [of s]) simp_all
qed

lemma ex_locked:
  obtains s :: bio_st and i where "bio_inv s"
    "cache_of s = \<lparr>c_blk = (\<lambda>_ _. 9), c_lock = [i \<mapsto> 33], c_dirty = {}, c_disk = (\<lambda>_ _. 9), c_trace = []\<rparr>"
proof -
  obtain s where s: "bio_inv s" "cache_of s = \<lparr>c_blk = (\<lambda>_ _. 9), c_lock = (\<lambda>_. None), c_dirty = {}, c_disk = (\<lambda>_ _. 9), c_trace = []\<rparr>"
    "binit ex_boot = Ok () s" by (rule ex_cache)
  have pre: "33 \<notin> ran (c_lock (cache_of s))" "room (cache_of s) \<or> 33 \<in> c_dirty (cache_of s)" "33 < FSSIZE"
    by (simp_all add: s(2) room_def)
  obtain i and s' :: bio_st where "bio_inv s'" "cache_of s' = (cache_of s)\<lparr>c_lock := (c_lock (cache_of s))(i \<mapsto> 33)\<rparr>"
    by (rule bread_spec [OF s(1) pre(1,3,2)]) (rule that)
  then show thesis by (intro that [of s' i]) (simp_all add: s(2))
qed

text \<open>
  C4 \<open>bread\<close> on the real cache (hash-free search along the list, recycling from the tail, the
  disk driver) implements the abstract cache: as long as a buffer is free or the block is dirty, it
  returns a buffer that was not locked, now locked for the block and holding the block's current
  contents; the contents of all blocks, the disk and the set of dirty blocks do not change.
\<close>

theorem bread_refines:
  assumes "bio_inv s" "n \<notin> ran (c_lock (cache_of s))" "n < FSSIZE" "room (cache_of s) \<or> n \<in> c_dirty (cache_of s)"
  shows "\<exists>i s'. bread ROOTDEV n s = Ok i s' \<and> bio_inv s' \<and> c_lock (cache_of s) i = None
    \<and> cache_of s' = (cache_of s)\<lparr>c_lock := (c_lock (cache_of s))(i \<mapsto> n)\<rparr> \<and> data (bufs s' i) = c_blk (cache_of s) n"
proof -
  obtain i s' where *: "bread ROOTDEV n s = Ok i s'" "bio_inv s'" "c_lock (cache_of s) i = None"
    "cache_of s' = (cache_of s)\<lparr>c_lock := (c_lock (cache_of s))(i \<mapsto> n)\<rparr>"
    by (rule bread_spec [OF assms]) (rule that)
  then have "data (bufs s' i) = c_blk (cache_of s') n" by (intro locked_buf(6)) simp_all
  also have "\<dots> = c_blk (cache_of s) n" unfolding *(4) by simp
  finally show ?thesis using * by blast
qed

theorem bread_refines_witness:
  "\<exists>s i s'. binit ex_boot = Ok () s \<and> bread 1 33 s = Ok i s' \<and> bio_inv s' \<and> data (bufs s' i) 100 = 9"
proof -
  obtain s where "bio_inv s" "cache_of s = \<lparr>c_blk = (\<lambda>_ _. 9), c_lock = (\<lambda>_. None), c_dirty = {}, c_disk = (\<lambda>_ _. 9), c_trace = []\<rparr>"
    "binit ex_boot = Ok () s" by (rule ex_cache)
  then show ?thesis using bread_refines [of s 33] by (force simp: room_def)
qed

text \<open>
  C28 \<open>bwrite\<close> of a locked buffer makes the disk's copy of its block equal to the current contents,
  as the next write the disk receives, and the buffer clean; no other block changes.
\<close>

theorem bwrite_refines:
  assumes "bio_inv s" "c_lock (cache_of s) i = Some n"
  shows "\<exists>s'. bwrite i s = Ok () s' \<and> bio_inv s'
    \<and> cache_of s' = (cache_of s)\<lparr>c_disk := (c_disk (cache_of s))(n := c_blk (cache_of s) n),
        c_dirty := c_dirty (cache_of s) - {n}, c_trace := c_trace (cache_of s) @ [(n, c_blk (cache_of s) n)]\<rparr>"
  by (rule bwrite_spec [OF assms]) blast

theorem bwrite_refines_witness:
  "\<exists>(s :: bio_st) i s'. c_lock (cache_of s) i = Some 33 \<and> bwrite i s = Ok () s' \<and> c_trace (cache_of s') = [(33, \<lambda>_. 9)]"
proof -
  obtain s :: bio_st and i where s: "bio_inv s" "cache_of s = \<lparr>c_blk = (\<lambda>_ _. 9), c_lock = [i \<mapsto> 33], c_dirty = {},
      c_disk = (\<lambda>_ _. 9), c_trace = []\<rparr>" by (rule ex_locked)
  then have l: "c_lock (cache_of s) i = Some 33" by simp
  from bwrite_refines [OF s(1) l] obtain s' where b: "bwrite i s = Ok () s'"
    "cache_of s' = (cache_of s)\<lparr>c_disk := (c_disk (cache_of s))(33 := c_blk (cache_of s) 33),
        c_dirty := c_dirty (cache_of s) - {33}, c_trace := c_trace (cache_of s) @ [(33, c_blk (cache_of s) 33)]\<rparr>"
    by blast
  have "c_trace (cache_of s') = [(33, \<lambda>_. 9)]" unfolding b(2) unfolding s(2) by simp
  with b(1) l show ?thesis by blast
qed

text \<open>
  C27 \<open>brelse\<close> of a locked buffer that is dirty or equal to its block on disk gives the lock up,
  moves the buffer to the front of the list of buffers, the others keeping their order, and changes nothing
  else: a block logged but not yet written stays in the cache.
\<close>

theorem brelse_refines:
  assumes "bio_inv s" "c_lock (cache_of s) i = Some n" "n \<in> c_dirty (cache_of s) \<or> c_blk (cache_of s) n = c_disk (cache_of s) n"
  shows "\<exists>s'. brelse i s = Ok () s' \<and> bio_inv s' \<and> cache_of s' = (cache_of s)\<lparr>c_lock := (c_lock (cache_of s))(i := None)\<rparr>
    \<and> (\<exists>xs. bring s xs \<and> set xs = {..<NBUF} \<and> bring s' (i # remove1 i xs))"
proof -
  obtain xs where "bring s xs" "set xs = {..<NBUF}" using assms(1) by (auto simp: bio_inv_def)
  note xs = this
  show ?thesis by (rule brelse_spec [OF assms]) (use xs in blast)
qed

theorem brelse_refines_witness:
  "\<exists>(s :: bio_st) i s' xs. c_lock (cache_of s) i = Some 33 \<and> brelse i s = Ok () s' \<and> bio_inv s' \<and> c_lock (cache_of s') i = None
     \<and> bring s xs \<and> bring s' (i # remove1 i xs)"
proof -
  obtain s :: bio_st and i where s: "bio_inv s" "cache_of s = \<lparr>c_blk = (\<lambda>_ _. 9), c_lock = [i \<mapsto> 33], c_dirty = {},
      c_disk = (\<lambda>_ _. 9), c_trace = []\<rparr>" by (rule ex_locked)
  then have l: "c_lock (cache_of s) i = Some 33" by simp
  from brelse_refines [OF s(1) l] obtain s' xs where "brelse i s = Ok () s'" "bio_inv s'" "c_lock (cache_of s') i = None"
    "bring s xs" "bring s' (i # remove1 i xs)"
    unfolding s(2) by force
  with l show ?thesis by blast
qed

text \<open>A kernel that has just booted on the disk \<open>d\<close>, with any further state.\<close>

lemma boot_cache:
  fixes d :: "nat \<Rightarrow> bytes" and m :: 'a
  obtains t :: "'a bio_st_scheme" where "bio_inv t" "bio_st.more t = m"
    "cache_of t = \<lparr>c_blk = d, c_lock = (\<lambda>_. None), c_dirty = {}, c_disk = d, c_trace = []\<rparr>"
proof -
  let ?s = "bio_st.extend (ex_boot\<lparr>disk := (\<lambda>_. d)\<rparr>) m"
  have 0: "bufs ?s = (\<lambda>_. buf0)" by (simp add: bio_st.defs ex_boot_def)
  have f: "ide_ready ?s" "disk ?s = (\<lambda>_. d)" "wtrace ?s = []" "held ?s = []" "running ?s 0" "bio_st.more ?s = m"
    using ex_bio_ready by (auto simp: ex_boot_def ide_ready_def ex_bio_def running_def bio_st.defs)
  obtain s where s: "binit ?s = Ok () s" "\<And>(t :: 'a bio_st_scheme) p. \<lbrakk>bufs t = bufs s; slocks t = slocks s; running t p; held t = []; ide_ready t\<rbrakk> \<Longrightarrow>
       bio_inv t \<and> cache_of t = \<lparr>c_blk = disk t 1, c_lock = (\<lambda>_. None), c_dirty = {}, c_disk = disk t 1,
         c_trace = map (\<lambda>(d, n, x). (n, x)) (wtrace t)\<rparr>"
    "curproc s = curproc ?s" "ptable s = ptable ?s" "held s = held ?s" "ide_ready s = ide_ready ?s"
    "disk s = disk ?s" "wtrace s = wtrace ?s"
    by (rule binit_inv [OF 0]) (rule that)
  let ?t = "s\<lparr>bio_st.more := m\<rparr>"
  have r: "running ?t 0" "ide_ready ?t" using f(1,5) s(3-6) by (simp_all add: running_def ide_ready_def)
  have "bio_inv ?t \<and> cache_of ?t = \<lparr>c_blk = disk ?t 1, c_lock = (\<lambda>_. None), c_dirty = {}, c_disk = disk ?t 1,
         c_trace = map (\<lambda>(d, n, x). (n, x)) (wtrace ?t)\<rparr>"
    using f s(5) r by (intro s(2) [of ?t 0]) simp_all
  with f s show thesis by (intro that [of ?t]) simp_all
qed

end
