(* ===== verification/Log.thy ===== *)
theory Log
  imports Bio
begin

text \<open>
  The write-ahead log (src/log.c): transactions, commit, and recovery after a crash, on top of the
  buffer cache. The crash theorem at the end cuts the sequence of disk writes of a commit at any
  point, boots a kernel with an empty cache on what is on the disk, and runs the recovery code.
\<close>

section \<open>State (log.c, fs.h)\<close>

abbreviation (input) MAXOPBLOCKS :: int where "MAXOPBLOCKS \<equiv> 10"
abbreviation (input) LOGSIZE :: nat where "LOGSIZE \<equiv> 30"

record superblock =
  sb_size :: nat
  sb_nblocks :: nat
  sb_ninodes :: nat
  sb_nlog :: nat
  sb_logstart :: nat
  sb_inodestart :: nat
  sb_bmapstart :: nat

text \<open>\<open>struct log\<close> with its in-memory \<open>struct logheader\<close>.\<close>

record logrec =
  start :: nat
  lsize :: int
  outstanding :: int
  committing :: bool
  ldev :: nat
  lh_n :: int
  lh_block :: "nat \<Rightarrow> nat"

record log_st = bio_st +
  log :: logrec

definition upd_log :: "(logrec \<Rightarrow> logrec) \<Rightarrow> 'a log_st_scheme \<Rightarrow> 'a log_st_scheme" where
  "upd_log f s = s\<lparr>log := f (log s)\<rparr>"

section \<open>Superblock (fs.c)\<close>

definition get_sb :: "bytes \<Rightarrow> superblock" where
  "get_sb d = \<lparr>sb_size = unat (get32 d 0), sb_nblocks = unat (get32 d 4), sb_ninodes = unat (get32 d 8),
     sb_nlog = unat (get32 d 12), sb_logstart = unat (get32 d 16), sb_inodestart = unat (get32 d 20),
     sb_bmapstart = unat (get32 d 24)\<rparr>"

definition readsb :: "nat \<Rightarrow> (superblock, 'a bio_st_scheme) kop" where
  "readsb d =
     bind (bread d 1) (\<lambda>bp.
     bind (gets (\<lambda>s. get_sb (data (bufs s bp)))) (\<lambda>sb.
     seq (brelse bp)
     (ret sb)))"

section \<open>Committing and recovering (log.c)\<close>

text \<open>\<open>memmove(to->data, from->data, BSIZE)\<close> between two buffers.\<close>

definition copy_block :: "nat \<Rightarrow> nat \<Rightarrow> (unit, 'a bio_st_scheme) kop" where
  "copy_block to from = modify (\<lambda>s. upd_buf to (\<lambda>x. x\<lparr>data := data (bufs s from)\<rparr>) s)"

definition install_trans :: "(unit, 'a log_st_scheme) kop" where
  "install_trans =
     bind (gets log) (\<lambda>lg.
     foreach [0..<nat (lh_n lg)] (\<lambda>tail.
       bind (bread (ldev lg) (start lg + tail + 1)) (\<lambda>lbuf.
       bind (bread (ldev lg) (lh_block lg tail)) (\<lambda>dbuf.
       seq (copy_block dbuf lbuf)
       (seq (bwrite dbuf)
       (seq (brelse lbuf)
       (brelse dbuf)))))))"

text \<open>The header as the block holds it: the count, then the block numbers.\<close>

definition head_n :: "bytes \<Rightarrow> int" where
  "head_n d = sint (get32 d 0)"

definition head_block :: "bytes \<Rightarrow> nat \<Rightarrow> nat" where
  "head_block d i = unat (get32 d (4 + 4 * i))"

text \<open>
  A count above LOGSIZE makes \<open>read_head\<close> write past the array; no more can be said of such a run.
\<close>

definition read_head :: "(unit, 'a log_st_scheme) kop" where
  "read_head =
     bind (gets log) (\<lambda>lg.
     bind (bread (ldev lg) (start lg)) (\<lambda>b.
     bind (gets (\<lambda>s. data (bufs s b))) (\<lambda>d.
     seq (modify (upd_log (\<lambda>l. l\<lparr>lh_n := head_n d\<rparr>)))
     (seq (foreach [0..<nat (head_n d)] (\<lambda>i.
        if i \<ge> LOGSIZE then panic ''write past log.lh.block''
        else modify (upd_log (\<lambda>l. l\<lparr>lh_block := (lh_block l)(i := head_block d i)\<rparr>))))
     (brelse b)))))"

primrec put_blocks :: "(nat \<Rightarrow> nat) \<Rightarrow> nat \<Rightarrow> bytes \<Rightarrow> bytes" where
  "put_blocks f 0 d = d"
| "put_blocks f (Suc i) d = put32 (4 + 4 * i) (of_nat (f i)) (put_blocks f i d)"

definition put_head :: "logrec \<Rightarrow> bytes \<Rightarrow> bytes" where
  "put_head lg d = put_blocks (lh_block lg) (nat (lh_n lg)) (put32 0 (of_int (lh_n lg)) d)"

definition write_head :: "(unit, 'a log_st_scheme) kop" where
  "write_head =
     bind (gets log) (\<lambda>lg.
     bind (bread (ldev lg) (start lg)) (\<lambda>b.
     seq (modify (upd_buf b (\<lambda>x. x\<lparr>data := put_head lg (data x)\<rparr>)))
     (seq (bwrite b)
     (brelse b))))"

definition recover_from_log :: "(unit, 'a log_st_scheme) kop" where
  "recover_from_log =
     seq read_head
     (seq install_trans
     (seq (modify (upd_log (\<lambda>l. l\<lparr>lh_n := 0\<rparr>)))
     write_head))"

definition initlog :: "nat \<Rightarrow> (unit, 'a log_st_scheme) kop" where
  "initlog d =
     bind (readsb d) (\<lambda>sb.
     seq (modify (upd_log (\<lambda>l. l\<lparr>start := sb_logstart sb, lsize := sint (of_nat (sb_nlog sb) :: u32), ldev := d\<rparr>)))
     recover_from_log)"

definition write_log :: "(unit, 'a log_st_scheme) kop" where
  "write_log =
     bind (gets log) (\<lambda>lg.
     foreach [0..<nat (lh_n lg)] (\<lambda>tail.
       bind (bread (ldev lg) (start lg + tail + 1)) (\<lambda>to.
       bind (bread (ldev lg) (lh_block lg tail)) (\<lambda>from.
       seq (copy_block to from)
       (seq (bwrite to)
       (seq (brelse from)
       (brelse to)))))))"

definition commit :: "(unit, 'a log_st_scheme) kop" where
  "commit =
     bind (gets (\<lambda>s. lh_n (log s))) (\<lambda>n.
     if n > 0 then
       seq write_log
       (seq write_head
       (seq install_trans
       (seq (modify (upd_log (\<lambda>l. l\<lparr>lh_n := 0\<rparr>)))
       write_head)))
     else skip)"

section \<open>Transactions (log.c)\<close>

text \<open>One turn of the loop of \<open>begin_op\<close>; a sleeper runs it again after \<open>sleep_return\<close>.\<close>

definition begin_op_loop :: "(unit, 'a log_st_scheme) kop" where
  "begin_op_loop =
     bind (gets log) (\<lambda>lg.
     if committing lg then sleep C_log L_log
     else if lh_n lg + (outstanding lg + 1) * MAXOPBLOCKS > int LOGSIZE then sleep C_log L_log
     else
       seq (modify (upd_log (\<lambda>l. l\<lparr>outstanding := outstanding l + 1\<rparr>)))
       (release L_log))"

definition begin_op :: "(unit, 'a log_st_scheme) kop" where
  "begin_op = seq (acquire L_log) begin_op_loop"

definition end_op :: "(unit, 'a log_st_scheme) kop" where
  "end_op =
     seq (acquire L_log)
     (seq (modify (upd_log (\<lambda>l. l\<lparr>outstanding := outstanding l - 1\<rparr>)))
     (bind (gets log) (\<lambda>lg.
     if committing lg then panic ''log.committing''
     else
       bind (if outstanding lg = 0
             then seq (modify (upd_log (\<lambda>l. l\<lparr>committing := True\<rparr>))) (ret True)
             else seq (wakeup C_log) (ret False)) (\<lambda>do_commit.
       seq (release L_log)
       (if do_commit then
          seq commit
          (seq (acquire L_log)
          (seq (modify (upd_log (\<lambda>l. l\<lparr>committing := False\<rparr>)))
          (seq (wakeup C_log)
          (release L_log))))
        else skip)))))"

text \<open>The place of a block in the header: where it already is, or the end (\<open>log absorbtion\<close>).\<close>

function log_slot :: "(nat \<Rightarrow> nat) \<Rightarrow> nat \<Rightarrow> nat \<Rightarrow> nat \<Rightarrow> nat" where
  "log_slot f n b i = (if i < n \<and> f i \<noteq> b then log_slot f n b (Suc i) else i)"
  by pat_completeness auto
termination
  by (relation "measure (\<lambda>(f, n, b, i). n - i)") auto

declare log_slot.simps [simp del]

definition log_write :: "nat \<Rightarrow> (unit, 'a log_st_scheme) kop" where
  "log_write b =
     bind (gets log) (\<lambda>lg.
     if lh_n lg \<ge> int LOGSIZE \<or> lh_n lg \<ge> lsize lg - 1 then panic ''too big a transaction''
     else if outstanding lg < 1 then panic ''log_write outside of trans''
     else
       seq (acquire L_log)
       (bind (gets (\<lambda>s. blockno (bufs s b))) (\<lambda>n.
       bind (gets log) (\<lambda>lg.
       let i = log_slot (lh_block lg) (nat (lh_n lg)) n 0 in
       seq (modify (upd_log (\<lambda>l. l\<lparr>lh_block := (lh_block l)(i := n)\<rparr>)))
       (seq (if int i = lh_n lg then modify (upd_log (\<lambda>l. l\<lparr>lh_n := lh_n l + 1\<rparr>)) else skip)
       (seq (modify (upd_buf b (\<lambda>x. x\<lparr>dirty := True\<rparr>)))
       (release L_log)))))))"

section \<open>Effects on the cache\<close>

declare cache_of_simps [simp del]

text \<open>Block \<open>n\<close> gets contents \<open>x\<close>, in the cache and on the disk.\<close>

definition cwrite :: "nat \<Rightarrow> bytes \<Rightarrow> cache \<Rightarrow> cache" where
  "cwrite n x c = c\<lparr>c_blk := (c_blk c)(n := x), c_disk := (c_disk c)(n := x),
     c_dirty := c_dirty c - {n}, c_trace := c_trace c @ [(n, x)]\<rparr>"

text \<open>What a step of the log code leaves alone besides the cache.\<close>

definition log_frame :: "'a bio_st_scheme \<Rightarrow> 'a bio_st_scheme \<Rightarrow> bool" where
  "log_frame s s' \<longleftrightarrow> same_thread s s' \<and> bio_st.more s' = bio_st.more s \<and> (\<forall>l. (\<forall>j. l \<noteq> SL_buf j) \<longrightarrow> slocks s' l = slocks s l)"

lemma log_frame_refl [simp, intro]: "log_frame s s"
  by (simp add: log_frame_def)

lemma log_frame_trans [trans]: "log_frame s s' \<Longrightarrow> log_frame s' s'' \<Longrightarrow> log_frame s s''"
  by (auto simp: log_frame_def intro: same_thread_trans)

lemma log_frame_log: "log_frame s s' \<Longrightarrow> log s' = log s"
  by (cases s, cases s') (simp add: log_frame_def)

lemma log_frameI:
  "same_thread s s' \<Longrightarrow> bio_st.more s' = bio_st.more s \<Longrightarrow> (\<And>l. (\<forall>j. l \<noteq> SL_buf j) \<Longrightarrow> slocks s' l = slocks s l) \<Longrightarrow> log_frame s s'"
  by (simp add: log_frame_def)

lemma upd_buf_frame: "log_frame s (upd_buf i f s)"
  by (simp add: log_frame_def same_thread_def)

text \<open>
  The body shared by \<open>write_log\<close> and \<open>install_trans\<close>: with no block locked, copy block \<open>a\<close> over block \<open>b\<close>
  and write \<open>b\<close> out.
\<close>

definition unlocked :: "cache \<Rightarrow> bool" where
  "unlocked c \<longleftrightarrow> c_lock c = (\<lambda>_. None)"

lemma unlocked_cwrite [simp]: "unlocked (cwrite n x c) = unlocked c"
  by (simp add: unlocked_def cwrite_def)

definition clean :: "cache \<Rightarrow> nat \<Rightarrow> bool" where
  "clean c n \<longleftrightarrow> n \<in> c_dirty c \<or> c_blk c n = c_disk c n"

lemma copy_write:
  fixes s :: "'a bio_st_scheme"
  assumes inv: "bio_inv s" and lock: "c_lock (cache_of s) = [i \<mapsto> a, j \<mapsto> b]" "i \<noteq> j" "a \<noteq> b"
  obtains s' where "seq (copy_block j i) (bwrite j) s = Ok () s'" "bio_inv s'" "log_frame s s'"
    "cache_of s' = cwrite b (c_blk (cache_of s) a) (cache_of s)"
proof -
  let ?c = "cache_of s"
  have i: "c_lock ?c i = Some a" and j: "c_lock ?c j = Some b" using lock by simp_all
  define t where "t = upd_buf j (\<lambda>x. x\<lparr>data := (\<lambda>_. data (bufs s i)) (data x)\<rparr>) s"
  have t: "bio_inv t" "cache_of t = ?c\<lparr>c_blk := (c_blk ?c)(b := c_blk ?c a)\<rparr>"
    unfolding t_def using bset_spec [OF inv j, of "\<lambda>_. data (bufs s i)"] locked_buf(6) [OF inv i] by simp_all
  then have "c_lock (cache_of t) j = Some b" using j by simp
  then obtain u where u: "bwrite j t = Ok () u" "bio_inv u" "same_thread t u" "bio_st.more u = bio_st.more t" "slocks u = slocks t"
    "cache_of u = (cache_of t)\<lparr>c_disk := (c_disk (cache_of t))(b := c_blk (cache_of t) b),
       c_dirty := c_dirty (cache_of t) - {b}, c_trace := c_trace (cache_of t) @ [(b, c_blk (cache_of t) b)]\<rparr>"
    by (rule bwrite_spec [OF t(1)]) (rule that)
  have "cache_of u = cwrite b (c_blk ?c a) ?c" unfolding u(6) t(2) by (simp add: cwrite_def)
  moreover have "seq (copy_block j i) (bwrite j) s = Ok () u" using u(1) by (simp add: copy_block_def t_def)
  moreover have "log_frame s u"
    using upd_buf_frame [of s j] u(3-5) unfolding t_def by (auto simp: log_frame_def intro: same_thread_trans)
  ultimately show thesis using u(2) by (intro that [of u])
qed

lemma release_two:
  fixes s :: "'a bio_st_scheme"
  assumes inv: "bio_inv s" and lock: "c_lock (cache_of s) = [i \<mapsto> a, j \<mapsto> b]" "i \<noteq> j"
    and clean: "clean (cache_of s) a" "clean (cache_of s) b"
  obtains s' where "seq (brelse i) (brelse j) s = Ok () s'" "bio_inv s'" "log_frame s s'"
    "cache_of s' = (cache_of s)\<lparr>c_lock := (\<lambda>_. None)\<rparr>"
proof -
  have i: "c_lock (cache_of s) i = Some a" using lock by simp
  obtain t where t: "brelse i s = Ok () t" "bio_inv t" "same_thread s t" "bio_st.more t = bio_st.more s"
    "\<And>l. (\<forall>j. l \<noteq> SL_buf j) \<Longrightarrow> slocks t l = slocks s l"
    "cache_of t = (cache_of s)\<lparr>c_lock := (c_lock (cache_of s))(i := None)\<rparr>"
    by (rule brelse_spec [OF inv i clean(1) [unfolded clean_def]]) (rule that)
  have j: "c_lock (cache_of t) j = Some b" "b \<in> c_dirty (cache_of t) \<or> c_blk (cache_of t) b = c_disk (cache_of t) b"
    using clean(2) lock unfolding t(6) clean_def by simp_all
  obtain u where u: "brelse j t = Ok () u" "bio_inv u" "same_thread t u" "bio_st.more u = bio_st.more t"
    "\<And>l. (\<forall>j. l \<noteq> SL_buf j) \<Longrightarrow> slocks u l = slocks t l"
    "cache_of u = (cache_of t)\<lparr>c_lock := (c_lock (cache_of t))(j := None)\<rparr>"
    by (rule brelse_spec [OF t(2) j]) (rule that)
  have "cache_of u = (cache_of s)\<lparr>c_lock := (\<lambda>_. None)\<rparr>"
    unfolding u(6) t(6) lock(1) using lock(2) by (simp add: fun_upd_twist)
  moreover have "log_frame s u" by (rule log_frame_trans [of s t]) (use t u in \<open>auto intro: log_frameI\<close>)
  ultimately show thesis using t(1) u(1,2) by (intro that [of u]) simp_all
qed

lemma read_two:
  fixes s :: "'a bio_st_scheme" and k :: "nat \<Rightarrow> nat \<Rightarrow> ('z, 'a bio_st_scheme) kop"
  assumes inv: "bio_inv s" "unlocked (cache_of s)" and xy: "x \<noteq> y" "x < FSSIZE" "y < FSSIZE"
    and room: "card (c_dirty (cache_of s)) < NBUF \<or> x \<in> c_dirty (cache_of s)"
      "card (insert x (c_dirty (cache_of s))) < NBUF \<or> y \<in> c_dirty (cache_of s)"
  obtains i j s' where "bind (bread ROOTDEV x) (\<lambda>i. bind (bread ROOTDEV y) (\<lambda>j. k i j)) s = k i j s'"
    "bio_inv s'" "log_frame s s'" "i \<noteq> j" "cache_of s' = (cache_of s)\<lparr>c_lock := [i \<mapsto> x, j \<mapsto> y]\<rparr>"
proof -
  let ?c = "cache_of s"
  have l: "c_lock ?c = (\<lambda>_. None)" using inv(2) by (simp add: unlocked_def)
  have 1: "x \<notin> ran (c_lock ?c)" "room ?c \<or> x \<in> c_dirty ?c" using room(1) by (simp_all add: l room_def)
  obtain i t where t: "bread ROOTDEV x s = Ok i t" "bio_inv t" "cache_of t = ?c\<lparr>c_lock := (c_lock ?c)(i \<mapsto> x)\<rparr>"
    "same_thread s t" "bio_st.more t = bio_st.more s" "\<And>l. (\<forall>j. l \<noteq> SL_buf j) \<Longrightarrow> slocks t l = slocks s l"
    by (rule bread_spec [OF inv(1) 1(1) xy(2) 1(2)]) (rule that)
  have t3: "cache_of t = ?c\<lparr>c_lock := [i \<mapsto> x]\<rparr>" using t(3) l by simp
  have 2: "y \<notin> ran (c_lock (cache_of t))" "room (cache_of t) \<or> y \<in> c_dirty (cache_of t)"
    using room(2) xy(1) unfolding t3 by (simp_all add: room_def)
  obtain j u where u: "bread ROOTDEV y t = Ok j u" "bio_inv u" "c_lock (cache_of t) j = None"
    "cache_of u = (cache_of t)\<lparr>c_lock := (c_lock (cache_of t))(j \<mapsto> y)\<rparr>"
    "same_thread t u" "bio_st.more u = bio_st.more t" "\<And>l. (\<forall>j. l \<noteq> SL_buf j) \<Longrightarrow> slocks u l = slocks t l"
    by (rule bread_spec [OF t(2) 2(1) xy(3) 2(2)]) (rule that)
  have "i \<noteq> j" using u(3) unfolding t3 by (auto split: if_splits)
  moreover have "cache_of u = ?c\<lparr>c_lock := [i \<mapsto> x, j \<mapsto> y]\<rparr>" unfolding u(4) t3 by simp
  moreover have "bind (bread ROOTDEV x) (\<lambda>i. bind (bread ROOTDEV y) (\<lambda>j. k i j)) s = k i j u"
    using t(1) u(1) by simp
  moreover have "log_frame s u" by (rule log_frame_trans [of s t]) (use t u in \<open>auto intro: log_frameI\<close>)
  ultimately show thesis using u(2) by (intro that [of i j u])
qed

text \<open>One turn of \<open>write_log\<close> (home block \<open>a\<close> to log block \<open>b\<close>) and of \<open>install_trans\<close> (log block \<open>a\<close> to home block \<open>b\<close>).\<close>

lemma write_log_body:
  fixes s :: "'a bio_st_scheme"
  assumes inv: "bio_inv s" "unlocked (cache_of s)" and ab: "a \<noteq> b" "a < FSSIZE" "b < FSSIZE"
    and room: "card (c_dirty (cache_of s)) < NBUF" "a \<in> c_dirty (cache_of s)"
  obtains s' where "bind (bread ROOTDEV b) (\<lambda>to. bind (bread ROOTDEV a) (\<lambda>from.
       seq (copy_block to from) (seq (bwrite to) (seq (brelse from) (brelse to))))) s = Ok () s'"
    "bio_inv s'" "log_frame s s'" "cache_of s' = cwrite b (c_blk (cache_of s) a) (cache_of s)"
proof -
  let ?c = "cache_of s"
  let ?k = "\<lambda>to from. seq (copy_block to from) (seq (bwrite to) (seq (brelse from) (brelse to))) :: (unit, 'a bio_st_scheme) kop"
  obtain i j t where r: "bind (bread ROOTDEV b) (\<lambda>i. bind (bread ROOTDEV a) (\<lambda>j. ?k i j)) s = ?k i j t"
    and t: "bio_inv t" "log_frame s t" "i \<noteq> j" "cache_of t = ?c\<lparr>c_lock := [i \<mapsto> b, j \<mapsto> a]\<rparr>"
    by (rule read_two [OF inv ab(1) [symmetric] ab(3,2), where k = ?k]) (use room in \<open>simp, simp, elim that\<close>)
  have lock: "c_lock (cache_of t) = [j \<mapsto> a, i \<mapsto> b]" using t(3) by (simp add: t(4) fun_upd_twist)
  have ji: "j \<noteq> i" using t(3) by simp
  obtain u where u: "seq (copy_block i j) (bwrite i) t = Ok () u" "bio_inv u" "log_frame t u"
    "cache_of u = cwrite b (c_blk (cache_of t) a) (cache_of t)"
    by (rule copy_write [OF t(1) lock ji ab(1)]) (rule that)
  have lu: "c_lock (cache_of u) = [j \<mapsto> a, i \<mapsto> b]" unfolding u(4) using lock by (simp add: cwrite_def)
  have "clean (cache_of u) a" "clean (cache_of u) b"
    unfolding u(4) t(4) using room(2) ab(1) by (simp_all add: clean_def cwrite_def)
  then obtain v where v: "seq (brelse j) (brelse i) u = Ok () v" "bio_inv v" "log_frame u v"
    "cache_of v = (cache_of u)\<lparr>c_lock := (\<lambda>_. None)\<rparr>"
    by (rule release_two [OF u(2) lu ji]) (rule that)
  have "cache_of v = cwrite b (c_blk ?c a) ?c"
    unfolding v(4) u(4) t(4) using inv(2) by (simp add: cwrite_def unlocked_def)
  moreover have "?k i j t = Ok () v" using u(1) v(1) unfolding seq_Ok_iff by blast
  moreover have "log_frame s v" using t(2) u(3) v(3) by (blast intro: log_frame_trans)
  ultimately show thesis using r v(2) by (intro that [of v]) simp_all
qed

lemma install_body:
  fixes s :: "'a bio_st_scheme"
  assumes inv: "bio_inv s" "unlocked (cache_of s)" and ab: "a \<noteq> b" "a < FSSIZE" "b < FSSIZE"
    and room: "card (c_dirty (cache_of s)) < NBUF" "card (insert a (c_dirty (cache_of s))) < NBUF \<or> b \<in> c_dirty (cache_of s)"
    and clean: "clean (cache_of s) a"
  obtains s' where "bind (bread ROOTDEV a) (\<lambda>lbuf. bind (bread ROOTDEV b) (\<lambda>dbuf.
       seq (copy_block dbuf lbuf) (seq (bwrite dbuf) (seq (brelse lbuf) (brelse dbuf))))) s = Ok () s'"
    "bio_inv s'" "log_frame s s'" "cache_of s' = cwrite b (c_blk (cache_of s) a) (cache_of s)"
proof -
  let ?c = "cache_of s"
  let ?k = "\<lambda>lbuf dbuf. seq (copy_block dbuf lbuf) (seq (bwrite dbuf) (seq (brelse lbuf) (brelse dbuf))) :: (unit, 'a bio_st_scheme) kop"
  obtain i j t where r: "bind (bread ROOTDEV a) (\<lambda>i. bind (bread ROOTDEV b) (\<lambda>j. ?k i j)) s = ?k i j t"
    and t: "bio_inv t" "log_frame s t" "i \<noteq> j" "cache_of t = ?c\<lparr>c_lock := [i \<mapsto> a, j \<mapsto> b]\<rparr>"
    by (rule read_two [OF inv ab, where k = ?k]) (use room in \<open>simp, simp, elim that\<close>)
  have lock: "c_lock (cache_of t) = [i \<mapsto> a, j \<mapsto> b]" by (simp add: t(4))
  obtain u where u: "seq (copy_block j i) (bwrite j) t = Ok () u" "bio_inv u" "log_frame t u"
    "cache_of u = cwrite b (c_blk (cache_of t) a) (cache_of t)"
    by (rule copy_write [OF t(1) lock t(3) ab(1)]) (rule that)
  have lu: "c_lock (cache_of u) = [i \<mapsto> a, j \<mapsto> b]" unfolding u(4) using lock by (simp add: cwrite_def)
  have "clean (cache_of u) a" "clean (cache_of u) b"
    unfolding u(4) t(4) using clean ab(1) by (auto simp: clean_def cwrite_def)
  then obtain v where v: "seq (brelse i) (brelse j) u = Ok () v" "bio_inv v" "log_frame u v"
    "cache_of v = (cache_of u)\<lparr>c_lock := (\<lambda>_. None)\<rparr>"
    by (rule release_two [OF u(2) lu t(3)]) (rule that)
  have "cache_of v = cwrite b (c_blk ?c a) ?c"
    unfolding v(4) u(4) t(4) using inv(2) by (simp add: cwrite_def unlocked_def)
  moreover have "?k i j t = Ok () v" using u(1) v(1) unfolding seq_Ok_iff by blast
  moreover have "log_frame s v" using t(2) u(3) v(3) by (blast intro: log_frame_trans)
  ultimately show thesis using r v(2) by (intro that [of v]) simp_all
qed

text \<open>The loops of \<open>write_log\<close> and \<open>install_trans\<close>, on the abstract cache.\<close>

primrec log_copy :: "logrec \<Rightarrow> nat \<Rightarrow> cache \<Rightarrow> cache" where
  "log_copy lg 0 c = c"
| "log_copy lg (Suc i) c = (let c = log_copy lg i c in cwrite (start lg + i + 1) (c_blk c (lh_block lg i)) c)"

primrec log_install :: "logrec \<Rightarrow> nat \<Rightarrow> cache \<Rightarrow> cache" where
  "log_install lg 0 c = c"
| "log_install lg (Suc i) c = (let c = log_install lg i c in cwrite (lh_block lg i) (c_blk c (start lg + i + 1)) c)"

text \<open>The blocks outside the log area, and a header of \<open>n\<close> distinct ones of them.\<close>

definition home :: "logrec \<Rightarrow> nat \<Rightarrow> bool" where
  "home lg b \<longleftrightarrow> b \<notin> {start lg..<start lg + LOGSIZE}"

definition good_log :: "logrec \<Rightarrow> nat \<Rightarrow> bool" where
  "good_log lg n \<longleftrightarrow> ldev lg = ROOTDEV \<and> start lg + n < FSSIZE \<and> n < LOGSIZE
     \<and> (\<forall>i < n. lh_block lg i < FSSIZE \<and> home lg (lh_block lg i)) \<and> inj_on (lh_block lg) {..<n}"

lemma good_logD:
  assumes "good_log lg n" "i < n" "j < n"
  shows "lh_block lg i \<noteq> start lg + j + 1" "lh_block lg i \<noteq> start lg" "lh_block lg i < FSSIZE" "start lg + j + 1 < FSSIZE"
    "lh_block lg i = lh_block lg j \<longleftrightarrow> i = j"
  using assms by (auto simp: good_log_def inj_on_def home_def)

lemma good_log_home:
  "good_log lg n \<Longrightarrow> i < n \<Longrightarrow> home lg (lh_block lg i)" "good_log lg n \<Longrightarrow> i < n \<Longrightarrow> \<not> home lg (start lg + i + 1)"
  "\<not> home lg (start lg)"
  by (auto simp: good_log_def home_def)

lemma cwrite_simps [simp]:
  "c_blk (cwrite n x c) = (c_blk c)(n := x)" "c_disk (cwrite n x c) = (c_disk c)(n := x)"
  "c_dirty (cwrite n x c) = c_dirty c - {n}" "c_lock (cwrite n x c) = c_lock c"
  "c_trace (cwrite n x c) = c_trace c @ [(n, x)]"
  by (simp_all add: cwrite_def)

lemma log_copy_dirty: "\<forall>j < k. start lg + j + 1 \<notin> c_dirty c \<Longrightarrow> c_dirty (log_copy lg k c) = c_dirty c"
  by (induction k) (simp_all add: Let_def less_Suc_eq)

lemma log_copy_lock [simp]: "c_lock (log_copy lg k c) = c_lock c"
  by (induction k) (simp_all add: Let_def)

lemma log_copy_other:
  "\<forall>j < k. b \<noteq> start lg + j + 1 \<Longrightarrow> c_blk (log_copy lg k c) b = c_blk c b \<and> c_disk (log_copy lg k c) b = c_disk c b"
  by (induction k) (simp_all add: Let_def less_Suc_eq)

lemma log_copy_home:
  "good_log lg n \<Longrightarrow> k \<le> n \<Longrightarrow> i < n \<Longrightarrow> c_blk (log_copy lg k c) (lh_block lg i) = c_blk c (lh_block lg i)"
  using log_copy_other [of k "lh_block lg i" lg c] good_logD(1) [of lg n i] by simp

lemma log_copy_log:
  assumes "good_log lg n" "k \<le> n" "j < k"
  shows "c_blk (log_copy lg k c) (start lg + j + 1) = c_blk c (lh_block lg j)
       \<and> c_disk (log_copy lg k c) (start lg + j + 1) = c_blk c (lh_block lg j)"
  using assms(2,3)
proof (induction k)
  case (Suc k)
  then show ?case using log_copy_home [OF assms(1), of k k c] by (cases "j = k") (simp_all add: Let_def)
qed simp

lemma log_copy_trace:
  assumes "good_log lg n" "k \<le> n"
  shows "c_trace (log_copy lg k c) = c_trace c @ map (\<lambda>i. (start lg + i + 1, c_blk c (lh_block lg i))) [0..<k]"
  using assms(2)
proof (induction k)
  case (Suc k)
  then show ?case using log_copy_home [OF assms(1), of k k c] by (simp add: Let_def)
qed simp

lemma log_install_dirty: "c_dirty (log_install lg k c) = c_dirty c - lh_block lg ` {..<k}"
  by (induction k) (auto simp: Let_def lessThan_Suc)

lemma log_install_lock [simp]: "c_lock (log_install lg k c) = c_lock c"
  by (induction k) (simp_all add: Let_def)

lemma log_install_other:
  "\<forall>j < k. b \<noteq> lh_block lg j \<Longrightarrow> c_blk (log_install lg k c) b = c_blk c b \<and> c_disk (log_install lg k c) b = c_disk c b"
  by (induction k) (simp_all add: Let_def less_Suc_eq)

lemma log_install_log:
  assumes "good_log lg n" "k \<le> n" "i < n"
  shows "c_blk (log_install lg k c) (start lg + i + 1) = c_blk c (start lg + i + 1)
    \<and> c_disk (log_install lg k c) (start lg + i + 1) = c_disk c (start lg + i + 1)"
proof -
  have "start lg + i + 1 \<noteq> lh_block lg j" if "j < k" for j
    using good_logD(1) [OF assms(1), of j i] assms that by auto
  then show ?thesis using log_install_other [of k "start lg + i + 1" lg c] by simp
qed

lemma log_install_home:
  assumes "good_log lg n" "k \<le> n" "j < k"
  shows "c_blk (log_install lg k c) (lh_block lg j) = c_blk c (start lg + j + 1)
       \<and> c_disk (log_install lg k c) (lh_block lg j) = c_blk c (start lg + j + 1)"
  using assms(2,3)
proof (induction k)
  case (Suc k)
  then show ?case
    using log_install_log [OF assms(1), of k k c] good_logD(5) [OF assms(1), of j k]
    by (cases "j = k") (simp_all add: Let_def)
qed simp

lemma log_install_trace:
  assumes "good_log lg n" "k \<le> n"
  shows "c_trace (log_install lg k c) = c_trace c @ map (\<lambda>i. (lh_block lg i, c_blk c (start lg + i + 1))) [0..<k]"
  using assms(2)
proof (induction k)
  case (Suc k)
  then show ?case using log_install_log [OF assms(1), of k k c] by (simp add: Let_def)
qed simp

text \<open>The code runs these loops.\<close>

lemma wp_write_log:
  fixes s :: "'a log_st_scheme"
  assumes inv: "bio_inv s" "unlocked (cache_of s)" and lg: "log s = lg" "good_log lg n" "lh_n lg = int n"
    and dirty: "\<forall>i < n. lh_block lg i \<in> c_dirty (cache_of s) \<and> start lg + i + 1 \<notin> c_dirty (cache_of s)"
    and room: "card (c_dirty (cache_of s)) < NBUF"
    and Q: "\<And>s'. \<lbrakk>bio_inv s'; log_frame s s'; cache_of s' = log_copy lg n (cache_of s)\<rbrakk> \<Longrightarrow> Q () s'"
  shows "wp write_log Q s"
proof -
  let ?I = "\<lambda>k (s' :: 'a log_st_scheme). bio_inv s' \<and> log_frame s s' \<and> cache_of s' = log_copy lg k (cache_of s)"
  let ?body = "\<lambda>tail. bind (bread (ldev lg) (start lg + tail + 1)) (\<lambda>to. bind (bread (ldev lg) (lh_block lg tail)) (\<lambda>from.
       seq (copy_block to from) (seq (bwrite to) (seq (brelse from) (brelse to))))) :: (unit, 'a log_st_scheme) kop"
  have "wp (foreach [0..<n] ?body) (\<lambda>_. ?I n) s"
  proof (rule wp_foreach_upt)
    show "?I 0 s" using inv by simp
    fix k s'
    assume k: "k < n" and I: "?I k s'"
    have c: "c_dirty (cache_of s') = c_dirty (cache_of s)" "unlocked (cache_of s')"
      using I k dirty inv(2) by (auto simp: log_copy_dirty unlocked_def)
    obtain t where "bind (bread ROOTDEV (start lg + k + 1)) (\<lambda>to. bind (bread ROOTDEV (lh_block lg k)) (\<lambda>from.
       seq (copy_block to from) (seq (bwrite to) (seq (brelse from) (brelse to))))) s' = Ok () t"
      and t: "bio_inv t" "log_frame s' t" "cache_of t = cwrite (start lg + k + 1) (c_blk (cache_of s') (lh_block lg k)) (cache_of s')"
      by (rule write_log_body [of s' "lh_block lg k" "start lg + k + 1"])
        (use I c k dirty room good_logD(1,3,4) [OF lg(2) k k] in \<open>auto intro: that\<close>)
    moreover have "ldev lg = ROOTDEV" using lg(2) by (simp add: good_log_def)
    ultimately have "?body k s' = Ok () t" by simp
    moreover have "?I (Suc k) t"
      using t I by (auto simp: Let_def intro: log_frame_trans)
    ultimately show "wp (?body k) (\<lambda>_. ?I (Suc k)) s'" by (simp add: wp_def)
  qed
  then show ?thesis
    unfolding write_log_def using lg by (auto elim!: wp_mono intro!: Q)
qed
lemma wp_install_trans:
  fixes s :: "'a log_st_scheme"
  assumes inv: "bio_inv s" "unlocked (cache_of s)" and lg: "log s = lg" "good_log lg n" "lh_n lg = int n"
    and dirty: "(\<forall>i < n. lh_block lg i \<in> c_dirty (cache_of s)) \<or> c_dirty (cache_of s) = {}"
    and fin: "finite (c_dirty (cache_of s))"
    and room: "card (c_dirty (cache_of s)) < NBUF"
    and clean: "\<forall>i < n. c_blk (cache_of s) (start lg + i + 1) = c_disk (cache_of s) (start lg + i + 1)"
    and Q: "\<And>s'. \<lbrakk>bio_inv s'; log_frame s s'; cache_of s' = log_install lg n (cache_of s)\<rbrakk> \<Longrightarrow> Q () s'"
  shows "wp install_trans Q s"
proof -
  let ?I = "\<lambda>k (s' :: 'a log_st_scheme). bio_inv s' \<and> log_frame s s' \<and> cache_of s' = log_install lg k (cache_of s)"
  let ?body = "\<lambda>tail. bind (bread (ldev lg) (start lg + tail + 1)) (\<lambda>lbuf. bind (bread (ldev lg) (lh_block lg tail)) (\<lambda>dbuf.
       seq (copy_block dbuf lbuf) (seq (bwrite dbuf) (seq (brelse lbuf) (brelse dbuf))))) :: (unit, 'a log_st_scheme) kop"
  have "wp (foreach [0..<n] ?body) (\<lambda>_. ?I n) s"
  proof (rule wp_foreach_upt)
    show "?I 0 s" using inv by simp
    fix k s'
    assume k: "k < n" and I: "?I k s'"
    have d: "c_dirty (cache_of s') = c_dirty (cache_of s) - lh_block lg ` {..<k}" and u: "unlocked (cache_of s')"
      using I inv(2) by (auto simp: log_install_dirty unlocked_def)
    have r1: "card (c_dirty (cache_of s')) < NBUF"
      using d room fin by (metis card_mono Diff_subset le_less_trans)
    have r2: "card (insert (start lg + k + 1) (c_dirty (cache_of s'))) < NBUF \<or> lh_block lg k \<in> c_dirty (cache_of s')"
    proof (cases "c_dirty (cache_of s) = {}")
      case False
      have "lh_block lg k \<noteq> lh_block lg x" if "x < k" for x using good_logD(5) [OF lg(2) k, of x] that k by simp
      then have "lh_block lg k \<notin> lh_block lg ` {..<k}" by auto
      then show ?thesis using d dirty False k by auto
    qed (use d in simp)
    have cl: "clean (cache_of s') (start lg + k + 1)"
      using I log_install_log [OF lg(2), of k k "cache_of s"] k clean by (simp add: clean_def)
    obtain t where "bind (bread ROOTDEV (start lg + k + 1)) (\<lambda>lbuf. bind (bread ROOTDEV (lh_block lg k)) (\<lambda>dbuf.
       seq (copy_block dbuf lbuf) (seq (bwrite dbuf) (seq (brelse lbuf) (brelse dbuf))))) s' = Ok () t"
      and t: "bio_inv t" "log_frame s' t" "cache_of t = cwrite (lh_block lg k) (c_blk (cache_of s') (start lg + k + 1)) (cache_of s')"
      by (rule install_body [of s' "start lg + k + 1" "lh_block lg k"])
        (use I u r1 r2 cl good_logD(1,3,4) [OF lg(2) k k] in \<open>auto intro: that\<close>)
    moreover have "ldev lg = ROOTDEV" using lg(2) by (simp add: good_log_def)
    ultimately have "?body k s' = Ok () t" by simp
    moreover have "?I (Suc k) t"
      using t I by (auto simp: Let_def intro: log_frame_trans)
    ultimately show "wp (?body k) (\<lambda>_. ?I (Suc k)) s'" by (simp add: wp_def)
  qed
  then show ?thesis
    unfolding install_trans_def using lg by (auto elim!: wp_mono intro!: Q)
qed

lemma read_one:
  fixes s :: "'a bio_st_scheme"
  assumes inv: "bio_inv s" "unlocked (cache_of s)" "x < FSSIZE" "card (c_dirty (cache_of s)) < NBUF"
  obtains i s' where "bread ROOTDEV x s = Ok i s'"
    "bio_inv s'" "log_frame s s'" "cache_of s' = (cache_of s)\<lparr>c_lock := [i \<mapsto> x]\<rparr>"
proof -
  have l: "c_lock (cache_of s) = (\<lambda>_. None)" using inv(2) by (simp add: unlocked_def)
  have 1: "x \<notin> ran (c_lock (cache_of s))" "room (cache_of s) \<or> x \<in> c_dirty (cache_of s)"
    using inv(4) by (simp_all add: l room_def)
  obtain i t where t: "bread ROOTDEV x s = Ok i t" "bio_inv t" "cache_of t = (cache_of s)\<lparr>c_lock := (c_lock (cache_of s))(i \<mapsto> x)\<rparr>"
    "same_thread s t" "bio_st.more t = bio_st.more s" "\<And>l. (\<forall>j. l \<noteq> SL_buf j) \<Longrightarrow> slocks t l = slocks s l"
    by (rule bread_spec [OF inv(1) 1(1) inv(3) 1(2)]) (rule that)
  have "cache_of t = (cache_of s)\<lparr>c_lock := [i \<mapsto> x]\<rparr>" unfolding t(3) l by simp
  with t show thesis by (intro that [of i t]) (auto intro: log_frameI)
qed

lemma release_one:
  fixes s :: "'a bio_st_scheme"
  assumes inv: "bio_inv s" "c_lock (cache_of s) = [i \<mapsto> x]" "clean (cache_of s) x"
  obtains s' where "brelse i s = Ok () s'" "bio_inv s'" "log_frame s s'" "cache_of s' = (cache_of s)\<lparr>c_lock := (\<lambda>_. None)\<rparr>"
proof -
  have l: "c_lock (cache_of s) i = Some x" using inv(2) by simp
  obtain t where t: "brelse i s = Ok () t" "bio_inv t" "same_thread s t" "bio_st.more t = bio_st.more s"
    "\<And>l. (\<forall>j. l \<noteq> SL_buf j) \<Longrightarrow> slocks t l = slocks s l"
    "cache_of t = (cache_of s)\<lparr>c_lock := (c_lock (cache_of s))(i := None)\<rparr>"
    by (rule brelse_spec [OF inv(1) l inv(3) [unfolded clean_def]]) (rule that)
  have "cache_of t = (cache_of s)\<lparr>c_lock := (\<lambda>_. None)\<rparr>" unfolding t(6) inv(2) by simp
  with t show thesis by (intro that [of t]) (auto intro: log_frameI)
qed

lemma wp_write_head:
  fixes s :: "'a log_st_scheme"
  assumes inv: "bio_inv s" "unlocked (cache_of s)" and lg: "log s = lg" "ldev lg = ROOTDEV" "start lg < FSSIZE"
    and room: "card (c_dirty (cache_of s)) < NBUF"
    and Q: "\<And>s'. \<lbrakk>bio_inv s'; log_frame s s'; cache_of s' = cwrite (start lg) (put_head lg (c_blk (cache_of s) (start lg))) (cache_of s)\<rbrakk> \<Longrightarrow> Q () s'"
  shows "wp write_head Q s"
proof -
  let ?c = "cache_of s" and ?n = "start lg"
  obtain i t where t: "bread ROOTDEV ?n s = Ok i t" "bio_inv t" "log_frame s t" "cache_of t = ?c\<lparr>c_lock := [i \<mapsto> ?n]\<rparr>"
    by (rule read_one [OF inv lg(3) room]) (rule that)
  have li: "c_lock (cache_of t) i = Some ?n" by (simp add: t(4))
  define u where "u = upd_buf i (\<lambda>x. x\<lparr>data := put_head lg (data x)\<rparr>) t"
  have u: "bio_inv u" "cache_of u = (cache_of t)\<lparr>c_blk := (c_blk (cache_of t))(?n := put_head lg (c_blk (cache_of t) ?n))\<rparr>"
    unfolding u_def using bset_spec [OF t(2) li, of "put_head lg"] by simp_all
  have lu: "c_lock (cache_of u) i = Some ?n" using li by (simp add: u(2))
  obtain v where v: "bwrite i u = Ok () v" "bio_inv v" "same_thread u v" "bio_st.more v = bio_st.more u" "slocks v = slocks u"
    "cache_of v = (cache_of u)\<lparr>c_disk := (c_disk (cache_of u))(?n := c_blk (cache_of u) ?n),
       c_dirty := c_dirty (cache_of u) - {?n}, c_trace := c_trace (cache_of u) @ [(?n, c_blk (cache_of u) ?n)]\<rparr>"
    by (rule bwrite_spec [OF u(1) lu]) (rule that)
  have "c_lock (cache_of v) = [i \<mapsto> ?n]" "clean (cache_of v) ?n"
    unfolding v(6) u(2) t(4) by (simp_all add: clean_def)
  then obtain w where w: "brelse i v = Ok () w" "bio_inv w" "log_frame v w" "cache_of w = (cache_of v)\<lparr>c_lock := (\<lambda>_. None)\<rparr>"
    by (rule release_one [OF v(2)]) (rule that)
  have cw: "cache_of w = cwrite ?n (put_head lg (c_blk ?c ?n)) ?c"
    unfolding w(4) v(6) u(2) t(4) using inv(2) by (simp add: cwrite_def unlocked_def)
  have "log_frame t u" unfolding u_def by (rule upd_buf_frame)
  moreover have "log_frame u v" using v(3-5) by (simp add: log_frame_def)
  ultimately have fr: "log_frame s w" using t(3) w(3) by (blast intro: log_frame_trans)
  have "write_head s = Ok () w"
    using t(1) v(1) w(1) lg(1,2) by (simp add: write_head_def u_def)
  then show ?thesis using Q [OF w(2) fr cw] by (simp add: wp_def)
qed

section \<open>Commit\<close>

text \<open>
  The state in which a commit starts: every logged block is dirty in the cache and nothing else
  is; the log area is clean, the header on disk is empty, and a buffer is left to read the log
  through (at most NBUF - 1 blocks are logged).
\<close>

definition log_ready :: "logrec \<Rightarrow> nat \<Rightarrow> cache \<Rightarrow> bool" where
  "log_ready lg n c \<longleftrightarrow> good_log lg n \<and> lh_n lg = int n \<and> n < NBUF \<and> unlocked c
     \<and> c_dirty c = lh_block lg ` {..<n}
     \<and> (\<forall>b. b \<notin> c_dirty c \<longrightarrow> c_blk c b = c_disk c b) \<and> head_n (c_disk c (start lg)) = 0"

text \<open>The writes of a commit, in order: log blocks, header, home blocks, empty header.\<close>

definition commit_writes :: "logrec \<Rightarrow> nat \<Rightarrow> cache \<Rightarrow> (nat \<times> bytes) list" where
  "commit_writes lg n c =
     map (\<lambda>i. (start lg + i + 1, c_blk c (lh_block lg i))) [0..<n]
     @ [(start lg, put_head lg (c_disk c (start lg)))]
     @ map (\<lambda>i. (lh_block lg i, c_blk c (lh_block lg i))) [0..<n]
     @ [(start lg, put_head (lg\<lparr>lh_n := 0\<rparr>) (put_head lg (c_disk c (start lg))))]"

lemma log_readyD:
  assumes "log_ready lg n c"
  shows "good_log lg n" "lh_n lg = int n" "unlocked c" "finite (c_dirty c)" "card (c_dirty c) < NBUF" "ldev lg = ROOTDEV"
    "start lg < FSSIZE" "start lg \<notin> c_dirty c" "\<forall>i < n. lh_block lg i \<in> c_dirty c \<and> start lg + i + 1 \<notin> c_dirty c"
    "c_blk c (start lg) = c_disk c (start lg)"
proof -
  show g: "good_log lg n" "lh_n lg = int n" "unlocked c" using assms by (simp_all add: log_ready_def)
  then show "ldev lg = ROOTDEV" "start lg < FSSIZE" by (auto simp: good_log_def)
  have d: "c_dirty c = lh_block lg ` {..<n}" using assms by (simp add: log_ready_def)
  then show "finite (c_dirty c)" by simp
  have "card (c_dirty c) \<le> n" unfolding d using card_image_le [of "{..<n}" "lh_block lg"] by simp
  then show "card (c_dirty c) < NBUF" using assms by (simp add: log_ready_def)
  show "start lg \<notin> c_dirty c" using d good_logD(2) [OF g(1)] by fastforce
  then show "c_blk c (start lg) = c_disk c (start lg)" using assms by (auto simp: log_ready_def)
  show "\<forall>i < n. lh_block lg i \<in> c_dirty c \<and> start lg + i + 1 \<notin> c_dirty c"
    using d good_logD(1) [OF g(1)] by fastforce
qed

text \<open>What a commit does to the cache.\<close>

definition commit_cache :: "logrec \<Rightarrow> nat \<Rightarrow> cache \<Rightarrow> cache" where
  "commit_cache lg n c =
     (let c1 = log_copy lg n c;
          c2 = cwrite (start lg) (put_head lg (c_blk c1 (start lg))) c1;
          c3 = log_install lg n c2
      in cwrite (start lg) (put_head (lg\<lparr>lh_n := 0\<rparr>) (c_blk c3 (start lg))) c3)"

lemma upd_log_fields [simp]:
  "log (upd_log f s) = f (log s)" "slocks (upd_log f s) = slocks s" "log_st.more (upd_log f s) = log_st.more s"
  "held (upd_log f s) = held s" "curproc (upd_log f s) = curproc s" "ptable (upd_log f s) = ptable s" "bufs (upd_log f s) = bufs s"
  "disk (upd_log f s) = disk s" "wtrace (upd_log f s) = wtrace s" "initproc (upd_log f s) = initproc s"
  "nextpid (upd_log f s) = nextpid s" "ticks (upd_log f s) = ticks s" "idequeue (upd_log f s) = idequeue s"
  "havedisk1 (upd_log f s) = havedisk1 s" "status (upd_log f s) = status s"
  by (simp_all add: upd_log_def)

lemma upd_log_bio [simp]:
  "bring (upd_log f s) = bring s" "uniq_bufs (upd_log f s) = uniq_bufs s" "sl_mine (upd_log f s) l = sl_mine s l"
  "buf_inv (upd_log f s) i = buf_inv s i" "running (upd_log f s) p = running s p" "ide_ready (upd_log f s) = ide_ready s"
  "cached (upd_log f s) = cached s" "block_of (upd_log f s) = block_of s"
proof -
  show *: "sl_mine (upd_log f s) l = sl_mine s l" for l
    by (simp add: sl_mine_def split: option.split)
  show "buf_inv (upd_log f s) i = buf_inv s i" by (simp add: buf_inv_def *)
  show c: "cached (upd_log f s) = cached s" by (simp add: cached_def fun_eq_iff)
  show "block_of (upd_log f s) = block_of s" by (rule ext) (simp add: block_of_def c split: option.split)
qed (simp_all add: bring_def uniq_bufs_def running_def ide_ready_def fun_eq_iff)

lemma upd_log_simps [simp]:
  "bio_inv (upd_log f s) = bio_inv s" "cache_of (upd_log f s) = cache_of s" "same_thread s (upd_log f s)"
  by (simp_all add: bio_inv_def cache_of_def same_thread_def cong: if_cong)

text \<open>Besides the cache, only the log record has changed.\<close>

definition log_step :: "'a log_st_scheme \<Rightarrow> 'a log_st_scheme \<Rightarrow> bool" where
  "log_step s s' \<longleftrightarrow> same_thread s s' \<and> log_st.more s' = log_st.more s \<and> (\<forall>l. (\<forall>j. l \<noteq> SL_buf j) \<longrightarrow> slocks s' l = slocks s l)"

lemma log_step_refl [simp, intro]: "log_step s s"
  by (simp add: log_step_def)

lemma log_step_trans [trans]: "log_step s s' \<Longrightarrow> log_step s' s'' \<Longrightarrow> log_step s s''"
  by (auto simp: log_step_def intro: same_thread_trans)

lemma log_frame_step: "log_frame s s' \<Longrightarrow> log_step s s'"
  by (cases s, cases s') (simp add: log_frame_def log_step_def)

lemma upd_log_step: "log_step s (upd_log f s)"
  by (simp add: log_step_def)

lemma wp_commit:
  fixes s :: "'a log_st_scheme"
  assumes inv: "bio_inv s" and lg: "log s = lg" and rdy: "log_ready lg n (cache_of s)" and n: "0 < n"
    and Q: "\<And>s'. \<lbrakk>bio_inv s'; log s' = lg\<lparr>lh_n := 0\<rparr>; log_step s s'; cache_of s' = commit_cache lg n (cache_of s)\<rbrakk> \<Longrightarrow> Q () s'"
  shows "wp commit Q s"
proof -
  let ?c = "cache_of s"
  note R = log_readyD [OF rdy]
  define c1 where "c1 = log_copy lg n ?c"
  define c2 where "c2 = cwrite (start lg) (put_head lg (c_blk c1 (start lg))) c1"
  define c3 where "c3 = log_install lg n c2"
  have d1: "c_dirty c1 = c_dirty ?c" "unlocked c1" using R by (simp_all add: c1_def log_copy_dirty unlocked_def)
  have d2: "c_dirty c2 = c_dirty ?c" "unlocked c2" using d1 R(8) by (simp_all add: c2_def)
  have d3: "c_dirty c3 = {}" "unlocked c3"
    using d2 rdy by (auto simp: c3_def log_install_dirty unlocked_def log_ready_def)
  have clean: "c_blk c2 (start lg + i + 1) = c_disk c2 (start lg + i + 1)" if "i < n" for i
    using log_copy_log [OF R(1), of n i ?c] that by (simp add: c2_def c1_def)
  let ?rest = "seq (modify (upd_log (\<lambda>l. l\<lparr>lh_n := 0\<rparr>))) write_head :: (unit, 'a log_st_scheme) kop"
  have "wp write_log (\<lambda>_. wp write_head (\<lambda>_. wp install_trans (\<lambda>_. wp ?rest Q))) s"
  proof (rule wp_write_log [OF inv R(3) lg R(1,2,9,5)])
    fix s1 :: "'a log_st_scheme" assume 1: "bio_inv s1" "log_frame s s1" "cache_of s1 = log_copy lg n ?c"
    have l1: "log s1 = lg" using 1(2) lg by (simp add: log_frame_log)
    show "wp write_head (\<lambda>_. wp install_trans (\<lambda>_. wp ?rest Q)) s1"
    proof (rule wp_write_head [OF 1(1) _ l1 R(6,7)])
      show "unlocked (cache_of s1)" "card (c_dirty (cache_of s1)) < NBUF"
        using d1 R(5) by (simp_all add: 1(3) c1_def)
      fix s2 :: "'a log_st_scheme"
      assume 2: "bio_inv s2" "log_frame s1 s2"
        "cache_of s2 = cwrite (start lg) (put_head lg (c_blk (cache_of s1) (start lg))) (cache_of s1)"
      have c2: "cache_of s2 = c2" using 2(3) 1(3) by (simp add: c2_def c1_def)
      have l2: "log s2 = lg" using 2(2) l1 by (simp add: log_frame_log)
      show "wp install_trans (\<lambda>_. wp ?rest Q) s2"
      proof (rule wp_install_trans [OF 2(1) _ l2 R(1,2)])
        fix s3 :: "'a log_st_scheme"
        assume 3: "bio_inv s3" "log_frame s2 s3" "cache_of s3 = log_install lg n (cache_of s2)"
        let ?s = "upd_log (\<lambda>l. l\<lparr>lh_n := 0\<rparr>) s3"
        have l3: "log ?s = lg\<lparr>lh_n := 0\<rparr>" using 3(2) l2 by (simp add: log_frame_log)
        have c3: "cache_of ?s = c3" using 3(3) c2 by (simp add: c3_def)
        have "wp write_head Q ?s"
        proof (rule wp_write_head [OF _ _ l3])
          fix s4 :: "'a log_st_scheme"
          assume 4: "bio_inv s4" "log_frame ?s s4"
            "cache_of s4 = cwrite (start (lg\<lparr>lh_n := 0\<rparr>)) (put_head (lg\<lparr>lh_n := 0\<rparr>) (c_blk (cache_of ?s) (start (lg\<lparr>lh_n := 0\<rparr>)))) (cache_of ?s)"
          show "Q () s4"
          proof (rule Q [OF 4(1)])
            show "log s4 = lg\<lparr>lh_n := 0\<rparr>" using 4(2) l3 by (simp add: log_frame_log)
            have "log_step s s3"
              using log_frame_trans [OF log_frame_trans [OF 1(2) 2(2)] 3(2)] by (rule log_frame_step)
            also have "log_step s3 ?s" by (rule upd_log_step)
            also have "log_step ?s s4" using 4(2) by (rule log_frame_step)
            finally show "log_step s s4" .
            show "cache_of s4 = commit_cache lg n ?c"
              using 4(3) c3 by (simp add: commit_cache_def Let_def c3_def c2_def c1_def)
          qed
        qed (use 3(1) c3 d3 R in simp_all)
        then show "wp ?rest Q s3" by simp
      qed (use c2 d2 R clean in simp_all)
    qed
  qed
  then show ?thesis using R(2) n lg by (simp add: commit_def wp_seq_fun)
qed
section \<open>The header\<close>

lemma put_blocks_other: "i < 4 \<Longrightarrow> put_blocks f n d i = d i"
  by (induction n) auto

lemma put_blocks_count: "get32 (put_blocks f n d) 0 = get32 d 0"
  by (rule get32_cong) (simp add: put_blocks_other)

lemma put_blocks_block: "i < n \<Longrightarrow> get32 (put_blocks f n d) (4 + 4 * i) = of_nat (f i)"
proof (induction n)
  case (Suc n)
  show ?case
  proof (cases "i = n")
    case False
    then have "get32 (put32 (4 + 4 * n) (of_nat (f n)) (put_blocks f n d)) (4 + 4 * i) = get32 (put_blocks f n d) (4 + 4 * i)"
      using Suc.prems by (intro get32_put32_other) auto
    then show ?thesis using Suc False by simp
  qed simp
qed simp

lemma head_put_head:
  assumes "lh_n lg = int n" "n \<le> LOGSIZE"
  shows "head_n (put_head lg d) = int n"
    "i < n \<Longrightarrow> lh_block lg i < FSSIZE \<Longrightarrow> head_block (put_head lg d) i = lh_block lg i"
proof -
  have "sint (of_nat n :: u32) = int n" using assms(2) by (simp add: signed_of_nat signed_take_bit_int_eq_self)
  then show "head_n (put_head lg d) = int n"
    using assms by (simp add: head_n_def put_head_def put_blocks_count)
  show "head_block (put_head lg d) i = lh_block lg i" if "i < n" "lh_block lg i < FSSIZE"
    using that assms by (simp add: head_block_def put_head_def put_blocks_block)
qed

text \<open>The log record as \<open>read_head\<close> fills it from a header block.\<close>

definition read_log :: "logrec \<Rightarrow> bytes \<Rightarrow> logrec" where
  "read_log lg d = lg\<lparr>lh_n := head_n d, lh_block := (\<lambda>i. if i < nat (head_n d) then head_block d i else lh_block lg i)\<rparr>"

lemma read_log_simps [simp]:
  "start (read_log lg d) = start lg" "ldev (read_log lg d) = ldev lg" "lh_n (read_log lg d) = head_n d"
  by (simp_all add: read_log_def)

definition cold :: "cache \<Rightarrow> bool" where
  "cold c \<longleftrightarrow> unlocked c \<and> c_dirty c = {} \<and> c_blk c = c_disk c"

lemma wp_read_head:
  fixes s :: "'a log_st_scheme"
  assumes inv: "bio_inv s" "cold (cache_of s)" and lg: "log s = lg" "ldev lg = ROOTDEV" "start lg < FSSIZE"
    and hd: "head_n (c_disk (cache_of s) (start lg)) \<le> int LOGSIZE"
    and Q: "\<And>s'. \<lbrakk>bio_inv s'; log_step s s'; log s' = read_log lg (c_disk (cache_of s) (start lg)); cache_of s' = cache_of s\<rbrakk> \<Longrightarrow> Q () s'"
  shows "wp read_head Q s"
proof -
  let ?c = "cache_of s" and ?n = "start lg"
  define d where "d = c_disk ?c ?n"
  have c: "unlocked ?c" "card (c_dirty ?c) < NBUF" "c_blk ?c = c_disk ?c" using inv(2) by (auto simp: cold_def)
  obtain i t where t: "bread ROOTDEV ?n s = Ok i t" "bio_inv t" "log_frame s t" "cache_of t = ?c\<lparr>c_lock := [i \<mapsto> ?n]\<rparr>"
    by (rule read_one [OF inv(1) c(1) lg(3) c(2)]) (rule that)
  have di: "data (bufs t i) = d" using locked_buf(6) [OF t(2), of i ?n] c(3) by (simp add: t(4) d_def)
  have lt: "log t = lg" using t(3) lg(1) by (simp add: log_frame_log)
  let ?lg = "\<lambda>k. lg\<lparr>lh_n := head_n d, lh_block := (\<lambda>i. if i < k then head_block d i else lh_block lg i)\<rparr>"
  have fill: "foreach [0..<k] (\<lambda>i. if i \<ge> LOGSIZE then panic ''write past log.lh.block''
        else modify (upd_log (\<lambda>l. l\<lparr>lh_block := (lh_block l)(i := head_block d i)\<rparr>))) (upd_log (\<lambda>l. l\<lparr>lh_n := head_n d\<rparr>) t)
      = Ok () (upd_log (\<lambda>_. ?lg k) t)" if "k \<le> LOGSIZE" for k
  proof -
    let ?body = "\<lambda>i. if i \<ge> LOGSIZE then panic ''write past log.lh.block''
        else modify (upd_log (\<lambda>l. l\<lparr>lh_block := (lh_block l)(i := head_block d i)\<rparr>)) :: (unit, 'a log_st_scheme) kop"
    have "wp (foreach [0..<k] ?body) (\<lambda>_ s'. s' = upd_log (\<lambda>_. ?lg k) t) (upd_log (\<lambda>l. l\<lparr>lh_n := head_n d\<rparr>) t)"
    proof (rule wp_foreach_upt)
      show "upd_log (\<lambda>l. l\<lparr>lh_n := head_n d\<rparr>) t = upd_log (\<lambda>_. ?lg 0) t" using lt by (simp add: upd_log_def)
      fix j s' assume j: "j < k" and s': "s' = upd_log (\<lambda>_. ?lg j) t"
      show "wp (?body j) (\<lambda>_ s'. s' = upd_log (\<lambda>_. ?lg (Suc j)) t) s'"
        using j that by (auto simp: s' upd_log_def fun_eq_iff intro!: arg_cong [where f = "\<lambda>x. t\<lparr>log := x\<rparr>"])
    qed
    then show ?thesis by (auto simp: wp_Ok)
  qed
  let ?u = "upd_log (\<lambda>_. ?lg (nat (head_n d))) t"
  have "bio_inv ?u" "c_lock (cache_of ?u) = [i \<mapsto> ?n]" "clean (cache_of ?u) ?n"
    using t(2) c(3) by (simp_all add: t(4) clean_def)
  then obtain v where v: "brelse i ?u = Ok () v" "bio_inv v" "log_frame ?u v" "cache_of v = (cache_of ?u)\<lparr>c_lock := (\<lambda>_. None)\<rparr>"
    by (rule release_one) (rule that)
  have "nat (head_n d) \<le> LOGSIZE" using hd by (simp add: d_def)
  from fill [OF this] have "read_head s = Ok () v"
    using t(1) di v(1) lg(1,2) by (simp add: read_head_def cong: if_cong)
  moreover have "log v = read_log lg d" using v(3) by (simp add: log_frame_log read_log_def)
  moreover have "cache_of v = ?c" using v(4) c(1) by (simp add: t(4) unlocked_def)
  moreover have "log_step s v"
    using log_step_trans [OF log_frame_step [OF t(3)] log_step_trans [OF upd_log_step log_frame_step [OF v(3)]]] .
  ultimately show ?thesis using Q [OF v(2)] by (simp add: wp_def d_def)
qed

text \<open>Recovery on a cold cache: the committed blocks are installed and the header emptied.\<close>

definition recovered :: "logrec \<Rightarrow> cache \<Rightarrow> cache" where
  "recovered lg c =
     (let lg' = read_log lg (c_disk c (start lg));
          c' = log_install lg' (nat (lh_n lg')) c
      in cwrite (start lg) (put_head (lg'\<lparr>lh_n := 0\<rparr>) (c_blk c' (start lg))) c')"

lemma wp_recover:
  fixes s :: "'a log_st_scheme"
  assumes inv: "bio_inv s" "cold (cache_of s)" and lg: "log s = lg"
    and good: "good_log (read_log lg (c_disk (cache_of s) (start lg))) (nat (head_n (c_disk (cache_of s) (start lg))))"
      "0 \<le> head_n (c_disk (cache_of s) (start lg))"
    and Q: "\<And>s'. \<lbrakk>bio_inv s'; log_step s s'; cache_of s' = recovered lg (cache_of s)\<rbrakk> \<Longrightarrow> Q () s'"
  shows "wp recover_from_log Q s"
proof -
  let ?c = "cache_of s"
  define lg' where "lg' = read_log lg (c_disk ?c (start lg))"
  define n where "n = nat (head_n (c_disk ?c (start lg)))"
  have n: "lh_n lg' = int n" "good_log lg' n" using good by (simp_all add: n_def lg'_def)
  have g: "ldev lg = ROOTDEV" "start lg < FSSIZE" "head_n (c_disk ?c (start lg)) \<le> int LOGSIZE"
    using good by (auto simp: good_log_def)
  have c: "unlocked ?c" "c_dirty ?c = {}" "c_blk ?c = c_disk ?c" using inv(2) by (auto simp: cold_def)
  let ?rest = "seq (modify (upd_log (\<lambda>l. l\<lparr>lh_n := 0\<rparr>))) write_head :: (unit, 'a log_st_scheme) kop"
  have "wp read_head (\<lambda>_. wp install_trans (\<lambda>_. wp ?rest Q)) s"
  proof (rule wp_read_head [OF inv lg g])
    fix s1 :: "'a log_st_scheme"
    assume 1: "bio_inv s1" "log_step s s1" "log s1 = read_log lg (c_disk ?c (start lg))" "cache_of s1 = ?c"
    have l1: "log s1 = lg'" by (simp add: 1(3) lg'_def)
    show "wp install_trans (\<lambda>_. wp ?rest Q) s1"
    proof (rule wp_install_trans [OF 1(1) _ l1 n(2,1)])
      fix s2 :: "'a log_st_scheme"
      assume 2: "bio_inv s2" "log_frame s1 s2" "cache_of s2 = log_install lg' n (cache_of s1)"
      let ?s = "upd_log (\<lambda>l. l\<lparr>lh_n := 0\<rparr>) s2"
      have l2: "log ?s = lg'\<lparr>lh_n := 0\<rparr>" using 2(2) l1 by (simp add: log_frame_log)
      have c2: "cache_of ?s = log_install lg' n ?c" using 2(3) 1(4) by simp
      have "wp write_head Q ?s"
      proof (rule wp_write_head [OF _ _ l2])
        fix s3 :: "'a log_st_scheme"
        assume 3: "bio_inv s3" "log_frame ?s s3"
          "cache_of s3 = cwrite (start (lg'\<lparr>lh_n := 0\<rparr>)) (put_head (lg'\<lparr>lh_n := 0\<rparr>) (c_blk (cache_of ?s) (start (lg'\<lparr>lh_n := 0\<rparr>)))) (cache_of ?s)"
        show "Q () s3"
        proof (rule Q [OF 3(1)])
          show "log_step s s3"
            using log_step_trans [OF 1(2) log_step_trans [OF log_frame_step [OF 2(2)]
              log_step_trans [OF upd_log_step log_frame_step [OF 3(2)]]]] .
          show "cache_of s3 = recovered lg ?c"
            using 3(3) c2 n(1) by (simp add: recovered_def Let_def lg'_def n_def)
        qed
      qed (use 2(1) c2 c g in \<open>simp_all add: log_install_dirty unlocked_def lg'_def\<close>)
      then show "wp ?rest Q s2" by simp
    qed (use 1(4) c in simp_all)
  qed
  then show ?thesis by (simp add: recover_from_log_def wp_seq_fun)
qed
section \<open>Crashes\<close>

text \<open>The disk after a sequence of writes.\<close>

definition apply_writes :: "(nat \<times> bytes) list \<Rightarrow> (nat \<Rightarrow> bytes) \<Rightarrow> nat \<Rightarrow> bytes" where
  "apply_writes w = fold (\<lambda>(b, x) d. d(b := x)) w"

lemma apply_writes_simps [simp]:
  "apply_writes [] d = d" "apply_writes (p # w) d = apply_writes w (d(fst p := snd p))"
  "apply_writes (v @ w) d = apply_writes w (apply_writes v d)"
  by (simp_all add: apply_writes_def split_beta)

lemma apply_writes_map:
  "b \<notin> f ` set xs \<Longrightarrow> apply_writes (map (\<lambda>i. (f i, g i)) xs) d b = d b"
  "inj_on f (set xs) \<Longrightarrow> distinct xs \<Longrightarrow> i \<in> set xs \<Longrightarrow> apply_writes (map (\<lambda>i. (f i, g i)) xs) d (f i) = g i"
proof -
  show *: "b \<notin> f ` set xs \<Longrightarrow> apply_writes (map (\<lambda>i. (f i, g i)) xs) d b = d b" for b d xs
    by (induction xs arbitrary: d) auto
  show "inj_on f (set xs) \<Longrightarrow> distinct xs \<Longrightarrow> i \<in> set xs \<Longrightarrow> apply_writes (map (\<lambda>i. (f i, g i)) xs) d (f i) = g i"
  proof (induction xs arbitrary: d)
    case (Cons x xs)
    show ?case
    proof (cases "i = x")
      case True
      then have "f i \<notin> f ` set xs" using Cons.prems by (auto simp: inj_on_def)
      then show ?thesis using True * [of "f i" xs] by simp
    next
      case False
      then show ?thesis using Cons by auto
    qed
  qed simp
qed

lemma commit_cache_trace:
  assumes "log_ready lg n c"
  shows "c_trace (commit_cache lg n c) = c_trace c @ commit_writes lg n c"
proof -
  note R = log_readyD [OF assms]
  define c1 where "c1 = log_copy lg n c"
  define c2 where "c2 = cwrite (start lg) (put_head lg (c_blk c1 (start lg))) c1"
  have s1: "c_blk c1 (start lg) = c_disk c (start lg)"
    using log_copy_other [of n "start lg" lg c] R(10) by (simp add: c1_def)
  have 2: "c_blk c2 (start lg + i + 1) = c_blk c (lh_block lg i)" if "i < n" for i
    using log_copy_log [OF R(1) le_refl that, of c] by (simp add: c2_def c1_def)
  have s3: "c_blk (log_install lg n c2) (start lg) = put_head lg (c_disk c (start lg))"
  proof -
    have "\<forall>j < n. start lg \<noteq> lh_block lg j" using good_logD(2) [OF R(1)] by metis
    then show ?thesis using log_install_other [of n "start lg" lg c2] s1 by (simp add: c2_def)
  qed
  have "map (\<lambda>i. (lh_block lg i, c_blk c2 (start lg + i + 1))) [0..<n] = map (\<lambda>i. (lh_block lg i, c_blk c (lh_block lg i))) [0..<n]"
    using 2 by auto
  then have "c_trace (log_install lg n c2) = c_trace c2 @ map (\<lambda>i. (lh_block lg i, c_blk c (lh_block lg i))) [0..<n]"
    by (simp only: log_install_trace [OF R(1) le_refl])
  then show ?thesis
    using s1 s3 by (simp add: commit_cache_def Let_def commit_writes_def flip: c1_def, simp flip: c2_def)
       (simp add: c2_def c1_def log_copy_trace [OF R(1) le_refl])
qed

lemma recovered_empty:
  assumes "head_n (c_disk c (start lg)) = 0" "b \<noteq> start lg"
  shows "c_disk (recovered lg c) b = c_disk c b"
  using assms by (simp add: recovered_def Let_def)

lemma recovered_full:
  assumes g: "good_log lg n" "lh_n lg = int n" and st: "start lg' = start lg" and c: "c_blk c = c_disk c"
    and hd: "c_disk c (start lg) = put_head lg d"
    and log: "\<And>i. i < n \<Longrightarrow> c_disk c (start lg + i + 1) = new (lh_block lg i)"
    and rest: "\<And>b. home lg b \<Longrightarrow> b \<notin> lh_block lg ` {..<n} \<Longrightarrow> c_disk c b = new b" and b: "home lg b"
  shows "c_disk (recovered lg' c) b = new b"
proof -
  let ?r = "read_log lg' (c_disk c (start lg))"
  have n: "head_n (c_disk c (start lg)) = int n" "n \<le> LOGSIZE"
    using head_put_head(1) [OF g(2)] g(1) by (simp_all add: hd good_log_def)
  have blk: "lh_block ?r i = lh_block lg i" if "i < n" for i
    using head_put_head(2) [OF g(2) n(2) that] good_logD(3) [OF g(1) that that] that n(1) by (simp add: read_log_def hd)
  have im: "lh_block ?r ` {..<n} = lh_block lg ` {..<n}" using blk by (auto simp: image_iff)
  define c' where "c' = log_install ?r n c"
  have rec: "c_disk (recovered lg' c) b = c_disk c' b"
    using b n(1) st by (auto simp: recovered_def Let_def c'_def home_def)
  show ?thesis
  proof (cases "b \<in> lh_block lg ` {..<n}")
    case False
    then have "\<forall>j < n. b \<noteq> lh_block ?r j" using blk by auto
    then have "c_disk c' b = c_disk c b" using log_install_other [of n b ?r c] by (simp add: c'_def)
    then show ?thesis using rec rest [OF b False] by simp
  next
    case True
    then obtain i where i: "i < n" "b = lh_block lg i" by auto
    have "good_log (?r\<lparr>ldev := ROOTDEV\<rparr>) n"
      using g(1) blk st by (auto simp: good_log_def home_def inj_on_def)
    moreover have "log_install (?r\<lparr>ldev := ROOTDEV\<rparr>) k c = log_install ?r k c" for k by (induction k) simp_all
    ultimately have "c_disk c' (lh_block ?r i) = c_blk c (start ?r + i + 1)"
      using log_install_home [of "?r\<lparr>ldev := ROOTDEV\<rparr>" n n i c] i(1) by (simp add: c'_def)
    then show ?thesis using rec i log blk c st by simp
  qed
qed

text \<open>The disk when the machine stops after \<open>k\<close> of the writes of a commit.\<close>

definition crash_disk :: "logrec \<Rightarrow> nat \<Rightarrow> cache \<Rightarrow> nat \<Rightarrow> nat \<Rightarrow> bytes" where
  "crash_disk lg n c k = apply_writes (take k (commit_writes lg n c)) (c_disk c)"

lemma head_n_emptied: "head_n (put_head (lg\<lparr>lh_n := 0\<rparr>) d) = 0"
  by (simp add: put_head_def head_n_def)

lemma crash_before:
  assumes "log_ready lg n c" "k \<le> n"
  shows "head_n (crash_disk lg n c k (start lg)) = 0" "home lg b \<Longrightarrow> crash_disk lg n c k b = c_disk c b"
proof -
  note R = log_readyD [OF assms(1)]
  have w: "take k (commit_writes lg n c) = map (\<lambda>i. (start lg + i + 1, c_blk c (lh_block lg i))) [0..<k]"
    using assms(2) by (simp add: commit_writes_def take_map)
  have keep: "crash_disk lg n c k b = c_disk c b" if "\<forall>i < k. b \<noteq> start lg + i + 1" for b
    unfolding crash_disk_def w using that by (intro apply_writes_map(1)) auto
  moreover have "head_n (c_disk c (start lg)) = 0" using assms(1) by (simp add: log_ready_def)
  ultimately show "head_n (crash_disk lg n c k (start lg)) = 0" by simp
  assume "home lg b"
  then show "crash_disk lg n c k b = c_disk c b"
    using good_log_home(2) [OF R(1)] assms(2) by (intro keep) (metis less_le_trans)
qed

lemma crash_after:
  assumes "log_ready lg n c" "n < k" "k \<le> 2 * n + 1"
  shows "crash_disk lg n c k (start lg) = put_head lg (c_disk c (start lg))"
    "i < n \<Longrightarrow> crash_disk lg n c k (start lg + i + 1) = c_blk c (lh_block lg i)"
    "home lg b \<Longrightarrow> b \<notin> lh_block lg ` {..<n} \<Longrightarrow> crash_disk lg n c k b = c_disk c b"
proof -
  note R = log_readyD [OF assms(1)]
  let ?L = "\<lambda>i. start lg + i + 1" and ?N = "\<lambda>i. c_blk c (lh_block lg i)"
  define m where "m = k - n - 1"
  have m: "k = n + 1 + m" "m \<le> n" using assms(2,3) by (auto simp: m_def)
  have w: "take k (commit_writes lg n c) = map (\<lambda>i. (?L i, ?N i)) [0..<n] @ [(start lg, put_head lg (c_disk c (start lg)))]
      @ map (\<lambda>i. (lh_block lg i, ?N i)) [0..<m]"
    using m by (simp add: commit_writes_def take_map)
  have home: "apply_writes (map (\<lambda>i. (lh_block lg i, ?N i)) [0..<m]) d b = d b" if "\<not> home lg b \<or> b \<notin> lh_block lg ` {..<n}" for d b
    using that good_log_home(1) [OF R(1)] m(2) by (intro apply_writes_map(1)) (force simp: image_iff)
  have lg: "apply_writes (map (\<lambda>i. (?L i, ?N i)) [0..<n]) d b = d b" if "home lg b" for d b
    using that good_log_home(2) [OF R(1)] by (intro apply_writes_map(1)) (force simp: image_iff)
  show "crash_disk lg n c k (start lg) = put_head lg (c_disk c (start lg))"
    unfolding crash_disk_def w by (simp add: home good_log_home(3))
  show "crash_disk lg n c k (?L i) = ?N i" if "i < n"
    using that apply_writes_map(2) [of ?L "[0..<n]" i ?N] good_log_home(2) [OF R(1) that]
    unfolding crash_disk_def w by (simp add: home inj_on_def)
  show "crash_disk lg n c k b = c_disk c b" if "home lg b" "b \<notin> lh_block lg ` {..<n}"
    using that good_log_home(3) [of lg] lg [OF that(1)] unfolding crash_disk_def w by (auto simp: home)
qed

lemma crash_end:
  assumes "log_ready lg n c"
  shows "head_n (crash_disk lg n c (2 * n + 2) (start lg)) = 0" "home lg b \<Longrightarrow> crash_disk lg n c (2 * n + 2) b = c_blk c b"
proof -
  note R = log_readyD [OF assms]
  let ?D = "apply_writes (map (\<lambda>i. (start lg + i + 1, c_blk c (lh_block lg i))) [0..<n] @ [(start lg, put_head lg (c_disk c (start lg)))]) (c_disk c)"
  let ?M = "map (\<lambda>i. (lh_block lg i, c_blk c (lh_block lg i))) [0..<n]"
  have d: "crash_disk lg n c (2 * n + 2) =
      (apply_writes ?M ?D)(start lg := put_head (lg\<lparr>lh_n := 0\<rparr>) (put_head lg (c_disk c (start lg))))"
    by (simp add: crash_disk_def commit_writes_def)
  show "head_n (crash_disk lg n c (2 * n + 2) (start lg)) = 0" unfolding d by (simp add: head_n_emptied)
  assume b: "home lg b"
  then have s: "b \<noteq> start lg" using good_log_home(3) by metis
  show "crash_disk lg n c (2 * n + 2) b = c_blk c b"
  proof (cases "b \<in> lh_block lg ` {..<n}")
    case True
    then obtain i where i: "i < n" "b = lh_block lg i" by auto
    have "inj_on (lh_block lg) (set [0..<n])" using R(1) by (auto simp: good_log_def atLeast0LessThan)
    then have "apply_writes ?M ?D (lh_block lg i) = c_blk c (lh_block lg i)" using i(1) by (intro apply_writes_map(2)) auto
    then show ?thesis unfolding d using s i by simp
  next
    case False
    then have "apply_writes ?M ?D b = ?D b" by (intro apply_writes_map(1)) (auto simp: atLeast0LessThan)
    also have "\<dots> = c_disk c b"
    proof -
      have "b \<notin> (\<lambda>i. start lg + i + 1) ` set [0..<n]" using b good_log_home(2) [OF R(1)] by fastforce
      then show ?thesis using s by (simp add: apply_writes_map(1))
    qed
    also have "\<dots> = c_blk c b" using assms False by (auto simp: log_ready_def)
    finally show ?thesis unfolding d using s by simp
  qed
qed

text \<open>Whatever prefix of a commit reached the disk, recovery leaves the old blocks or the new ones.\<close>

lemma crash_recovered:
  assumes "log_ready lg n c" "k \<le> 2 * n + 2" "start lg' = start lg" "cold c'" "c_disk c' = crash_disk lg n c k" "home lg b"
  shows "c_disk (recovered lg' c') b = (if k \<le> n then c_disk c b else c_blk c b)"
proof -
  note R = log_readyD [OF assms(1)]
  have s: "b \<noteq> start lg" using assms(6) good_log_home(3) by metis
  have c': "c_blk c' = c_disk c'" using assms(4) by (simp add: cold_def)
  consider "k \<le> n" | "n < k" "k \<le> 2 * n + 1" | "k = 2 * n + 2" using assms(2) by linarith
  then show ?thesis
  proof cases
    case 1
    then show ?thesis
      using crash_before [OF assms(1) 1] recovered_empty [of c' lg' b] assms(3,5,6) s by simp
  next
    case 2
    note A = crash_after [OF assms(1) 2]
    have "c_disk (recovered lg' c') b = c_blk c b"
    proof (rule recovered_full [OF R(1,2) assms(3) c', of _ "c_blk c"])
      show "c_disk c' (start lg) = put_head lg (c_disk c (start lg))" using A(1) assms(5) by simp
      show "c_disk c' (start lg + i + 1) = c_blk c (lh_block lg i)" if "i < n" for i using A(2) [OF that] assms(5) by simp
      show "c_disk c' b = c_blk c b" if "home lg b" "b \<notin> lh_block lg ` {..<n}" for b
        using A(3) [OF that] that(2) assms(1,5) by (simp add: log_ready_def)
    qed (rule assms(6))
    with 2 show ?thesis by simp
  next
    case 3
    then show ?thesis
      using crash_end [OF assms(1)] recovered_empty [of c' lg' b] assms(3,5,6) s by simp
  qed
qed
lemma crash_keep:
  assumes "log_ready lg n c" "k \<le> 2 * n + 2" "home lg b" "b \<notin> lh_block lg ` {..<n}"
  shows "crash_disk lg n c k b = c_disk c b"
proof -
  have "c_blk c b = c_disk c b" using assms(1,4) by (simp add: log_ready_def)
  moreover consider "k \<le> n" | "n < k" "k \<le> 2 * n + 1" | "k = 2 * n + 2" using assms(2) by linarith
  then have "crash_disk lg n c k b = c_disk c b \<or> crash_disk lg n c k b = c_blk c b"
    using crash_before(2) [OF assms(1) _ assms(3), of k] crash_after(3) [OF assms(1) _ _ assms(3,4), of k]
      crash_end(2) [OF assms(1,3)] by cases auto
  ultimately show ?thesis by auto
qed

lemma crash_head_good:
  assumes "log_ready lg n c" "k \<le> 2 * n + 2" "start lg' = start lg" "ldev lg' = ROOTDEV"
  defines "d \<equiv> crash_disk lg n c k (start lg)"
  shows "good_log (read_log lg' d) (nat (head_n d)) \<and> 0 \<le> head_n d"
proof -
  note R = log_readyD [OF assms(1)]
  have empty: ?thesis if "head_n d = 0" using that assms(3,4) R(1,7) by (simp add: good_log_def)
  consider "k \<le> n" | "n < k" "k \<le> 2 * n + 1" | "k = 2 * n + 2" using assms(2) by linarith
  then show ?thesis
  proof cases
    case 1
    then show ?thesis using empty crash_before(1) [OF assms(1)] by (simp add: d_def)
  next
    case 2
    have d: "d = put_head lg (c_disk c (start lg))" using crash_after(1) [OF assms(1) 2] by (simp add: d_def)
    have n: "head_n d = int n" "n \<le> LOGSIZE" using head_put_head(1) [OF R(2)] R(1) by (simp_all add: d good_log_def)
    have "lh_block (read_log lg' d) i = lh_block lg i" if "i < n" for i
      using head_put_head(2) [OF R(2) n(2) that] good_logD(3) [OF R(1) that that] that n(1) by (simp add: read_log_def d)
    then show ?thesis using R(1) n assms(3,4) by (auto simp: good_log_def home_def inj_on_def)
  next
    case 3
    then show ?thesis using empty crash_end(1) [OF assms(1)] by (simp add: d_def)
  qed
qed

text \<open>The disk is what the recorded writes make of it.\<close>

definition traced :: "cache \<Rightarrow> cache \<Rightarrow> bool" where
  "traced c c' \<longleftrightarrow> (\<exists>w. c_trace c' = c_trace c @ w \<and> c_disk c' = apply_writes w (c_disk c))"

lemma traced_cwrite: "traced c c' \<Longrightarrow> traced c (cwrite n x c')"
  by (fastforce simp: traced_def)

lemma traced_commit: "traced c (commit_cache lg n c)"
proof -
  have "traced c c" by (simp add: traced_def)
  then have "traced c (log_copy lg k c)" for k by (induction k) (simp_all add: Let_def traced_cwrite)
  moreover have "traced c (log_install lg k c')" if "traced c c'" for k c'
    using that by (induction k) (simp_all add: Let_def traced_cwrite)
  ultimately show ?thesis by (simp add: commit_cache_def Let_def traced_cwrite)
qed

lemma recovered_synced: "c_blk c = c_disk c \<Longrightarrow> c_blk (recovered lg c) = c_disk (recovered lg c)"
proof -
  assume c: "c_blk c = c_disk c"
  have "c_blk (log_install lg k c) = c_disk (log_install lg k c)" for lg k
    by (induction k) (simp_all add: c Let_def)
  then show ?thesis by (simp add: recovered_def Let_def)
qed

text \<open>A kernel that has just booted on the disk \<open>d\<close>: its cache is empty.\<close>

definition booted :: "'a log_st_scheme \<Rightarrow> (nat \<Rightarrow> bytes) \<Rightarrow> bool" where
  "booted t d \<longleftrightarrow> bio_inv t \<and> cold (cache_of t) \<and> c_disk (cache_of t) = d"

lemma wp_initlog:
  fixes s :: "'a log_st_scheme"
  assumes boot: "booted s d" and sb: "sb_logstart (get_sb (d 1)) = st" "sb_nlog (get_sb (d 1)) = nl"
    and good: "\<And>lg. start lg = st \<Longrightarrow> ldev lg = ROOTDEV \<Longrightarrow> good_log (read_log lg (d st)) (nat (head_n (d st))) \<and> 0 \<le> head_n (d st)"
    and Q: "\<And>s' lg. \<lbrakk>bio_inv s'; log_step s s'; start lg = st; cache_of s' = recovered lg (cache_of s)\<rbrakk> \<Longrightarrow> Q () s'"
  shows "wp (initlog ROOTDEV) Q s"
proof -
  have b: "bio_inv s" "cold (cache_of s)" "c_disk (cache_of s) = d" using boot by (simp_all add: booted_def)
  then have c: "unlocked (cache_of s)" "card (c_dirty (cache_of s)) < NBUF" "c_blk (cache_of s) = d" by (auto simp: cold_def)
  obtain i t where t: "bread ROOTDEV 1 s = Ok i t" "bio_inv t" "log_frame s t" "cache_of t = (cache_of s)\<lparr>c_lock := [i \<mapsto> 1]\<rparr>"
    by (rule read_one [OF b(1) c(1) _ c(2), of 1]) (simp, rule that)
  have di: "data (bufs t i) = d 1" using locked_buf(6) [OF t(2), of i 1] c(3) by (simp add: t(4))
  have "c_lock (cache_of t) = [i \<mapsto> 1]" "clean (cache_of t) 1" using b(3) c(3) by (simp_all add: t(4) clean_def)
  then obtain u where u: "brelse i t = Ok () u" "bio_inv u" "log_frame t u" "cache_of u = (cache_of t)\<lparr>c_lock := (\<lambda>_. None)\<rparr>"
    by (rule release_one [OF t(2)]) (rule that)
  have cu: "cache_of u = cache_of s" using c(1) by (simp add: u(4) t(4) unlocked_def)
  let ?v = "upd_log (\<lambda>l. l\<lparr>start := st, lsize := sint (of_nat nl :: u32), ldev := ROOTDEV\<rparr>) u"
  have "readsb ROOTDEV s = Ok (get_sb (d 1)) u" using t(1) u(1) di by (simp add: readsb_def)
  then have "wp (initlog ROOTDEV) Q s = wp recover_from_log Q ?v" using sb by (simp add: initlog_def wp_def)
  moreover have "wp recover_from_log Q ?v"
  proof (rule wp_recover [OF _ _ refl])
    show "bio_inv ?v" "cold (cache_of ?v)" using u(2) b(2) cu by simp_all
    have "good_log (read_log (log ?v) (d st)) (nat (head_n (d st))) \<and> 0 \<le> head_n (d st)" by (rule good) simp_all
    then show "good_log (read_log (log ?v) (c_disk (cache_of ?v) (start (log ?v)))) (nat (head_n (c_disk (cache_of ?v) (start (log ?v)))))"
      "0 \<le> head_n (c_disk (cache_of ?v) (start (log ?v)))"
      using cu b(3) by simp_all
    fix s' :: "'a log_st_scheme" assume s': "bio_inv s'" "log_step ?v s'" "cache_of s' = recovered (log ?v) (cache_of ?v)"
    have "log_step s s'"
      using log_step_trans [OF log_frame_step [OF log_frame_trans [OF t(3) u(3)]] log_step_trans [OF upd_log_step s'(2)]] .
    then show "Q () s'" using s' cu by (intro Q [of s' "log ?v"]) simp_all
  qed
  ultimately show ?thesis by simp
qed

section \<open>Properties\<close>

text \<open>
  C1 Crash atomicity of a commit. From a state in which the logged blocks are dirty in the cache
  and the log on disk is empty, \<open>commit\<close> returns with every logged block installed. Let the machine
  stop after any number \<open>k\<close> of the disk writes the commit makes, and a fresh kernel boot on what is
  then on the disk: \<open>initlog\<close> returns, and all blocks outside the log area have their contents from
  before the transaction (if the header had not been written) or all have those of the transaction
  (once it had); there is no third outcome.
\<close>

theorem commit_crash_atomic:
  fixes s :: "'a log_st_scheme"
  assumes inv: "bio_inv s" and rdy: "log_ready (log s) n (cache_of s)" "0 < n"
    and sb: "sb_logstart (get_sb (c_disk (cache_of s) 1)) = start (log s)" "1 < start (log s)" "1 \<notin> lh_block (log s) ` {..<n}"
  shows "\<exists>s' w. commit s = Ok () s' \<and> bio_inv s' \<and> c_trace (cache_of s') = c_trace (cache_of s) @ w
    \<and> (\<forall>b. home (log s) b \<longrightarrow> c_disk (cache_of s') b = c_blk (cache_of s) b)
    \<and> (\<forall>k \<le> length w. \<forall>t :: 'a log_st_scheme. booted t (apply_writes (take k w) (c_disk (cache_of s))) \<longrightarrow>
        (\<exists>t'. initlog ROOTDEV t = Ok () t' \<and> bio_inv t'
          \<and> (\<forall>b. home (log s) b \<longrightarrow> c_blk (cache_of t') b = c_disk (cache_of t') b
               \<and> c_disk (cache_of t') b = (if k \<le> n then c_disk (cache_of s) b else c_blk (cache_of s) b))))"
proof -
  let ?lg = "log s" and ?c = "cache_of s"
  let ?w = "commit_writes ?lg n ?c"
  have len: "length ?w = 2 * n + 2" by (simp add: commit_writes_def)
  have "wp commit (\<lambda>_ s'. bio_inv s' \<and> cache_of s' = commit_cache ?lg n ?c) s"
    by (rule wp_commit [OF inv refl rdy]) simp
  then obtain s' where s': "commit s = Ok () s'" "bio_inv s'" "cache_of s' = commit_cache ?lg n ?c" by (auto simp: wp_Ok)
  have tr: "c_trace (cache_of s') = c_trace ?c @ ?w" using commit_cache_trace [OF rdy(1)] s'(3) by simp
  have fin: "c_disk (cache_of s') b = c_blk ?c b" if "home ?lg b" for b
  proof -
    have "c_disk (cache_of s') = apply_writes ?w (c_disk ?c)"
      using traced_commit [of ?c ?lg n] tr by (auto simp: traced_def s'(3))
    also have "\<dots> = crash_disk ?lg n ?c (2 * n + 2)" unfolding crash_disk_def using len by simp
    finally show ?thesis using crash_end(2) [OF rdy(1) that] by simp
  qed
  have rec: "\<exists>t'. initlog ROOTDEV t = Ok () t' \<and> bio_inv t'
      \<and> (\<forall>b. home ?lg b \<longrightarrow> c_blk (cache_of t') b = c_disk (cache_of t') b
           \<and> c_disk (cache_of t') b = (if k \<le> n then c_disk ?c b else c_blk ?c b))"
    if k: "k \<le> length ?w" and boot: "booted t (crash_disk ?lg n ?c k)" for k and t :: "'a log_st_scheme"
  proof -
    have k': "k \<le> 2 * n + 2" using k len by simp
    have d1: "crash_disk ?lg n ?c k 1 = c_disk ?c 1"
      using sb by (intro crash_keep [OF rdy(1) k']) (auto simp: home_def)
    have "wp (initlog ROOTDEV) (\<lambda>_ t'. bio_inv t' \<and> (\<exists>lg. start lg = start ?lg \<and> cache_of t' = recovered lg (cache_of t))) t"
      by (rule wp_initlog [OF boot _ refl]) (use d1 sb(1) crash_head_good [OF rdy(1) k'] in auto)
    then obtain t' lg where t': "initlog ROOTDEV t = Ok () t'" "bio_inv t'" "start lg = start ?lg" "cache_of t' = recovered lg (cache_of t)"
      by (auto simp: wp_Ok)
    have c: "cold (cache_of t)" "c_disk (cache_of t) = crash_disk ?lg n ?c k" using boot by (simp_all add: booted_def)
    then have "c_blk (cache_of t') = c_disk (cache_of t')" using recovered_synced t'(4) by (simp add: cold_def)
    moreover have "c_disk (cache_of t') b = (if k \<le> n then c_disk ?c b else c_blk ?c b)" if "home ?lg b" for b
      using crash_recovered [OF rdy(1) k' t'(3) c that] t'(4) by simp
    ultimately show ?thesis using t'(1,2) by auto
  qed
  show ?thesis
    using s'(1,2) tr fin rec unfolding crash_disk_def by blast
qed

text \<open>
  An example: a disk with a superblock (30 log blocks from block 2), and block 50 changed by the one
  logged operation.
\<close>

definition ex_disk :: "nat \<Rightarrow> bytes" where
  "ex_disk n = (if n = 1 then put32 16 2 (put32 12 30 (\<lambda>_. 0)) else (\<lambda>_. 0))"

definition ex_log :: logrec where
  "ex_log = \<lparr>start = 2, lsize = 30, outstanding = 1, committing = False, ldev = 1, lh_n = 1, lh_block = (\<lambda>_. 50)\<rparr>"

lemma ex_logged:
  fixes m :: 'a
  obtains t :: "'a log_st_scheme" where "bio_inv t" "log t = ex_log" "log_st.more t = m"
    "cache_of t = \<lparr>c_blk = ex_disk(50 := (\<lambda>_. 7)), c_lock = (\<lambda>_. None), c_dirty = {50}, c_disk = ex_disk, c_trace = []\<rparr>"
proof -
  obtain t :: "'a log_st_scheme" where t: "bio_inv t" "bio_st.more t = \<lparr>log = ex_log, \<dots> = m\<rparr>"
    "cache_of t = \<lparr>c_blk = ex_disk, c_lock = (\<lambda>_. None), c_dirty = {}, c_disk = ex_disk, c_trace = []\<rparr>" by (rule boot_cache)
  have pre: "50 \<notin> ran (c_lock (cache_of t))" "50 < FSSIZE" "room (cache_of t) \<or> 50 \<in> c_dirty (cache_of t)" by (simp_all add: t(3) room_def)
  obtain i u where u: "bio_inv u" "cache_of u = (cache_of t)\<lparr>c_lock := (c_lock (cache_of t))(i \<mapsto> 50)\<rparr>" "bio_st.more u = bio_st.more t"
    by (rule bread_spec [OF t(1) pre]) (rule that)
  let ?v = "upd_buf i (\<lambda>x. x\<lparr>dirty := True\<rparr>) (upd_buf i (\<lambda>x. x\<lparr>data := (\<lambda>_. \<lambda>_. 7) (data x)\<rparr>) u)"
  have i: "c_lock (cache_of u) i = Some 50" by (simp add: u(2))
  note b = bset_spec [OF u(1) i, of "\<lambda>_ _. 7"]
  have i2: "c_lock (cache_of (upd_buf i (\<lambda>x. x\<lparr>data := (\<lambda>_. \<lambda>_. 7) (data x)\<rparr>) u)) i = Some 50" using i by (simp add: b(2))
  note d = bdirty_spec [OF b(1) i2]
  have v: "cache_of ?v = \<lparr>c_blk = ex_disk(50 := (\<lambda>_. 7)), c_lock = [i \<mapsto> 50], c_dirty = {50}, c_disk = ex_disk, c_trace = []\<rparr>"
    unfolding d(2) b(2) u(2) t(3) by simp
  have c: "c_lock (cache_of ?v) i = Some 50" "50 \<in> c_dirty (cache_of ?v) \<or> c_blk (cache_of ?v) 50 = c_disk (cache_of ?v) 50" by (simp_all add: v)
  obtain w where w: "bio_inv w" "bio_st.more w = bio_st.more ?v" "cache_of w = (cache_of ?v)\<lparr>c_lock := (c_lock (cache_of ?v))(i := None)\<rparr>"
    by (rule brelse_spec [OF d(1) c]) (rule that)
  have m: "bio_st.more w = \<lparr>log = ex_log, \<dots> = m\<rparr>" using w(2) u(3) t(2) by (simp add: upd_buf_def)
  then have "log w = ex_log" "log_st.more w = m" by (cases w; simp)+
  then show thesis using w(1) by (intro that [of w]) (simp_all add: w(3) v)
qed

theorem commit_crash_atomic_witness:
  "\<exists>(s :: log_st) s' (t :: log_st) t'. commit s = Ok () s' \<and> c_disk (cache_of s) 50 0 = 0 \<and> c_disk (cache_of s') 50 0 = 7
     \<and> booted t (c_disk (cache_of s)) \<and> initlog ROOTDEV t = Ok () t' \<and> c_disk (cache_of t') 50 0 = 0"
proof -
  obtain s :: log_st where s: "bio_inv s" "log s = ex_log"
    "cache_of s = \<lparr>c_blk = ex_disk(50 := (\<lambda>_. 7)), c_lock = (\<lambda>_. None), c_dirty = {50}, c_disk = ex_disk, c_trace = []\<rparr>"
    by (rule ex_logged [of "()"]) (rule that)
  obtain t :: log_st where t: "bio_inv t" "bio_st.more t = \<lparr>log = ex_log, \<dots> = ()\<rparr>"
    "cache_of t = \<lparr>c_blk = ex_disk, c_lock = (\<lambda>_. None), c_dirty = {}, c_disk = ex_disk, c_trace = []\<rparr>" by (rule boot_cache)
  have b: "booted t (apply_writes (take 0 w) (c_disk (cache_of s)))" for w
    using t by (simp add: booted_def cold_def unlocked_def s(3) apply_writes_def)
  have h: "home (log s) 50" "head_n (ex_disk 2) = 0"  by (simp_all add: s(2) ex_log_def home_def head_n_def ex_disk_def get32_def)
  have r: "log_ready (log s) 1 (cache_of s)"
    using h by (auto simp: log_ready_def good_log_def s(2,3) ex_log_def unlocked_def inj_on_def)
  have sb: "sb_logstart (get_sb (ex_disk 1)) = 2"
    by (simp add: get_sb_def ex_disk_def get32_put32)
  have p: "(0::nat) < 1" "sb_logstart (get_sb (c_disk (cache_of s) 1)) = start (log s)" "1 < start (log s)" "1 \<notin> lh_block (log s) ` {..<1}"
    using sb by (auto simp: s(2,3) ex_log_def)
  obtain s' w where c: "commit s = Ok () s'" "\<forall>b. home (log s) b \<longrightarrow> c_disk (cache_of s') b = c_blk (cache_of s) b"
    "\<forall>k \<le> length w. \<forall>t :: log_st. booted t (apply_writes (take k w) (c_disk (cache_of s))) \<longrightarrow>
        (\<exists>t'. initlog ROOTDEV t = Ok () t' \<and> bio_inv t'
          \<and> (\<forall>b. home (log s) b \<longrightarrow> c_blk (cache_of t') b = c_disk (cache_of t') b
               \<and> c_disk (cache_of t') b = (if k \<le> 1 then c_disk (cache_of s) b else c_blk (cache_of s) b)))"
    using commit_crash_atomic [OF s(1) r p] by blast
  from c(3) b obtain t' where t': "initlog ROOTDEV t = Ok () t'" "c_disk (cache_of t') 50 = c_disk (cache_of s) 50"
    using h(1) by (metis le0)
  have "booted t (c_disk (cache_of s))" using b [of "[]"] by (simp add: apply_writes_def)
  moreover have "c_disk (cache_of s') 50 0 = 7" "c_disk (cache_of s) 50 0 = 0" "c_disk (cache_of t') 50 0 = 0"
    using c(2) h(1) t'(2) by (simp_all add: s(3) ex_disk_def)
  ultimately show ?thesis using c(1) t'(1) by blast
qed

end
