(* ===== verification/Txn.thy ===== *)
theory Txn
  imports Log
begin

text \<open>
  Transactions of the log layer (\<open>begin_op\<close>, \<open>log_write\<close>, \<open>end_op\<close> of src/log.c): what each call does
  to the cache, and that a transaction reaches the disk as a whole when its last operation ends.
\<close>

section \<open>What the buffer cache does not look at\<close>

definition same_bio :: "'a bio_st_scheme \<Rightarrow> 'b bio_st_scheme \<Rightarrow> bool" where
  "same_bio s t \<longleftrightarrow> held t = held s \<and> curproc t = curproc s
     \<and> (\<forall>p. curproc s = Some p \<longrightarrow> pid (ptable t p) = pid (ptable s p) \<and> (pstate (ptable s p) = RUNNING \<longrightarrow> pstate (ptable t p) = RUNNING))
     \<and> bufs t = bufs s \<and> idequeue t = idequeue s \<and> havedisk1 t = havedisk1 s \<and> status t = status s \<and> disk t = disk s
     \<and> wtrace t = wtrace s \<and> (\<forall>i. slocks t (SL_buf i) = slocks s (SL_buf i))"

lemma same_bio_inv:
  assumes "same_bio s t" "bio_inv s"
  shows "bio_inv t" "cache_of t = cache_of s"
proof -
  note S = assms(1) [unfolded same_bio_def]
  have m: "sl_mine t (SL_buf i) = sl_mine s (SL_buf i)" for i using S by (auto simp: sl_mine_def split: option.splits)
  have b: "buf_inv t i = buf_inv s i" for i using S m by (simp add: buf_inv_def Let_def)
  have "running t p" if "running s p" for p using S that by (simp add: running_def)
  then have r: "\<exists>p. running t p" using assms(2) by (auto simp: bio_inv_def)
  have e: "bring t = bring s" "uniq_bufs t = uniq_bufs s" "ide_ready t = ide_ready s" "held t = held s"
    using S by (simp_all add: bring_def [abs_def] uniq_bufs_def ide_ready_def)
  show "bio_inv t" using assms(2) r by (simp add: bio_inv_def b e)
  have c: "cached t n = cached s n" for n using S by (simp add: cached_def fun_eq_iff)
  have d: "bufs t = bufs s" "disk t = disk s" "wtrace t = wtrace s" "\<And>i. slocks t (SL_buf i) = slocks s (SL_buf i)" using S by simp_all
  have "block_of t = block_of s" by (rule ext) (simp add: block_of_def c d split: option.split)
  then show "cache_of t = cache_of s" by (simp add: cache_of_def d cong: if_cong)
qed

lemma same_bio_wake [simp, intro]:
  "same_bio s (s\<lparr>ptable := wake c (ptable s)\<rparr>)" "same_bio s (upd_log f s)"
  by (simp_all add: same_bio_def wake_def)

section \<open>The invariant of an open transaction\<close>

text \<open>
  As \<open>log_ready\<close>, except that the process may have blocks locked, whose contents may differ from
  the disk before they are logged.
\<close>

definition txn_inv :: "logrec \<Rightarrow> cache \<Rightarrow> bool" where
  "txn_inv lg c \<longleftrightarrow> good_log lg (nat (lh_n lg)) \<and> 0 \<le> lh_n lg
     \<and> c_dirty c = lh_block lg ` {..<nat (lh_n lg)}
     \<and> (\<forall>b. b \<notin> c_dirty c \<and> b \<notin> ran (c_lock c) \<longrightarrow> c_blk c b = c_disk c b)
     \<and> head_n (c_disk c (start lg)) = 0"

lemma txn_inv_ready: "txn_inv lg c \<Longrightarrow> unlocked c \<Longrightarrow> log_ready lg (nat (lh_n lg)) c"
  by (auto simp: txn_inv_def log_ready_def unlocked_def good_log_def)

declare log_slot.simps [simp del]

lemma log_slot_spec:
  "i \<le> n \<Longrightarrow> (\<forall>j < i. f j \<noteq> b) \<Longrightarrow> i \<le> log_slot f n b i \<and> log_slot f n b i \<le> n
     \<and> (log_slot f n b i < n \<longrightarrow> f (log_slot f n b i) = b) \<and> (\<forall>j < log_slot f n b i. f j \<noteq> b)"
proof (induction f n b i rule: log_slot.induct)
  case (1 f n b i)
  show ?case
  proof (cases "i < n \<and> f i \<noteq> b")
    case True
    then have "log_slot f n b i = log_slot f n b (Suc i)" by (subst log_slot.simps) simp
    moreover have "\<forall>j < Suc i. f j \<noteq> b" using 1(3) True by (auto simp: less_Suc_eq)
    ultimately show ?thesis using 1(1) True by auto
  next
    case False
    then have "log_slot f n b i = i" by (subst log_slot.simps) auto
    then show ?thesis using 1 False by auto
  qed
qed

text \<open>The header after logging block \<open>b\<close>.\<close>

definition log_add :: "nat \<Rightarrow> logrec \<Rightarrow> logrec" where
  "log_add b lg = (let i = log_slot (lh_block lg) (nat (lh_n lg)) b 0 in
     lg\<lparr>lh_block := (lh_block lg)(i := b), lh_n := (if int i = lh_n lg then lh_n lg + 1 else lh_n lg)\<rparr>)"

lemma log_add_fields [simp]:
  "start (log_add b lg) = start lg" "ldev (log_add b lg) = ldev lg" "lsize (log_add b lg) = lsize lg"
  "outstanding (log_add b lg) = outstanding lg" "committing (log_add b lg) = committing lg"
  by (simp_all add: log_add_def Let_def)

lemma log_add_blocks:
  assumes "good_log lg n" "lh_n lg = int n" "home lg b" "b < FSSIZE" "n < LOGSIZE - 1" "start lg + LOGSIZE < FSSIZE"
  defines "m \<equiv> (if b \<in> lh_block lg ` {..<n} then n else n + 1)"
  shows "lh_n (log_add b lg) = int m" "good_log (log_add b lg) m" "lh_block (log_add b lg) ` {..<m} = insert b (lh_block lg ` {..<n})"
proof -
  define i where "i = log_slot (lh_block lg) n b 0"
  have i: "i \<le> n" "i < n \<Longrightarrow> lh_block lg i = b" "\<forall>j < i. lh_block lg j \<noteq> b"
    using log_slot_spec [of 0 n "lh_block lg" b] by (simp_all add: i_def)
  have in_iff: "b \<in> lh_block lg ` {..<n} \<longleftrightarrow> i < n"
  proof
    assume "b \<in> lh_block lg ` {..<n}"
    then obtain j where "j < n" "lh_block lg j = b" by auto
    then show "i < n" using i(3) by (cases "j < i") auto
  qed (use i(2) in auto)
  have m: "m = (if i < n then n else n + 1)" using in_iff by (simp add: m_def)
  have add: "log_add b lg = lg\<lparr>lh_block := (lh_block lg)(i := b), lh_n := int m\<rparr>"
    using assms(2) i(1) by (auto simp: log_add_def Let_def i_def [symmetric] m)
  show "lh_n (log_add b lg) = int m" by (simp add: add)
  show "lh_block (log_add b lg) ` {..<m} = insert b (lh_block lg ` {..<n})"
    using i by (cases "i < n") (auto simp: add m lessThan_Suc image_iff)
  have inj: "inj_on (lh_block lg) {..<n}" using assms(1) by (simp add: good_log_def)
  have "inj_on ((lh_block lg)(i := b)) {..<m}"
  proof (cases "i < n")
    case True
    then have "(lh_block lg)(i := b) = lh_block lg" using i(2) by auto
    then show ?thesis using inj True by (simp add: m)
  next
    case False
    then have "i = n" using i(1) by simp
    then show ?thesis using inj in_iff by (auto simp: m inj_on_def lessThan_Suc image_iff)
  qed
  moreover have "((lh_block lg)(i := b)) j < FSSIZE \<and> home lg (((lh_block lg)(i := b)) j)" if "j < m" for j
  proof (cases "j = i")
    case False
    then have "j < n" using that i(1) by (auto simp: m split: if_splits)
    then show ?thesis using False assms(1) by (simp add: good_log_def)
  qed (use assms(3,4) in simp)
  moreover have "m < LOGSIZE" using assms(5) by (simp add: m)
  ultimately show "good_log (log_add b lg) m"
    using assms(1,6) by (simp add: good_log_def add home_def)
qed

section \<open>The calls\<close>

lemma log_write_eq:
  assumes "held s = []" "0 < outstanding (log s)" "lh_n (log s) < int LOGSIZE" "lh_n (log s) < lsize (log s) - 1"
  shows "log_write i s = Ok () (upd_log (log_add (blockno (bufs s i))) (upd_buf i (\<lambda>x. x\<lparr>dirty := True\<rparr>) s))"
  using assms
  by (auto simp: log_write_def acquire_def release_def upd_log_def upd_buf_def log_add_def Let_def intro!: log_st.equality)

lemma wp_log_write:
  fixes s :: "'a log_st_scheme"
  assumes inv: "bio_inv s" "txn_inv (log s) (cache_of s)" and i: "c_lock (cache_of s) i = Some b"
    and b: "home (log s) b" and st: "start (log s) + LOGSIZE < FSSIZE"
    and g: "0 < outstanding (log s)" "lh_n (log s) < lsize (log s) - 1" "lsize (log s) \<le> int LOGSIZE"
    and Q: "\<And>s'. \<lbrakk>bio_inv s'; log s' = log_add b (log s); txn_inv (log s') (cache_of s'); log_step s s'; slocks s' = slocks s;
       cache_of s' = (cache_of s)\<lparr>c_dirty := insert b (c_dirty (cache_of s))\<rparr>\<rbrakk> \<Longrightarrow> Q () s'"
  shows "wp (log_write i) Q s"
proof -
  let ?lg = "log s" and ?c = "cache_of s"
  define n where "n = nat (lh_n ?lg)"
  have n: "lh_n ?lg = int n" "good_log ?lg n" "n < LOGSIZE - 1" using inv(2) g by (auto simp: n_def txn_inv_def)
  note L = locked_buf [OF inv(1) i]
  let ?t = "upd_buf i (\<lambda>x. x\<lparr>dirty := True\<rparr>) s" and ?s = "upd_log (log_add b) (upd_buf i (\<lambda>x. x\<lparr>dirty := True\<rparr>) s)"
  have t: "bio_inv ?t" "cache_of ?t = ?c\<lparr>c_dirty := insert b (c_dirty ?c)\<rparr>" using bdirty_spec [OF inv(1) i] by simp_all
  have lt: "log ?t = ?lg" by (simp add: upd_buf_def)
  have "log_write i s = Ok () ?s"
    using log_write_eq [of s i] inv(1) g n L(4) by (simp add: bio_inv_def)
  moreover have "Q () ?s"
  proof (rule Q)
    show "bio_inv ?s" "log ?s = log_add b ?lg" "slocks ?s = slocks s" using t lt by simp_all
    show c: "cache_of ?s = ?c\<lparr>c_dirty := insert b (c_dirty ?c)\<rparr>" using t by simp
    show "log_step s ?s" using log_step_trans [OF log_frame_step [OF upd_buf_frame] upd_log_step] .
    define m where "m = (if b \<in> lh_block ?lg ` {..<n} then n else n + 1)"
    have A: "lh_n (log_add b ?lg) = int m" "good_log (log_add b ?lg) m" "lh_block (log_add b ?lg) ` {..<m} = insert b (lh_block ?lg ` {..<n})"
      using log_add_blocks [OF n(2,1) b L(5) _ st] n(3) by (simp_all add: m_def)
    have "m < NBUF" using n(3) by (simp add: m_def)
    then show "txn_inv (log ?s) (cache_of ?s)"
      using inv(2) A lt unfolding c txn_inv_def by (simp add: n_def)
  qed
  ultimately show ?thesis by (simp add: wp_def)
qed

text \<open>\<open>end_op\<close> of the last operation commits; of any other it only gives up its reservation.\<close>

lemma commit_cache_cong:
  assumes "start lg' = start lg" "lh_block lg' = lh_block lg" "lh_n lg' = lh_n lg"
  shows "commit_cache lg' n c = commit_cache lg n c"
proof -
  have "log_copy lg' k = log_copy lg k" "log_install lg' k = log_install lg k" for k
    using assms by (induction k) (rule ext, simp add: Let_def)+
  moreover have "put_head lg' = put_head lg" "put_head (lg'\<lparr>lh_n := 0\<rparr>) = put_head (lg\<lparr>lh_n := 0\<rparr>)"
    using assms by (simp_all add: put_head_def [abs_def])
  ultimately show ?thesis using assms by (simp add: commit_cache_def)
qed

lemma commit_cache_final:
  assumes "log_ready lg n c"
  shows "c_dirty (commit_cache lg n c) = {}" "c_lock (commit_cache lg n c) = c_lock c"
    "head_n (c_disk (commit_cache lg n c) (start lg)) = 0"
    "home lg b \<Longrightarrow> c_blk (commit_cache lg n c) b = c_blk c b \<and> c_disk (commit_cache lg n c) b = c_blk c b"
proof -
  note R = log_readyD [OF assms]
  have d: "c_dirty c = lh_block lg ` {..<n}" using assms by (simp add: log_ready_def)
  show "c_dirty (commit_cache lg n c) = {}" "c_lock (commit_cache lg n c) = c_lock c" "head_n (c_disk (commit_cache lg n c) (start lg)) = 0"
    using R(9) d by (auto simp: commit_cache_def Let_def log_copy_dirty log_install_dirty head_n_emptied)
  assume b: "home lg b"
  let ?c1 = "log_copy lg n c"
  let ?c2 = "cwrite (start lg) (put_head lg (c_blk ?c1 (start lg))) ?c1"
  have s: "b \<noteq> start lg" "\<forall>j < n. b \<noteq> start lg + j + 1" using b R(1) by (auto simp: home_def good_log_def)
  have "c_blk (log_install lg n ?c2) b = c_blk c b \<and> c_disk (log_install lg n ?c2) b = c_blk c b"
  proof (cases "b \<in> lh_block lg ` {..<n}")
    case True
    then obtain j where "j < n" "b = lh_block lg j" by auto
    then show ?thesis using log_install_home [OF R(1), of n j ?c2] log_copy_log [OF R(1), of n j c] by simp
  next
    case False
    then have "c_blk c b = c_disk c b" using assms d by (auto simp: log_ready_def)
    then show ?thesis using False log_install_other [of n b lg ?c2] log_copy_other [of n b lg c] s by auto
  qed
  then show "c_blk (commit_cache lg n c) b = c_blk c b \<and> c_disk (commit_cache lg n c) b = c_blk c b"
    using s by (simp add: commit_cache_def Let_def)
qed

lemma wp_end_op_last:
  fixes s :: "'a log_st_scheme"
  assumes inv: "bio_inv s" "txn_inv (log s) (cache_of s)" "unlocked (cache_of s)"
    and l: "outstanding (log s) = 1" "\<not> committing (log s)" "0 < lh_n (log s)"
    and Q: "\<And>s'. \<lbrakk>bio_inv s'; log s' = (log s)\<lparr>lh_n := 0, outstanding := 0\<rparr>; log_step s s'; \<And>q. q < NPROC \<Longrightarrow> \<not> sleeps_on C_log s' q;
       cache_of s' = commit_cache (log s) (nat (lh_n (log s))) (cache_of s)\<rbrakk> \<Longrightarrow> Q () s'"
  shows "wp end_op Q s"
proof -
  let ?lg = "log s" and ?n = "nat (lh_n (log s))"
  let ?t = "upd_log (\<lambda>l. l\<lparr>outstanding := 0, committing := True\<rparr>) s"
  let ?rest = "seq (acquire L_log) (seq (modify (upd_log (\<lambda>l. l\<lparr>committing := False\<rparr>))) (seq (wakeup C_log) (release L_log)))
    :: (unit, 'a log_st_scheme) kop"
  have h: "held s = []" using inv(1) by (simp add: bio_inv_def)
  have "wp end_op Q s = wp commit (\<lambda>_. wp ?rest Q) ?t"
    using h l by (cases s) (simp add: end_op_def upd_log_def wp_seq_fun)
  moreover have "wp commit (\<lambda>_. wp ?rest Q) ?t"
  proof (rule wp_commit [where lg = "log ?t" and n = ?n])
    have "log_ready ?lg ?n (cache_of s)" by (rule txn_inv_ready [OF inv(2,3)])
    then show "log_ready (log ?t) ?n (cache_of ?t)" by (simp add: log_ready_def good_log_def home_def)
    show "bio_inv ?t" "0 < ?n" "log ?t = log ?t" using inv(1) l by simp_all
    fix t' :: "'a log_st_scheme"
    assume t: "bio_inv t'" "log t' = log ?t\<lparr>lh_n := 0\<rparr>" "log_step ?t t'" "cache_of t' = commit_cache (log ?t) ?n (cache_of ?t)"
    let ?u = "upd_log (\<lambda>l. l\<lparr>committing := False\<rparr>) (t'\<lparr>ptable := wake C_log (ptable t')\<rparr>)"
    have ht: "held t' = []" using t(1) by (simp add: bio_inv_def)
    have "wp ?rest Q t' = Q () ?u" using ht by (cases t') (simp add: upd_log_def)
    moreover have "Q () ?u"
    proof (rule Q)
      have "same_bio t' (t'\<lparr>ptable := wake C_log (ptable t')\<rparr>)" by simp
      note B = same_bio_inv [OF this t(1)]
      show "bio_inv ?u" "cache_of ?u = commit_cache ?lg ?n (cache_of s)"
        using B t(4) commit_cache_cong [of "log ?t" ?lg] by simp_all
      show "log ?u = ?lg\<lparr>lh_n := 0, outstanding := 0\<rparr>" using t(2) l by (cases "log s") simp
      have w: "log_step t' (t'\<lparr>ptable := wake C_log (ptable t')\<rparr>)" by (simp add: log_step_def same_thread_def)
      show "\<not> sleeps_on C_log ?u q" if "q < NPROC" for q using that by (simp add: sleeps_on_def upd_log_def wake_def)
      show "log_step s ?u"
        by (rule log_step_trans [OF log_step_trans [OF upd_log_step t(3)] log_step_trans [OF w upd_log_step]])
    qed
    ultimately show "wp ?rest Q t'" by simp
  qed
  ultimately show ?thesis by simp
qed

section \<open>Blocks under the log\<close>

text \<open>
  The state a file system operation runs in: the cache and the log are as described, and the log lies within the
  disk. The current contents of the blocks, the locked and the logged ones are \<open>blks\<close>, \<open>lkd\<close> and
  \<open>lgd\<close>.
\<close>

abbreviation blks :: "'a bio_st_scheme \<Rightarrow> nat \<Rightarrow> bytes" where "blks s \<equiv> c_blk (cache_of s)"
abbreviation lkd :: "'a bio_st_scheme \<Rightarrow> nat \<rightharpoonup> nat" where "lkd s \<equiv> c_lock (cache_of s)"
abbreviation lgd :: "'a bio_st_scheme \<Rightarrow> nat set" where "lgd s \<equiv> c_dirty (cache_of s)"

definition log_ok :: "'a log_st_scheme \<Rightarrow> bool" where
  "log_ok s \<longleftrightarrow> bio_inv s \<and> txn_inv (log s) (cache_of s)
     \<and> lsize (log s) \<le> int LOGSIZE \<and> start (log s) + LOGSIZE < FSSIZE"

text \<open>Only the cache and the header have changed.\<close>

definition txn_step :: "'a log_st_scheme \<Rightarrow> 'a log_st_scheme \<Rightarrow> bool" where
  "txn_step s s' \<longleftrightarrow> log_step s s' \<and> log s' = (log s)\<lparr>lh_n := lh_n (log s'), lh_block := lh_block (log s')\<rparr>
     \<and> c_disk (cache_of s') = c_disk (cache_of s) \<and> c_trace (cache_of s') = c_trace (cache_of s)"

lemma txn_step_refl [simp, intro]: "txn_step s s"
  by (simp add: txn_step_def)

lemma txn_step_trans [trans]: "txn_step s s' \<Longrightarrow> txn_step s' s'' \<Longrightarrow> txn_step s s''"
  unfolding txn_step_def by (cases "log s"; cases "log s'"; cases "log s''") (auto intro: log_step_trans)

lemma txn_stepD:
  assumes "txn_step s s'"
  shows "start (log s') = start (log s)" "lsize (log s') = lsize (log s)" "home (log s') = home (log s)"
    "outstanding (log s') = outstanding (log s)" "committing (log s') = committing (log s)"
    "log_st.more s' = log_st.more s" "same_thread s s'" "\<And>l. (\<forall>j. l \<noteq> SL_buf j) \<Longrightarrow> slocks s' l = slocks s l"
  using assms by (cases "log s"; cases "log s'"; auto simp: txn_step_def log_step_def home_def fun_eq_iff)+

lemma log_okD:
  assumes "log_ok s"
  shows "bio_inv s" "finite (lgd s)" "lh_n (log s) = int (card (lgd s))"
proof -
  have g: "good_log (log s) (nat (lh_n (log s)))" "0 \<le> lh_n (log s)" "lgd s = lh_block (log s) ` {..<nat (lh_n (log s))}"
    using assms by (simp_all add: log_ok_def txn_inv_def)
  show "bio_inv s" using assms by (simp add: log_ok_def)
  show "finite (lgd s)" by (simp add: g)
  show "lh_n (log s) = int (card (lgd s))" using g by (simp add: card_image good_log_def)
qed

lemma log_frame_txn: "log_frame s s' \<Longrightarrow> c_disk (cache_of s') = c_disk (cache_of s) \<Longrightarrow> c_trace (cache_of s') = c_trace (cache_of s) \<Longrightarrow> txn_step s s'"
  by (simp add: txn_step_def log_frame_step log_frame_log)

lemma wp_bread_txn:
  fixes s :: "'a log_st_scheme"
  assumes s: "log_ok s" and b: "b \<notin> ran (lkd s)" "b < FSSIZE" "room (cache_of s) \<or> b \<in> lgd s"
    and Q: "\<And>i s'. \<lbrakk>log_ok s'; txn_step s s'; lkd s i = None; data (bufs s' i) = blks s b;
      cache_of s' = (cache_of s)\<lparr>c_lock := (lkd s)(i \<mapsto> b)\<rparr>\<rbrakk> \<Longrightarrow> Q i s'"
  shows "wp (bread ROOTDEV b) Q s"
proof (rule wp_bread [OF log_okD(1) [OF s] b])
  fix i and s' :: "'a log_st_scheme"
  assume a: "bio_inv s'" "lkd s i = None" "cache_of s' = (cache_of s)\<lparr>c_lock := (lkd s)(i \<mapsto> b)\<rparr>"
    "same_thread s s'" "bio_st.more s' = bio_st.more s" "\<And>l. (\<forall>j. l \<noteq> SL_buf j) \<Longrightarrow> slocks s' l = slocks s l"
  have f: "log_frame s s'" by (rule log_frameI [OF a(4,5,6)])
  have "lkd s' i = Some b" by (simp add: a(3))
  then have "data (bufs s' i) = blks s' b" by (rule locked_buf(6) [OF a(1)])
  also have "\<dots> = blks s b" by (simp add: a(3))
  finally have d: "data (bufs s' i) = blks s b" .
  have l: "log s' = log s" using f by (rule log_frame_log)
  have "ran (lkd s) \<subseteq> ran (lkd s')" using a(2) by (auto simp: a(3) ran_map_upd)
  then have "log_ok s'" using s a(1) l by (auto simp: log_ok_def txn_inv_def a(3))
  then show "Q i s'" using a(2,3) d f by (intro Q log_frame_txn) simp_all
qed

lemma wp_brelse_txn:
  fixes s :: "'a log_st_scheme"
  assumes s: "log_ok s" and i: "lkd s i = Some b" and b: "b \<in> lgd s \<or> blks s b = c_disk (cache_of s) b"
    and Q: "\<And>s'. \<lbrakk>log_ok s'; txn_step s s'; cache_of s' = (cache_of s)\<lparr>c_lock := (lkd s)(i := None)\<rparr>\<rbrakk> \<Longrightarrow> Q () s'"
  shows "wp (brelse i) Q s"
proof (rule wp_brelse [OF log_okD(1) [OF s] i b])
  fix s' :: "'a log_st_scheme"
  assume a: "bio_inv s'" "same_thread s s'" "bio_st.more s' = bio_st.more s" "\<And>l. (\<forall>j. l \<noteq> SL_buf j) \<Longrightarrow> slocks s' l = slocks s l"
    "cache_of s' = (cache_of s)\<lparr>c_lock := (lkd s)(i := None)\<rparr>"
  have f: "log_frame s s'" by (rule log_frameI [OF a(2,3,4)])
  have "b' = b" if r: "b' \<in> ran (lkd s)" "b' \<notin> ran (lkd s')" for b'
  proof -
    obtain k where k: "lkd s k = Some b'" using r(1) by (auto simp: ran_def)
    have "lkd s' k \<noteq> Some b'" using r(2) by (auto simp: ran_def)
    then have "k = i" using k by (simp add: a(5) split: if_splits)
    then show ?thesis using k i by simp
  qed
  then have "log_ok s'" using s a(1) b log_frame_log [OF f] by (auto simp: log_ok_def txn_inv_def a(5))
  then show "Q () s'" using a(5) f by (intro Q log_frame_txn) simp_all
qed

lemma wp_bset_txn:
  fixes s :: "'a log_st_scheme"
  assumes s: "log_ok s" and i: "lkd s i = Some b"
    and Q: "\<And>s'. \<lbrakk>log_ok s'; txn_step s s'; cache_of s' = (cache_of s)\<lparr>c_blk := (blks s)(b := f (blks s b))\<rparr>\<rbrakk> \<Longrightarrow> Q () s'"
  shows "wp (modify (upd_buf i (\<lambda>x. x\<lparr>data := f (data x)\<rparr>))) Q s"
proof -
  let ?t = "upd_buf i (\<lambda>x. x\<lparr>data := f (data x)\<rparr>) s"
  note B = bset_spec [OF log_okD(1) [OF s] i, of f]
  have l: "log ?t = log s" by (simp add: upd_buf_def)
  have "b \<in> ran (lkd s)" using i by (auto simp: ran_def)
  then have "log_ok ?t" using s B(1) by (auto simp: log_ok_def txn_inv_def l B(2))
  moreover have "txn_step s ?t" by (rule log_frame_txn [OF upd_buf_frame]) (simp_all add: B(2))
  ultimately have "Q () ?t" using B(2) by (rule Q)
  then show ?thesis by simp
qed

lemma wp_log_write_txn:
  fixes s :: "'a log_st_scheme"
  assumes s: "log_ok s" and i: "lkd s i = Some b" and b: "home (log s) b" "int (card (lgd s)) < lsize (log s) - 1" and o: "0 < outstanding (log s)"
    and Q: "\<And>s'. \<lbrakk>log_ok s'; txn_step s s'; cache_of s' = (cache_of s)\<lparr>c_dirty := insert b (lgd s)\<rparr>\<rbrakk> \<Longrightarrow> Q () s'"
  shows "wp (log_write i) Q s"
proof (rule wp_log_write [OF log_okD(1) [OF s] _ i b(1)])
  show "txn_inv (log s) (cache_of s)" "start (log s) + LOGSIZE < FSSIZE" "0 < outstanding (log s)"
    "lsize (log s) \<le> int LOGSIZE" using s o by (simp_all add: log_ok_def)
  show "lh_n (log s) < lsize (log s) - 1" using b(2) log_okD(3) [OF s] by simp
  fix s' :: "'a log_st_scheme"
  assume a: "bio_inv s'" "log s' = log_add b (log s)" "txn_inv (log s') (cache_of s')" "log_step s s'"
    "cache_of s' = (cache_of s)\<lparr>c_dirty := insert b (lgd s)\<rparr>"
  have "log_ok s'" using s a(1,3) by (simp add: log_ok_def a(2))
  moreover have "txn_step s s'" using a(4) by (simp add: txn_step_def a(2,5) log_add_def Let_def)
  ultimately show "Q () s'" using a(5) by (rule Q)
qed

text \<open>The two patterns of the file system code: change a block under the log, and look at a block.\<close>

lemma wp_update_txn:
  fixes s :: "'a log_st_scheme"
  assumes s: "log_ok s" and b: "b \<notin> ran (lkd s)" "b < FSSIZE" "room (cache_of s) \<or> b \<in> lgd s"
    and l: "home (log s) b" "int (card (lgd s)) < lsize (log s) - 1" "0 < outstanding (log s)"
    and Q: "\<And>s'. \<lbrakk>log_ok s'; txn_step s s';
      cache_of s' = (cache_of s)\<lparr>c_blk := (blks s)(b := f (blks s b)), c_dirty := insert b (lgd s)\<rparr>\<rbrakk> \<Longrightarrow> Q () s'"
  shows "wp (bind (bread ROOTDEV b) (\<lambda>i. seq (modify (upd_buf i (\<lambda>x. x\<lparr>data := f (data x)\<rparr>))) (seq (log_write i) (brelse i)))) Q s"
proof (rule wp_bindI, rule wp_bread_txn [OF s b])
  fix i and s1 :: "'a log_st_scheme"
  assume 1: "log_ok s1" "txn_step s s1" "lkd s i = None" "cache_of s1 = (cache_of s)\<lparr>c_lock := (lkd s)(i \<mapsto> b)\<rparr>"
  have i1: "lkd s1 i = Some b" by (simp add: 1(4))
  show "wp (seq (modify (upd_buf i (\<lambda>x. x\<lparr>data := f (data x)\<rparr>))) (seq (log_write i) (brelse i))) Q s1"
  proof (rule wp_seqI, rule wp_bset_txn [OF 1(1) i1])
    fix s2 :: "'a log_st_scheme"
    assume 2: "log_ok s2" "txn_step s1 s2" "cache_of s2 = (cache_of s1)\<lparr>c_blk := (blks s1)(b := f (blks s1 b))\<rparr>"
    have i2: "lkd s2 i = Some b" "home (log s2) b" "int (card (lgd s2)) < lsize (log s2) - 1" "0 < outstanding (log s2)"
      using i1 l txn_stepD [OF 1(2)] txn_stepD [OF 2(2)] by (simp_all add: 2(3) 1(4))
    show "wp (seq (log_write i) (brelse i)) Q s2"
    proof (rule wp_seqI, rule wp_log_write_txn [OF 2(1) i2])
      fix s3 :: "'a log_st_scheme"
      assume 3: "log_ok s3" "txn_step s2 s3" "cache_of s3 = (cache_of s2)\<lparr>c_dirty := insert b (lgd s2)\<rparr>"
      have i3: "lkd s3 i = Some b" "b \<in> lgd s3 \<or> blks s3 b = c_disk (cache_of s3) b" using i2(1) by (simp_all add: 3(3))
      show "wp (brelse i) Q s3"
      proof (rule wp_brelse_txn [OF 3(1) i3])
        fix s4 :: "'a log_st_scheme"
        assume 4: "log_ok s4" "txn_step s3 s4" "cache_of s4 = (cache_of s3)\<lparr>c_lock := (lkd s3)(i := None)\<rparr>"
        show "Q () s4"
        proof (rule Q [OF 4(1)])
          show "txn_step s s4" by (rule txn_step_trans [OF txn_step_trans [OF 1(2) 2(2)] txn_step_trans [OF 3(2) 4(2)]])
          show "cache_of s4 = (cache_of s)\<lparr>c_blk := (blks s)(b := f (blks s b)), c_dirty := insert b (lgd s)\<rparr>"
            using 1(3) by (simp add: 4(3) 3(3) 2(3) 1(4) fun_upd_idem)
        qed
      qed
    qed
  qed
qed

lemma wp_look_txn:
  fixes s :: "'a log_st_scheme"
  assumes s: "log_ok s" and b: "b \<notin> ran (lkd s)" "b < FSSIZE" "room (cache_of s) \<or> b \<in> lgd s"
    and Q: "\<And>s'. \<lbrakk>log_ok s'; txn_step s s'; cache_of s' = cache_of s\<rbrakk> \<Longrightarrow> Q (g (blks s b)) s'"
  shows "wp (bind (bread ROOTDEV b) (\<lambda>i. bind (gets (\<lambda>s. data (bufs s i))) (\<lambda>d. seq (brelse i) (ret (g d))))) Q s"
proof (rule wp_bindI, rule wp_bread_txn [OF s b])
  fix i and s1 :: "'a log_st_scheme"
  assume 1: "log_ok s1" "txn_step s s1" "lkd s i = None" "data (bufs s1 i) = blks s b" "cache_of s1 = (cache_of s)\<lparr>c_lock := (lkd s)(i \<mapsto> b)\<rparr>"
  have "b \<in> lgd s \<or> blks s b = c_disk (cache_of s) b" using s b(1) by (auto simp: log_ok_def txn_inv_def)
  then have i1: "lkd s1 i = Some b" "b \<in> lgd s1 \<or> blks s1 b = c_disk (cache_of s1) b" by (simp_all add: 1(5))
  have "wp (brelse i) (\<lambda>_. Q (g (blks s b))) s1"
  proof (rule wp_brelse_txn [OF 1(1) i1])
    fix s2 :: "'a log_st_scheme"
    assume 2: "log_ok s2" "txn_step s1 s2" "cache_of s2 = (cache_of s1)\<lparr>c_lock := (lkd s1)(i := None)\<rparr>"
    show "Q (g (blks s b)) s2"
      using 1(3) by (intro Q [OF 2(1) txn_step_trans [OF 1(2) 2(2)]]) (simp add: 2(3) 1(5) fun_upd_idem)
  qed
  then show "wp (bind (gets (\<lambda>s. data (bufs s i))) (\<lambda>d. seq (brelse i) (ret (g d)))) Q s1" by (simp add: 1(4))
qed

section \<open>Filling the log\<close>

lemma foreach_log_write:
  assumes "held s = []" "0 < outstanding (log s)" "lsize (log s) = 30" "lh_n (log s) = int k" "k \<le> m" "m \<le> 29"
    "\<forall>i < k. lh_block (log s) i = blockno (bufs s i)" "inj_on (\<lambda>i. blockno (bufs s i)) {..<m}"
  shows "\<exists>s'. foreach [k..<m] log_write s = Ok () s' \<and> lh_n (log s') = int m \<and> lsize (log s') = 30"
  using assms
proof (induction "m - k" arbitrary: s k)
  case 0
  then show ?case by simp
next
  case (Suc d)
  then have k: "k < m" "[k..<m] = k # [Suc k..<m]" by (simp_all add: upt_conv_Cons)
  let ?b = "blockno (bufs s k)"
  define t where "t = upd_log (log_add ?b) (upd_buf k (\<lambda>x. x\<lparr>dirty := True\<rparr>) s)"
  have e: "log_write k s = Ok () t" unfolding t_def using Suc.prems k(1) by (intro log_write_eq) simp_all
  have nb: "blockno (bufs t i) = blockno (bufs s i)" "held t = []" for i using Suc.prems(1) by (simp_all add: t_def upd_buf_def)
  have "log_slot (lh_block (log s)) k ?b 0 = k"
  proof -
    have "lh_block (log s) i \<noteq> ?b" if "i < k" for i
      using Suc.prems(7,8) that k(1) by (auto dest!: inj_onD [of _ _ i k])
    then have "\<not> log_slot (lh_block (log s)) k ?b 0 < k" using log_slot_spec [of 0 k "lh_block (log s)" ?b] by auto
    then show ?thesis using log_slot_spec [of 0 k "lh_block (log s)" ?b] by simp
  qed
  then have l: "log t = (log s)\<lparr>lh_block := (lh_block (log s))(k := ?b), lh_n := int (Suc k)\<rparr>"
    using Suc.prems(4) by (simp add: t_def log_add_def Let_def upd_buf_def)
  have "\<exists>s'. foreach [Suc k..<m] log_write t = Ok () s' \<and> lh_n (log s') = int m \<and> lsize (log s') = 30"
    by (rule Suc.hyps(1)) (use Suc.prems Suc.hyps(2) k(1) nb in \<open>simp_all add: l less_Suc_eq\<close>)
  then show ?case by (simp add: k(2) e)
qed

section \<open>Properties\<close>

text \<open>
  C2 \<open>end_op\<close> of the last operation in progress, called with no block locked, makes the transaction
  durable: when it returns, every block outside the log has its current contents on the disk as well
  as in the cache, no block is dirty, the log on disk is empty, no operation is in progress, and every process that
  slept in \<open>begin_op\<close> waiting for the log can run.
\<close>

theorem end_op_commits:
  fixes s :: "'a log_st_scheme"
  assumes "log_ok s" "unlocked (cache_of s)" "outstanding (log s) = 1" "\<not> committing (log s)"
  shows "\<exists>s'. end_op s = Ok () s' \<and> bio_inv s' \<and> log s' = (log s)\<lparr>lh_n := 0, outstanding := 0\<rparr>
     \<and> lgd s' = {} \<and> unlocked (cache_of s') \<and> head_n (c_disk (cache_of s') (start (log s))) = 0
     \<and> (\<forall>b. home (log s) b \<longrightarrow> blks s' b = blks s b \<and> c_disk (cache_of s') b = blks s b)
     \<and> (\<forall>q < NPROC. sleeps_on C_log s q \<longrightarrow> pstate (ptable s' q) = RUNNABLE)"
proof (cases "lh_n (log s) = 0")
  case False
  have t: "txn_inv (log s) (cache_of s)" using assms(1) by (simp add: log_ok_def)
  then have p: "0 < lh_n (log s)" using False by (simp add: txn_inv_def)
  let ?n = "nat (lh_n (log s))"
  note F = commit_cache_final [OF txn_inv_ready [OF t assms(2)]]
  have "wp end_op (\<lambda>_ s'. bio_inv s' \<and> log s' = (log s)\<lparr>lh_n := 0, outstanding := 0\<rparr>
      \<and> cache_of s' = commit_cache (log s) ?n (cache_of s) \<and> same_thread s s' \<and> (\<forall>q < NPROC. \<not> sleeps_on C_log s' q)) s"
    by (rule wp_end_op_last [OF log_okD(1) [OF assms(1)] t assms(2,3,4) p]) (simp add: log_step_def)
  then obtain s' where "end_op s = Ok () s'" "bio_inv s'" "log s' = (log s)\<lparr>lh_n := 0, outstanding := 0\<rparr>"
    "cache_of s' = commit_cache (log s) ?n (cache_of s)" "same_thread s s'" "\<forall>q < NPROC. \<not> sleeps_on C_log s' q" by (auto simp: wp_Ok)
  then show ?thesis using F assms(2) same_thread_sleeper [of s s' C_log] by (auto simp: unlocked_def)
next
  case True
  have t: "txn_inv (log s) (cache_of s)" "held s = []" "\<not> committing (log s)" using assms(1,4) by (simp_all add: log_ok_def bio_inv_def)
  then have d: "lgd s = {}" using True by (simp add: txn_inv_def)
  let ?s = "upd_log (\<lambda>l. l\<lparr>outstanding := 0\<rparr>) (s\<lparr>ptable := wake C_log (ptable s)\<rparr>)"
  have "end_op s = Ok () ?s"
    using True t(2,3) assms(3)
    by (cases s; cases "log s") (simp add: end_op_def acquire_def release_def commit_def wakeup_def wakeup1_eq upd_log_def)
  moreover have "bio_inv ?s" "cache_of ?s = cache_of s"
    using same_bio_inv [OF same_bio_wake(1) log_okD(1) [OF assms(1)], of C_log] by simp_all
  moreover have "blks s b = c_disk (cache_of s) b" for b using t(1) d assms(2) by (simp add: txn_inv_def unlocked_def)
  moreover have "head_n (c_disk (cache_of s) (start (log s))) = 0" using t(1) by (simp add: txn_inv_def)
  moreover have "pstate (ptable ?s q) = RUNNABLE" if "q < NPROC" "sleeps_on C_log s q" for q
    using that by (simp add: sleeps_on_def wake_def upd_log_def)
  ultimately show ?thesis using d assms(2) True by auto
qed

theorem end_op_commits_witness:
  "\<exists>(s :: log_st) s'. lgd s = {50} \<and> end_op s = Ok () s' \<and> lgd s' = {} \<and> c_disk (cache_of s) 50 0 = 0 \<and> c_disk (cache_of s') 50 0 = 7"
proof -
  obtain s :: log_st where s: "bio_inv s" "log s = ex_log"
    "cache_of s = \<lparr>c_blk = ex_disk(50 := (\<lambda>_. 7)), c_lock = (\<lambda>_. None), c_dirty = {50}, c_disk = ex_disk, c_trace = []\<rparr>"
    by (rule ex_logged [of "()"]) (rule that)
  have t: "log_ok s" "home (log s) 50"
    using s(1) by (auto simp: log_ok_def txn_inv_def good_log_def home_def s(2,3) ex_log_def head_n_def ex_disk_def get32_def inj_on_def)
  have u: "unlocked (cache_of s)" "outstanding (log s) = 1" "\<not> committing (log s)" by (simp_all add: unlocked_def s(2,3) ex_log_def)
  obtain s' where "end_op s = Ok () s'" "lgd s' = {}" "\<forall>b. home (log s) b \<longrightarrow> blks s' b = blks s b \<and> c_disk (cache_of s') b = blks s b"
    using end_op_commits [OF t(1) u] by blast
  moreover from this(3) t(2) have "c_disk (cache_of s') 50 0 = 7" by (simp add: s(3))
  moreover have "lgd s = {50}" "c_disk (cache_of s) 50 0 = 0" by (simp_all add: s(3) ex_disk_def)
  ultimately show ?thesis by blast
qed

text \<open>
  C37 \<open>begin_op\<close> reserves space for the log as if it held LOGSIZE = 30 data blocks, but \<open>log_write\<close> panics
  when it holds one less than the \<open>nlog\<close> = 30 blocks of the log, one of which is the header. So three operations
  that are admitted together and write \<open>MAXOPBLOCKS\<close> = 10 blocks each, as they may, stop the kernel.
\<close>

theorem log_reservation_too_small:
  assumes "held s = []" "log s = \<lparr>start = 2, lsize = 30, outstanding = 0, committing = False, ldev = 1, lh_n = 0, lh_block = f\<rparr>"
    "inj_on (\<lambda>i. blockno (bufs s i)) {..<30}"
  shows "seq begin_op (seq begin_op (seq begin_op (foreach [0..<30] log_write))) s = Panic ''too big a transaction''"
proof -
  let ?t = "upd_log (\<lambda>l. l\<lparr>outstanding := 3\<rparr>) s"
  have "seq begin_op (seq begin_op (seq begin_op m)) s = m ?t" for m :: "(unit, 'a log_st_scheme) kop"
    using assms(1,2) by (cases s) (simp add: begin_op_def begin_op_loop_def acquire_def release_def upd_log_def)
  moreover obtain s' where s': "foreach [0..<29] log_write ?t = Ok () s'" "lh_n (log s') = 29" "lsize (log s') = 30"
    using foreach_log_write [of ?t 0 29] assms inj_on_subset [OF assms(3), of "{..<29}"] by auto
  moreover have "[0..<30] = [0..<29] @ [29]" by (simp add: upt_rec)
  ultimately show ?thesis by (simp add: foreach_append log_write_def)
qed

theorem log_reservation_too_small_witness:
  "\<exists>s :: log_st. seq begin_op (seq begin_op (seq begin_op (foreach [0..<30] log_write))) s = Panic ''too big a transaction''"
proof -
  let ?s = "bio_st.extend (ex_boot\<lparr>bufs := (\<lambda>i. buf0\<lparr>blockno := 40 + i\<rparr>)\<rparr>)
    \<lparr>log = \<lparr>start = 2, lsize = 30, outstanding = 0, committing = False, ldev = 1, lh_n = 0, lh_block = (\<lambda>_. 0)\<rparr>, \<dots> = ()\<rparr>"
  have h: "held ex_boot = []" by (simp add: ex_boot_def ex_bio_def)
  have "held ?s = []" using h by (simp add: bio_st.defs)
  moreover have "inj_on (\<lambda>i. blockno (bufs ?s i)) {..<30}" by (simp add: bio_st.defs inj_on_def)
  moreover have "log ?s = \<lparr>start = 2, lsize = 30, outstanding = 0, committing = False, ldev = 1, lh_n = 0, lh_block = (\<lambda>_. 0)\<rparr>"
    by (simp add: bio_st.defs)
  ultimately have "seq begin_op (seq begin_op (seq begin_op (foreach [0..<30] log_write))) ?s = Panic ''too big a transaction''"
    using log_reservation_too_small [of ?s "\<lambda>_. 0"] by blast
  then show ?thesis by (rule exI [of _ ?s])
qed

end
