(* ===== verification/Fs.thy ===== *)
theory Fs
  imports Txn
begin

text \<open>
  The file system (src/fs.c, with the structures of src/fs.h and src/file.h): block allocator,
  inodes and their cache, file contents, directories and path names. Every operation of the file is
  a definition here; the console message of \<open>iinit\<close> is left out.

  Numbers the code keeps in a \<open>uint\<close> are natural numbers, with \<open>u32wrap\<close> where a sum may exceed 32
  bits. A buffer in memory that a file is read into or written from is an array of bytes that the
  operation is given and returns; such a buffer never overlaps the blocks in the cache. The
  functions of the device switch \<open>devsw\<close> are arguments of the operations that call them.
\<close>

section \<open>Structures\<close>

abbreviation (input) NDIRECT :: nat where "NDIRECT \<equiv> 12"
abbreviation (input) NINDIRECT :: nat where "NINDIRECT \<equiv> 128"
abbreviation (input) MAXFILE :: nat where "MAXFILE \<equiv> 140"
abbreviation (input) IPB :: nat where "IPB \<equiv> 8"
abbreviation (input) BPB :: nat where "BPB \<equiv> 4096"
abbreviation (input) DIRSIZ :: nat where "DIRSIZ \<equiv> 14"
abbreviation (input) NINODE :: nat where "NINODE \<equiv> 50"
abbreviation (input) NDEV :: nat where "NDEV \<equiv> 10"
abbreviation (input) ROOTINO :: nat where "ROOTINO \<equiv> 1"

abbreviation (input) T_DIR :: u16 where "T_DIR \<equiv> 1"
abbreviation (input) T_FILE :: u16 where "T_FILE \<equiv> 2"
abbreviation (input) T_DEV :: u16 where "T_DEV \<equiv> 3"

record dinode =
  d_type :: u16
  d_major :: u16
  d_minor :: u16
  d_nlink :: u16
  d_size :: nat
  d_addrs :: "nat \<Rightarrow> nat"

record inode =
  idev :: nat
  inum :: nat
  iref :: int
  ivalid :: bool
  itype :: u16
  imajor :: u16
  iminor :: u16
  nlink :: u16
  isize :: nat
  addrs :: "nat \<Rightarrow> nat"

record stat =
  st_type :: u16
  st_dev :: nat
  st_ino :: nat
  st_nlink :: u16
  st_size :: nat

record fs_st = log_st +
  sb :: superblock
  icache :: "nat \<Rightarrow> inode"

definition upd_ino :: "nat \<Rightarrow> (inode \<Rightarrow> inode) \<Rightarrow> 'a fs_st_scheme \<Rightarrow> 'a fs_st_scheme" where
  "upd_ino i f s = s\<lparr>icache := (icache s)(i := f (icache s i))\<rparr>"

text \<open>A loop that is left as soon as its body returns something.\<close>

primrec search :: "'a list \<Rightarrow> ('a \<Rightarrow> ('b option, 's) kop) \<Rightarrow> ('b option, 's) kop" where
  "search [] f = ret None"
| "search (x # xs) f = bind (f x) (\<lambda>r. case r of None \<Rightarrow> search xs f | Some y \<Rightarrow> ret (Some y))"

text \<open>\<open>memmove\<close> between two arrays: \<open>m\<close> bytes of \<open>src\<close> from \<open>j\<close> to \<open>dst\<close> at \<open>i\<close>.\<close>

definition splice :: "bytes \<Rightarrow> nat \<Rightarrow> bytes \<Rightarrow> nat \<Rightarrow> nat \<Rightarrow> bytes" where
  "splice dst i src j m = (\<lambda>k. if i \<le> k \<and> k < i + m then src (j + (k - i)) else dst k)"

section \<open>Blocks\<close>

definition set_data :: "nat \<Rightarrow> (bytes \<Rightarrow> bytes) \<Rightarrow> (unit, 'a bio_st_scheme) kop" where
  "set_data i f = modify (upd_buf i (\<lambda>x. x\<lparr>data := f (data x)\<rparr>))"

definition bzero :: "nat \<Rightarrow> nat \<Rightarrow> (unit, 'a log_st_scheme) kop" where
  "bzero d bno =
     bind (bread d bno) (\<lambda>i.
     seq (set_data i (\<lambda>_. \<lambda>_. 0))
     (seq (log_write i)
     (brelse i)))"

definition bbit :: "nat \<Rightarrow> u8" where
  "bbit bi = push_bit (bi mod 8) 1"

definition BBLOCK :: "nat \<Rightarrow> superblock \<Rightarrow> nat" where
  "BBLOCK b sp = b div BPB + sb_bmapstart sp"

text \<open>The loop over the bits of one bitmap block: the first free one at \<open>bi\<close> or later.\<close>

function balloc_scan :: "bytes \<Rightarrow> nat \<Rightarrow> nat \<Rightarrow> nat \<Rightarrow> nat option" where
  "balloc_scan d b n bi =
     (if bi < BPB \<and> b + bi < n then
        (if d (bi div 8) AND bbit bi = 0 then Some bi else balloc_scan d b n (bi + 1))
      else None)"
  by pat_completeness auto
termination
  by (relation "measure (\<lambda>(d, b, n, bi). BPB - bi)") auto

declare balloc_scan.simps [simp del]

definition balloc :: "nat \<Rightarrow> (nat, 'a fs_st_scheme) kop" where
  "balloc d =
     bind (gets sb) (\<lambda>sb.
     bind (search (map (\<lambda>k. k * BPB) [0..<(sb_size sb + BPB - 1) div BPB]) (\<lambda>b.
       bind (bread d (BBLOCK b sb)) (\<lambda>bp.
       bind (gets (\<lambda>s. data (bufs s bp))) (\<lambda>dat.
       case balloc_scan dat b (sb_size sb) 0 of
         Some bi \<Rightarrow>
           seq (set_data bp (\<lambda>dat. dat(bi div 8 := dat (bi div 8) OR bbit bi)))
           (seq (log_write bp)
           (seq (brelse bp)
           (seq (bzero d (b + bi))
           (ret (Some (b + bi))))))
       | None \<Rightarrow> seq (brelse bp) (ret None))))) (\<lambda>r.
     case r of Some b \<Rightarrow> ret b | None \<Rightarrow> panic ''balloc: out of blocks''))"

definition bfree :: "nat \<Rightarrow> nat \<Rightarrow> (unit, 'a fs_st_scheme) kop" where
  "bfree d b =
     bind (gets sb) (\<lambda>sb.
     bind (bread d (BBLOCK b sb)) (\<lambda>bp.
     let bi = b mod BPB in
     bind (gets (\<lambda>s. data (bufs s bp))) (\<lambda>dat.
     if dat (bi div 8) AND bbit bi = 0 then panic ''freeing free block''
     else
       seq (set_data bp (\<lambda>dat. dat(bi div 8 := dat (bi div 8) AND NOT (bbit bi))))
       (seq (log_write bp)
       (brelse bp)))))"

section \<open>Inodes\<close>

definition IBLOCK :: "nat \<Rightarrow> superblock \<Rightarrow> nat" where
  "IBLOCK i sp = i div IPB + sb_inodestart sp"

text \<open>The \<open>struct dinode\<close> at offset \<open>o\<close> of a block.\<close>

definition get_dinode :: "bytes \<Rightarrow> nat \<Rightarrow> dinode" where
  "get_dinode d p = \<lparr>d_type = get16 d p, d_major = get16 d (p + 2), d_minor = get16 d (p + 4),
     d_nlink = get16 d (p + 6), d_size = unat (get32 d (p + 8)),
     d_addrs = (\<lambda>j. if j \<le> NDIRECT then unat (get32 d (p + 12 + 4 * j)) else 0)\<rparr>"

primrec put_addrs :: "nat \<Rightarrow> (nat \<Rightarrow> nat) \<Rightarrow> nat \<Rightarrow> bytes \<Rightarrow> bytes" where
  "put_addrs p f 0 d = d"
| "put_addrs p f (Suc j) d = put32 (p + 4 * j) (of_nat (f j)) (put_addrs p f j d)"

definition put_inode :: "nat \<Rightarrow> inode \<Rightarrow> bytes \<Rightarrow> bytes" where
  "put_inode p ip d =
     put_addrs (p + 12) (addrs ip) (NDIRECT + 1)
     (put32 (p + 8) (of_nat (isize ip))
     (put16 (p + 6) (nlink ip)
     (put16 (p + 4) (iminor ip)
     (put16 (p + 2) (imajor ip)
     (put16 p (itype ip) d)))))"

definition iinit :: "nat \<Rightarrow> (unit, 'a fs_st_scheme) kop" where
  "iinit d =
     seq (foreach [0..<NINODE] (\<lambda>i. initsleeplock (SL_ino i)))
     (bind (readsb d) (\<lambda>x. modify (\<lambda>s. s\<lparr>sb := x\<rparr>)))"

text \<open>The loop of \<open>iget\<close>: the entry that holds the inode, or else the first empty one.\<close>

primrec iget_scan :: "(nat \<Rightarrow> inode) \<Rightarrow> nat \<Rightarrow> nat \<Rightarrow> nat list \<Rightarrow> nat option \<Rightarrow> nat + nat option" where
  "iget_scan ic d n [] e = Inr e"
| "iget_scan ic d n (i # js) e =
     (if iref (ic i) > 0 \<and> idev (ic i) = d \<and> inum (ic i) = n then Inl i
      else iget_scan ic d n js (if e = None \<and> iref (ic i) = 0 then Some i else e))"

definition iget :: "nat \<Rightarrow> nat \<Rightarrow> (nat, 'a fs_st_scheme) kop" where
  "iget d n =
     seq (acquire L_icache)
     (bind (gets (\<lambda>s. iget_scan (icache s) d n [0..<NINODE] None)) (\<lambda>r.
     case r of
       Inl i \<Rightarrow>
         seq (modify (upd_ino i (\<lambda>x. x\<lparr>iref := iref x + 1\<rparr>)))
         (seq (release L_icache) (ret i))
     | Inr None \<Rightarrow> panic ''iget: no inodes''
     | Inr (Some i) \<Rightarrow>
         seq (modify (upd_ino i (\<lambda>x. x\<lparr>idev := d, inum := n, iref := 1, ivalid := False\<rparr>)))
         (seq (release L_icache) (ret i))))"

definition ialloc :: "nat \<Rightarrow> u16 \<Rightarrow> (nat, 'a fs_st_scheme) kop" where
  "ialloc d ty =
     bind (gets sb) (\<lambda>sb.
     bind (search [1..<sb_ninodes sb] (\<lambda>n.
       bind (bread d (IBLOCK n sb)) (\<lambda>bp.
       bind (gets (\<lambda>s. data (bufs s bp))) (\<lambda>dat.
       let p = 64 * (n mod IPB) in
       if get16 dat p = 0 then
         seq (set_data bp (\<lambda>dat. put16 p ty (memset dat p 0 64)))
         (seq (log_write bp)
         (seq (brelse bp)
         (bind (iget d n) (\<lambda>i. ret (Some i)))))
       else seq (brelse bp) (ret None))))) (\<lambda>r.
     case r of Some i \<Rightarrow> ret i | None \<Rightarrow> panic ''ialloc: no inodes''))"

definition iupdate :: "nat \<Rightarrow> (unit, 'a fs_st_scheme) kop" where
  "iupdate i =
     bind (gets sb) (\<lambda>sb.
     bind (gets (\<lambda>s. icache s i)) (\<lambda>ip.
     bind (bread (idev ip) (IBLOCK (inum ip) sb)) (\<lambda>bp.
     bind (gets (\<lambda>s. icache s i)) (\<lambda>ip.
     seq (set_data bp (put_inode (64 * (inum ip mod IPB)) ip))
     (seq (log_write bp)
     (brelse bp))))))"

definition idup :: "nat option \<Rightarrow> (nat, 'a fs_st_scheme) kop" where
  "idup ip =
     seq (acquire L_icache)
     (case ip of None \<Rightarrow> panic ''null pointer''
      | Some i \<Rightarrow>
          seq (modify (upd_ino i (\<lambda>x. x\<lparr>iref := iref x + 1\<rparr>)))
          (seq (release L_icache) (ret i)))"

definition fsemaphore_lock :: "nat option \<Rightarrow> (unit, 'a fs_st_scheme) kop" where
  "fsemaphore_lock ip =
     (case ip of None \<Rightarrow> panic ''flock''
      | Some i \<Rightarrow>
          bind (gets (\<lambda>s. iref (icache s i))) (\<lambda>r.
          if r < 1 then panic ''flock'' else acquiresleep (SL_flock i)))"

definition fsemaphore_unlock :: "nat option \<Rightarrow> (unit, 'a fs_st_scheme) kop" where
  "fsemaphore_unlock ip =
     (case ip of None \<Rightarrow> panic ''funlock''
      | Some i \<Rightarrow>
          bind (holdingsleep (SL_flock i)) (\<lambda>h.
          bind (gets (\<lambda>s. iref (icache s i))) (\<lambda>r.
          if \<not> h \<or> r < 1 then panic ''funlock'' else releasesleep (SL_flock i))))"

text \<open>Copy the fields of a \<open>struct dinode\<close> to the inode in the cache.\<close>

definition load_inode :: "dinode \<Rightarrow> inode \<Rightarrow> inode" where
  "load_inode di x = x\<lparr>itype := d_type di, imajor := d_major di, iminor := d_minor di, nlink := d_nlink di,
     isize := d_size di, addrs := d_addrs di\<rparr>"

definition ilock :: "nat option \<Rightarrow> (unit, 'a fs_st_scheme) kop" where
  "ilock p =
     (case p of None \<Rightarrow> panic ''ilock''
      | Some i \<Rightarrow>
          bind (gets (\<lambda>s. iref (icache s i))) (\<lambda>r.
          if r < 1 then panic ''ilock''
          else
            seq (acquiresleep (SL_ino i))
            (bind (gets (\<lambda>s. icache s i)) (\<lambda>ip.
            if \<not> ivalid ip then
              bind (gets sb) (\<lambda>sb.
              bind (bread (idev ip) (IBLOCK (inum ip) sb)) (\<lambda>bp.
              bind (gets (\<lambda>s. data (bufs s bp))) (\<lambda>dat.
              seq (modify (upd_ino i (load_inode (get_dinode dat (64 * (inum ip mod IPB))))))
              (seq (brelse bp)
              (seq (modify (upd_ino i (\<lambda>x. x\<lparr>ivalid := True\<rparr>)))
              (bind (gets (\<lambda>s. itype (icache s i))) (\<lambda>ty.
              if ty = 0 then panic ''ilock: no type'' else skip)))))))
            else skip))))"

definition iunlock :: "nat option \<Rightarrow> (unit, 'a fs_st_scheme) kop" where
  "iunlock p =
     (case p of None \<Rightarrow> panic ''iunlock''
      | Some i \<Rightarrow>
          bind (holdingsleep (SL_ino i)) (\<lambda>h.
          bind (gets (\<lambda>s. iref (icache s i))) (\<lambda>r.
          if \<not> h \<or> r < 1 then panic ''iunlock'' else releasesleep (SL_ino i))))"

section \<open>File contents\<close>

definition bmap :: "nat \<Rightarrow> nat \<Rightarrow> (nat, 'a fs_st_scheme) kop" where
  "bmap i bn =
     bind (gets (\<lambda>s. icache s i)) (\<lambda>ip.
     if bn < NDIRECT then
       (if addrs ip bn = 0 then
          bind (balloc (idev ip)) (\<lambda>addr.
          seq (modify (upd_ino i (\<lambda>x. x\<lparr>addrs := (addrs x)(bn := addr)\<rparr>)))
          (ret addr))
        else ret (addrs ip bn))
     else
       let bn = bn - NDIRECT in
       if bn < NINDIRECT then
         bind (if addrs ip NDIRECT = 0 then
                 bind (balloc (idev ip)) (\<lambda>addr.
                 seq (modify (upd_ino i (\<lambda>x. x\<lparr>addrs := (addrs x)(NDIRECT := addr)\<rparr>)))
                 (ret addr))
               else ret (addrs ip NDIRECT)) (\<lambda>addr.
         bind (bread (idev ip) addr) (\<lambda>bp.
         bind (gets (\<lambda>s. unat (get32 (data (bufs s bp)) (4 * bn)))) (\<lambda>addr.
         bind (if addr = 0 then
                 bind (balloc (idev ip)) (\<lambda>addr.
                 seq (set_data bp (put32 (4 * bn) (of_nat addr)))
                 (seq (log_write bp)
                 (ret addr)))
               else ret addr) (\<lambda>addr.
         seq (brelse bp)
         (ret addr)))))
       else panic ''bmap: out of range'')"

definition itrunc :: "nat \<Rightarrow> (unit, 'a fs_st_scheme) kop" where
  "itrunc i =
     seq (foreach [0..<NDIRECT] (\<lambda>k.
       bind (gets (\<lambda>s. icache s i)) (\<lambda>ip.
       if addrs ip k \<noteq> 0 then
         seq (bfree (idev ip) (addrs ip k))
         (modify (upd_ino i (\<lambda>x. x\<lparr>addrs := (addrs x)(k := 0)\<rparr>)))
       else skip)))
     (seq (bind (gets (\<lambda>s. icache s i)) (\<lambda>ip.
       if addrs ip NDIRECT \<noteq> 0 then
         bind (bread (idev ip) (addrs ip NDIRECT)) (\<lambda>bp.
         seq (foreach [0..<NINDIRECT] (\<lambda>j.
           bind (gets (\<lambda>s. unat (get32 (data (bufs s bp)) (4 * j)))) (\<lambda>a.
           if a \<noteq> 0 then bfree (idev ip) a else skip)))
         (seq (brelse bp)
         (seq (bfree (idev ip) (addrs ip NDIRECT))
         (modify (upd_ino i (\<lambda>x. x\<lparr>addrs := (addrs x)(NDIRECT := 0)\<rparr>))))))
       else skip))
     (seq (modify (upd_ino i (\<lambda>x. x\<lparr>isize := 0\<rparr>)))
     (iupdate i)))"

definition iput :: "nat \<Rightarrow> (unit, 'a fs_st_scheme) kop" where
  "iput i =
     seq (acquiresleep (SL_ino i))
     (seq (bind (gets (\<lambda>s. icache s i)) (\<lambda>ip.
       if ivalid ip \<and> nlink ip = 0 then
         seq (acquire L_icache)
         (bind (gets (\<lambda>s. iref (icache s i))) (\<lambda>r.
         seq (release L_icache)
         (if r = 1 then
            seq (itrunc i)
            (seq (modify (upd_ino i (\<lambda>x. x\<lparr>itype := 0\<rparr>)))
            (seq (iupdate i)
            (modify (upd_ino i (\<lambda>x. x\<lparr>ivalid := False\<rparr>)))))
          else skip)))
       else skip))
     (seq (releasesleep (SL_ino i))
     (seq (acquire L_icache)
     (seq (modify (upd_ino i (\<lambda>x. x\<lparr>iref := iref x - 1\<rparr>)))
     (release L_icache)))))"

definition iunlockput :: "nat \<Rightarrow> (unit, 'a fs_st_scheme) kop" where
  "iunlockput i = seq (iunlock (Some i)) (iput i)"

definition stati :: "inode \<Rightarrow> stat" where
  "stati ip = \<lparr>st_type = itype ip, st_dev = idev ip, st_ino = inum ip, st_nlink = nlink ip, st_size = isize ip\<rparr>"

text \<open>The functions of the device switch, by major number.\<close>

type_synonym 's devread = "nat \<Rightarrow> (nat \<Rightarrow> bytes \<Rightarrow> nat \<Rightarrow> (int \<times> bytes, 's) kop) option"
type_synonym 's devwrite = "nat \<Rightarrow> (nat \<Rightarrow> bytes \<Rightarrow> nat \<Rightarrow> (int, 's) kop) option"

definition no_dev :: "u16 \<Rightarrow> (nat \<Rightarrow> 'f option) \<Rightarrow> bool" where
  "no_dev m sw \<longleftrightarrow> sint m < 0 \<or> sint m \<ge> int NDEV \<or> sw (unat m) = None"

function readi_loop :: "nat \<Rightarrow> nat \<Rightarrow> nat \<Rightarrow> nat \<Rightarrow> bytes \<Rightarrow> (bytes, 'a fs_st_scheme) kop" where
  "readi_loop i off n tot dst =
     (if tot < n then
        (let m = min (n - tot) (BSIZE - off mod BSIZE) in
         bind (gets (\<lambda>s. idev (icache s i))) (\<lambda>d.
         bind (bmap i (off div BSIZE)) (\<lambda>b.
         bind (bread d b) (\<lambda>bp.
         bind (gets (\<lambda>s. data (bufs s bp))) (\<lambda>dat.
         seq (brelse bp)
         (readi_loop i (off + m) n (tot + m) (splice dst tot dat (off mod BSIZE) m)))))))
      else ret dst)"
  by pat_completeness auto
termination
  by (relation "measure (\<lambda>(i, off, n, tot, dst). n - tot)") (auto simp: min_def)

declare readi_loop.simps [simp del]

definition readi :: "'a fs_st_scheme devread \<Rightarrow> nat \<Rightarrow> bytes \<Rightarrow> nat \<Rightarrow> nat \<Rightarrow> (int \<times> bytes, 'a fs_st_scheme) kop" where
  "readi devsw i dst off n =
     bind (gets (\<lambda>s. icache s i)) (\<lambda>ip.
     if itype ip = T_DEV then
       (if no_dev (imajor ip) devsw then ret (-1, dst)
        else the (devsw (unat (imajor ip))) i dst n)
     else if off > isize ip \<or> u32wrap (off + n) < off then ret (-1, dst)
     else
       let n = (if u32wrap (off + n) > isize ip then isize ip - off else n) in
       bind (readi_loop i off n 0 dst) (\<lambda>dst.
       ret (int n, dst)))"

function writei_loop :: "nat \<Rightarrow> nat \<Rightarrow> nat \<Rightarrow> nat \<Rightarrow> bytes \<Rightarrow> (unit, 'a fs_st_scheme) kop" where
  "writei_loop i off n tot src =
     (if tot < n then
        (let m = min (n - tot) (BSIZE - off mod BSIZE) in
         bind (gets (\<lambda>s. idev (icache s i))) (\<lambda>d.
         bind (bmap i (off div BSIZE)) (\<lambda>b.
         bind (bread d b) (\<lambda>bp.
         seq (set_data bp (\<lambda>dat. splice dat (off mod BSIZE) src tot m))
         (seq (log_write bp)
         (seq (brelse bp)
         (writei_loop i (off + m) n (tot + m) src)))))))
      else skip)"
  by pat_completeness auto
termination
  by (relation "measure (\<lambda>(i, off, n, tot, src). n - tot)") (auto simp: min_def)

declare writei_loop.simps [simp del]

definition writei :: "'a fs_st_scheme devwrite \<Rightarrow> nat \<Rightarrow> bytes \<Rightarrow> nat \<Rightarrow> nat \<Rightarrow> (int, 'a fs_st_scheme) kop" where
  "writei devsw i src off n =
     bind (gets (\<lambda>s. icache s i)) (\<lambda>ip.
     if itype ip = T_DEV then
       (if no_dev (imajor ip) devsw then ret (-1)
        else the (devsw (unat (imajor ip))) i src n)
     else if off > isize ip \<or> u32wrap (off + n) < off then ret (-1)
     else if u32wrap (off + n) > MAXFILE * BSIZE then ret (-1)
     else
       seq (writei_loop i off n 0 src)
       (bind (gets (\<lambda>s. isize (icache s i))) (\<lambda>sz.
       seq (if n > 0 \<and> off + n > sz then
              seq (modify (upd_ino i (\<lambda>x. x\<lparr>isize := off + n\<rparr>))) (iupdate i)
            else skip)
       (ret (int n)))))"

section \<open>Directories\<close>

definition namecmp :: "bytes \<Rightarrow> bytes \<Rightarrow> int" where
  "namecmp p q = strncmp p q DIRSIZ"

text \<open>The name in a \<open>struct dirent\<close>, and the offsets of the entries of a directory.\<close>

definition de_name :: "bytes \<Rightarrow> bytes" where
  "de_name de = (\<lambda>k. de (2 + k))"

definition de_offs :: "nat \<Rightarrow> nat list" where
  "de_offs n = map (\<lambda>k. 16 * k) [0..<(n + 15) div 16]"

definition dirlookup :: "'a fs_st_scheme devread \<Rightarrow> nat \<Rightarrow> bytes \<Rightarrow> ((nat \<times> nat) option, 'a fs_st_scheme) kop" where
  "dirlookup devsw dp name =
     bind (gets (\<lambda>s. icache s dp)) (\<lambda>ip.
     if itype ip \<noteq> T_DIR then panic ''dirlookup not DIR''
     else search (de_offs (isize ip)) (\<lambda>off.
       bind (readi devsw dp (\<lambda>_. 0) off 16) (\<lambda>(r, de).
       if r \<noteq> 16 then panic ''dirlookup read''
       else if get16 de 0 = 0 then ret None
       else if namecmp name (de_name de) = 0 then
         bind (iget (idev ip) (unat (get16 de 0))) (\<lambda>i. ret (Some (i, off)))
       else ret None)))"

definition mk_dirent :: "nat \<Rightarrow> bytes \<Rightarrow> bytes" where
  "mk_dirent n name = put16 0 (of_nat n) (splice (\<lambda>_. 0) 2 (strncpy (\<lambda>_. 0) name DIRSIZ) 0 DIRSIZ)"

definition dirlink ::
  "'a fs_st_scheme devread \<Rightarrow> 'a fs_st_scheme devwrite \<Rightarrow> nat \<Rightarrow> bytes \<Rightarrow> nat \<Rightarrow> (int, 'a fs_st_scheme) kop" where
  "dirlink devrd devwr dp name n =
     bind (dirlookup devrd dp name) (\<lambda>r.
     case r of
       Some (i, _) \<Rightarrow> seq (iput i) (ret (-1))
     | None \<Rightarrow>
         bind (gets (\<lambda>s. isize (icache s dp))) (\<lambda>sz.
         bind (search (de_offs sz) (\<lambda>off.
           bind (readi devrd dp (\<lambda>_. 0) off 16) (\<lambda>(r, de).
           if r \<noteq> 16 then panic ''dirlink read''
           else if get16 de 0 = 0 then ret (Some off) else ret None))) (\<lambda>r.
         let off = (case r of Some off \<Rightarrow> off | None \<Rightarrow> 16 * ((sz + 15) div 16)) in
         bind (writei devwr dp (mk_dirent n name) off 16) (\<lambda>r.
         if r \<noteq> 16 then panic ''dirlink'' else ret 0))))"

section \<open>Paths\<close>

text \<open>
  A path is its characters before the NUL. \<open>skipelem\<close> is given the buffer \<open>name\<close> points to and
  returns it with the element copied into it.
\<close>

definition skipelem :: "u8 list \<Rightarrow> bytes \<Rightarrow> (u8 list \<times> bytes) option" where
  "skipelem path name =
     (let path = dropWhile (\<lambda>c. c = 47) path in
      if path = [] then None
      else
        let s = takeWhile (\<lambda>c. c \<noteq> 47) path;
            path = dropWhile (\<lambda>c. c \<noteq> 47) path;
            len = length s;
            name = (if len \<ge> DIRSIZ then splice name 0 ((!) s) 0 DIRSIZ else (splice name 0 ((!) s) 0 len)(len := 0))
        in Some (dropWhile (\<lambda>c. c = 47) path, name))"

lemma length_skipelem: "skipelem path name = Some (path', name') \<Longrightarrow> length path' < length path"
proof -
  assume a: "skipelem path name = Some (path', name')"
  let ?p = "dropWhile (\<lambda>c. c = 47) path"
  have p: "?p \<noteq> []" "path' = dropWhile (\<lambda>c. c = 47) (dropWhile (\<lambda>c. c \<noteq> 47) ?p)"
    using a by (auto simp: skipelem_def Let_def split: if_splits)
  then have "length (dropWhile (\<lambda>c. c \<noteq> 47) ?p) < length ?p"
    using hd_dropWhile [of "\<lambda>c. c = 47" path] by (cases ?p) (auto simp: length_dropWhile_le less_Suc_eq_le)
  moreover have "length path' \<le> length (dropWhile (\<lambda>c. c \<noteq> 47) ?p)" unfolding p(2) by (rule length_dropWhile_le)
  moreover have "length ?p \<le> length path" by (rule length_dropWhile_le)
  ultimately show "length path' < length path" by simp
qed

function namex_loop ::
  "'a fs_st_scheme devread \<Rightarrow> bool \<Rightarrow> nat \<Rightarrow> u8 list \<Rightarrow> bytes \<Rightarrow> (nat option \<times> bytes, 'a fs_st_scheme) kop" where
  "namex_loop devsw nameiparent ip path name =
     (case skipelem path name of
        None \<Rightarrow> if nameiparent then seq (iput ip) (ret (None, name)) else ret (Some ip, name)
      | Some (path, name) \<Rightarrow>
          seq (ilock (Some ip))
          (bind (gets (\<lambda>s. itype (icache s ip))) (\<lambda>ty.
          if ty \<noteq> T_DIR then seq (iunlockput ip) (ret (None, name))
          else if nameiparent \<and> path = [] then seq (iunlock (Some ip)) (ret (Some ip, name))
          else
            bind (dirlookup devsw ip name) (\<lambda>r.
            case r of
              None \<Rightarrow> seq (iunlockput ip) (ret (None, name))
            | Some (next, _) \<Rightarrow> seq (iunlockput ip) (namex_loop devsw nameiparent next path name)))))"
  by pat_completeness auto
termination
  by (relation "measure (\<lambda>(devsw, np, ip, path, name). length path)") (auto dest: length_skipelem)

declare namex_loop.simps [simp del]

definition namex :: "'a fs_st_scheme devread \<Rightarrow> u8 list \<Rightarrow> bool \<Rightarrow> bytes \<Rightarrow> (nat option \<times> bytes, 'a fs_st_scheme) kop" where
  "namex devsw path nameiparent name =
     bind (if path \<noteq> [] \<and> hd path = 47 then iget ROOTDEV ROOTINO
           else bind cur (\<lambda>p. bind (gets (\<lambda>s. cwd (ptable s p))) idup)) (\<lambda>ip.
     namex_loop devsw nameiparent ip path name)"

definition namei :: "'a fs_st_scheme devread \<Rightarrow> u8 list \<Rightarrow> (nat option, 'a fs_st_scheme) kop" where
  "namei devsw path = bind (namex devsw path False (\<lambda>_. 0)) (\<lambda>(ip, _). ret ip)"

definition nameiparent :: "'a fs_st_scheme devread \<Rightarrow> u8 list \<Rightarrow> bytes \<Rightarrow> (nat option \<times> bytes, 'a fs_st_scheme) kop" where
  "nameiparent devsw path name = namex devsw path True name"

end
