(* ===== verification/Kalloc.thy ===== *)
theory Kalloc
  imports Fs
begin

text \<open>
  Physical page allocator (src/kalloc.c), with the address conversions of src/memlayout.h.

  Addresses are natural numbers below \<open>2 ^ 32\<close>; a pointer of the kernel is a virtual address at or
  above KERNBASE, and \<open>pmem\<close> is the physical memory it reaches. The free list is threaded through
  the free pages themselves, as in the code. \<open>sym_end\<close> and \<open>sym_data\<close> are the addresses the linker
  gives the symbols \<open>end\<close> and \<open>data\<close>.
\<close>

section \<open>Memory\<close>

abbreviation (input) PGSIZE :: nat where "PGSIZE \<equiv> 4096"
abbreviation (input) KERNBASE :: nat where "KERNBASE \<equiv> 0x80000000"
abbreviation (input) PHYSTOP :: nat where "PHYSTOP \<equiv> 0xE000000"
abbreviation (input) EXTMEM :: nat where "EXTMEM \<equiv> 0x100000"
abbreviation (input) DEVSPACE :: nat where "DEVSPACE \<equiv> 0xFE000000"

record mem_st = fs_st +
  pmem :: bytes
  freelist :: nat
  use_lock :: bool
  sym_end :: nat
  sym_data :: nat
  kpgdir :: nat
  cr3 :: nat
  ts_esp0 :: nat

definition PGROUNDUP :: "nat \<Rightarrow> nat" where
  "PGROUNDUP n = u32wrap (n + (PGSIZE - 1)) div PGSIZE * PGSIZE"

definition PGROUNDDOWN :: "nat \<Rightarrow> nat" where
  "PGROUNDDOWN a = a div PGSIZE * PGSIZE"

definition V2P :: "nat \<Rightarrow> (nat, 's) kop" where
  "V2P a = (if a < KERNBASE then panic ''V2P on address < KERNBASE'' else ret (a - KERNBASE))"

definition P2V :: "nat \<Rightarrow> (nat, 's) kop" where
  "P2V a = (if a > KERNBASE then panic ''P2V on address > KERNBASE'' else ret (u32wrap (a + KERNBASE)))"

text \<open>Loads and stores through a kernel pointer.\<close>

definition kload32 :: "nat \<Rightarrow> ('a mem_st_scheme) \<Rightarrow> u32" where
  "kload32 v s = get32 (pmem s) (v - KERNBASE)"

definition kstore32 :: "nat \<Rightarrow> u32 \<Rightarrow> 'a mem_st_scheme \<Rightarrow> 'a mem_st_scheme" where
  "kstore32 v x s = s\<lparr>pmem := put32 (v - KERNBASE) x (pmem s)\<rparr>"

definition kmemset :: "nat \<Rightarrow> u32 \<Rightarrow> nat \<Rightarrow> 'a mem_st_scheme \<Rightarrow> 'a mem_st_scheme" where
  "kmemset v c n s = s\<lparr>pmem := memset (pmem s) (v - KERNBASE) c n\<rparr>"

section \<open>Allocator\<close>

definition lock_kmem :: "(unit, 'a mem_st_scheme) kop" where
  "lock_kmem = bind (gets use_lock) (\<lambda>u. if u then acquire L_kmem else skip)"

definition unlock_kmem :: "(unit, 'a mem_st_scheme) kop" where
  "unlock_kmem = bind (gets use_lock) (\<lambda>u. if u then release L_kmem else skip)"

definition kfree :: "nat \<Rightarrow> (unit, 'a mem_st_scheme) kop" where
  "kfree v =
     bind (gets sym_end) (\<lambda>e.
     if v mod PGSIZE \<noteq> 0 \<or> v < e then panic ''kfree''
     else
       bind (V2P v) (\<lambda>pa.
       if pa \<ge> PHYSTOP then panic ''kfree''
       else
         seq (modify (kmemset v 1 PGSIZE))
         (seq lock_kmem
         (seq (modify (\<lambda>s. kstore32 v (of_nat (freelist s)) s))
         (seq (modify (\<lambda>s. s\<lparr>freelist := v\<rparr>))
         unlock_kmem)))))"

definition kalloc :: "(nat, 'a mem_st_scheme) kop" where
  "kalloc =
     seq lock_kmem
     (bind (gets freelist) (\<lambda>r.
     seq (if r \<noteq> 0 then modify (\<lambda>s. s\<lparr>freelist := unat (kload32 r s)\<rparr>) else skip)
     (seq unlock_kmem
     (ret r))))"

definition freerange :: "nat \<Rightarrow> nat \<Rightarrow> (unit, 'a mem_st_scheme) kop" where
  "freerange vstart vend =
     (if vend < vstart then panic ''freerange''
      else
        let p = PGROUNDUP vstart in
        foreach (map (\<lambda>k. p + k * PGSIZE) [0..<(vend - p) div PGSIZE]) kfree)"

definition kinit1 :: "nat \<Rightarrow> nat \<Rightarrow> (unit, 'a mem_st_scheme) kop" where
  "kinit1 vstart vend =
     seq (modify (\<lambda>s. s\<lparr>use_lock := False\<rparr>))
     (freerange vstart vend)"

definition kinit2 :: "nat \<Rightarrow> nat \<Rightarrow> (unit, 'a mem_st_scheme) kop" where
  "kinit2 vstart vend =
     seq (freerange vstart vend)
     (modify (\<lambda>s. s\<lparr>use_lock := True\<rparr>))"


section \<open>The free list\<close>

text \<open>A page the allocator accepts, and the list threaded through free pages from \<open>v\<close>.\<close>

definition kpage :: "'a mem_st_scheme \<Rightarrow> nat \<Rightarrow> bool" where
  "kpage s v \<longleftrightarrow> v mod PGSIZE = 0 \<and> sym_end s \<le> v \<and> KERNBASE < v \<and> v < KERNBASE + PHYSTOP"

primrec chain :: "bytes \<Rightarrow> nat \<Rightarrow> nat list \<Rightarrow> bool" where
  "chain m v [] \<longleftrightarrow> v = 0"
| "chain m v (p # ps) \<longleftrightarrow> v = p \<and> chain m (unat (get32 m (p - KERNBASE))) ps"

definition kmem_ok :: "'a mem_st_scheme \<Rightarrow> nat list \<Rightarrow> bool" where
  "kmem_ok s ps \<longleftrightarrow> chain (pmem s) (freelist s) ps \<and> distinct ps \<and> (\<forall>p \<in> set ps. kpage s p) \<and> L_kmem \<notin> set (held s)"

lemma pages_apart:
  assumes "v mod PGSIZE = 0" "w mod PGSIZE = 0" "v \<noteq> w"
  shows "v + PGSIZE \<le> w \<or> w + PGSIZE \<le> v"
proof -
  obtain i where i: "v = PGSIZE * i" using assms(1) by auto
  obtain j where j: "w = PGSIZE * j" using assms(2) by auto
  have "i < j \<or> j < i" using assms(3) i j by auto
  then show ?thesis using i j by auto
qed

text \<open>Only the pages on the list matter to it.\<close>

lemma chain_cong:
  "(\<And>p k. p \<in> set ps \<Longrightarrow> k < PGSIZE \<Longrightarrow> m' (p - KERNBASE + k) = m (p - KERNBASE + k)) \<Longrightarrow> chain m' v ps = chain m v ps"
proof (induction ps arbitrary: v)
  case (Cons p ps)
  have "m' (p - KERNBASE) = m (p - KERNBASE)" "m' (p - KERNBASE + 1) = m (p - KERNBASE + 1)"
    "m' (p - KERNBASE + 2) = m (p - KERNBASE + 2)" "m' (p - KERNBASE + 3) = m (p - KERNBASE + 3)"
    using Cons.prems [of p 0] Cons.prems [of p 1] Cons.prems [of p 2] Cons.prems [of p 3] by simp_all
  then have "get32 m' (p - KERNBASE) = get32 m (p - KERNBASE)" by (simp only: get32_def)
  then show ?case using Cons by simp
qed simp

lemma kmem_ok_frame:
  assumes "kmem_ok s ps" "freelist s' = freelist s" "sym_end s' = sym_end s" "L_kmem \<notin> set (held s')"
    and "\<And>p k. p \<in> set ps \<Longrightarrow> k < PGSIZE \<Longrightarrow> pmem s' (p - KERNBASE + k) = pmem s (p - KERNBASE + k)"
  shows "kmem_ok s' ps"
  using assms chain_cong [of ps "pmem s'" "pmem s"] by (simp add: kmem_ok_def kpage_def)

lemma page_bytes_apart:
  assumes "kpage s p" "kpage s v" "p \<noteq> v" "k < PGSIZE"
  shows "p - KERNBASE + k < v - KERNBASE \<or> v - KERNBASE + PGSIZE \<le> p - KERNBASE + k"
  using assms pages_apart [of p v] unfolding kpage_def by linarith

lemma kmem_lock_eq:
  "L_kmem \<notin> set (held s) \<Longrightarrow> lock_kmem s = Ok () (if use_lock s then s\<lparr>held := L_kmem # held s\<rparr> else s)"
  "L_kmem \<in> set (held s) \<or> \<not> use_lock s \<Longrightarrow> unlock_kmem s = Ok () (if use_lock s then s\<lparr>held := remove1 L_kmem (held s)\<rparr> else s)"
  by (auto simp: lock_kmem_def unlock_kmem_def acquire_def release_def)

lemma kalloc_some:
  assumes "kmem_ok s (p # ps)"
  shows "\<exists>s'. kalloc s = Ok p s' \<and> kmem_ok s' ps \<and> s' = s\<lparr>freelist := unat (kload32 p s)\<rparr>"
proof -
  have p: "freelist s = p" "p \<noteq> 0" "L_kmem \<notin> set (held s)" using assms by (auto simp: kmem_ok_def kpage_def)
  have "kalloc s = Ok p (s\<lparr>freelist := unat (kload32 p s)\<rparr>)"
    using p by (cases "use_lock s") (auto simp: kalloc_def kmem_lock_eq kload32_def intro!: mem_st.equality)
  moreover have "kmem_ok (s\<lparr>freelist := unat (kload32 p s)\<rparr>) ps"
    using assms by (auto simp: kmem_ok_def kpage_def kload32_def)
  ultimately show ?thesis by blast
qed

lemma kalloc_none:
  assumes "kmem_ok s []"
  shows "kalloc s = Ok 0 s"
  using assms by (cases "use_lock s") (simp_all add: kmem_ok_def kalloc_def kmem_lock_eq)

lemma kfree_page:
  assumes "kmem_ok s ps" "kpage s v" "v \<notin> set ps"
  shows "\<exists>s'. kfree v s = Ok () s' \<and> kmem_ok s' (v # ps) \<and> sym_end s' = sym_end s \<and> use_lock s' = use_lock s \<and> held s' = held s"
proof -
  let ?m = "put32 (v - KERNBASE) (of_nat (freelist s)) (memset (pmem s) (v - KERNBASE) 1 PGSIZE)"
  let ?s = "s\<lparr>pmem := ?m, freelist := v\<rparr>"
  have v: "\<not> (v mod PGSIZE \<noteq> 0 \<or> v < sym_end s)" "\<not> v < KERNBASE" "\<not> v - KERNBASE \<ge> PHYSTOP" "L_kmem \<notin> set (held s)"
    using assms(1,2) by (auto simp: kpage_def kmem_ok_def)
  have eq: "kfree v s = Ok () ?s"
    using v by (cases "use_lock s")
      (auto simp: kfree_def V2P_def kmem_lock_eq kmemset_def kstore32_def intro!: mem_st.equality)
  have frame: "?m (p - KERNBASE + k) = pmem s (p - KERNBASE + k)" if "p \<in> set ps" "k < PGSIZE" for p k
  proof -
    have "kpage s p" "p \<noteq> v" using assms that by (auto simp: kmem_ok_def)
    from page_bytes_apart [OF this(1) assms(2) this(2) that(2)] show ?thesis by (auto simp: memset_nth)
  qed
  have "freelist s < 4294967296"
    using assms(1) by (cases ps) (auto simp: kmem_ok_def kpage_def)
  then have "kmem_ok ?s (v # ps)"
    using assms chain_cong [of ps ?m "pmem s" "freelist s", OF frame] by (auto simp: kmem_ok_def kpage_def)
  then show ?thesis unfolding eq by fastforce
qed


section \<open>Pools of pages\<close>

text \<open>
  What the rest of the kernel does with the allocator: take pages, give back pages it owns, and
  write into pages it owns.
\<close>

datatype pool_op = Alloc | Free nat | Poke nat nat u8

primrec pool_run ::
  "(nat, 's) kop \<Rightarrow> (nat \<Rightarrow> (unit, 's) kop) \<Rightarrow> (nat \<Rightarrow> nat \<Rightarrow> u8 \<Rightarrow> 's \<Rightarrow> 's) \<Rightarrow> pool_op list \<Rightarrow> nat list \<Rightarrow> (nat list, 's) kop" where
  "pool_run alloc free poke [] own = ret own"
| "pool_run alloc free poke (r # rs) own = (case r of
     Alloc \<Rightarrow> bind alloc (\<lambda>p. pool_run alloc free poke rs (if p = 0 then own else p # own))
   | Free p \<Rightarrow>
       if p \<in> set own then seq (free p) (pool_run alloc free poke rs (remove1 p own))
       else pool_run alloc free poke rs own
   | Poke p k c \<Rightarrow>
       if p \<in> set own \<and> k < PGSIZE then seq (modify (poke p k c)) (pool_run alloc free poke rs own)
       else pool_run alloc free poke rs own)"

text \<open>The interface of the allocator: \<open>pool s ps\<close> says that \<open>ps\<close> are the free pages.\<close>

locale page_pool =
  fixes alloc :: "(nat, 's) kop" and free :: "nat \<Rightarrow> (unit, 's) kop" and poke :: "nat \<Rightarrow> nat \<Rightarrow> u8 \<Rightarrow> 's \<Rightarrow> 's"
    and pool :: "'s \<Rightarrow> nat list \<Rightarrow> bool" and page :: "'s \<Rightarrow> nat \<Rightarrow> bool"
  assumes pool_pages: "pool s ps \<Longrightarrow> distinct ps \<and> (\<forall>p \<in> set ps. page s p \<and> p \<noteq> 0)"
    and alloc_some: "pool s (p # ps) \<Longrightarrow> \<exists>s'. alloc s = Ok p s' \<and> pool s' ps \<and> page s' = page s"
    and alloc_none: "pool s [] \<Longrightarrow> alloc s = Ok 0 s"
    and free_page: "pool s ps \<Longrightarrow> page s p \<Longrightarrow> p \<notin> set ps \<Longrightarrow> \<exists>s'. free p s = Ok () s' \<and> pool s' (p # ps) \<and> page s' = page s"
    and poke_page: "pool s ps \<Longrightarrow> page s p \<Longrightarrow> p \<notin> set ps \<Longrightarrow> k < PGSIZE
      \<Longrightarrow> pool (poke p k c s) ps \<and> page (poke p k c s) = page s"
begin

lemma run_exclusive:
  assumes "pool s ps" "distinct (own @ ps)" "\<forall>p \<in> set own. page s p"
  shows "\<exists>own' s' ps'. pool_run alloc free poke rs own s = Ok own' s' \<and> pool s' ps' \<and> distinct (own' @ ps')
    \<and> set own' \<union> set ps' = set own \<union> set ps"
  using assms
proof (induction rs arbitrary: s ps own)
  case Nil
  then show ?case by auto
next
  case (Cons r rs)
  show ?case
  proof (cases r)
    case Alloc
    show ?thesis
    proof (cases ps)
      case Nil
      then have "pool_run alloc free poke (r # rs) own s = pool_run alloc free poke rs own s"
        using Cons.prems(1) Alloc alloc_none [of s] by simp
      then show ?thesis using Cons.IH [OF Cons.prems] by simp
    next
      case (Cons p qs)
      obtain s' where s': "alloc s = Ok p s'" "pool s' qs" "page s' = page s"
        using alloc_some [of s p qs] Cons.prems(1) local.Cons by blast
      have p: "p \<noteq> 0" "page s p" using pool_pages [OF Cons.prems(1)] local.Cons by auto
      have "distinct ((p # own) @ qs)" "\<forall>p \<in> set (p # own). page s' p"
        using Cons.prems(2,3) p s'(3) local.Cons by auto
      from Cons.IH [OF s'(2) this] show ?thesis using s'(1) p local.Cons Alloc by auto
    qed
  next
    case (Free p)
    show ?thesis
    proof (cases "p \<in> set own")
      case True
      then obtain s' where s': "free p s = Ok () s'" "pool s' (p # ps)" "page s' = page s"
        using free_page [of s ps p] Cons.prems by auto
      have own: "distinct (remove1 p own @ p # ps)" "\<forall>p \<in> set (remove1 p own). page s' p"
        using Cons.prems(2,3) s'(3) True by (auto dest: in_set_remove1 notin_set_remove1)
      have all: "set (remove1 p own) \<union> set (p # ps) = set own \<union> set ps" using Cons.prems(2) True by auto
      have run: "pool_run alloc free poke (r # rs) own s = pool_run alloc free poke rs (remove1 p own) s'"
        using s'(1) True Free by simp
      show ?thesis using Cons.IH [OF s'(2) own] unfolding run all .
    qed (use Cons Free in simp)
  next
    case (Poke p k c)
    show ?thesis
    proof (cases "p \<in> set own \<and> k < PGSIZE")
      case True
      then have "pool (poke p k c s) ps" "page (poke p k c s) = page s"
        using poke_page [of s ps p k c] Cons.prems by auto
      then show ?thesis using Cons.IH [of "poke p k c s" ps own] Cons.prems True Poke by simp
    qed (use Cons Poke in auto)
  qed
qed

end

definition kpoke :: "nat \<Rightarrow> nat \<Rightarrow> u8 \<Rightarrow> 'a mem_st_scheme \<Rightarrow> 'a mem_st_scheme" where
  "kpoke p k c s = s\<lparr>pmem := (pmem s)(p - KERNBASE + k := c)\<rparr>"

interpretation kmem: page_pool kalloc kfree kpoke kmem_ok kpage
proof
  fix s :: "'a mem_st_scheme" and ps p k and c :: u8
  show "distinct ps \<and> (\<forall>p \<in> set ps. kpage s p \<and> p \<noteq> 0)" if "kmem_ok s ps"
    using that by (auto simp: kmem_ok_def kpage_def)
  show "\<exists>s'. kalloc s = Ok p s' \<and> kmem_ok s' ps \<and> kpage s' = kpage s" if "kmem_ok s (p # ps)"
    using kalloc_some [OF that] by (auto simp: kpage_def fun_eq_iff)
  show "kalloc s = Ok 0 s" if "kmem_ok s []"
    by (rule kalloc_none [OF that])
  show "\<exists>s'. kfree p s = Ok () s' \<and> kmem_ok s' (p # ps) \<and> kpage s' = kpage s" if "kmem_ok s ps" "kpage s p" "p \<notin> set ps"
    using kfree_page [OF that] by (auto simp: kpage_def fun_eq_iff)
  show "kmem_ok (kpoke p k c s) ps \<and> kpage (kpoke p k c s) = kpage s"
    if a: "kmem_ok s ps" "kpage s p" "p \<notin> set ps" "k < PGSIZE"
  proof
    show "kmem_ok (kpoke p k c s) ps"
    proof (rule kmem_ok_frame [OF a(1)])
      fix q j assume q: "q \<in> set ps" "j < PGSIZE"
      then have "kpage s q" "q \<noteq> p" using a by (auto simp: kmem_ok_def)
      from page_bytes_apart [OF this(1) a(2) this(2) q(2)] a(4)
      show "pmem (kpoke p k c s) (q - KERNBASE + j) = pmem s (q - KERNBASE + j)" by (auto simp: kpoke_def)
    qed (use a(1) in \<open>simp_all add: kpoke_def kmem_ok_def\<close>)
  qed (simp add: kpoke_def kpage_def fun_eq_iff)
qed


section \<open>Filling the pool\<close>

text \<open>The whole pages of a range of addresses.\<close>

definition range_pages :: "nat \<Rightarrow> nat \<Rightarrow> nat set" where
  "range_pages v e = {p. p mod PGSIZE = 0 \<and> v \<le> p \<and> p + PGSIZE \<le> e}"

lemma PGROUNDUP_eq: "v + PGSIZE \<le> 2 ^ 32 \<Longrightarrow> PGROUNDUP v = (v + 4095) div PGSIZE * PGSIZE"
  by (simp add: PGROUNDUP_def)

lemma range_pages_list:
  assumes "e \<le> KERNBASE + PHYSTOP" "v \<le> e"
  defines "p \<equiv> PGROUNDUP v"
  shows "set (map (\<lambda>k. p + k * PGSIZE) [0..<(e - p) div PGSIZE]) = range_pages v e"
proof (intro equalityI subsetI)
  have p: "p = (v + 4095) div PGSIZE * PGSIZE" using assms(1,2) unfolding p_def by (intro PGROUNDUP_eq) simp
  have vp: "v \<le> p" "p mod PGSIZE = 0" unfolding p by simp_all
  fix x
  {
    assume "x \<in> set (map (\<lambda>k. p + k * PGSIZE) [0..<(e - p) div PGSIZE])"
    then obtain k where k: "x = p + k * PGSIZE" "k < (e - p) div PGSIZE" by auto
    then have "k * PGSIZE + PGSIZE \<le> e - p" by linarith
    then have "p + k * PGSIZE + PGSIZE \<le> e" by linarith
    then show "x \<in> range_pages v e" using k(1) vp by (simp add: range_pages_def)
  next
    assume "x \<in> range_pages v e"
    then have x: "x mod PGSIZE = 0" "v \<le> x" "x + PGSIZE \<le> e" by (simp_all add: range_pages_def)
    obtain a where a: "x = a * PGSIZE" using x(1) by (auto elim: dvdE)
    have "(v + 4095) div PGSIZE \<le> a" using x(2) unfolding a by simp
    then have k: "x = p + (a - (v + 4095) div PGSIZE) * PGSIZE" unfolding a p by (simp flip: add_mult_distrib)
    define k where "k = a - (v + 4095) div PGSIZE"
    note k = k [folded k_def]
    then have "k < (e - p) div PGSIZE" using x(3) by linarith
    then show "x \<in> set (map (\<lambda>k. p + k * PGSIZE) [0..<(e - p) div PGSIZE])" using k by auto
  }
qed


lemma foreach_kfree:
  assumes "kmem_ok s ps" "distinct (qs @ ps)" "\<forall>q \<in> set qs. kpage s q"
  shows "\<exists>s'. foreach qs kfree s = Ok () s' \<and> kmem_ok s' (rev qs @ ps) \<and> sym_end s' = sym_end s \<and> use_lock s' = use_lock s
    \<and> held s' = held s"
  using assms
proof (induction qs arbitrary: s ps)
  case (Cons q qs)
  obtain s' where s': "kfree q s = Ok () s'" "kmem_ok s' (q # ps)" "sym_end s' = sym_end s" "use_lock s' = use_lock s" "held s' = held s"
    using kfree_page [of s ps q] Cons.prems by auto
  have "distinct (qs @ q # ps)" "\<forall>q \<in> set qs. kpage s' q" using Cons.prems s'(3) by (auto simp: kpage_def)
  from Cons.IH [OF s'(2) this] s' show ?case by auto
qed auto

text \<open>
  C29 \<open>freerange\<close> (with which \<open>kinit1\<close> and \<open>kinit2\<close> fill the free list at boot) puts exactly the whole pages of
  the range on the list, in front of those it has, provided they are beyond the kernel and below PHYSTOP
  and none of them is free already.
\<close>

theorem freerange_adds_pages:
  assumes "kmem_ok s ps" "sym_end s \<le> vstart" "KERNBASE < vstart" "vstart \<le> vend" "vend \<le> KERNBASE + PHYSTOP"
    "range_pages vstart vend \<inter> set ps = {}"
  shows "\<exists>s' qs. freerange vstart vend s = Ok () s' \<and> kmem_ok s' (qs @ ps) \<and> set qs = range_pages vstart vend"
proof -
  define p where "p = PGROUNDUP vstart"
  define qs where "qs = map (\<lambda>k. p + k * PGSIZE) [0..<(vend - p) div PGSIZE]"
  have qs: "set qs = range_pages vstart vend" unfolding qs_def p_def by (rule range_pages_list [OF assms(5,4)])
  have "distinct qs" by (simp add: qs_def distinct_map inj_on_def)
  then have "distinct (qs @ ps)" using assms(1,6) qs by (auto simp: kmem_ok_def)
  moreover have "\<forall>q \<in> set qs. kpage s q" using assms(2,3,5) qs by (auto simp: range_pages_def kpage_def)
  ultimately obtain s' where s': "foreach qs kfree s = Ok () s'" "kmem_ok s' (rev qs @ ps)"
    using foreach_kfree [OF assms(1)] by blast
  have "freerange vstart vend s = Ok () s'"
    using s'(1) assms(4) by (simp add: freerange_def Let_def flip: p_def qs_def)
  then show ?thesis using s'(2) qs by (intro exI [of _ s'] exI [of _ "rev qs"]) simp
qed

text \<open>
  C10 No page is handed out twice and none is lost: whatever sequence of \<open>kalloc\<close>, \<open>kfree\<close> of owned pages
  and writes into owned pages the kernel runs (the free list being threaded through the free pages
  themselves), it neither panics nor gives two owners the same page, and the pages owned and the pages
  free are always together the pages there were.
\<close>

theorem kalloc_exclusive:
  assumes "kmem_ok s ps"
  shows "\<exists>own s' qs. pool_run kalloc kfree kpoke rs [] s = Ok own s' \<and> kmem_ok s' qs \<and> distinct (own @ qs)
    \<and> set own \<union> set qs = set ps"
  using kmem.run_exclusive [OF assms, of "[]" rs] assms by (simp add: kmem_ok_def)

text \<open>A kernel that ends at 2MB and has not freed anything yet.\<close>

definition ex_mem :: mem_st where
  "ex_mem = bio_st.extend ex_boot
     \<lparr>log = \<lparr>start = 2, lsize = 30, outstanding = 0, committing = False, ldev = 1, lh_n = 0, lh_block = (\<lambda>_. 0)\<rparr>,
      sb = \<lparr>sb_size = 1000, sb_nblocks = 941, sb_ninodes = 200, sb_nlog = 30, sb_logstart = 2, sb_inodestart = 32,
        sb_bmapstart = 58\<rparr>,
      icache = (\<lambda>_. \<lparr>idev = 0, inum = 0, iref = 0, ivalid = False, itype = 0, imajor = 0, iminor = 0, nlink = 0,
        isize = 0, addrs = (\<lambda>_. 0)\<rparr>),
      pmem = (\<lambda>_. 0), freelist = 0, use_lock = False, sym_end = 0x80200000, sym_data = 0x80180000, kpgdir = 0, cr3 = 0,
      ts_esp0 = 0\<rparr>"

lemma ex_mem_ok: "kmem_ok ex_mem []" "sym_end ex_mem = 0x80200000"
  by (simp_all add: kmem_ok_def ex_mem_def bio_st.defs ex_boot_def ex_bio_def)

theorem freerange_adds_pages_witness:
  "\<exists>(s :: mem_st) s' qs. sym_end s \<le> 0x80200123 \<and> freerange 0x80200123 0x80400000 s = Ok () s' \<and> kmem_ok s' qs
    \<and> 0x80201000 \<in> set qs \<and> 0x80200000 \<notin> set qs"
proof -
  have "\<exists>s' qs. freerange 0x80200123 0x80400000 ex_mem = Ok () s' \<and> kmem_ok s' (qs @ []) \<and> set qs = range_pages 0x80200123 0x80400000"
    by (rule freerange_adds_pages) (simp_all add: ex_mem_ok)
  then obtain s' qs where *: "freerange 0x80200123 0x80400000 ex_mem = Ok () s'" "kmem_ok s' qs"
    "set qs = range_pages 0x80200123 0x80400000" by auto
  have "0x80201000 \<in> set qs" "0x80200000 \<notin> set qs" unfolding *(3) by (simp_all add: range_pages_def)
  with * ex_mem_ok(2) show ?thesis by (intro exI [of _ ex_mem] exI [of _ s'] exI [of _ qs]) simp
qed

lemma ex_pool:
  obtains s :: mem_st and ps where "kmem_ok s ps" "set ps = {0x80200000, 0x80201000}" "held s = []"
proof -
  have "\<exists>s'. foreach [0x80200000, 0x80201000] kfree ex_mem = Ok () s' \<and> kmem_ok s' (rev [0x80200000, 0x80201000] @ [])
    \<and> sym_end s' = sym_end ex_mem \<and> use_lock s' = use_lock ex_mem \<and> held s' = held ex_mem"
    by (rule foreach_kfree) (simp_all add: ex_mem_ok kpage_def)
  then obtain s :: mem_st where "kmem_ok s [0x80201000, 0x80200000]" "held s = held ex_mem" by auto
  then show thesis by (intro that [of s]) (auto simp: ex_mem_def bio_st.defs ex_boot_def ex_bio_def)
qed

theorem kalloc_exclusive_witness:
  "\<exists>(s :: mem_st) ps own s' qs. kmem_ok s ps \<and> pool_run kalloc kfree kpoke [Alloc, Alloc, Alloc] [] s = Ok own s' \<and> distinct (own @ qs)
    \<and> set own \<union> set qs = {0x80200000, 0x80201000}"
proof -
  obtain s :: mem_st and ps where s: "kmem_ok s ps" "set ps = {0x80200000, 0x80201000}" by (rule ex_pool)
  from kalloc_exclusive [OF s(1), of "[Alloc, Alloc, Alloc]"] s show ?thesis by metis
qed

end
