(* ===== verification/Vm.thy ===== *)
theory Vm
  imports Kalloc
begin

text \<open>
  Page tables (src/vm.c) on the physical memory of theory Kalloc. A page directory is the kernel
  address of its page; \<open>walkpgdir\<close> returns the kernel address of an entry. \<open>cr3\<close> is the page table
  register and \<open>ts_esp0\<close> the kernel stack in the task state segment; \<open>seginit\<close> and
  the descriptors are in theory Hw. \<open>switchuvm\<close> also loads the descriptor of the task state segment, and \<open>allocuvm\<close> prints a message when it
  runs out of memory; both are left out.
\<close>

section \<open>Page table entries (mmu.h)\<close>

abbreviation (input) PTE_P :: u32 where "PTE_P \<equiv> 1"
abbreviation (input) PTE_W :: u32 where "PTE_W \<equiv> 2"
abbreviation (input) PTE_U :: u32 where "PTE_U \<equiv> 4"

definition PDX :: "nat \<Rightarrow> nat" where
  "PDX va = va div 2 ^ 22 mod 1024"

definition PTX :: "nat \<Rightarrow> nat" where
  "PTX va = va div 2 ^ 12 mod 1024"

definition PTE_ADDR :: "u32 \<Rightarrow> nat" where
  "PTE_ADDR pte = unat (pte AND NOT 0xFFF)"

definition PTE_FLAGS :: "u32 \<Rightarrow> u32" where
  "PTE_FLAGS pte = pte AND 0xFFF"

section \<open>Walking and mapping\<close>

text \<open>The null pointer is \<open>None\<close>.\<close>

definition walkpgdir :: "nat \<Rightarrow> nat \<Rightarrow> bool \<Rightarrow> (nat option, 'a mem_st_scheme) kop" where
  "walkpgdir pgd va alloc =
     (let pde = pgd + 4 * PDX va in
      bind (gets (kload32 pde)) (\<lambda>e.
      if e AND PTE_P \<noteq> 0 then
        bind (P2V (PTE_ADDR e)) (\<lambda>pgtab. ret (Some (pgtab + 4 * PTX va)))
      else if \<not> alloc then ret None
      else
        bind kalloc (\<lambda>pgtab.
        if pgtab = 0 then ret None
        else
          seq (modify (kmemset pgtab 0 PGSIZE))
          (bind (V2P pgtab) (\<lambda>pa.
          seq (modify (kstore32 pde (of_nat pa OR PTE_P OR PTE_W OR PTE_U)))
          (ret (Some (pgtab + 4 * PTX va))))))))"

text \<open>One round of the loop of \<open>mappages\<close>, and the loop with \<open>n\<close> rounds after the first.\<close>

definition map_one :: "nat \<Rightarrow> nat \<Rightarrow> nat \<Rightarrow> u32 \<Rightarrow> (int, 'a mem_st_scheme) kop" where
  "map_one pgd a pa perm =
     bind (walkpgdir pgd a True) (\<lambda>r.
     case r of
       None \<Rightarrow> ret (-1)
     | Some pte \<Rightarrow>
         bind (gets (kload32 pte)) (\<lambda>e.
         if e AND PTE_P \<noteq> 0 then panic ''remap''
         else seq (modify (kstore32 pte (of_nat pa OR perm OR PTE_P))) (ret 0)))"

primrec mappages_loop :: "nat \<Rightarrow> nat \<Rightarrow> nat \<Rightarrow> nat \<Rightarrow> u32 \<Rightarrow> (int, 'a mem_st_scheme) kop" where
  "mappages_loop 0 pgd a pa perm = map_one pgd a pa perm"
| "mappages_loop (Suc n) pgd a pa perm =
     bind (map_one pgd a pa perm) (\<lambda>r.
     if r < 0 then ret r
     else mappages_loop n pgd (u32wrap (a + PGSIZE)) (u32wrap (pa + PGSIZE)) perm)"

text \<open>
  The loop ends when \<open>a\<close>, which grows by PGSIZE modulo \<open>2 ^ 32\<close>, has become \<open>last\<close>; this fixes
  the number of rounds.
\<close>

definition mappages :: "nat \<Rightarrow> nat \<Rightarrow> nat \<Rightarrow> nat \<Rightarrow> u32 \<Rightarrow> (int, 'a mem_st_scheme) kop" where
  "mappages pgd va n pa perm =
     (let a = PGROUNDDOWN va;
          last = PGROUNDDOWN (u32wrap (va + n + (2 ^ 32 - 1)))
      in mappages_loop (u32wrap (last + 2 ^ 32 - a) div PGSIZE) pgd a pa perm)"

section \<open>Removing mappings\<close>

text \<open>
  The loop of \<open>deallocuvm\<close>. No caller passes an \<open>oldsz\<close> above KERNBASE, so that the addresses do not
  wrap around.
\<close>

function deallocuvm_loop :: "nat \<Rightarrow> nat \<Rightarrow> nat \<Rightarrow> (unit, 'a mem_st_scheme) kop" where
  "deallocuvm_loop pgd oldsz a =
     (if a < oldsz then
        bind (walkpgdir pgd a False) (\<lambda>r.
        case r of
          None \<Rightarrow> deallocuvm_loop pgd oldsz ((a div 2 ^ 22 + 1) * 2 ^ 22)
        | Some pte \<Rightarrow>
            bind (gets (kload32 pte)) (\<lambda>e.
            seq (if e AND PTE_P \<noteq> 0 then
                   (if PTE_ADDR e = 0 then panic ''kfree''
                    else
                      bind (P2V (PTE_ADDR e)) (\<lambda>v.
                      seq (kfree v)
                      (modify (kstore32 pte 0))))
                 else skip)
            (deallocuvm_loop pgd oldsz (a + PGSIZE))))
      else skip)"
  by pat_completeness auto
termination
proof (relation "measure (\<lambda>(pgd, oldsz, a). oldsz - a)")
  fix pgd oldsz a :: nat
  assume "a < oldsz"
  moreover have "a < (a div 2 ^ 22 + 1) * 2 ^ 22" using mult_div_mod_eq [of "2 ^ 22" a] mod_less_divisor [of "2 ^ 22" a] by simp
  ultimately show "((pgd, oldsz, (a div 2 ^ 22 + 1) * 2 ^ 22), (pgd, oldsz, a)) \<in> measure (\<lambda>(pgd, oldsz, a). oldsz - a)" by auto
qed auto

declare deallocuvm_loop.simps [simp del]

definition deallocuvm :: "nat \<Rightarrow> nat \<Rightarrow> nat \<Rightarrow> (nat, 'a mem_st_scheme) kop" where
  "deallocuvm pgd oldsz newsz =
     (if newsz \<ge> oldsz then ret oldsz
      else seq (deallocuvm_loop pgd oldsz (PGROUNDUP newsz)) (ret newsz))"

definition freevm :: "nat \<Rightarrow> (unit, 'a mem_st_scheme) kop" where
  "freevm pgd =
     (if pgd = 0 then panic ''freevm: no pgdir''
      else
        seq (deallocuvm pgd KERNBASE 0)
        (seq (foreach [0..<1024] (\<lambda>i.
          bind (gets (kload32 (pgd + 4 * i))) (\<lambda>e.
          if e AND PTE_P \<noteq> 0 then bind (P2V (PTE_ADDR e)) kfree else skip)))
        (kfree pgd)))"

section \<open>Kernel part of an address space\<close>

text \<open>The table \<open>kmap\<close>: virtual address, first and last physical address, permissions.\<close>

definition kmap :: "nat \<Rightarrow> (nat \<times> nat \<times> nat \<times> u32) list" where
  "kmap dat =
     [(KERNBASE, 0, EXTMEM, PTE_W),
      (KERNBASE + EXTMEM, EXTMEM, dat - KERNBASE, 0),
      (dat, dat - KERNBASE, PHYSTOP, PTE_W),
      (DEVSPACE, DEVSPACE, 0, PTE_W)]"

definition setupkvm :: "(nat, 'a mem_st_scheme) kop" where
  "setupkvm =
     bind kalloc (\<lambda>pgd.
     if pgd = 0 then ret 0
     else
       seq (modify (kmemset pgd 0 PGSIZE))
       (bind (P2V PHYSTOP) (\<lambda>top.
       if top > DEVSPACE then panic ''PHYSTOP too high''
       else
         bind (gets sym_data) (\<lambda>dat.
         bind (search (kmap dat) (\<lambda>(virt, phys_start, phys_end, perm).
           bind (mappages pgd virt (u32wrap (phys_end + 2 ^ 32 - phys_start)) phys_start perm) (\<lambda>r.
           if r < 0 then seq (freevm pgd) (ret (Some ())) else ret None))) (\<lambda>r.
         case r of Some _ \<Rightarrow> ret 0 | None \<Rightarrow> ret pgd)))))"

definition switchkvm :: "(unit, 'a mem_st_scheme) kop" where
  "switchkvm =
     bind (gets kpgdir) (\<lambda>k.
     bind (V2P k) (\<lambda>pa.
     modify (\<lambda>s. s\<lparr>cr3 := pa\<rparr>)))"

definition kvmalloc :: "(unit, 'a mem_st_scheme) kop" where
  "kvmalloc =
     bind setupkvm (\<lambda>k.
     seq (modify (\<lambda>s. s\<lparr>kpgdir := k\<rparr>))
     switchkvm)"

definition switchuvm :: "nat option \<Rightarrow> (unit, 'a mem_st_scheme) kop" where
  "switchuvm pp =
     (case pp of
        None \<Rightarrow> panic ''switchuvm: no process''
      | Some p \<Rightarrow>
          bind (gets (\<lambda>s. ptable s p)) (\<lambda>x.
          if kstack x = 0 then panic ''switchuvm: no kstack''
          else if pgdir x = 0 then panic ''switchuvm: no pgdir''
          else
            seq (modify (\<lambda>s. s\<lparr>ts_esp0 := u32wrap (unat (kstack x) + 4096)\<rparr>))
            (bind (V2P (unat (pgdir x))) (\<lambda>pa.
            modify (\<lambda>s. s\<lparr>cr3 := pa\<rparr>)))))"

section \<open>User part\<close>

definition inituvm :: "nat \<Rightarrow> bytes \<Rightarrow> nat \<Rightarrow> (unit, 'a mem_st_scheme) kop" where
  "inituvm pgd init n =
     (if n \<ge> PGSIZE then panic ''inituvm: more than a page''
      else
        bind kalloc (\<lambda>mem.
        seq (modify (kmemset mem 0 PGSIZE))
        (bind (V2P mem) (\<lambda>pa.
        seq (mappages pgd 0 PGSIZE pa (PTE_W OR PTE_U))
        (modify (\<lambda>s. s\<lparr>pmem := splice (pmem s) (mem - KERNBASE) init 0 n\<rparr>))))))"

definition loaduvm ::
  "'a mem_st_scheme devread \<Rightarrow> nat \<Rightarrow> nat \<Rightarrow> nat \<Rightarrow> nat \<Rightarrow> nat \<Rightarrow> (int, 'a mem_st_scheme) kop" where
  "loaduvm devsw pgd addr ip offset n =
     (if addr mod PGSIZE \<noteq> 0 then panic ''loaduvm: addr must be page aligned''
      else
        bind (search (map (\<lambda>k. k * PGSIZE) [0..<(n + PGSIZE - 1) div PGSIZE]) (\<lambda>i.
          bind (walkpgdir pgd (u32wrap (addr + i)) False) (\<lambda>r.
          case r of
            None \<Rightarrow> panic ''loaduvm: address should exist''
          | Some pte \<Rightarrow>
              bind (gets (kload32 pte)) (\<lambda>e.
              let m = (if n - i < PGSIZE then n - i else PGSIZE) in
              bind (P2V (PTE_ADDR e)) (\<lambda>dst.
              bind (gets pmem) (\<lambda>pm.
              bind (readi devsw ip (\<lambda>k. pm (dst - KERNBASE + k)) (u32wrap (offset + i)) m) (\<lambda>(r, buf).
              seq (modify (\<lambda>s. s\<lparr>pmem := splice (pmem s) (dst - KERNBASE) buf 0 m\<rparr>))
              (if r \<noteq> int m then ret (Some ()) else ret None))))))) ) (\<lambda>r.
        case r of Some _ \<Rightarrow> ret (-1) | None \<Rightarrow> ret 0))"

definition allocuvm :: "nat \<Rightarrow> nat \<Rightarrow> nat \<Rightarrow> (nat, 'a mem_st_scheme) kop" where
  "allocuvm pgd oldsz newsz =
     (if newsz \<ge> KERNBASE then ret 0
      else if newsz < oldsz then ret oldsz
      else
        let a0 = PGROUNDUP oldsz in
        bind (search (map (\<lambda>k. a0 + k * PGSIZE) [0..<(newsz - a0 + PGSIZE - 1) div PGSIZE]) (\<lambda>a.
          bind kalloc (\<lambda>mem.
          if mem = 0 then
            seq (deallocuvm pgd newsz oldsz) (ret (Some ()))
          else
            seq (modify (kmemset mem 0 PGSIZE))
            (bind (V2P mem) (\<lambda>pa.
            bind (mappages pgd a PGSIZE pa (PTE_W OR PTE_U)) (\<lambda>r.
            if r < 0 then
              seq (deallocuvm pgd newsz oldsz)
              (seq (kfree mem) (ret (Some ())))
            else ret None)))))) (\<lambda>r.
        case r of Some _ \<Rightarrow> ret 0 | None \<Rightarrow> ret newsz))"

definition clearpteu :: "nat \<Rightarrow> nat \<Rightarrow> (unit, 'a mem_st_scheme) kop" where
  "clearpteu pgd uva =
     bind (walkpgdir pgd uva False) (\<lambda>r.
     case r of
       None \<Rightarrow> panic ''clearpteu''
     | Some pte \<Rightarrow> modify (\<lambda>s. kstore32 pte (kload32 pte s AND NOT PTE_U) s))"

definition copyuvm :: "nat \<Rightarrow> nat \<Rightarrow> (nat, 'a mem_st_scheme) kop" where
  "copyuvm pgd n =
     bind setupkvm (\<lambda>d.
     if d = 0 then ret 0
     else
       bind (search (map (\<lambda>k. k * PGSIZE) [0..<(n + PGSIZE - 1) div PGSIZE]) (\<lambda>i.
         bind (walkpgdir pgd i False) (\<lambda>r.
         case r of
           None \<Rightarrow> panic ''copyuvm: pte should exist''
         | Some pte \<Rightarrow>
             bind (gets (kload32 pte)) (\<lambda>e.
             if e AND PTE_P = 0 then panic ''copyuvm: page not present''
             else
               bind kalloc (\<lambda>mem.
               if mem = 0 then ret (Some ())
               else
                 bind (P2V (PTE_ADDR e)) (\<lambda>src.
                 seq (modify (\<lambda>s. s\<lparr>pmem := splice (pmem s) (mem - KERNBASE) (pmem s) (src - KERNBASE) PGSIZE\<rparr>))
                 (bind (V2P mem) (\<lambda>pa.
                 bind (mappages d i PGSIZE pa (PTE_FLAGS e)) (\<lambda>r.
                 if r < 0 then seq (kfree mem) (ret (Some ())) else ret None)))))))) ) (\<lambda>r.
       case r of Some _ \<Rightarrow> seq (freevm d) (ret 0) | None \<Rightarrow> ret d))"

section \<open>User addresses\<close>

text \<open>The translation the hardware makes with page directory \<open>pgd\<close> in memory \<open>m\<close>.\<close>

definition va2pa :: "bytes \<Rightarrow> nat \<Rightarrow> nat \<Rightarrow> nat option" where
  "va2pa m pgd va =
     (let e = get32 m (pgd - KERNBASE + 4 * PDX va) in
      if e AND PTE_P = 0 then None
      else
        let t = get32 m (PTE_ADDR e + 4 * PTX va) in
        if t AND PTE_P = 0 then None else Some (PTE_ADDR t + va mod PGSIZE))"

text \<open>
  \<open>uva2ka\<close> does not test the pointer \<open>walkpgdir\<close> returns; following the null pointer reads the bytes
  mapped at address 0 of the current address space, which the model makes a fault.
\<close>

definition uva2ka :: "nat \<Rightarrow> nat \<Rightarrow> (nat, 'a mem_st_scheme) kop" where
  "uva2ka pgd uva =
     bind (walkpgdir pgd uva False) (\<lambda>r.
     case r of
       None \<Rightarrow> panic ''null pointer''
     | Some pte \<Rightarrow>
         bind (gets (kload32 pte)) (\<lambda>e.
         if e AND PTE_P = 0 then ret 0
         else if e AND PTE_U = 0 then ret 0
         else P2V (PTE_ADDR e)))"

function copyout_loop :: "nat \<Rightarrow> nat \<Rightarrow> bytes \<Rightarrow> nat \<Rightarrow> nat \<Rightarrow> (int, 'a mem_st_scheme) kop" where
  "copyout_loop pgd va buf k len =
     (if len > 0 then
        (let va0 = PGROUNDDOWN va;
             n = min (PGSIZE - (va - va0)) len
         in
         bind (uva2ka pgd va0) (\<lambda>pa0.
         if pa0 = 0 then ret (-1)
         else
           seq (modify (\<lambda>s. s\<lparr>pmem := splice (pmem s) (pa0 - KERNBASE + (va - va0)) buf k n\<rparr>))
           (copyout_loop pgd (u32wrap (va0 + PGSIZE)) buf (k + n) (len - n))))
      else ret 0)"
  by pat_completeness auto
termination
proof (relation "measure (\<lambda>(pgd, va, buf, k, len). len)")
  fix pgd va va0 n k len :: nat and buf :: bytes and pa0 :: nat and x
  assume "0 < len" "va0 = PGROUNDDOWN va" "n = min (PGSIZE - (va - va0)) len"
  moreover have "va - PGROUNDDOWN va < PGSIZE"
    unfolding PGROUNDDOWN_def using mod_less_divisor [of PGSIZE va] by (simp add: minus_div_mult_eq_mod)
  ultimately show "((pgd, u32wrap (va0 + PGSIZE), buf, k + n, len - n), (pgd, va, buf, k, len)) \<in> measure (\<lambda>(pgd, va, buf, k, len). len)"
    by (auto simp: min_def)
qed auto

declare copyout_loop.simps [simp del]

definition copyout :: "nat \<Rightarrow> nat \<Rightarrow> bytes \<Rightarrow> nat \<Rightarrow> (int, 'a mem_st_scheme) kop" where
  "copyout pgd va buf len = copyout_loop pgd va buf 0 len"

end
