(* ===== verification/Fifo.thy ===== *)
theory Fifo
  imports Prelude
begin

text \<open>
  Bounded queues kept in a ring of bytes by two free-running counters, as the pipes and the
  console's input buffer have them: the interface of such a queue as a locale, and the facts about
  wrapping 32-bit counters with which both are instances of it.
\<close>

section \<open>Bounded queues\<close>

text \<open>
  \<open>queue\<close> is what the queue holds, the oldest element first. \<open>put\<close> may be used when the queue is not
  full, \<open>front\<close> and \<open>drop\<close> when it is not empty.
\<close>

locale bounded_queue =
  fixes ok :: "'q \<Rightarrow> bool" and queue :: "'q \<Rightarrow> 'a list" and cap :: nat
    and full :: "'q \<Rightarrow> bool" and empty :: "'q \<Rightarrow> bool"
    and put :: "'a \<Rightarrow> 'q \<Rightarrow> 'q" and front :: "'q \<Rightarrow> 'a" and drop :: "'q \<Rightarrow> 'q"
  assumes length_queue: "ok q \<Longrightarrow> length (queue q) \<le> cap"
    and full_iff: "ok q \<Longrightarrow> full q \<longleftrightarrow> length (queue q) = cap"
    and empty_iff: "ok q \<Longrightarrow> empty q \<longleftrightarrow> queue q = []"
    and ok_put: "ok q \<Longrightarrow> length (queue q) < cap \<Longrightarrow> ok (put c q)"
    and queue_put: "ok q \<Longrightarrow> length (queue q) < cap \<Longrightarrow> queue (put c q) = queue q @ [c]"
    and ok_drop: "ok q \<Longrightarrow> queue q \<noteq> [] \<Longrightarrow> ok (drop q)"
    and queue_front: "ok q \<Longrightarrow> queue q \<noteq> [] \<Longrightarrow> queue q = front q # queue (drop q)"
begin

text \<open>Storing a sequence, and taking one out.\<close>

lemma put_all:
  "ok q \<Longrightarrow> length (queue q) + length xs \<le> cap
    \<Longrightarrow> ok (fold put xs q) \<and> queue (fold put xs q) = queue q @ xs"
  by (induction xs arbitrary: q) (simp_all add: ok_put queue_put)

lemma drop_all:
  "ok q \<Longrightarrow> n \<le> length (queue q) \<Longrightarrow> ok ((drop ^^ n) q) \<and> queue ((drop ^^ n) q) = List.drop n (queue q)"
proof (induction n)
  case (Suc n)
  then have ih: "ok ((drop ^^ n) q)" "queue ((drop ^^ n) q) = List.drop n (queue q)" by simp_all
  then have "queue ((drop ^^ n) q) \<noteq> []" using Suc.prems by simp
  from queue_front [OF ih(1) this] ok_drop [OF ih(1) this] ih(2) show ?case
    by (metis List.drop_Suc funpow.simps(2) list.sel(3) o_apply tl_drop)
qed simp

lemma front_nth:
  "ok q \<Longrightarrow> n < length (queue q) \<Longrightarrow> front ((drop ^^ n) q) = queue q ! n"
proof -
  assume a: "ok q" "n < length (queue q)"
  then have d: "ok ((drop ^^ n) q)" "queue ((drop ^^ n) q) = List.drop n (queue q)" using drop_all [of q n] by simp_all
  with a have "queue ((drop ^^ n) q) \<noteq> []" by simp
  from queue_front [OF d(1) this] d(2) a show "front ((drop ^^ n) q) = queue q ! n"
    by (metis hd_drop_conv_nth list.sel(1))
qed

lemma full_not_empty: "ok q \<Longrightarrow> 0 < cap \<Longrightarrow> \<not> (full q \<and> empty q)"
  by (auto simp: full_iff empty_iff)

end

section \<open>Rings with free-running counters\<close>

text \<open>The elements between the counters \<open>r\<close> and \<open>w\<close> of a ring of \<open>n\<close> elements.\<close>

definition ring_list :: "nat \<Rightarrow> (nat \<Rightarrow> 'a) \<Rightarrow> u32 \<Rightarrow> u32 \<Rightarrow> 'a list" where
  "ring_list n d r w = map (\<lambda>k. d (unat (r + of_nat k) mod n)) [0..<unat (w - r)]"

lemma length_ring_list [simp]: "length (ring_list n d r w) = unat (w - r)"
  by (simp add: ring_list_def)

lemma unat_diff_Suc:
  fixes w r :: u32
  assumes "unat (w - r) < 4294967295"
  shows "unat (w + 1 - r) = Suc (unat (w - r))"
proof -
  have eq: "w + 1 - r = (w - r) + 1" by simp
  show ?thesis unfolding eq using assms by (subst unat_word_ariths) simp
qed

lemma ring_index:
  fixes r :: u32
  assumes "n dvd 2 ^ 32"
  shows "unat (r + of_nat k) mod n = (unat r + k) mod n"
proof -
  have "unat (r + of_nat k) = (unat r + k) mod 2 ^ 32"
    by (simp add: unat_word_ariths unat_of_nat take_bit_nat_def mod_add_right_eq)
  then show ?thesis using assms by (simp add: mod_mod_cancel)
qed

lemma ring_list_put:
  assumes n: "n dvd 2 ^ 32" "n < 2 ^ 32" and less: "unat (w - r) < n"
  shows "ring_list n (d(unat w mod n := c)) r (w + 1) = ring_list n d r w @ [c]"
proof -
  let ?k = "unat (w - r)"
  have w: "w = r + of_nat ?k" by simp
  have suc: "unat (w + 1 - r) = Suc ?k" using less n by (intro unat_diff_Suc) simp
  have idx: "unat w mod n = (unat r + ?k) mod n" by (subst w, subst ring_index [OF n(1)]) simp
  have "(unat r + j) mod n \<noteq> (unat r + ?k) mod n" if "j < ?k" for j
  proof
    assume "(unat r + j) mod n = (unat r + ?k) mod n"
    then have "(unat r + ?k) mod n = (unat r + j) mod n" by simp
    then have "n dvd (unat r + ?k) - (unat r + j)" using that by (subst (asm) mod_eq_dvd_iff_nat) simp_all
    then have "n dvd ?k - j" by simp
    with that less show False by (auto dest: dvd_imp_le)
  qed
  then show ?thesis
    unfolding ring_list_def suc by (auto simp: ring_index [OF n(1)] idx)
qed

lemma ring_list_front:
  assumes "w \<noteq> r"
  shows "ring_list n d r w = d (unat r mod n) # ring_list n d (r + 1) w"
proof -
  have pos: "unat (w - r) \<noteq> 0" using assms by (simp add: unat_eq_0)
  have "w - r = (w - (r + 1)) + 1" by simp
  moreover have "unat ((w - (r + 1)) + 1) = Suc (unat (w - (r + 1)))"
  proof -
    have "unat (w - (r + 1)) \<noteq> 4294967295"
    proof
      assume "unat (w - (r + 1)) = 4294967295"
      then have "of_nat (unat (w - (r + 1))) = (of_nat 4294967295 :: u32)" by simp
      then have "w - (r + 1) = - 1" by simp
      then show False using assms by (simp add: algebra_simps)
    qed
    then have "unat (w - (r + 1)) < 4294967295" using unat32_less [of "w - (r + 1)"] by linarith
    then show ?thesis by (subst unat_word_ariths) simp
  qed
  ultimately have "unat (w - r) = Suc (unat (w - (r + 1)))" by simp
  then show ?thesis
    unfolding ring_list_def by (simp add: upt_conv_Cons map_Suc_upt [symmetric] add_ac del: upt_Suc)
qed

lemma ring_full_iff: "n < 4294967296 \<Longrightarrow> w = r + of_nat n \<longleftrightarrow> unat (w - r :: u32) = n"
  by (metis add_diff_cancel_left' diff_eq_eq add.commute unat_of_nat32 word_unat_eq_iff)

lemma ring_empty_iff: "r = w \<longleftrightarrow> unat (w - r :: u32) = 0"
  by (auto simp: unat_eq_0)

lemma unat_diff_front:
  assumes "w \<noteq> (r :: u32)"
  shows "unat (w - (r + 1)) < unat (w - r)"
  using arg_cong [OF ring_list_front [OF assms, of 1 "\<lambda>_. ()"], of length] by simp


lemma ring_split_length:
  fixes r w e :: u32
  assumes "unat (w - r) \<le> unat (e - r)"
  shows "unat (e - r) = unat (w - r) + unat (e - w)"
proof -
  have "e - w = (e - r) - (w - r)" by simp
  then have "unat (e - w) = unat (e - r) - unat (w - r)" using assms by (metis unat_sub word_le_nat_alt)
  then show ?thesis using assms by simp
qed

lemma ring_list_split:
  assumes "unat (w - r) \<le> unat (e - r)"
  shows "ring_list n d r e = ring_list n d r w @ ring_list n d w e"
proof (rule nth_equalityI)
  note len = ring_split_length [OF assms]
  then show "length (ring_list n d r e) = length (ring_list n d r w @ ring_list n d w e)" by simp
  fix i assume i: "i < length (ring_list n d r e)"
  have "r + of_nat i = w + of_nat (i - unat (w - r))" if "\<not> i < unat (w - r)"
  proof -
    have "w + of_nat (i - unat (w - r)) = w + (of_nat i - of_nat (unat (w - r)))" using that by (simp add: of_nat_diff)
    also have "\<dots> = r + of_nat i" by simp
    finally show ?thesis by simp
  qed
  then show "ring_list n d r e ! i = (ring_list n d r w @ ring_list n d w e) ! i"
    using i len by (auto simp: nth_append ring_list_def add.commute)
qed

lemma ring_list_back:
  assumes "e \<noteq> w"
  shows "ring_list n d w e = ring_list n d w (e - 1) @ [d (unat (e - 1) mod n)]"
proof -
  have ne: "e - w \<noteq> 0" using assms by simp
  have "unat (e - 1 - w) \<le> unat (e - w)"
    using measure_unat [OF ne] by (simp add: algebra_simps)
  from ring_list_split [OF this, of n d] have "ring_list n d w e = ring_list n d w (e - 1) @ ring_list n d (e - 1) e" .
  moreover have "ring_list n d (e - 1) e = [d (unat (e - 1) mod n)]" by (simp add: ring_list_def)
  ultimately show ?thesis by simp
qed

end
