(* ===== verification/Pipe.thy ===== *)
theory Pipe
  imports Vm Fifo
begin

text \<open>
  Pipes (src/pipe.c, all but \<open>pipealloc\<close>, which is in theory File). A pipe lives in a page the
  allocator gave out and is found under the page's address. The counters are 32-bit words that wrap
  around. A reader or writer that has to wait gives up the processor; \<open>piperead_resume\<close> and
  \<open>pipewrite_resume\<close> are what it runs when it is resumed.
\<close>

section \<open>Files and pipes as the kernel has them (file.h, pipe.c)\<close>

abbreviation (input) PIPESIZE :: nat where "PIPESIZE \<equiv> 512"
abbreviation (input) NFILE :: nat where "NFILE \<equiv> 100"

record pipe =
  pdata :: bytes
  nread :: u32
  nwrite :: u32
  readopen :: bool
  writeopen :: bool

datatype filetype = FD_NONE | FD_PIPE | FD_INODE

record kfile =
  ftype :: filetype
  fref :: int
  readable :: bool
  writable :: bool
  fpipe :: nat
  fip :: "nat option"
  foff :: nat

record file_st = mem_st +
  pipes :: "nat \<Rightarrow> pipe"
  ftable :: "nat \<Rightarrow> kfile"

definition upd_pipe :: "nat \<Rightarrow> (pipe \<Rightarrow> pipe) \<Rightarrow> 'a file_st_scheme \<Rightarrow> 'a file_st_scheme" where
  "upd_pipe p f s = s\<lparr>pipes := (pipes s)(p := f (pipes s p))\<rparr>"

definition upd_file :: "nat \<Rightarrow> (kfile \<Rightarrow> kfile) \<Rightarrow> 'a file_st_scheme \<Rightarrow> 'a file_st_scheme" where
  "upd_file p f s = s\<lparr>ftable := (ftable s)(p := f (ftable s p))\<rparr>"

section \<open>Operations\<close>

definition pipeclose :: "nat \<Rightarrow> bool \<Rightarrow> (unit, 'a file_st_scheme) kop" where
  "pipeclose p w =
     seq (acquire (L_pipe p))
     (seq (if w then
             seq (modify (upd_pipe p (\<lambda>x. x\<lparr>writeopen := False\<rparr>))) (wakeup (C_pread p))
           else
             seq (modify (upd_pipe p (\<lambda>x. x\<lparr>readopen := False\<rparr>))) (wakeup (C_pwrite p)))
     (bind (gets (\<lambda>s. pipes s p)) (\<lambda>x.
     if \<not> readopen x \<and> \<not> writeopen x then seq (release (L_pipe p)) (kfree p)
     else release (L_pipe p))))"

text \<open>Storing one byte, and taking one out.\<close>

definition pipe_put :: "u8 \<Rightarrow> pipe \<Rightarrow> pipe" where
  "pipe_put c x = x\<lparr>pdata := (pdata x)(unat (nwrite x) mod PIPESIZE := c), nwrite := nwrite x + 1\<rparr>"

definition pipe_get :: "pipe \<Rightarrow> u8" where
  "pipe_get x = pdata x (unat (nread x) mod PIPESIZE)"

definition pipe_drop :: "pipe \<Rightarrow> pipe" where
  "pipe_drop x = x\<lparr>nread := nread x + 1\<rparr>"

definition pipe_full :: "pipe \<Rightarrow> bool" where
  "pipe_full x \<longleftrightarrow> nwrite x = nread x + of_nat PIPESIZE"

definition pipe_empty :: "pipe \<Rightarrow> bool" where
  "pipe_empty x \<longleftrightarrow> nread x = nwrite x"

text \<open>The body of the loop of \<open>pipewrite\<close> that waits for room.\<close>

definition pipewrite_wait :: "nat \<Rightarrow> (int, 'a file_st_scheme) kop" where
  "pipewrite_wait p =
     bind cur (\<lambda>q.
     bind (gets (\<lambda>s. \<not> readopen (pipes s p) \<or> killed (ptable s q))) (\<lambda>give_up.
     if give_up then seq (release (L_pipe p)) (ret (-1))
     else
       seq (wakeup (C_pread p))
       (seq (sleep (C_pwrite p) (L_pipe p)) (ret 0))))"

text \<open>The loop of \<open>pipewrite\<close> from index \<open>i\<close>, with \<open>m\<close> bytes left to write.\<close>

primrec pipewrite_loop :: "nat \<Rightarrow> bytes \<Rightarrow> nat \<Rightarrow> nat \<Rightarrow> (int, 'a file_st_scheme) kop" where
  "pipewrite_loop p addr i 0 =
     seq (wakeup (C_pread p))
     (seq (release (L_pipe p)) (ret (int i)))"
| "pipewrite_loop p addr i (Suc m) =
     bind (gets (\<lambda>s. pipe_full (pipes s p))) (\<lambda>full.
     if full then pipewrite_wait p
     else
       seq (modify (upd_pipe p (pipe_put (addr i))))
       (pipewrite_loop p addr (i + 1) m))"

definition pipewrite :: "nat \<Rightarrow> bytes \<Rightarrow> int \<Rightarrow> (int, 'a file_st_scheme) kop" where
  "pipewrite p addr n =
     seq (acquire (L_pipe p))
     (bind (pipewrite_loop p addr 0 (nat n)) (\<lambda>r. ret (if r < 0 then r else n)))"

definition pipewrite_resume :: "nat \<Rightarrow> bytes \<Rightarrow> nat \<Rightarrow> int \<Rightarrow> (int, 'a file_st_scheme) kop" where
  "pipewrite_resume p addr i n =
     seq (sleep_return (L_pipe p))
     (bind (pipewrite_loop p addr i (nat n - i)) (\<lambda>r. ret (if r < 0 then r else n)))"

text \<open>The copying loop of \<open>piperead\<close>: how many bytes were taken, and the buffer.\<close>

primrec piperead_copy :: "nat \<Rightarrow> bytes \<Rightarrow> nat \<Rightarrow> nat \<Rightarrow> (nat \<times> bytes, 'a file_st_scheme) kop" where
  "piperead_copy p addr i 0 = ret (i, addr)"
| "piperead_copy p addr i (Suc m) =
     bind (gets (\<lambda>s. pipes s p)) (\<lambda>x.
     if pipe_empty x then ret (i, addr)
     else
       seq (modify (upd_pipe p pipe_drop))
       (piperead_copy p (addr(i := pipe_get x)) (i + 1) m))"

definition piperead_loop :: "nat \<Rightarrow> bytes \<Rightarrow> int \<Rightarrow> (int \<times> bytes, 'a file_st_scheme) kop" where
  "piperead_loop p addr n =
     bind (gets (\<lambda>s. pipes s p)) (\<lambda>x.
     if pipe_empty x \<and> writeopen x then
       bind cur (\<lambda>q.
       bind (gets (\<lambda>s. killed (ptable s q))) (\<lambda>k.
       if k then seq (release (L_pipe p)) (ret (-1, addr))
       else seq (sleep (C_pread p) (L_pipe p)) (ret (0, addr))))
     else
       bind (piperead_copy p addr 0 (nat n)) (\<lambda>(i, addr).
       seq (wakeup (C_pwrite p))
       (seq (release (L_pipe p))
       (ret (int i, addr)))))"

definition piperead :: "nat \<Rightarrow> bytes \<Rightarrow> int \<Rightarrow> (int \<times> bytes, 'a file_st_scheme) kop" where
  "piperead p addr n = seq (acquire (L_pipe p)) (piperead_loop p addr n)"

definition piperead_resume :: "nat \<Rightarrow> bytes \<Rightarrow> int \<Rightarrow> (int \<times> bytes, 'a file_st_scheme) kop" where
  "piperead_resume p addr n = seq (sleep_return (L_pipe p)) (piperead_loop p addr n)"


section \<open>A pipe is a bounded queue\<close>

definition pipe_ok :: "pipe \<Rightarrow> bool" where
  "pipe_ok x \<longleftrightarrow> unat (nwrite x - nread x) \<le> PIPESIZE"

definition pipe_queue :: "pipe \<Rightarrow> u8 list" where
  "pipe_queue x = ring_list PIPESIZE (pdata x) (nread x) (nwrite x)"

lemma PIPESIZE_dvd: "(512 :: nat) dvd 2 ^ 32"
  by (simp add: dvd_eq_mod_eq_0)

interpretation pq: bounded_queue pipe_ok pipe_queue PIPESIZE pipe_full pipe_empty pipe_put pipe_get pipe_drop
proof
  fix x :: pipe and c :: u8
  assume ok: "pipe_ok x"
  show "length (pipe_queue x) \<le> PIPESIZE" using ok by (simp add: pipe_ok_def pipe_queue_def)
  show "pipe_full x = (length (pipe_queue x) = PIPESIZE)"
    using ring_full_iff [of PIPESIZE "nwrite x" "nread x"] by (simp add: pipe_full_def pipe_queue_def)
  show "pipe_empty x = (pipe_queue x = [])"
    using ring_empty_iff [of "nread x" "nwrite x"]
    by (simp add: pipe_empty_def pipe_queue_def flip: length_0_conv)
  {
    assume "length (pipe_queue x) < PIPESIZE"
    then have less: "unat (nwrite x - nread x) < PIPESIZE" by (simp add: pipe_queue_def)
    show "pipe_ok (pipe_put c x)"
      using unat_diff_Suc [of "nwrite x" "nread x"] less by (simp add: pipe_ok_def pipe_put_def)
    show "pipe_queue (pipe_put c x) = pipe_queue x @ [c]"
      using ring_list_put [OF PIPESIZE_dvd _ less] by (simp add: pipe_queue_def pipe_put_def)
  next
    assume "pipe_queue x \<noteq> []"
    then have "nwrite x \<noteq> nread x" by (auto simp: pipe_queue_def ring_list_def)
    from unat_diff_front [OF this] ring_list_front [OF this] ok
    show "pipe_ok (pipe_drop x)" "pipe_queue x = pipe_get x # pipe_queue (pipe_drop x)"
      by (simp_all add: pipe_ok_def pipe_drop_def pipe_queue_def pipe_get_def)
  }
qed

section \<open>What the loops do\<close>

lemma upd_pipe_simps [simp]:
  "pipes (upd_pipe p f s) = (pipes s)(p := f (pipes s p))" "held (upd_pipe p f s) = held s"
  "curproc (upd_pipe p f s) = curproc s" "ptable (upd_pipe p f s) = ptable s"
  "upd_pipe p g (upd_pipe p f s) = upd_pipe p (\<lambda>x. g (f x)) s"
  by (simp_all add: upd_pipe_def)

lemma upd_pipe_id [simp]: "f (pipes s p) = pipes s p \<Longrightarrow> upd_pipe p f s = s"
  by (simp add: upd_pipe_def)

text \<open>\<open>pipewrite_loop\<close> stores as many bytes as there is room for.\<close>

definition pipe_room :: "pipe \<Rightarrow> nat" where
  "pipe_room x = PIPESIZE - length (pipe_queue x)"

lemma pipewrite_loop_eq:
  assumes "pipe_ok (pipes s p)"
  shows "pipewrite_loop p addr i m s =
    (let k = min m (pipe_room (pipes s p)); s' = upd_pipe p (fold pipe_put (map addr [i..<i + k])) s
     in if k = m then pipewrite_loop p addr (i + m) 0 s' else pipewrite_wait p s')"
  using assms
proof (induction m arbitrary: i s)
  case (Suc m)
  show ?case
  proof (cases "pipe_full (pipes s p)")
    case True
    then show ?thesis using Suc.prems by (simp add: pq.full_iff pipe_room_def)
  next
    case False
    let ?s = "upd_pipe p (pipe_put (addr i)) s"
    have less: "length (pipe_queue (pipes s p)) < PIPESIZE"
      using False Suc.prems pq.length_queue [of "pipes s p"] by (simp add: pq.full_iff)
    have pipe_room: "pipe_room (pipes s p) = Suc (pipe_room (pipes ?s p))"
      using less pq.queue_put [OF Suc.prems less] by (simp add: pipe_room_def)
    have ok: "pipe_ok (pipes ?s p)" using pq.ok_put [OF Suc.prems less] by simp
    have fold: "upd_pipe p (fold pipe_put (map addr [Suc i..<Suc i + k])) ?s
        = upd_pipe p (fold pipe_put (map addr [i..<i + Suc k])) s" for k
      by (simp add: upt_conv_Cons comp_def del: upt_Suc)
    have "pipewrite_loop p addr i (Suc m) s = pipewrite_loop p addr (Suc i) m ?s" using False by simp
    then show ?thesis
      unfolding Suc.IH [OF ok] Let_def pipe_room min_Suc_Suc fold by simp
  qed
qed simp


lemma piperead_copy_eq:
  assumes "pipe_ok (pipes s p)"
  shows "piperead_copy p addr i m s =
    (let q = pipe_queue (pipes s p); k = min m (length q)
     in Ok (i + k, \<lambda>j. if i \<le> j \<and> j < i + k then q ! (j - i) else addr j) (upd_pipe p (pipe_drop ^^ k) s))"
  using assms
proof (induction m arbitrary: i s addr)
  case 0
  then show ?case by (auto simp: Let_def fun_eq_iff)
next
  case (Suc m)
  show ?case
  proof (cases "pipe_queue (pipes s p)")
    case Nil
    then show ?thesis using Suc.prems pq.empty_iff [of "pipes s p"] by (auto simp: Let_def fun_eq_iff)
  next
    case (Cons c q)
    let ?s = "upd_pipe p pipe_drop s"
    have ne: "pipe_queue (pipes s p) \<noteq> []" by (simp add: Cons)
    have ok: "pipe_ok (pipes ?s p)" using pq.ok_drop [OF Suc.prems ne] by simp
    have q: "pipe_get (pipes s p) = c" "pipe_queue (pipes ?s p) = q"
      using pq.queue_front [OF Suc.prems ne] Cons by simp_all
    have "piperead_copy p addr i (Suc m) s = piperead_copy p (addr(i := c)) (Suc i) m ?s"
      using Suc.prems ne q by (simp add: pq.empty_iff)
    moreover have "upd_pipe p (pipe_drop ^^ k) ?s = upd_pipe p (pipe_drop ^^ Suc k) s" for k
      by (simp add: comp_def funpow_swap1)
    ultimately show ?thesis
      unfolding Suc.IH [OF ok] Let_def q Cons
      by (auto simp: fun_eq_iff nth_Cons' Suc_le_eq simp del: funpow.simps intro!: arg_cong [where f = "(!) q"])
  qed
qed

lemma wakeup_eq: "L_ptable \<notin> set (held s) \<Longrightarrow> wakeup c s = Ok () (s\<lparr>ptable := wake c (ptable s)\<rparr>)"
  by (simp add: wakeup_def acquire_def release_def wakeup1_eq)

section \<open>A pipe shared by processes\<close>

text \<open>
  The calls in progress on a pipe: a process whose call gave up the processor is inside it. The
  bytes stored and delivered so far are kept beside the kernel's state, and so is whether some call
  of \<open>pipewrite\<close> failed after it had stored bytes.
\<close>

datatype pipe_call = PWrite bytes nat int | PRead bytes int

record 's pipe_sys =
  kern :: 's
  inside :: "nat \<Rightarrow> pipe_call option"
  sent :: "u8 list"
  received :: "u8 list"
  aborted :: bool

text \<open>
  A process runs its call from the start, or the scheduler resumes it where it slept: it then holds
  the lock of the process table.
\<close>

definition thread_of :: "nat \<Rightarrow> 'a file_st_scheme pipe_sys \<Rightarrow> 'a file_st_scheme" where
  "thread_of q z = (case inside z q of
     None \<Rightarrow> (kern z)\<lparr>curproc := Some q, held := []\<rparr>
   | Some _ \<Rightarrow> upd_proc q (\<lambda>x. x\<lparr>pstate := RUNNING\<rparr>) ((kern z)\<lparr>curproc := Some q, held := [L_ptable]\<rparr>))"

definition runs_write :: "nat \<Rightarrow> bytes \<Rightarrow> nat \<Rightarrow> int \<Rightarrow> nat \<Rightarrow> 'a file_st_scheme pipe_sys \<Rightarrow> (int, 'a file_st_scheme) outcome" where
  "runs_write p addr i n q z =
     (if inside z q = None then pipewrite p addr n else pipewrite_resume p addr i n) (thread_of q z)"

definition runs_read :: "nat \<Rightarrow> bytes \<Rightarrow> int \<Rightarrow> nat \<Rightarrow> 'a file_st_scheme pipe_sys \<Rightarrow> (int \<times> bytes, 'a file_st_scheme) outcome" where
  "runs_read p addr n q z =
     (if inside z q = None then piperead p addr n else piperead_resume p addr n) (thread_of q z)"

definition in_write :: "bytes \<Rightarrow> nat \<Rightarrow> int \<Rightarrow> nat \<Rightarrow> 's pipe_sys \<Rightarrow> bool" where
  "in_write addr i n q z \<longleftrightarrow> q < NPROC \<and> (inside z q = None \<and> i = 0 \<or> inside z q = Some (PWrite addr i n))"

definition in_read :: "bytes \<Rightarrow> int \<Rightarrow> nat \<Rightarrow> 's pipe_sys \<Rightarrow> bool" where
  "in_read addr n q z \<longleftrightarrow> q < NPROC \<and> (inside z q = None \<or> inside z q = Some (PRead addr n))"

definition can_run :: "nat \<Rightarrow> 'a file_st_scheme pipe_sys \<Rightarrow> bool" where
  "can_run q z \<longleftrightarrow> pstate (ptable (kern z) q) = (if inside z q = None then RUNNING else RUNNABLE)"

definition stored :: "nat \<Rightarrow> 'a file_st_scheme \<Rightarrow> 'a file_st_scheme \<Rightarrow> nat" where
  "stored p s s' = unat (nwrite (pipes s' p) - nwrite (pipes s p))"

text \<open>
  The steps: a call of \<open>pipewrite\<close> or \<open>piperead\<close> runs until it returns or gives up the processor; an
  end is closed while the other is open; and anything else the kernel does (for example \<open>kill\<close>),
  which leaves the pipe alone and puts nobody to sleep on it. The pipe's lock makes each of them
  atomic for the others.
\<close>

inductive pipe_step :: "nat \<Rightarrow> 'a file_st_scheme pipe_sys \<Rightarrow> 'a file_st_scheme pipe_sys \<Rightarrow> bool" for p where
  write_returns:
    "in_write addr i n q z \<Longrightarrow> can_run q z \<Longrightarrow> runs_write p addr i n q z = Ok r s' \<Longrightarrow> k = stored p (kern z) s'
     \<Longrightarrow> pipe_step p z (z\<lparr>kern := s', inside := (inside z)(q := None), sent := sent z @ map addr [i..<i + k],
           aborted := aborted z \<or> r < 0 \<and> 0 < k\<rparr>)"
| write_sleeps:
    "in_write addr i n q z \<Longrightarrow> can_run q z \<Longrightarrow> runs_write p addr i n q z = Swtch s' \<Longrightarrow> k = stored p (kern z) s'
     \<Longrightarrow> pipe_step p z (z\<lparr>kern := s', inside := (inside z)(q := Some (PWrite addr (i + k) n)),
           sent := sent z @ map addr [i..<i + k]\<rparr>)"
| read_returns:
    "in_read addr n q z \<Longrightarrow> can_run q z \<Longrightarrow> runs_read p addr n q z = Ok (r, addr') s'
     \<Longrightarrow> pipe_step p z (z\<lparr>kern := s', inside := (inside z)(q := None),
           received := received z @ map addr' [0..<nat r]\<rparr>)"
| read_sleeps:
    "in_read addr n q z \<Longrightarrow> can_run q z \<Longrightarrow> runs_read p addr n q z = Swtch s'
     \<Longrightarrow> pipe_step p z (z\<lparr>kern := s', inside := (inside z)(q := Some (PRead addr n))\<rparr>)"
| closes:
    "inside z q = None \<Longrightarrow> can_run q z \<Longrightarrow> (if w then readopen else writeopen) (pipes (kern z) p)
     \<Longrightarrow> pipeclose p w (thread_of q z) = Ok u s' \<Longrightarrow> pipe_step p z (z\<lparr>kern := s'\<rparr>)"
| others:
    "pipes s' p = pipes (kern z) p
     \<Longrightarrow> (\<And>q c. c \<in> {C_pread p, C_pwrite p} \<Longrightarrow> sleeps_on c s' q \<Longrightarrow> sleeps_on c (kern z) q)
     \<Longrightarrow> pipe_step p z (z\<lparr>kern := s'\<rparr>)"

text \<open>A pipe that was just made, with nobody using it.\<close>

definition fresh_pipe :: "nat \<Rightarrow> 'a file_st_scheme pipe_sys \<Rightarrow> bool" where
  "fresh_pipe p z \<longleftrightarrow> nread (pipes (kern z) p) = 0 \<and> nwrite (pipes (kern z) p) = 0
     \<and> (\<forall>q. inside z q = None \<and> \<not> sleeps_on (C_pread p) (kern z) q \<and> \<not> sleeps_on (C_pwrite p) (kern z) q)
     \<and> sent z = [] \<and> received z = [] \<and> \<not> aborted z"


section \<open>Effects of the calls\<close>

definition asleep :: "chan \<Rightarrow> proc \<Rightarrow> proc" where
  "asleep c x = x\<lparr>chan := Some c, pstate := SLEEPING, ticksScheduled := ticksScheduled x + 1\<rparr>"

lemma nwrite_put [simp]: "nwrite (fold pipe_put cs x) = nwrite x + of_nat (length cs)"
  by (induction cs arbitrary: x) (simp_all add: pipe_put_def)

lemma open_put [simp]:
  "readopen (fold pipe_put cs x) = readopen x" "writeopen (fold pipe_put cs x) = writeopen x"
  by (induction cs arbitrary: x) (simp_all add: pipe_put_def)

lemma open_drop [simp]:
  "readopen ((pipe_drop ^^ k) x) = readopen x" "writeopen ((pipe_drop ^^ k) x) = writeopen x"
  "nwrite ((pipe_drop ^^ k) x) = nwrite x"
  by (induction k) (simp_all add: pipe_drop_def)

text \<open>The state in which a call holds the lock of the pipe and nothing else.\<close>

definition entered :: "nat \<Rightarrow> nat \<Rightarrow> 'a file_st_scheme pipe_sys \<Rightarrow> 'a file_st_scheme" where
  "entered p q z = (thread_of q z)\<lparr>held := [L_pipe p],
     ptable := (ptable (thread_of q z))(q := (if inside z q = None then id else chan_update (\<lambda>_. None)) (ptable (thread_of q z) q))\<rparr>"

lemma enteredD:
  assumes "can_run q z"
  shows "held (entered p q z) = [L_pipe p]" "curproc (entered p q z) = Some q"
    "pipes (entered p q z) = pipes (kern z)" "sleeps_on c (entered p q z) j \<longleftrightarrow> j \<noteq> q \<and> sleeps_on c (kern z) j"
    "killed (ptable (entered p q z) j) = killed (ptable (kern z) j)"
  using assms by (auto simp: entered_def thread_of_def sleeps_on_def can_run_def upd_proc_def split: option.splits if_splits)

lemma call_entered:
  assumes "in_write addr i n q z"
  shows "runs_write p addr i n q z =
    bind (pipewrite_loop p addr i (nat n - i)) (\<lambda>r. ret (if r < 0 then r else n)) (entered p q z)"
proof (cases "inside z q")
  case None
  then have "i = 0" using assms by (simp add: in_write_def)
  moreover have "acquire (L_pipe p) (thread_of q z) = Ok () (entered p q z)"
    using None by (simp add: acquire_def entered_def thread_of_def)
  ultimately show ?thesis using None by (simp add: runs_write_def pipewrite_def)
next
  case (Some c)
  have "sleep_return (L_pipe p) (thread_of q z) = Ok () (entered p q z)"
    using Some by (simp add: sleep_return_def cur_def upd_proc_def acquire_def release_def entered_def thread_of_def)
  then show ?thesis using Some by (simp add: runs_write_def pipewrite_resume_def)
qed

lemma read_entered: "runs_read p addr n q z = piperead_loop p addr n (entered p q z)"
proof (cases "inside z q")
  case None
  have "acquire (L_pipe p) (thread_of q z) = Ok () (entered p q z)"
    using None by (simp add: acquire_def entered_def thread_of_def)
  then show ?thesis using None by (simp add: runs_read_def piperead_def)
next
  case (Some c)
  have "sleep_return (L_pipe p) (thread_of q z) = Ok () (entered p q z)"
    using Some by (simp add: sleep_return_def cur_def upd_proc_def acquire_def release_def entered_def thread_of_def)
  then show ?thesis using Some by (simp add: runs_read_def piperead_resume_def)
qed


lemma pipewrite_loop_outcome:
  assumes "held s = [L_pipe p]" "curproc s = Some q" "pipe_ok (pipes s p)"
  shows "pipewrite_loop p addr i m s =
    (let k = min m (pipe_room (pipes s p)); s' = upd_pipe p (fold pipe_put (map addr [i..<i + k])) s;
         pt = wake (C_pread p) (ptable s)
     in if k = m then Ok (int (i + m)) (s'\<lparr>held := [], ptable := pt\<rparr>)
        else if \<not> readopen (pipes s p) \<or> killed (ptable s q) then Ok (-1) (s'\<lparr>held := []\<rparr>)
        else Swtch (s'\<lparr>held := [L_ptable], ptable := pt(q := asleep (C_pwrite p) (pt q))\<rparr>))"
proof -
  have k: "killed (wake c (ptable s) q) = killed (ptable s q)" for c by (simp add: wake_def)
  show ?thesis
    unfolding pipewrite_loop_eq [OF assms(3)] Let_def using assms(1,2)
    by (simp add: pipewrite_wait_def cur_def wakeup_eq release_def sleep_eq asleep_def upd_proc_def k)
qed

lemma piperead_loop_outcome:
  assumes "held s = [L_pipe p]" "curproc s = Some q" "pipe_ok (pipes s p)"
  shows "piperead_loop p addr n s =
    (let x = pipes s p; k = min (nat n) (length (pipe_queue x))
     in if pipe_queue x = [] \<and> writeopen x
        then if killed (ptable s q) then Ok (-1, addr) (s\<lparr>held := []\<rparr>)
             else Swtch (s\<lparr>held := [L_ptable], ptable := (ptable s)(q := asleep (C_pread p) (ptable s q))\<rparr>)
        else Ok (int k, \<lambda>j. if j < k then pipe_queue x ! j else addr j)
               ((upd_pipe p (pipe_drop ^^ k) s)\<lparr>held := [], ptable := wake (C_pwrite p) (ptable s)\<rparr>))"
  unfolding piperead_loop_def using assms pq.empty_iff [OF assms(3)]
  by (simp add: piperead_copy_eq Let_def cur_def wakeup_eq release_def sleep_eq asleep_def upd_proc_def cong: if_cong)

text \<open>The invariant: what was sent is what was received followed by what the pipe holds.\<close>

definition pipe_inv :: "nat \<Rightarrow> 'a file_st_scheme pipe_sys \<Rightarrow> bool" where
  "pipe_inv p z \<longleftrightarrow> pipe_ok (pipes (kern z) p) \<and> sent z = received z @ pipe_queue (pipes (kern z) p)"

text \<open>Nobody sleeps who could go on.\<close>

definition sleepers_wait :: "nat \<Rightarrow> 'a file_st_scheme \<Rightarrow> bool" where
  "sleepers_wait p s \<longleftrightarrow> (\<forall>q < NPROC.
     (sleeps_on (C_pread p) s q \<longrightarrow> pipe_queue (pipes s p) = [] \<and> writeopen (pipes s p))
     \<and> (sleeps_on (C_pwrite p) s q \<longrightarrow> length (pipe_queue (pipes s p)) = PIPESIZE \<and> readopen (pipes s p)))"

lemma sleeps_on_asleep [simp]:
  "sleeps_on c (s\<lparr>ptable := pt(q := asleep d x)\<rparr>) j \<longleftrightarrow> (if j = q then c = d else sleeps_on c (s\<lparr>ptable := pt\<rparr>) j)"
  by (auto simp: sleeps_on_def asleep_def)

lemma sleeps_on_upd [simp]:
  "sleeps_on c (s\<lparr>held := h\<rparr>) j = sleeps_on c s j"
  "sleeps_on c (upd_pipe p f s) j = sleeps_on c s j"
  by (simp_all add: sleeps_on_def)


lemma put_room:
  assumes "pipe_ok x" "k \<le> pipe_room x"
  shows "pipe_ok (fold pipe_put (map addr [i..<i + k]) x)"
    "pipe_queue (fold pipe_put (map addr [i..<i + k]) x) = pipe_queue x @ map addr [i..<i + k]"
    "unat (nwrite (fold pipe_put (map addr [i..<i + k]) x) - nwrite x) = k"
proof -
  have "length (pipe_queue x) + length (map addr [i..<i + k]) \<le> PIPESIZE"
    using assms pq.length_queue [OF assms(1)] by (simp add: pipe_room_def)
  from pq.put_all [OF assms(1) this]
  show "pipe_ok (fold pipe_put (map addr [i..<i + k]) x)"
    "pipe_queue (fold pipe_put (map addr [i..<i + k]) x) = pipe_queue x @ map addr [i..<i + k]" by simp_all
  show "unat (nwrite (fold pipe_put (map addr [i..<i + k]) x) - nwrite x) = k"
    using assms(2) by (simp add: pipe_room_def)
qed

lemma runs_write_cases:
  assumes ok: "pipe_ok (pipes (kern z) p)" and call: "in_write addr i n q z" "can_run q z"
  defines "k \<equiv> min (nat n - i) (pipe_room (pipes (kern z) p))"
  defines "s1 \<equiv> upd_pipe p (fold pipe_put (map addr [i..<i + k])) (entered p q z)"
  obtains (all) "k = nat n - i"
      "runs_write p addr i n q z = Ok n (s1\<lparr>held := [], ptable := wake (C_pread p) (ptable s1)\<rparr>)"
    | (fails) "runs_write p addr i n q z = Ok (-1) (s1\<lparr>held := []\<rparr>)"
    | (sleeps) "k = pipe_room (pipes (kern z) p)" "readopen (pipes (kern z) p)"
      "runs_write p addr i n q z = Swtch (s1\<lparr>held := [L_ptable],
         ptable := (wake (C_pread p) (ptable s1))(q := asleep (C_pwrite p) (wake (C_pread p) (ptable s1) q))\<rparr>)"
proof -
  note ent = enteredD [OF call(2)]
  note out = pipewrite_loop_outcome [of "entered p q z" p q addr i "nat n - i", unfolded ent, OF refl refl ok,
      unfolded Let_def, folded k_def, folded s1_def]
  have pt: "ptable s1 = ptable (entered p q z)" by (simp add: s1_def)
  note run = call_entered [OF call(1), of p, unfolded bind_def out]
  consider "k = nat n - i" | "k \<noteq> nat n - i" "\<not> readopen (pipes (kern z) p) \<or> killed (ptable (kern z) q)"
    | "k \<noteq> nat n - i" "readopen (pipes (kern z) p)" "\<not> killed (ptable (kern z) q)" by blast
  then show thesis
  proof cases
    case 1
    show thesis by (rule all [OF 1]) (simp add: run 1 pt)
  next
    case 2
    show thesis by (rule fails) (use 2 in \<open>simp add: run\<close>)
  next
    case 3
    show thesis
    proof (rule sleeps)
      show "k = pipe_room (pipes (kern z) p)" using 3(1) by (simp add: k_def min_def split: if_splits)
      show "readopen (pipes (kern z) p)" by (rule 3(2))
    qed (use 3 in \<open>simp add: run pt\<close>)
  qed
qed


lemma sleepers_waitI:
  assumes "\<And>j. j < NPROC \<Longrightarrow> sleeps_on (C_pread p) s j \<Longrightarrow> pipe_queue (pipes s p) = [] \<and> writeopen (pipes s p)"
    and "\<And>j. j < NPROC \<Longrightarrow> sleeps_on (C_pwrite p) s j
      \<Longrightarrow> length (pipe_queue (pipes s p)) = PIPESIZE \<and> readopen (pipes s p)"
  shows "sleepers_wait p s"
  using assms by (simp add: sleepers_wait_def)

lemma write_keeps:
  assumes ok: "pipe_ok (pipes (kern z) p)" and call: "in_write addr i n q z" "can_run q z"
    and s': "runs_write p addr i n q z = Ok r s' \<or> runs_write p addr i n q z = Swtch s'"
  defines "k \<equiv> stored p (kern z) s'"
  shows "pipe_ok (pipes s' p)" "pipe_queue (pipes s' p) = pipe_queue (pipes (kern z) p) @ map addr [i..<i + k]"
    "sleepers_wait p (kern z) \<Longrightarrow> (runs_write p addr i n q z = Ok r s' \<and> r < 0 \<longrightarrow> k = 0) \<Longrightarrow> sleepers_wait p s'"
proof -
  let ?x = "pipes (kern z) p"
  let ?k = "min (nat n - i) (pipe_room ?x)"
  let ?x' = "fold pipe_put (map addr [i..<i + ?k]) ?x"
  define s1 where "s1 = upd_pipe p (fold pipe_put (map addr [i..<i + ?k])) (entered p q z)"
  note ent = enteredD [OF call(2)] and put = put_room [OF ok, of ?k addr i]
  have p1: "pipes s1 p = ?x'" by (simp add: s1_def ent)
  have sl: "sleeps_on c s1 j \<longleftrightarrow> j \<noteq> q \<and> sleeps_on c (kern z) j" for c j by (simp add: s1_def ent)
  have *: "pipes s' p = ?x' \<and> (sleepers_wait p (kern z) \<and> (runs_write p addr i n q z = Ok r s' \<and> r < 0 \<longrightarrow> ?k = 0)
    \<longrightarrow> sleepers_wait p s')"
  proof (rule runs_write_cases [OF ok call, folded s1_def], goal_cases all fails sleeps)
    case all
    then have eq: "s' = s1\<lparr>held := [], ptable := wake (C_pread p) (ptable s1)\<rparr>" using s' by simp
    then have p': "pipes s' p = ?x'" by (simp add: p1)
    have "sleepers_wait p s'" if sw: "sleepers_wait p (kern z)"
    proof (rule sleepers_waitI)
      show "pipe_queue (pipes s' p) = [] \<and> writeopen (pipes s' p)" if "j < NPROC" "sleeps_on (C_pread p) s' j" for j
        using that by (simp add: eq)
      fix j assume j: "j < NPROC" "sleeps_on (C_pwrite p) s' j"
      then have "length (pipe_queue ?x) = PIPESIZE" "readopen ?x" using sw by (simp_all add: eq sl sleepers_wait_def)
      then show "length (pipe_queue (pipes s' p)) = PIPESIZE \<and> readopen (pipes s' p)"
        unfolding p' by (simp add: put(2)) (simp add: pipe_room_def)
    qed
    with p' show ?thesis by blast
  next
    case fails
    then have eq: "s' = s1\<lparr>held := []\<rparr>" "runs_write p addr i n q z = Ok (-1) s'" using s' by simp_all
    then have p': "pipes s' p = ?x'" by (simp add: p1)
    have r: "r = -1" using eq(2) s' by simp
    have "sleepers_wait p s'" if sw: "sleepers_wait p (kern z)" "?k = 0"
      using sw(1) unfolding sleepers_wait_def p' by (simp add: eq(1) sl sw(2))
    with p' r eq(2) show ?thesis by simp
  next
    case sleeps
    then have eq: "s' = s1\<lparr>held := [L_ptable],
        ptable := (wake (C_pread p) (ptable s1))(q := asleep (C_pwrite p) (wake (C_pread p) (ptable s1) q))\<rparr>"
      using s' by simp
    then have p': "pipes s' p = ?x'" by (simp add: p1)
    have "sleepers_wait p s'"
    proof (rule sleepers_waitI)
      show "pipe_queue (pipes s' p) = [] \<and> writeopen (pipes s' p)" if "j < NPROC" "sleeps_on (C_pread p) s' j" for j
        using that by (simp add: eq split: if_splits)
      show "length (pipe_queue (pipes s' p)) = PIPESIZE \<and> readopen (pipes s' p)" for j
        unfolding p' put(2) [simplified] using sleeps(1,2) pq.length_queue [OF ok] by (simp add: pipe_room_def put(2))
    qed
    with p' show ?thesis by blast
  qed
  have k: "k = ?k" unfolding k_def stored_def using * put(3) by simp
  show "pipe_ok (pipes s' p)" "pipe_queue (pipes s' p) = pipe_queue ?x @ map addr [i..<i + k]"
    unfolding k using * put by simp_all
  show "sleepers_wait p (kern z) \<Longrightarrow> (runs_write p addr i n q z = Ok r s' \<and> r < 0 \<longrightarrow> k = 0) \<Longrightarrow> sleepers_wait p s'"
    unfolding k using * by blast
qed


lemma read_keeps:
  assumes ok: "pipe_ok (pipes (kern z) p)" and call: "can_run q z"
  shows "runs_read p addr n q z = Ok (r, addr') s'
      \<Longrightarrow> pipe_ok (pipes s' p) \<and> pipe_queue (pipes (kern z) p) = map addr' [0..<nat r] @ pipe_queue (pipes s' p)
        \<and> (sleepers_wait p (kern z) \<longrightarrow> sleepers_wait p s')"
    and "runs_read p addr n q z = Swtch s'
      \<Longrightarrow> pipes s' p = pipes (kern z) p \<and> (sleepers_wait p (kern z) \<longrightarrow> sleepers_wait p s')"
proof -
  let ?x = "pipes (kern z) p" and ?e = "entered p q z"
  let ?k = "min (nat n) (length (pipe_queue ?x))"
  note ent = enteredD [OF call]
  note run = read_entered [of p addr n q z, unfolded piperead_loop_outcome [of ?e p q, unfolded ent, OF refl refl ok] Let_def]
  have drop: "pipe_ok ((pipe_drop ^^ ?k) ?x)" "pipe_queue ((pipe_drop ^^ ?k) ?x) = drop ?k (pipe_queue ?x)"
    using pq.drop_all [OF ok, of ?k] by simp_all
  show "pipe_ok (pipes s' p) \<and> pipe_queue ?x = map addr' [0..<nat r] @ pipe_queue (pipes s' p)
      \<and> (sleepers_wait p (kern z) \<longrightarrow> sleepers_wait p s')"
    if ret: "runs_read p addr n q z = Ok (r, addr') s'"
  proof (cases "pipe_queue ?x = [] \<and> writeopen ?x")
    case True
    then have "r = -1" "s' = ?e\<lparr>held := []\<rparr>" using ret unfolding run by (auto split: if_splits)
    then show ?thesis using ok by (simp add: ent sleepers_wait_def)
  next
    case False
    then have r: "r = int ?k" "addr' = (\<lambda>j. if j < ?k then pipe_queue ?x ! j else addr j)"
      "s' = (upd_pipe p (pipe_drop ^^ ?k) ?e)\<lparr>held := [], ptable := wake (C_pwrite p) (ptable ?e)\<rparr>"
      using ret unfolding run by (simp_all only: if_False outcome.inject prod.inject)
    have p': "pipes s' p = (pipe_drop ^^ ?k) ?x" by (simp add: r(3) ent)
    have "map addr' [0..<nat r] = take ?k (pipe_queue ?x)"
      by (rule nth_equalityI) (simp_all add: r(1,2))
    then have "pipe_queue ?x = map addr' [0..<nat r] @ pipe_queue (pipes s' p)"
      unfolding p' drop(2) by (simp only: append_take_drop_id)
    moreover have "sleepers_wait p s'" if sw: "sleepers_wait p (kern z)"
    proof (rule sleepers_waitI)
      fix j assume j: "j < NPROC" "sleeps_on (C_pread p) s' j"
      then show "pipe_queue (pipes s' p) = [] \<and> writeopen (pipes s' p)"
        using sw unfolding p' by (simp add: r(3) ent sleepers_wait_def drop(2))
    next
      show "length (pipe_queue (pipes s' p)) = PIPESIZE \<and> readopen (pipes s' p)"
        if "j < NPROC" "sleeps_on (C_pwrite p) s' j" for j
        using that by (simp add: r(3))
    qed
    ultimately show ?thesis using drop(1) p' by simp
  qed
  show "pipes s' p = ?x \<and> (sleepers_wait p (kern z) \<longrightarrow> sleepers_wait p s')"
    if ret: "runs_read p addr n q z = Swtch s'"
  proof -
    have x: "pipe_queue ?x = []" "writeopen ?x"
      "s' = ?e\<lparr>held := [L_ptable], ptable := (ptable ?e)(q := asleep (C_pread p) (ptable ?e q))\<rparr>"
      using ret unfolding run by (simp_all split: if_splits)
    then have p': "pipes s' p = ?x" by (simp add: ent)
    moreover have "sleepers_wait p s'" if sw: "sleepers_wait p (kern z)"
      unfolding sleepers_wait_def p' using x(1,2) sw by (auto simp: x(3) ent sleepers_wait_def split: if_splits)
    ultimately show ?thesis by blast
  qed
qed

lemma close_keeps:
  assumes call: "inside z q = None" "can_run q z" "(if w then readopen else writeopen) (pipes (kern z) p)"
    "pipeclose p w (thread_of q z) = Ok u s'"
  shows "pipe_queue (pipes s' p) = pipe_queue (pipes (kern z) p)" "pipe_ok (pipes s' p) = pipe_ok (pipes (kern z) p)"
    "sleepers_wait p (kern z) \<Longrightarrow> sleepers_wait p s'"
proof -
  let ?f = "\<lambda>x. if w then x\<lparr>writeopen := False\<rparr> else x\<lparr>readopen := False\<rparr>"
    and ?c = "if w then C_pread p else C_pwrite p"
  have s': "s' = (upd_pipe p ?f (thread_of q z))\<lparr>ptable := wake ?c (ptable (kern z)), held := []\<rparr>"
    using call by (simp add: pipeclose_def acquire_def release_def wakeup_eq thread_of_def upd_pipe_def split: if_splits)
  then show "pipe_queue (pipes s' p) = pipe_queue (pipes (kern z) p)" "pipe_ok (pipes s' p) = pipe_ok (pipes (kern z) p)"
    using call(1) by (simp_all add: thread_of_def pipe_queue_def pipe_ok_def)
  then show "sleepers_wait p s'" if "sleepers_wait p (kern z)"
    using that call(1) by (auto simp: sleepers_wait_def s' thread_of_def)
qed

lemma pipe_step_keeps:
  assumes "pipe_step p z z'" "pipe_inv p z" "\<not> aborted z \<longrightarrow> sleepers_wait p (kern z)"
  shows "pipe_inv p z' \<and> (\<not> aborted z' \<longrightarrow> sleepers_wait p (kern z'))"
  using assms
proof cases
  case (write_returns addr i n q r s' k)
  with assms(2,3) write_keeps [of z p addr i n q r s'] show ?thesis by (auto simp: pipe_inv_def)
next
  case (write_sleeps addr i n q s' k)
  with assms(2,3) write_keeps [of z p addr i n q _ s'] show ?thesis by (auto simp: pipe_inv_def)
next
  case (read_returns addr n q r addr' s')
  with assms(2,3) read_keeps(1) [of z p q addr n r addr' s'] show ?thesis by (auto simp: pipe_inv_def)
next
  case (read_sleeps addr n q s')
  with assms(2,3) read_keeps(2) [of z p q addr n s'] show ?thesis by (auto simp: pipe_inv_def)
next
  case (closes q w u s')
  with assms(2,3) close_keeps [of z q w p u s'] show ?thesis by (auto simp: pipe_inv_def)
next
  case (others s')
  with assms(2,3) show ?thesis by (auto simp: pipe_inv_def sleepers_wait_def)
qed

lemma pipe_run_keeps:
  assumes "(pipe_step p)\<^sup>*\<^sup>* z z'" "fresh_pipe p z"
  shows "pipe_inv p z' \<and> (\<not> aborted z' \<longrightarrow> sleepers_wait p (kern z'))"
  using assms
proof (induction rule: rtranclp_induct)
  case base
  then show ?case by (auto simp: fresh_pipe_def pipe_inv_def pipe_ok_def pipe_queue_def ring_list_def sleepers_wait_def)
next
  case (step y z')
  then show ?case using pipe_step_keeps by blast
qed


section \<open>Properties\<close>

text \<open>
  C9 A pipe is a stream: however the processes that write and read it, sleep in it, are woken and close its ends are
  interleaved, and however often the 32-bit counters wrap, the bytes delivered by \<open>piperead\<close> followed by
  the at most 512 bytes the pipe holds are exactly the bytes \<open>pipewrite\<close> stored, in order.
\<close>

theorem pipe_stream:
  assumes "fresh_pipe p z" "(pipe_step p)\<^sup>*\<^sup>* z z'"
  shows "sent z' = received z' @ pipe_queue (pipes (kern z') p) \<and> length (pipe_queue (pipes (kern z') p)) \<le> PIPESIZE"
  using pipe_run_keeps [OF assms(2,1)] pq.length_queue [of "pipes (kern z') p"] by (auto simp: pipe_inv_def)

text \<open>
  C20 No wakeup is lost: as long as no \<open>pipewrite\<close> was abandoned halfway, a process that sleeps in \<open>piperead\<close>
  finds the pipe empty with its write end open, and a process that sleeps in \<open>pipewrite\<close> finds it full
  with its read end open.
\<close>

theorem pipe_no_lost_wakeup:
  assumes "fresh_pipe p z" "(pipe_step p)\<^sup>*\<^sup>* z z'" "\<not> aborted z'" "q < NPROC"
  shows "(sleeps_on (C_pread p) (kern z') q \<longrightarrow> pipe_queue (pipes (kern z') p) = [] \<and> writeopen (pipes (kern z') p))
    \<and> (sleeps_on (C_pwrite p) (kern z') q
      \<longrightarrow> length (pipe_queue (pipes (kern z') p)) = PIPESIZE \<and> readopen (pipes (kern z') p))"
  using pipe_run_keeps [OF assms(2,1)] assms(3,4) by (auto simp: sleepers_wait_def)

text \<open>The two steps the next property is about: a reader goes to sleep, a writer is abandoned.\<close>

lemma read_sleeps_step:
  assumes "inside z q = None" "q < NPROC" "can_run q z" "\<not> killed (ptable (kern z) q)"
    "pipe_ok (pipes (kern z) p)" "pipe_queue (pipes (kern z) p) = []" "writeopen (pipes (kern z) p)"
  obtains s' where "pipe_step p z (z\<lparr>kern := s', inside := (inside z)(q := Some (PRead addr n))\<rparr>)"
    "pipes s' = pipes (kern z)" "sleeps_on (C_pread p) s' q" "\<forall>j. j \<noteq> q \<longrightarrow> ptable s' j = ptable (kern z) j"
proof -
  let ?e = "entered p q z"
  let ?s = "?e\<lparr>held := [L_ptable], ptable := (ptable ?e)(q := asleep (C_pread p) (ptable ?e q))\<rparr>"
  note ent = enteredD [OF assms(3)]
  have "runs_read p addr n q z = Swtch ?s"
    unfolding read_entered piperead_loop_outcome [of ?e p q, unfolded ent, OF refl refl assms(5)] Let_def
    using assms(4,6,7) by simp
  then have step: "pipe_step p z (z\<lparr>kern := ?s, inside := (inside z)(q := Some (PRead addr n))\<rparr>)"
    using assms(1-3) by (intro pipe_step.read_sleeps) (simp_all add: in_read_def)
  have "\<forall>j. j \<noteq> q \<longrightarrow> ptable ?s j = ptable (kern z) j"
    using assms(1) by (simp add: entered_def thread_of_def)
  then show thesis by (intro that [OF step]) (simp_all add: ent)
qed

lemma write_aborts_step:
  assumes "inside z q = None" "q < NPROC" "can_run q z" "killed (ptable (kern z) q)"
    "pipe_ok (pipes (kern z) p)" "nat n > pipe_room (pipes (kern z) p)"
  obtains s' z' where "pipewrite p addr n (thread_of q z) = Ok (-1) s'" "pipe_step p z z'" "kern z' = s'" "inside z' = inside z"
    "pipe_queue (pipes s' p) = pipe_queue (pipes (kern z) p) @ map addr [0..<pipe_room (pipes (kern z) p)]"
    "readopen (pipes s' p) = readopen (pipes (kern z) p)" "writeopen (pipes s' p) = writeopen (pipes (kern z) p)" "ptable s' = ptable (kern z)"
proof -
  let ?e = "entered p q z" and ?x = "pipes (kern z) p"
  let ?s = "(upd_pipe p (fold pipe_put (map addr [0..<pipe_room ?x])) ?e)\<lparr>held := []\<rparr>"
  note ent = enteredD [OF assms(3)]
  have w: "in_write addr 0 n q z" using assms(1,2) by (simp add: in_write_def)
  have run: "runs_write p addr 0 n q z = Ok (-1) ?s"
    unfolding call_entered [OF w] bind_def pipewrite_loop_outcome [of ?e p q, unfolded ent, OF refl refl assms(5)] Let_def
    using assms(4,6) by simp
  show thesis
  proof (rule that [OF _ pipe_step.write_returns [OF w assms(3) run refl]])
    show "pipewrite p addr n (thread_of q z) = Ok (-1) ?s" using run assms(1) by (simp add: runs_write_def)
    show "pipe_queue (pipes ?s p) = pipe_queue ?x @ map addr [0..<pipe_room ?x]"
      using put_room(2) [OF assms(5), of "pipe_room ?x" addr 0] by (simp add: ent)
  qed (use assms(1) in \<open>auto simp: ent entered_def thread_of_def\<close>)
qed

text \<open>
  C38 A reader has gone to sleep on the empty pipe, both ends of which are open. The \<open>pipewrite\<close> of more than 512 bytes
  by a process that was killed stores 512 of them and returns -1 without \<open>wakeup(&p->nread)\<close>: the reader goes on sleeping although
  the pipe is full, and both ends are still open.
\<close>

theorem pipewrite_abort_loses_wakeup:
  assumes "fresh_pipe p z" "q < NPROC" "r < NPROC" "q \<noteq> r" "can_run q z" "can_run r z" "killed (ptable (kern z) q)"
    "\<not> killed (ptable (kern z) r)" "readopen (pipes (kern z) p)" "writeopen (pipes (kern z) p)" "n > int PIPESIZE"
  shows "\<exists>y s' z'. (pipe_step p)\<^sup>*\<^sup>* z y \<and> sleeps_on (C_pread p) (kern y) r \<and> pipe_queue (pipes (kern y) p) = []
    \<and> pipewrite p addr n (thread_of q y) = Ok (-1) s' \<and> pipe_step p y z' \<and> kern z' = s'
    \<and> pipe_queue (pipes s' p) = map addr [0..<PIPESIZE] \<and> sleeps_on (C_pread p) s' r
    \<and> readopen (pipes s' p) \<and> writeopen (pipes s' p)"
proof -
  have fresh: "\<And>j. inside z j = None" "pipe_ok (pipes (kern z) p)" "pipe_queue (pipes (kern z) p) = []"
    using assms(1) by (auto simp: fresh_pipe_def pipe_ok_def pipe_queue_def ring_list_def)
  obtain s1 where s1: "pipe_step p z (z\<lparr>kern := s1, inside := (inside z)(r := Some (PRead (\<lambda>_. 0) 1))\<rparr>)"
    "pipes s1 = pipes (kern z)" "sleeps_on (C_pread p) s1 r" "\<forall>j. j \<noteq> r \<longrightarrow> ptable s1 j = ptable (kern z) j"
    by (rule read_sleeps_step [OF fresh(1) assms(3,6,8) fresh(2,3) assms(10)]) (rule that)
  let ?y = "z\<lparr>kern := s1, inside := (inside z)(r := Some (PRead (\<lambda>_. 0) 1))\<rparr>"
  have room: "pipe_room (pipes (kern ?y) p) = PIPESIZE" using s1(2) fresh(3) by (simp add: pipe_room_def)
  have y: "inside ?y q = None" "can_run q ?y" "killed (ptable (kern ?y) q)" "pipe_ok (pipes (kern ?y) p)"
    "pipe_room (pipes (kern ?y) p) < nat n"
    using assms(4,5,7,11) s1(2,4) fresh room by (auto simp: can_run_def)
  obtain s' z' where z': "pipewrite p addr n (thread_of q ?y) = Ok (-1) s'" "pipe_step p ?y z'" "kern z' = s'"
    "pipe_queue (pipes s' p) = pipe_queue (pipes (kern ?y) p) @ map addr [0..<pipe_room (pipes (kern ?y) p)]"
    "readopen (pipes s' p) = readopen (pipes (kern ?y) p)" "writeopen (pipes s' p) = writeopen (pipes (kern ?y) p)" "ptable s' = ptable (kern ?y)"
    by (rule write_aborts_step [OF y(1) assms(2) y(2-5)]) (rule that)
  have "pipe_queue (pipes (kern ?y) p) = []" "sleeps_on (C_pread p) s' r" using s1(2,3) fresh(3) z'(7) by (simp_all add: sleeps_on_def)
  moreover have "pipe_queue (pipes s' p) = map addr [0..<PIPESIZE]" using z'(4) room calculation(1) by simp
  moreover have "readopen (pipes s' p)" "writeopen (pipes s' p)" using z'(5,6) s1(2) assms(9,10) by simp_all
  ultimately show ?thesis using s1(1,3) z'(1-3) by (intro exI [of _ ?y] exI [of _ s'] exI [of _ z']) auto
qed

text \<open>A pipe at address 0 that two processes share, the first of which was killed.\<close>

definition ex_kernel :: file_st where
  "ex_kernel = mem_st.extend ex_mem
     \<lparr>pipes = (\<lambda>_. \<lparr>pdata = (\<lambda>_. 0), nread = 0, nwrite = 0, readopen = True, writeopen = True\<rparr>),
      ftable = (\<lambda>_. \<lparr>ftype = FD_NONE, fref = 0, readable = False, writable = False, fpipe = 0, fip = None, foff = 0\<rparr>)\<rparr>"

definition ex_pipe :: "file_st pipe_sys" where
  "ex_pipe = \<lparr>kern = ex_kernel\<lparr>ptable := (\<lambda>q. proc0\<lparr>pstate := RUNNING, pid := of_nat q + 1, killed := (q = 0)\<rparr>)\<rparr>,
     inside = (\<lambda>_. None), sent = [], received = [], aborted = False\<rparr>"

lemma ex_pipe_facts:
  "fresh_pipe 0 ex_pipe" "can_run q ex_pipe" "killed (ptable (kern ex_pipe) q) \<longleftrightarrow> q = 0" "inside ex_pipe q = None"
  "writeopen (pipes (kern ex_pipe) 0)" "pipe_ok (pipes (kern ex_pipe) 0)" "pipe_queue (pipes (kern ex_pipe) 0) = []"
  "\<not> aborted ex_pipe" "readopen (pipes (kern ex_pipe) 0)"
  by (simp_all add: ex_pipe_def fresh_pipe_def ex_kernel_def mem_st.defs sleeps_on_def can_run_def pipe_ok_def
      pipe_queue_def ring_list_def)

theorem pipewrite_abort_loses_wakeup_witness:
  "\<exists>(y :: file_st pipe_sys) s'. (pipe_step 0)\<^sup>*\<^sup>* ex_pipe y \<and> pipewrite 0 (\<lambda>_. 7) 600 (thread_of 0 y) = Ok (-1) s'
    \<and> length (pipe_queue (pipes s' 0)) = 512 \<and> sleeps_on (C_pread 0) s' 1"
proof -
  have q: "0 < NPROC" "1 < NPROC" "(0 :: nat) \<noteq> 1" "int PIPESIZE < 600" "killed (ptable (kern ex_pipe) 0)"
    "\<not> killed (ptable (kern ex_pipe) 1)" by (simp_all add: ex_pipe_facts)
  from pipewrite_abort_loses_wakeup [OF ex_pipe_facts(1) q(1-3) ex_pipe_facts(2,2) q(5,6) ex_pipe_facts(9,5) q(4), of "\<lambda>_. 7"]
  obtain y s' where "(pipe_step 0)\<^sup>*\<^sup>* ex_pipe y" "pipewrite 0 (\<lambda>_. 7) 600 (thread_of 0 y) = Ok (-1) s'"
    "pipe_queue (pipes s' 0) = map (\<lambda>_. 7) [0..<PIPESIZE]" "sleeps_on (C_pread 0) s' 1" by blast
  then show ?thesis by (metis length_map length_upt minus_nat.diff_0)
qed

theorem pipe_no_lost_wakeup_witness:
  "\<exists>(z :: file_st pipe_sys) z'. fresh_pipe 0 z \<and> (pipe_step 0)\<^sup>*\<^sup>* z z' \<and> sleeps_on (C_pread 0) (kern z') 1
    \<and> \<not> aborted z' \<and> pipe_queue (pipes (kern z') 0) = []"
proof -
  have q: "1 < NPROC" "\<not> killed (ptable (kern ex_pipe) 1)" by (simp_all add: ex_pipe_facts)
  obtain s' where s': "pipe_step 0 ex_pipe (ex_pipe\<lparr>kern := s', inside := (inside ex_pipe)(1 := Some (PRead (\<lambda>_. 0) 1))\<rparr>)"
    "sleeps_on (C_pread 0) s' 1"
    by (rule read_sleeps_step [OF ex_pipe_facts(4) q(1) ex_pipe_facts(2) q(2) ex_pipe_facts(6,7,5)]) (rule that)
  let ?z = "ex_pipe\<lparr>kern := s', inside := (inside ex_pipe)(1 := Some (PRead (\<lambda>_. 0) 1))\<rparr>"
  have z: "(pipe_step 0)\<^sup>*\<^sup>* ex_pipe ?z" "\<not> aborted ?z" "sleeps_on (C_pread 0) (kern ?z) 1"
    using s' ex_pipe_facts(8) by simp_all
  from pipe_no_lost_wakeup [OF ex_pipe_facts(1) z(1,2) q(1)] z ex_pipe_facts(1) show ?thesis by blast
qed

theorem pipe_stream_witness:
  "\<exists>(z :: file_st pipe_sys) z'. fresh_pipe 0 z \<and> (pipe_step 0)\<^sup>*\<^sup>* z z' \<and> length (pipe_queue (pipes (kern z') 0)) = 512
    \<and> sent z' = received z' @ pipe_queue (pipes (kern z') 0)"
proof -
  have q: "0 < NPROC" "killed (ptable (kern ex_pipe) 0)" by (simp_all add: ex_pipe_facts)
  have n: "pipe_room (pipes (kern ex_pipe) 0) < nat 600" by (simp add: ex_pipe_facts pipe_room_def)
  obtain s' z' where z': "pipe_step 0 ex_pipe z'" "kern z' = s'"
    "pipe_queue (pipes s' 0) = pipe_queue (pipes (kern ex_pipe) 0) @ map (\<lambda>_. 7) [0..<pipe_room (pipes (kern ex_pipe) 0)]"
    by (rule write_aborts_step [OF ex_pipe_facts(4) q(1) ex_pipe_facts(2) q(2) ex_pipe_facts(6) n]) (rule that)
  have l: "length (pipe_queue (pipes (kern z') 0)) = 512" using z'(2,3) by (simp add: ex_pipe_facts pipe_room_def)
  have run: "(pipe_step 0)\<^sup>*\<^sup>* ex_pipe z'" using z'(1) by (rule r_into_rtranclp)
  from pipe_stream [OF ex_pipe_facts(1) run] run l ex_pipe_facts(1) show ?thesis by blast
qed

end
