(* ===== verification/File.thy ===== *)
theory File
  imports Pipe
begin

text \<open>
  Open files (src/file.c) and the creation of pipes (\<open>pipealloc\<close> of src/pipe.c). The device switch is
  an argument, as in theory Fs. A buffer in user memory is an array of bytes that is given and
  returned.
\<close>

section \<open>The file table\<close>

definition filealloc :: "(nat option, 'a file_st_scheme) kop" where
  "filealloc =
     seq (acquire L_ftable)
     (bind (search [0..<NFILE] (\<lambda>f.
       bind (gets (\<lambda>s. fref (ftable s f))) (\<lambda>r.
       if r = 0 then
         seq (modify (upd_file f (\<lambda>x. x\<lparr>fref := 1\<rparr>)))
         (ret (Some f))
       else ret None))) (\<lambda>r.
     seq (release L_ftable)
     (ret r)))"

definition filedup :: "nat \<Rightarrow> (nat, 'a file_st_scheme) kop" where
  "filedup f =
     seq (acquire L_ftable)
     (bind (gets (\<lambda>s. fref (ftable s f))) (\<lambda>r.
     if r < 1 then panic ''filedup''
     else
       seq (modify (upd_file f (\<lambda>x. x\<lparr>fref := fref x + 1\<rparr>)))
       (seq (release L_ftable)
       (ret f))))"

definition fileclose :: "nat \<Rightarrow> (unit, 'a file_st_scheme) kop" where
  "fileclose f =
     seq (acquire L_ftable)
     (bind (gets (\<lambda>s. fref (ftable s f))) (\<lambda>r.
     if r < 1 then panic ''fileclose''
     else
       seq (modify (upd_file f (\<lambda>x. x\<lparr>fref := fref x - 1\<rparr>)))
       (bind (gets (\<lambda>s. ftable s f)) (\<lambda>ff.
       if fref ff > 0 then release L_ftable
       else
         seq (modify (upd_file f (\<lambda>x. x\<lparr>fref := 0, ftype := FD_NONE\<rparr>)))
         (seq (release L_ftable)
         (case ftype ff of
            FD_PIPE \<Rightarrow> pipeclose (fpipe ff) (writable ff)
          | FD_INODE \<Rightarrow>
              seq begin_op
              (case fip ff of
                 None \<Rightarrow> panic ''null pointer''
               | Some ip \<Rightarrow> seq (iput ip) end_op)
          | FD_NONE \<Rightarrow> skip))))))"

definition filestat :: "nat \<Rightarrow> (stat option, 'a file_st_scheme) kop" where
  "filestat f =
     bind (gets (\<lambda>s. ftable s f)) (\<lambda>x.
     if ftype x = FD_INODE then
       seq (ilock (fip x))
       (bind (gets (\<lambda>s. stati (icache s (the (fip x))))) (\<lambda>st.
       seq (iunlock (fip x))
       (ret (Some st))))
     else ret None)"

definition fileread ::
  "'a file_st_scheme devread \<Rightarrow> nat \<Rightarrow> bytes \<Rightarrow> int \<Rightarrow> (int \<times> bytes, 'a file_st_scheme) kop" where
  "fileread devsw f addr n =
     bind (gets (\<lambda>s. ftable s f)) (\<lambda>x.
     if \<not> readable x then ret (-1, addr)
     else case ftype x of
       FD_PIPE \<Rightarrow> piperead (fpipe x) addr n
     | FD_INODE \<Rightarrow>
         seq (ilock (fip x))
         (bind (readi devsw (the (fip x)) addr (foff x) (nat (n mod 2 ^ 32))) (\<lambda>(r, addr).
         seq (if r > 0 then modify (upd_file f (\<lambda>x. x\<lparr>foff := u32wrap (foff x + nat r)\<rparr>)) else skip)
         (seq (iunlock (fip x))
         (ret (r, addr)))))
     | FD_NONE \<Rightarrow> panic ''fileread'')"

text \<open>The most bytes one transaction of \<open>filewrite\<close> may write.\<close>

definition max_write :: int where
  "max_write = (MAXOPBLOCKS - 1 - 1 - 2) div 2 * 512"

function filewrite_loop ::
  "'a file_st_scheme devwrite \<Rightarrow> nat \<Rightarrow> bytes \<Rightarrow> int \<Rightarrow> int \<Rightarrow> (int, 'a file_st_scheme) kop" where
  "filewrite_loop devsw f addr n i =
     (if i < n then
        (let n1 = min (n - i) max_write in
         seq begin_op
         (bind (gets (\<lambda>s. ftable s f)) (\<lambda>x.
         seq (ilock (fip x))
         (bind (writei devsw (the (fip x)) (\<lambda>k. addr (nat i + k)) (foff x) (nat n1)) (\<lambda>r.
         seq (if r > 0 then modify (upd_file f (\<lambda>x. x\<lparr>foff := u32wrap (foff x + nat r)\<rparr>)) else skip)
         (seq (iunlock (fip x))
         (seq end_op
         (if r < 0 then ret i
          else if r \<noteq> n1 then panic ''short filewrite''
          else filewrite_loop devsw f addr n (i + n1)))))))))
      else ret i)"
  by pat_completeness auto
termination
  by (relation "measure (\<lambda>(devsw, f, addr, n, i). nat (n - i))") (auto simp: max_write_def min_def)

declare filewrite_loop.simps [simp del]

definition filewrite ::
  "'a file_st_scheme devwrite \<Rightarrow> nat \<Rightarrow> bytes \<Rightarrow> int \<Rightarrow> (int, 'a file_st_scheme) kop" where
  "filewrite devsw f addr n =
     bind (gets (\<lambda>s. ftable s f)) (\<lambda>x.
     if \<not> writable x then ret (-1)
     else case ftype x of
       FD_PIPE \<Rightarrow> pipewrite (fpipe x) addr n
     | FD_INODE \<Rightarrow> bind (filewrite_loop devsw f addr n 0) (\<lambda>i. ret (if i = n then n else -1))
     | FD_NONE \<Rightarrow> panic ''filewrite'')"

section \<open>Files as semaphores\<close>

definition filelock :: "nat \<Rightarrow> (int, 'a file_st_scheme) kop" where
  "filelock f =
     bind (gets (\<lambda>s. fip (ftable s f))) (\<lambda>p.
     case p of
       None \<Rightarrow> ret (-1)
     | Some i \<Rightarrow>
         bind (gets (\<lambda>s. iref (icache s i))) (\<lambda>r.
         if r < 1 then ret (-1)
         else seq (fsemaphore_lock p) (ret 0)))"

definition fileunlock :: "nat \<Rightarrow> (int, 'a file_st_scheme) kop" where
  "fileunlock f =
     bind (gets (\<lambda>s. fip (ftable s f))) (\<lambda>p.
     case p of
       None \<Rightarrow> ret (-1)
     | Some i \<Rightarrow>
         bind (holdingsleep (SL_flock i)) (\<lambda>h.
         bind (gets (\<lambda>s. iref (icache s i))) (\<lambda>r.
         if h \<and> \<not> r < 1 then seq (fsemaphore_unlock p) (ret 0)
         else ret (-1))))"

section \<open>Creating a pipe (pipe.c)\<close>

definition opt_close :: "nat option \<Rightarrow> (unit, 'a file_st_scheme) kop" where
  "opt_close f = (case f of None \<Rightarrow> skip | Some f \<Rightarrow> fileclose f)"

definition pipealloc :: "((nat \<times> nat) option, 'a file_st_scheme) kop" where
  "pipealloc =
     bind filealloc (\<lambda>r0.
     case r0 of
       None \<Rightarrow> ret None
     | Some f0 \<Rightarrow>
         bind filealloc (\<lambda>r1.
         case r1 of
           None \<Rightarrow> seq (opt_close (Some f0)) (ret None)
         | Some f1 \<Rightarrow>
             bind kalloc (\<lambda>p.
             if p = 0 then seq (opt_close (Some f0)) (seq (opt_close (Some f1)) (ret None))
             else
               seq (modify (upd_pipe p (\<lambda>x. x\<lparr>readopen := True, writeopen := True, nwrite := 0, nread := 0\<rparr>)))
               (seq (modify (upd_file f0 (\<lambda>x. x\<lparr>ftype := FD_PIPE, readable := True, writable := False, fpipe := p\<rparr>)))
               (seq (modify (upd_file f1 (\<lambda>x. x\<lparr>ftype := FD_PIPE, readable := False, writable := True, fpipe := p\<rparr>)))
               (ret (Some (f0, f1))))))))"

end
