(* ===== verification/Proc.thy ===== *)
theory Proc
  imports File
begin

text \<open>
  Processes (src/proc.c): creation, exit and wait, the scheduler, and the calls that list, signal
  and prioritise processes. Locking, sleep and wakeup are in theory KState, and \<open>procdump\<close> is in
  theory Console.

  The new trap frame of \<open>allocproc\<close> is whatever is in the page; its callers overwrite it. The
  binary \<open>initcode\<close> that \<open>userinit\<close> loads is an argument.
\<close>

section \<open>Creating processes\<close>

record proc_st = file_st +
  first :: bool

abbreviation (input) set_state :: "nat \<Rightarrow> procstate \<Rightarrow> (unit, 'a kst_scheme) kop" where
  "set_state p st \<equiv> modify (upd_proc p (\<lambda>x. x\<lparr>pstate := st\<rparr>))"

text \<open>One round of the loop that looks for an unused process.\<close>

definition alloc_visit :: "nat \<Rightarrow> (nat option, 'a kst_scheme) kop" where
  "alloc_visit p =
     seq (modify (upd_proc p (\<lambda>x. x\<lparr>priority := 0\<rparr>)))
     (bind (gets (\<lambda>s. pstate (ptable s p))) (\<lambda>st.
     ret (if st = UNUSED then Some p else None)))"

definition allocproc :: "(nat option, 'a mem_st_scheme) kop" where
  "allocproc =
     seq (acquire L_ptable)
     (bind (search [0..<NPROC] alloc_visit) (\<lambda>r.
     case r of
       None \<Rightarrow> seq (release L_ptable) (ret None)
     | Some p \<Rightarrow>
         seq (set_state p EMBRYO)
         (seq (modify (\<lambda>s. upd_proc p (\<lambda>x. x\<lparr>pid := nextpid s\<rparr>) (s\<lparr>nextpid := nextpid s + 1\<rparr>)))
         (seq (release L_ptable)
         (bind kalloc (\<lambda>k.
         seq (modify (upd_proc p (\<lambda>x. x\<lparr>kstack := of_nat k\<rparr>)))
         (if k = 0 then seq (set_state p UNUSED) (ret None)
          else
            seq (modify (upd_proc p (\<lambda>x. x\<lparr>pcontext := \<lparr>c_edi = 0, c_esi = 0, c_ebx = 0, c_ebp = 0, c_eip = Forkret\<rparr>\<rparr>)))
            (ret (Some p)))))))))"

definition user_tf :: trapframe where
  "user_tf = (tf proc0)\<lparr>tf_cs := 0x1B, tf_ds := 0x23, tf_es := 0x23, tf_ss := 0x23, tf_eflags := 0x200, tf_esp := 4096, tf_eip := 0\<rparr>"

text \<open>The characters of "initcode" with their NUL.\<close>

definition initcode_name :: bytes where
  "initcode_name = of_string [105, 110, 105, 116, 99, 111, 100, 101]"

definition userinit :: "'a mem_st_scheme devread \<Rightarrow> bytes \<Rightarrow> nat \<Rightarrow> (unit, 'a mem_st_scheme) kop" where
  "userinit devsw initcode n =
     bind allocproc (\<lambda>r.
     seq (modify (\<lambda>s. s\<lparr>initproc := r\<rparr>))
     (case r of
        None \<Rightarrow> panic ''null pointer''
      | Some p \<Rightarrow>
          bind setupkvm (\<lambda>pgd.
          seq (modify (upd_proc p (\<lambda>x. x\<lparr>pgdir := of_nat pgd\<rparr>)))
          (if pgd = 0 then panic ''userinit: out of memory?''
           else
             seq (inituvm pgd initcode n)
             (seq (modify (upd_proc p (\<lambda>x. x\<lparr>sz := 4096, tf := user_tf, pname := safestrcpy (pname x) initcode_name 16\<rparr>)))
             (bind (namei devsw [47]) (\<lambda>ip.
             seq (modify (\<lambda>s. upd_proc p (\<lambda>x. x\<lparr>cwd := ip, ticksAtStart := ticks s, ticksScheduled := 0\<rparr>) s))
             (seq (acquire L_ptable)
             (seq (set_state p RUNNABLE)
             (release L_ptable))))))))))"

definition growproc :: "int \<Rightarrow> (int, 'a mem_st_scheme) kop" where
  "growproc n =
     bind cur (\<lambda>p.
     bind (gets (\<lambda>s. ptable s p)) (\<lambda>x.
     let old = unat (sz x); new = nat ((int old + n) mod 2 ^ 32) in
     bind (if n > 0 then allocuvm (unat (pgdir x)) old new
           else if n < 0 then deallocuvm (unat (pgdir x)) old new
           else ret old) (\<lambda>r.
     if n \<noteq> 0 \<and> r = 0 then ret (-1)
     else
       seq (modify (upd_proc p (\<lambda>x. x\<lparr>sz := of_nat r\<rparr>)))
       (seq (switchuvm (Some p))
       (ret 0)))))"

definition fork :: "(int, 'a file_st_scheme) kop" where
  "fork =
     bind cur (\<lambda>cp.
     bind allocproc (\<lambda>r.
     case r of
       None \<Rightarrow> ret (-1)
     | Some np \<Rightarrow>
         bind (gets (\<lambda>s. ptable s cp)) (\<lambda>c.
         bind (copyuvm (unat (pgdir c)) (unat (sz c))) (\<lambda>pgd.
         seq (modify (upd_proc np (\<lambda>x. x\<lparr>pgdir := of_nat pgd\<rparr>)))
         (if pgd = 0 then
            bind (gets (\<lambda>s. kstack (ptable s np))) (\<lambda>k.
            seq (kfree (unat k))
            (seq (modify (upd_proc np (\<lambda>x. x\<lparr>kstack := 0, pstate := UNUSED\<rparr>)))
            (ret (-1))))
          else
            seq (modify (upd_proc np (\<lambda>x. x\<lparr>sz := sz c, parent := Some cp, tf := (tf c)\<lparr>tf_eax := 0\<rparr>\<rparr>)))
            (seq (foreach [0..<NOFILE] (\<lambda>i.
              bind (gets (\<lambda>s. ofile (ptable s cp) ! i)) (\<lambda>f.
              case f of
                None \<Rightarrow> skip
              | Some f \<Rightarrow>
                  bind (filedup f) (\<lambda>f.
                  modify (upd_proc np (\<lambda>x. x\<lparr>ofile := (ofile x)[i := Some f]\<rparr>))))))
            (bind (idup (cwd c)) (\<lambda>d.
            seq (modify (upd_proc np (\<lambda>x. x\<lparr>cwd := Some d, pname := safestrcpy (pname x) (pname c) 16\<rparr>)))
            (bind (gets (\<lambda>s. pid (ptable s np))) (\<lambda>i.
            seq (acquire L_ptable)
            (seq (modify (\<lambda>s. upd_proc np (\<lambda>x. x\<lparr>pstate := RUNNABLE, ticksAtStart := ticks s, ticksScheduled := 0\<rparr>) s))
            (seq (release L_ptable)
            (ret (sint i))))))))))))))"

section \<open>Exit and wait\<close>

text \<open>\<open>wakeup1\<close> on a process pointer, which may be null: no process sleeps on the null channel.\<close>

definition wakeup_proc :: "nat option \<Rightarrow> (unit, 'a kst_scheme) kop" where
  "wakeup_proc q = (case q of None \<Rightarrow> skip | Some p \<Rightarrow> wakeup1 (C_proc p))"

definition exit :: "(unit, 'a file_st_scheme) kop" where
  "exit =
     bind cur (\<lambda>cp.
     bind (gets initproc) (\<lambda>ini.
     if Some cp = ini then panic ''init exiting''
     else
       seq (foreach [0..<NOFILE] (\<lambda>fd.
         bind (gets (\<lambda>s. ofile (ptable s cp) ! fd)) (\<lambda>f.
         case f of
           None \<Rightarrow> skip
         | Some f \<Rightarrow>
             seq (fileclose f)
             (modify (upd_proc cp (\<lambda>x. x\<lparr>ofile := (ofile x)[fd := None]\<rparr>))))))
       (seq begin_op
       (bind (gets (\<lambda>s. cwd (ptable s cp))) (\<lambda>d.
       seq (case d of None \<Rightarrow> panic ''null pointer'' | Some d \<Rightarrow> iput d)
       (seq end_op
       (seq (modify (upd_proc cp (\<lambda>x. x\<lparr>cwd := None\<rparr>)))
       (seq (acquire L_ptable)
       (bind (gets (\<lambda>s. parent (ptable s cp))) (\<lambda>q.
       seq (wakeup_proc q)
       (seq (foreach [0..<NPROC] (\<lambda>p.
         bind (gets (\<lambda>s. ptable s p)) (\<lambda>x.
         if parent x = Some cp then
           seq (modify (upd_proc p (\<lambda>x. x\<lparr>parent := ini\<rparr>)))
           (if pstate x = ZOMBIE then wakeup_proc ini else skip)
         else skip)))
       (seq (set_state cp ZOMBIE)
       (seq sched
       (panic ''zombie exit''))))))))))))))"

definition wait_loop :: "(int, 'a mem_st_scheme) kop" where
  "wait_loop =
     bind cur (\<lambda>cp.
     bind (search [0..<NPROC] (\<lambda>p.
       bind (gets (\<lambda>s. ptable s p)) (\<lambda>x.
       if parent x \<noteq> Some cp then ret None
       else if pstate x = ZOMBIE then
         seq (kfree (unat (kstack x)))
         (seq (modify (upd_proc p (\<lambda>x. x\<lparr>kstack := 0\<rparr>)))
         (seq (freevm (unat (pgdir x)))
         (seq (modify (upd_proc p (\<lambda>x. x\<lparr>pid := 0, parent := None, pname := (pname x)(0 := 0), killed := False, pstate := UNUSED\<rparr>)))
         (seq (release L_ptable)
         (ret (Some (sint (pid x))))))))
       else ret None))) (\<lambda>r.
     case r of
       Some i \<Rightarrow> ret i
     | None \<Rightarrow>
         bind (gets (\<lambda>s. list_ex (\<lambda>p. parent (ptable s p) = Some cp) [0..<NPROC])) (\<lambda>havekids.
         bind (gets (\<lambda>s. killed (ptable s cp))) (\<lambda>k.
         if \<not> havekids \<or> k then seq (release L_ptable) (ret (-1))
         else seq (sleep (C_proc cp) L_ptable) (ret 0)))))"

definition wait :: "(int, 'a mem_st_scheme) kop" where
  "wait = seq (acquire L_ptable) wait_loop"

definition wait_resume :: "(int, 'a mem_st_scheme) kop" where
  "wait_resume = seq (sleep_return L_ptable) wait_loop"

section \<open>Scheduling\<close>

text \<open>
  One round of the scheduler's inner loop, for process \<open>p\<close> and the value of \<open>lowestPriority\<close>: either
  the process is passed over, or it is dispatched, up to the \<open>swtch\<close> into it, with the new value of
  \<open>lowestPriority\<close>. \<open>scheduler_return\<close> is what the scheduler does when the process switches back.
\<close>

definition lowest0 :: int where
  "lowest0 = 0x77777777"

definition scheduler_visit :: "nat \<Rightarrow> int \<Rightarrow> (int option, 'a mem_st_scheme) kop" where
  "scheduler_visit p low =
     bind (gets (\<lambda>s. ptable s p)) (\<lambda>x.
     if pstate x \<noteq> RUNNABLE \<or> sint (priority x) > low then ret None
     else
       seq (modify (\<lambda>s. s\<lparr>curproc := Some p\<rparr>))
       (seq (switchuvm (Some p))
       (seq (set_state p RUNNING)
       (ret (Some (sint (priority x)))))))"

definition scheduler_return :: "(unit, 'a mem_st_scheme) kop" where
  "scheduler_return = seq switchkvm (modify (\<lambda>s. s\<lparr>curproc := None\<rparr>))"

text \<open>
  The loops of \<open>scheduler\<close>. The process table is visited entry after entry, round after round, and \<open>lowestPriority\<close> is set once, before
  the first round. The states in which the visits are made are given: they are what the dispatched processes and the other
  processors have made of the kernel by then. The result is the list of dispatched processes with their priorities; \<open>None\<close> is a
  panic in \<open>switchuvm\<close>.
\<close>

fun scheduler_loop :: "nat \<Rightarrow> int \<Rightarrow> 'a mem_st_scheme list \<Rightarrow> (nat \<times> int) list option" where
  "scheduler_loop p low [] = Some []"
| "scheduler_loop p low (s # ss) =
     (case scheduler_visit p low s of
        Ok None _ \<Rightarrow> scheduler_loop ((p + 1) mod NPROC) low ss
      | Ok (Some l) _ \<Rightarrow> map_option ((#) (p, l)) (scheduler_loop ((p + 1) mod NPROC) l ss)
      | _ \<Rightarrow> None)"

definition scheduler :: "'a mem_st_scheme list \<Rightarrow> (nat \<times> int) list option" where
  "scheduler ss = scheduler_loop 0 lowest0 ss"

text \<open>The start of \<open>forkret\<close>'s file system initialisation, on the first call.\<close>

definition forkret :: "(unit, 'a proc_st_scheme) kop" where
  "forkret =
     seq (release L_ptable)
     (bind (gets first) (\<lambda>f.
     if f then
       seq (modify (\<lambda>s. s\<lparr>first := False\<rparr>))
       (seq (iinit ROOTDEV) (initlog ROOTDEV))
     else skip))"

section \<open>Signals, listing and priorities\<close>

definition kill :: "u32 \<Rightarrow> (int, 'a kst_scheme) kop" where
  "kill i =
     seq (acquire L_ptable)
     (bind (search [0..<NPROC] (\<lambda>p.
       bind (gets (\<lambda>s. ptable s p)) (\<lambda>x.
       if pid x = i then
         seq (modify (upd_proc p (\<lambda>x. x\<lparr>killed := True, pstate := (if pstate x = SLEEPING then RUNNABLE else pstate x)\<rparr>)))
         (seq (release L_ptable) (ret (Some ())))
       else ret None))) (\<lambda>r.
     case r of Some _ \<Rightarrow> ret 0 | None \<Rightarrow> seq (release L_ptable) (ret (-1))))"

record procInfo =
  pi_state :: procstate
  pi_pid :: u32
  pi_cpuPercent :: int
  pi_name :: bytes

text \<open>Division of C, which rounds towards zero, by a positive number.\<close>

definition cdiv :: "int \<Rightarrow> int \<Rightarrow> int" where
  "cdiv a b = (if a < 0 then - ((- a) div b) else a div b)"

definition cpu_percent :: "u32 \<Rightarrow> u32 \<Rightarrow> u32 \<Rightarrow> int" where
  "cpu_percent now since sch =
     (let elapsed = sint (now - since) in
      if elapsed > 0 \<and> 1 < sint sch then min 100 (cdiv (sint (sch * 100)) elapsed) else 0)"

text \<open>
  What \<open>proc_ps\<close> stores in the elements of the caller's array, from the first on. The code does not
  look at the number of elements the caller says there are. The bytes of a name after its NUL keep
  what the array held.
\<close>

definition proc_ps :: "int \<Rightarrow> (nat \<Rightarrow> bytes) \<Rightarrow> (procInfo list, 'a kst_scheme) kop" where
  "proc_ps numberOfProcs old =
     bind (gets ticks) (\<lambda>now.
     seq (acquire L_ptable)
     (bind (gets (\<lambda>s. filter (\<lambda>x. pstate x \<noteq> UNUSED) (map (ptable s) [0..<NPROC]))) (\<lambda>ps.
     seq (release L_ptable)
     (ret (map (\<lambda>(i, x). \<lparr>pi_state = pstate x, pi_pid = pid x, pi_cpuPercent = cpu_percent now (ticksAtStart x) (ticksScheduled x),
             pi_name = safestrcpy (old i) (pname x) 16\<rparr>) (enumerate 0 ps))))))"

text \<open>\<open>proc_nice\<close> returns the field of the element past the end of the table.\<close>

definition proc_nice :: "u32 \<Rightarrow> u32 \<Rightarrow> (u32, 'a kst_scheme) kop" where
  "proc_nice i pri =
     seq (foreach [0..<NPROC] (\<lambda>p.
       bind (gets (\<lambda>s. pid (ptable s p))) (\<lambda>j.
       if j = i then modify (upd_proc p (\<lambda>x. x\<lparr>priority := pri\<rparr>)) else skip)))
     (gets (\<lambda>s. priority (ptable s NPROC)))"


section \<open>Allocating a process\<close>

lemma search_upt_Some:
  assumes "\<And>k s. k < p \<Longrightarrow> I k s \<Longrightarrow> \<exists>s'. f k s = Ok None s' \<and> I (Suc k) s'" "I 0 s" "p < n"
    and "\<And>s. I p s \<Longrightarrow> \<exists>s'. f p s = Ok (Some y) s' \<and> Q s'"
  shows "\<exists>s'. search [0..<n] f s = Ok (Some y) s' \<and> Q s'"
proof -
  have "\<exists>s'. search [k..<n] f s = Ok (Some y) s' \<and> Q s'" if "I k s" "k \<le> p" for k s
    using that
  proof (induction "p - k" arbitrary: k s)
    case 0
    then have k: "k = p" by simp
    obtain s' where "f p s = Ok (Some y) s'" "Q s'" using assms(4) [of s] 0 k by blast
    then show ?case using assms(3) k by (simp add: upt_conv_Cons)
  next
    case (Suc d)
    then have "k < p" by simp
    then obtain s' where s': "f k s = Ok None s'" "I (Suc k) s'" using assms(1) Suc.prems by blast
    have "search [k..<n] f s = search [Suc k..<n] f s'" using s'(1) \<open>k < p\<close> assms(3) by (simp add: upt_conv_Cons)
    then show ?case using Suc.hyps(1) [of "Suc k" s'] Suc.hyps(2) s'(2) \<open>k < p\<close> by simp
  qed
  from this [of 0 s] assms(2) show ?thesis by simp
qed

lemma search_upt_None:
  assumes "\<And>k s. k < n \<Longrightarrow> I k s \<Longrightarrow> \<exists>s'. f k s = Ok None s' \<and> I (Suc k) s'" "I 0 s"
  shows "\<exists>s'. search [0..<n] f s = Ok None s' \<and> I n s'"
proof -
  have "\<exists>s'. search [k..<n] f s = Ok None s' \<and> I n s'" if "I k s" "k \<le> n" for k s
    using that
  proof (induction "n - k" arbitrary: k s)
    case (Suc d)
    then have "k < n" by simp
    then obtain s' where s': "f k s = Ok None s'" "I (Suc k) s'" using assms(1) Suc.prems by blast
    have "search [k..<n] f s = search [Suc k..<n] f s'" using s'(1) \<open>k < n\<close> by (simp add: upt_conv_Cons)
    then show ?case using Suc.hyps(1) [of "Suc k" s'] Suc.hyps(2) s'(2) \<open>k < n\<close> by simp
  qed simp
  from this [of 0 s] assms(2) show ?thesis by simp
qed

text \<open>The table after the loop of \<open>allocproc\<close> has visited the first \<open>k\<close> processes.\<close>

definition unprioritised :: "nat \<Rightarrow> (nat \<Rightarrow> proc) \<Rightarrow> nat \<Rightarrow> proc" where
  "unprioritised k pt = (\<lambda>i. if i < k then (pt i)\<lparr>priority := 0\<rparr> else pt i)"

lemma unprioritised_step:
  "upd_proc k (\<lambda>x. x\<lparr>priority := 0\<rparr>) (s\<lparr>ptable := unprioritised k pt\<rparr>) = s\<lparr>ptable := unprioritised (Suc k) pt\<rparr>"
  by (auto simp: upd_proc_def unprioritised_def fun_eq_iff less_Suc_eq intro!: arg_cong [where f = "\<lambda>f. s\<lparr>ptable := f\<rparr>"])

lemma pstate_unprioritised [simp]: "pstate (unprioritised k pt i) = pstate (pt i)"
  by (simp add: unprioritised_def)

lemma alloc_visit_eq:
  "alloc_visit k (s\<lparr>ptable := unprioritised k pt\<rparr>)
    = Ok (if pstate (pt k) = UNUSED then Some k else None) (s\<lparr>ptable := unprioritised (Suc k) pt\<rparr>)"
  by (simp add: alloc_visit_def unprioritised_step)

lemma alloc_scan_Some:
  assumes "p < NPROC" "pstate (ptable s p) = UNUSED" "\<forall>q < p. pstate (ptable s q) \<noteq> UNUSED"
  shows "search [0..<NPROC] alloc_visit s = Ok (Some p) (s\<lparr>ptable := unprioritised (Suc p) (ptable s)\<rparr>)"
proof -
  let ?I = "\<lambda>k t. t = s\<lparr>ptable := unprioritised k (ptable s)\<rparr>"
  have "\<exists>t. search [0..<NPROC] alloc_visit s = Ok (Some p) t \<and> ?I (Suc p) t"
    using assms by (intro search_upt_Some [where I = ?I and p = p]) (auto simp: alloc_visit_eq, simp add: unprioritised_def)
  then show ?thesis by simp
qed

lemma alloc_scan_None:
  assumes "\<forall>q < NPROC. pstate (ptable s q) \<noteq> UNUSED"
  shows "search [0..<NPROC] alloc_visit s = Ok None (s\<lparr>ptable := unprioritised NPROC (ptable s)\<rparr>)"
proof -
  let ?I = "\<lambda>k t. t = s\<lparr>ptable := unprioritised k (ptable s)\<rparr>"
  have "\<exists>t. search [0..<NPROC] alloc_visit s = Ok None t \<and> ?I NPROC t"
    using assms by (intro search_upt_None [where I = ?I]) (auto simp: alloc_visit_eq, simp add: unprioritised_def)
  then show ?thesis by simp
qed


lemma kmem_ok_table [simp]:
  "kmem_ok (s\<lparr>ptable := pt\<rparr>) ps = kmem_ok s ps" "kmem_ok (s\<lparr>nextpid := n\<rparr>) ps = kmem_ok s ps"
  "kmem_ok (upd_proc p f s) ps = kmem_ok s ps"
  by (simp_all add: kmem_ok_def kpage_def upd_proc_def)

lemma kload32_table [simp]: "kload32 k (s\<lparr>ptable := pt\<rparr>) = kload32 k s" "kload32 k (s\<lparr>nextpid := n\<rparr>) = kload32 k s"
  by (simp_all add: kload32_def)

lemma allocproc_eq:
  assumes "kmem_ok s (k # ks)" "L_ptable \<notin> set (held s)"
    and "p < NPROC" "pstate (ptable s p) = UNUSED" "\<forall>q < p. pstate (ptable s q) \<noteq> UNUSED"
  shows "allocproc s = Ok (Some p) (s\<lparr>nextpid := nextpid s + 1, freelist := unat (kload32 k s),
    ptable := (unprioritised p (ptable s))(p := (ptable s p)\<lparr>priority := 0, pstate := EMBRYO, pid := nextpid s, kstack := of_nat k,
      pcontext := \<lparr>c_edi = 0, c_esi = 0, c_ebx = 0, c_ebp = 0, c_eip = Forkret\<rparr>\<rparr>)\<rparr>)"
proof -
  let ?s1 = "s\<lparr>held := L_ptable # held s\<rparr>"
  let ?pt = "(unprioritised p (ptable s))(p := (ptable s p)\<lparr>priority := 0, pstate := EMBRYO, pid := nextpid s\<rparr>)"
  let ?s2 = "s\<lparr>nextpid := nextpid s + 1, ptable := ?pt\<rparr>"
  have scan: "search [0..<NPROC] alloc_visit ?s1 = Ok (Some p) (?s1\<lparr>ptable := unprioritised (Suc p) (ptable s)\<rparr>)"
    using alloc_scan_Some [of p ?s1] assms(3-5) by simp
  have pt: "(unprioritised (Suc p) (ptable s))(p := x) = (unprioritised p (ptable s))(p := x)" for x
    by (auto simp: unprioritised_def fun_eq_iff)
  have "kmem_ok ?s2 (k # ks)" using assms(1) by simp
  from kalloc_some [OF this] have k: "kalloc ?s2 = Ok k (?s2\<lparr>freelist := unat (kload32 k s)\<rparr>)" "k \<noteq> 0"
    using assms(1) by (auto simp: kmem_ok_def kpage_def)
  have rel: "release L_ptable (s\<lparr>held := L_ptable # held s, nextpid := nextpid s + 1, ptable := ?pt\<rparr>) = Ok () ?s2"
    by (auto simp: release_def intro!: mem_st.equality)
  have pp: "unprioritised (Suc p) (ptable s) p = (ptable s p)\<lparr>priority := 0\<rparr>" by (simp add: unprioritised_def)
  show ?thesis
    using assms(2) k rel
    by (simp add: allocproc_def acquire_def scan upd_proc_def pt pp)
qed

text \<open>
  C33 \<open>allocproc\<close> takes the first unused process, gives it the next process id, a fresh page as its kernel stack
  and a context that starts in \<open>forkret\<close>. It also sets the priority of every process in front of it in
  the table to 0, whatever \<open>nice\<close> had set it to.
\<close>

theorem allocproc_effect:
  assumes "kmem_ok s (k # ks)" "L_ptable \<notin> set (held s)"
    and "p < NPROC" "pstate (ptable s p) = UNUSED" "\<forall>q < p. pstate (ptable s q) \<noteq> UNUSED"
  shows "\<exists>s'. allocproc s = Ok (Some p) s' \<and> kmem_ok s' ks \<and> nextpid s' = nextpid s + 1 \<and> held s' = held s
    \<and> pstate (ptable s' p) = EMBRYO \<and> pid (ptable s' p) = nextpid s \<and> kstack (ptable s' p) = of_nat k
    \<and> c_eip (pcontext (ptable s' p)) = Forkret \<and> (\<forall>q < p. ptable s' q = (ptable s q)\<lparr>priority := 0\<rparr>)
    \<and> (\<forall>q > p. ptable s' q = ptable s q)"
proof -
  have "kmem_ok (s\<lparr>freelist := unat (kload32 k s)\<rparr>) ks" using kalloc_some [OF assms(1)] by auto
  then have "kmem_ok (s\<lparr>nextpid := n, freelist := unat (kload32 k s), ptable := pt\<rparr>) ks" for n pt
    by (simp add: kmem_ok_def kpage_def)
  then show ?thesis
    unfolding allocproc_eq [OF assms] by (simp add: unprioritised_def)
qed

lemma ex_unused:
  obtains s :: mem_st and k ks where "kmem_ok s (k # ks)" "held s = []" "ptable s = (\<lambda>_. proc0)" "k \<in> {0x80200000, 0x80201000}"
proof -
  obtain s :: mem_st and ps where s: "kmem_ok s ps" "set ps = {0x80200000, 0x80201000}" "held s = []" by (rule ex_pool)
  then obtain k ks where "ps = k # ks" by (cases ps) auto
  with s show thesis by (intro that [of "s\<lparr>ptable := (\<lambda>_. proc0)\<rparr>" k ks]) auto
qed

theorem allocproc_effect_witness:
  "\<exists>(s :: mem_st) s'. pstate (ptable s 0) = UNUSED \<and> allocproc s = Ok (Some 0) s' \<and> pstate (ptable s' 0) = EMBRYO
    \<and> pid (ptable s' 0) = nextpid s"
proof -
  obtain s :: mem_st and k ks where s: "kmem_ok s (k # ks)" "held s = []" "ptable s = (\<lambda>_. proc0)" by (rule ex_unused)
  have h: "L_ptable \<notin> set (held s)" "pstate (ptable s 0) = UNUSED" "\<forall>q < 0. pstate (ptable s q) \<noteq> UNUSED" "0 < NPROC"
    by (simp_all add: s proc0_def)
  from allocproc_effect [OF s(1) h(1,4,2,3)] h(2) show ?thesis by blast
qed


section \<open>Signals\<close>

definition signalled :: "proc \<Rightarrow> proc" where
  "signalled x = x\<lparr>killed := True, pstate := (if pstate x = SLEEPING then RUNNABLE else pstate x)\<rparr>"

lemma kill_eq:
  assumes "L_ptable \<notin> set (held s)" "p < NPROC" "pid (ptable s p) = i" "\<forall>q < p. pid (ptable s q) \<noteq> i"
  shows "kill i s = Ok 0 (upd_proc p signalled s)"
proof -
  let ?s1 = "s\<lparr>held := L_ptable # held s\<rparr>"
  let ?f = "\<lambda>p. bind (gets (\<lambda>s. ptable s p)) (\<lambda>x.
       if pid x = i then
         seq (modify (upd_proc p (\<lambda>x. x\<lparr>killed := True, pstate := (if pstate x = SLEEPING then RUNNABLE else pstate x)\<rparr>)))
         (seq (release L_ptable) (ret (Some ())))
       else ret None)"
  have "\<exists>t. search [0..<NPROC] ?f ?s1 = Ok (Some ()) t \<and> t = upd_proc p signalled s"
    using assms by (intro search_upt_Some [where I = "\<lambda>k t. t = ?s1" and p = p])
      (auto simp: release_def upd_proc_def signalled_def intro!: kst.equality)
  then show ?thesis using assms(1) by (simp add: kill_def acquire_def)
qed

text \<open>
  C39 \<open>kill(0)\<close> succeeds on an unused entry of the process table, whose process id is 0, and since neither
  \<open>allocproc\<close> nor \<open>fork\<close> clears \<open>killed\<close>, the next process created in that entry is born killed.
\<close>

theorem kill_zero_poisons:
  assumes "kmem_ok s (k # ks)" "L_ptable \<notin> set (held s)" "p < NPROC" "pstate (ptable s p) = UNUSED" "pid (ptable s p) = 0"
    and "\<forall>q < p. pid (ptable s q) \<noteq> 0 \<and> pstate (ptable s q) \<noteq> UNUSED"
  shows "\<exists>s1 s2. kill 0 s = Ok 0 s1 \<and> allocproc s1 = Ok (Some p) s2 \<and> killed (ptable s2 p) \<and> pstate (ptable s2 p) = EMBRYO"
proof -
  let ?s = "upd_proc p signalled s"
  have 1: "kill 0 s = Ok 0 ?s" using assms by (intro kill_eq) auto
  have "kmem_ok ?s (k # ks)" "L_ptable \<notin> set (held ?s)" "pstate (ptable ?s p) = UNUSED" "\<forall>q < p. pstate (ptable ?s q) \<noteq> UNUSED"
    using assms by (auto simp: signalled_def)
  from allocproc_eq [OF this(1,2) assms(3) this(3,4)] 1 show ?thesis
    by (simp add: signalled_def)
qed

theorem kill_zero_poisons_witness:
  "\<exists>(s :: mem_st) s1 s2. \<not> killed (ptable s 0) \<and> kill 0 s = Ok 0 s1 \<and> allocproc s1 = Ok (Some 0) s2 \<and> killed (ptable s2 0)"
proof -
  obtain s :: mem_st and k ks where s: "kmem_ok s (k # ks)" "held s = []" "ptable s = (\<lambda>_. proc0)" by (rule ex_unused)
  have h: "L_ptable \<notin> set (held s)" "0 < NPROC" "pstate (ptable s 0) = UNUSED" "pid (ptable s 0) = 0"
    "\<forall>q < 0. pid (ptable s q) \<noteq> 0 \<and> pstate (ptable s q) \<noteq> UNUSED" "\<not> killed (ptable s 0)"
    by (simp_all add: s proc0_def)
  from kill_zero_poisons [OF s(1) h(1-5)] h(6) show ?thesis by blast
qed

section \<open>The scheduler\<close>

lemma switchuvm_Ok:
  "switchuvm (Some p) s = Ok u s' \<Longrightarrow>
   s' = s\<lparr>ts_esp0 := u32wrap (unat (kstack (ptable s p)) + 4096), cr3 := unat (pgdir (ptable s p)) - KERNBASE\<rparr>"
  by (auto simp: switchuvm_def V2P_def split: if_splits)

lemma scheduler_visit_dispatch:
  assumes "scheduler_visit p low s = Ok (Some l) s'"
  shows "pstate (ptable s p) = RUNNABLE" "l = sint (priority (ptable s p))" "l \<le> low" "curproc s' = Some p"
    "ptable s' = (ptable s)(p := (ptable s p)\<lparr>pstate := RUNNING\<rparr>)" "cr3 s' = unat (pgdir (ptable s p)) - KERNBASE"
  using assms by (auto simp: scheduler_visit_def seq_Ok_iff upd_proc_def dest!: switchuvm_Ok split: if_splits)

lemma scheduler_visit_None:
  "scheduler_visit p low s = Ok None s' \<Longrightarrow> s' = s \<and> (pstate (ptable s p) = RUNNABLE \<longrightarrow> low < sint (priority (ptable s p)))"
  by (auto simp: scheduler_visit_def seq_Ok_iff split: if_splits)

lemma scheduler_loop_sorted:
  "scheduler_loop p low ss = Some ds \<Longrightarrow> sorted_wrt (\<lambda>(_, l) (_, l'). l' \<le> l) ((q, low) # ds)"
proof (induction p low ss arbitrary: q ds rule: scheduler_loop.induct)
  case (2 p low s ss)
  show ?case
  proof (cases "scheduler_visit p low s")
    case (Ok r s')
    show ?thesis
    proof (cases r)
      case None
      then show ?thesis using 2 Ok by simp
    next
      case (Some l)
      then obtain es where es: "ds = (p, l) # es" "scheduler_loop ((p + 1) mod NPROC) l ss = Some es" using 2(3) Ok by auto
      have "sorted_wrt (\<lambda>(_, l) (_, l'). l' \<le> l) ((p, l) # es)" using 2(2) [OF Ok Some es(2)] .
      moreover have "l \<le> low" using scheduler_visit_dispatch(3) Ok Some by blast
      ultimately show ?thesis unfolding es(1) by (auto intro: order_trans)
    qed
  qed (use 2(3) in simp_all)
qed simp

text \<open>A run of the loops goes on with the priority of the last process it dispatched.\<close>

lemma scheduler_loop_append:
  "scheduler_loop p low (ss @ ts) = Some ds \<Longrightarrow> scheduler_loop p low ss = Some ds1
    \<Longrightarrow> \<exists>p' ds2. ds = ds1 @ ds2 \<and> scheduler_loop p' (last (low # map snd ds1)) ts = Some ds2"
proof (induction p low ss arbitrary: ds ds1 rule: scheduler_loop.induct)
  case (2 p low s ss)
  show ?case
  proof (cases "scheduler_visit p low s")
    case (Ok r s')
    show ?thesis
    proof (cases r)
      case None
      then show ?thesis using 2 Ok by simp
    next
      case (Some l)
      then obtain es es1 where es: "ds = (p, l) # es" "ds1 = (p, l) # es1" "scheduler_loop ((p + 1) mod NPROC) l (ss @ ts) = Some es"
        "scheduler_loop ((p + 1) mod NPROC) l ss = Some es1" using 2(3,4) Ok by auto
      from 2(2) [OF Ok Some es(3,4)] show ?thesis unfolding es(1,2) by simp
    qed
  qed (use 2(3) in simp_all)
qed auto

lemma scheduler_loop_passes:
  assumes "scheduler_loop p low ss = Some ds" "\<forall>t \<in> set ss. pstate (ptable t r) = RUNNABLE \<longrightarrow> low < sint (priority (ptable t r))"
  shows "r \<notin> fst ` set ds"
  using assms
proof (induction p low ss arbitrary: ds rule: scheduler_loop.induct)
  case (2 p low s ss)
  show ?case
  proof (cases "scheduler_visit p low s")
    case (Ok x s')
    show ?thesis
    proof (cases x)
      case None
      then show ?thesis using 2 Ok by simp
    next
      case (Some l)
      note d = scheduler_visit_dispatch [OF Ok [unfolded Some]]
      obtain es where es: "ds = (p, l) # es" "scheduler_loop ((p + 1) mod NPROC) l ss = Some es" using 2(3) Ok Some by auto
      have "r \<noteq> p" using 2(4) d(1-3) by auto
      moreover have "r \<notin> fst ` set es" using 2(2) [OF Ok Some es(2)] 2(4) d(3) by fastforce
      ultimately show ?thesis unfolding es(1) by simp
    qed
  qed (use 2(3) in simp_all)
qed simp

text \<open>
  C36 \<open>lowestPriority\<close> is never reset. Whatever the processes and the other processors do between the visits of a processor's
  scheduler, the priority values of the processes it dispatches never go up. Once it has dispatched some process with the value
  \<open>l\<close>, a process whose value is above \<open>l\<close> in all states of the later visits in which it is runnable is not dispatched in any of them, be it the
  only one that is runnable.
\<close>

theorem scheduler_starves:
  assumes "scheduler ss = Some ds1" "(q, l) \<in> set ds1" "scheduler (ss @ ts) = Some ds"
    and "\<forall>t \<in> set ts. pstate (ptable t r) = RUNNABLE \<longrightarrow> l < sint (priority (ptable t r))"
  shows "sorted_wrt (\<lambda>(_, l) (_, l'). l' \<le> l) ds \<and> (\<exists>ds2. ds = ds1 @ ds2 \<and> r \<notin> fst ` set ds2)"
proof -
  have run: "scheduler_loop 0 lowest0 ss = Some ds1" "scheduler_loop 0 lowest0 (ss @ ts) = Some ds" using assms(1,3) by (simp_all add: scheduler_def)
  obtain p' ds2 where ds2: "ds = ds1 @ ds2" "scheduler_loop p' (last (lowest0 # map snd ds1)) ts = Some ds2"
    using scheduler_loop_append [OF run(2,1)] by blast
  obtain us x where us: "ds1 = us @ [x]" using assms(2) by (cases ds1 rule: rev_cases) auto
  have s: "sorted_wrt (\<lambda>(_, l) (_, l'). l' \<le> l) ds1" "sorted_wrt (\<lambda>(_, l) (_, l'). l' \<le> l) ds"
    using scheduler_loop_sorted [OF run(1), of 0] scheduler_loop_sorted [OF run(2), of 0] by simp_all
  have "snd x \<le> l" using s(1) assms(2) unfolding us by (cases x) (auto simp: sorted_wrt_append)
  then have "r \<notin> fst ` set ds2" using assms(4) us by (intro scheduler_loop_passes [OF ds2(2)]) fastforce
  then show ?thesis using s(2) ds2(1) by blast
qed

text \<open>Two processes: the first runs once, then only the second can run, with a priority value of 5; it is not dispatched, however often it is visited.\<close>

definition ex_sched :: "bool \<Rightarrow> mem_st" where
  "ex_sched b = ex_mem\<lparr>ptable := (\<lambda>_. proc0)(0 := proc0\<lparr>pstate := (if b then RUNNABLE else SLEEPING), kstack := 0x80300000, pgdir := 0x80301000\<rparr>,
     1 := proc0\<lparr>pstate := RUNNABLE, priority := 5, kstack := 0x80302000, pgdir := 0x80303000\<rparr>)\<rparr>"

lemma ex_sched_idle: "scheduler_loop p 0 (replicate n (ex_sched False)) = Some []"
proof (induction n arbitrary: p)
  case (Suc n)
  have "scheduler_visit p 0 (ex_sched False) = Ok None (ex_sched False)" by (simp add: scheduler_visit_def ex_sched_def proc0_def)
  then show ?case using Suc by simp
qed simp

theorem scheduler_starves_witness:
  "\<forall>n. scheduler (ex_sched True # replicate n (ex_sched False)) = Some [(0, 0)] \<and> pstate (ptable (ex_sched False) 1) = RUNNABLE"
proof
  fix n
  obtain s' where v: "scheduler_visit 0 lowest0 (ex_sched True) = Ok (Some 0) s'"
    by (simp add: scheduler_visit_def ex_sched_def switchuvm_def V2P_def lowest0_def proc0_def)
  have r: "scheduler [ex_sched True] = Some [(0, 0)]" "scheduler ([ex_sched True] @ replicate n (ex_sched False)) = Some [(0, 0)]"
    using v ex_sched_idle by (simp_all add: scheduler_def)
  have "\<forall>t \<in> set (replicate n (ex_sched False)). pstate (ptable t 1) = RUNNABLE \<longrightarrow> 0 < sint (priority (ptable t 1))"
    by (simp add: ex_sched_def)
  from scheduler_starves [OF r(1) _ r(2) this, of 0] r(2)
  show "scheduler (ex_sched True # replicate n (ex_sched False)) = Some [(0, 0)] \<and> pstate (ptable (ex_sched False) 1) = RUNNABLE"
    by (simp add: ex_sched_def)
qed

end
