(* ===== verification/Console.thy ===== *)
theory Console
  imports Spinlock Proc Printf Fifo
begin

text \<open>
  The console (src/console.c): formatted output, the CGA text screen, the edited input line, and the
  device functions behind file descriptors, and the process listing of src/proc.c. The screen is the 16-bit cells of the CGA memory and the
  cursor position its controller holds; \<open>uart\<close> collects what goes to the serial port, if there is one
  (the variable \<open>uart\<close> of src/uart.c, \<open>uart_on\<close> here). The keyboard driver's static variable \<open>shift\<close> is \<open>kshift\<close>. The code's
  \<open>panicked\<close> flag is set by \<open>panic\<close> only, after which nothing runs any more, and is left out.
\<close>

section \<open>State\<close>

abbreviation (input) INPUT_BUF :: nat where "INPUT_BUF \<equiv> 128"
abbreviation (input) BACKSPACE :: int where "BACKSPACE \<equiv> 0x100"

record console =
  locking :: bool
  crt :: "nat \<Rightarrow> u16"
  pos :: nat
  uart :: "int list"

record inputbuf =
  ibuf :: bytes
  ir :: u32
  iw :: u32
  ie :: u32

record cons_st = proc_st +
  cons :: console
  input :: inputbuf
  uart_on :: bool
  kshift :: u32

definition upd_cons :: "(console \<Rightarrow> console) \<Rightarrow> 'a cons_st_scheme \<Rightarrow> 'a cons_st_scheme" where
  "upd_cons f s = s\<lparr>cons := f (cons s)\<rparr>"

definition upd_input :: "(inputbuf \<Rightarrow> inputbuf) \<Rightarrow> 'a cons_st_scheme \<Rightarrow> 'a cons_st_scheme" where
  "upd_input f s = s\<lparr>input := f (input s)\<rparr>"

section \<open>Output\<close>

text \<open>Where the cursor goes and what is stored, before scrolling.\<close>

definition cga_place :: "int \<Rightarrow> console \<Rightarrow> console" where
  "cga_place c x =
     (if c = 10 then x\<lparr>pos := pos x + (80 - pos x mod 80)\<rparr>
      else if c = BACKSPACE then x\<lparr>pos := pos x - 1\<rparr>
      else x\<lparr>crt := (crt x)(pos x := (of_int c AND 0xFF) OR 0x0700), pos := pos x + 1\<rparr>)"

definition cga_scroll :: "console \<Rightarrow> console" where
  "cga_scroll x =
     (if pos x div 80 \<ge> 24 then
        (let cells = (\<lambda>k. if k < 23 * 80 then crt x (k + 80) else crt x k);
             p = pos x - 80
         in x\<lparr>crt := (\<lambda>k. if p \<le> k \<and> k < 24 * 80 then 0 else cells k), pos := p\<rparr>)
      else x)"

definition cgaputc :: "int \<Rightarrow> (unit, 'a cons_st_scheme) kop" where
  "cgaputc c =
     bind (gets cons) (\<lambda>x.
     let x = cga_place c x in
     if pos x > 25 * 80 then panic ''pos under/overflow''
     else
       let x = cga_scroll x in
       modify (upd_cons (\<lambda>_. x\<lparr>pos := pos x mod 65536, crt := (crt x)(pos x := 0x0720)\<rparr>)))"

definition uart_send :: "int \<Rightarrow> (unit, 'a cons_st_scheme) kop" where
  "uart_send c = modify (\<lambda>s. if uart_on s then upd_cons (\<lambda>x. x\<lparr>uart := uart x @ [c]\<rparr>) s else s)"

definition consputc :: "int \<Rightarrow> (unit, 'a cons_st_scheme) kop" where
  "consputc c =
     seq (if c = BACKSPACE then seq (uart_send 8) (seq (uart_send 32) (uart_send 8)) else uart_send c)
     (cgaputc c)"

text \<open>The table "0123456789abcdef" of \<open>printint\<close> and its do-while loop, last digit first; the
  base is 10 or 16.\<close>

definition cdigits :: "u8 list" where
  "cdigits = [48,49,50,51,52,53,54,55,56,57,97,98,99,100,101,102]"

function cdigits_loop :: "u32 \<Rightarrow> u32 \<Rightarrow> u8 list" where
  "cdigits_loop x base =
     (let d = cdigits ! unat (x mod base) in
      if x div base \<noteq> 0 \<and> 2 \<le> base then d # cdigits_loop (x div base) base else [d])"
  by pat_completeness auto
termination
proof (relation "measure (\<lambda>(x, base). unat x)")
  fix x base :: u32 and d
  assume "x div base \<noteq> 0 \<and> 2 \<le> base"
  then have "unat x div unat base < unat x"
    by (intro div_less_dividend) (auto simp: word_le_nat_alt unat_gt_0 intro!: gr_zeroI)
  then show "((x div base, base), (x, base)) \<in> measure (\<lambda>(x, base). unat x)" by (simp add: unat_div)
qed auto

declare cdigits_loop.simps [simp del]

definition printint :: "u32 \<Rightarrow> u32 \<Rightarrow> bool \<Rightarrow> (unit, 'a cons_st_scheme) kop" where
  "printint xx base sg =
     (let neg = (sg \<and> sint xx < 0);
          buf = cdigits_loop (if neg then - xx else xx) base @ (if neg then [45] else [])
      in foreach (rev buf) (\<lambda>c. consputc (int (unat c))))"

fun cprintf_loop :: "(u32 \<Rightarrow> u8 list) \<Rightarrow> u8 list \<Rightarrow> u32 list \<Rightarrow> (unit, 'a cons_st_scheme) kop" where
  "cprintf_loop strs [] args = skip"
| "cprintf_loop strs (c # fmt) args =
     (if c \<noteq> 37 then seq (consputc (int (unat c))) (cprintf_loop strs fmt args)
      else case fmt of
        [] \<Rightarrow> skip
      | d # fmt' \<Rightarrow>
          if d = 100 then seq (printint (hd args) 10 True) (cprintf_loop strs fmt' (tl args))
          else if d = 120 \<or> d = 112 then seq (printint (hd args) 16 False) (cprintf_loop strs fmt' (tl args))
          else if d = 115 then
            seq (foreach (if hd args = 0 then null_str else strs (hd args)) (\<lambda>c. consputc (int (unat c))))
            (cprintf_loop strs fmt' (tl args))
          else if d = 37 then seq (consputc 37) (cprintf_loop strs fmt' args)
          else seq (consputc 37) (seq (consputc (int (unat d))) (cprintf_loop strs fmt' args)))"

text \<open>\<open>strs\<close> gives the string at an address, \<open>args\<close> are the words on the stack after the format.\<close>

definition cprintf :: "(u32 \<Rightarrow> u8 list) \<Rightarrow> u8 list option \<Rightarrow> u32 list \<Rightarrow> (unit, 'a cons_st_scheme) kop" where
  "cprintf strs fmt args =
     bind (gets (\<lambda>s. locking (cons s))) (\<lambda>l.
     seq (if l then acquire L_cons else skip)
     (case fmt of
        None \<Rightarrow> panic ''null fmt''
      | Some fmt \<Rightarrow>
          seq (cprintf_loop strs fmt args)
          (if l then release L_cons else skip)))"

text \<open>The format strings of the code.\<close>

definition cfmt :: "string \<Rightarrow> u8 list option" where
  "cfmt t = Some (map of_char t)"

section \<open>The listing of processes\<close>

text \<open>
  \<open>procdump\<close> of src/proc.c, which the console's interrupt handler calls. A sleeping process is listed with the return addresses
  on its kernel stack, as far as \<open>getcallerpcs\<close> finds them.
\<close>

definition state_name :: "procstate \<Rightarrow> string" where
  "state_name st = (case st of
       UNUSED \<Rightarrow> ''unused'' | EMBRYO \<Rightarrow> ''embryo'' | SLEEPING \<Rightarrow> ''sleep ''
     | RUNNABLE \<Rightarrow> ''runble'' | RUNNING \<Rightarrow> ''run   '' | ZOMBIE \<Rightarrow> ''zombie'')"

definition name_of :: "proc \<Rightarrow> u8 list" where
  "name_of x = takeWhile (\<lambda>b. b \<noteq> 0) (map (pname x) [0..<16])"

definition procdump :: "(unit, 'a cons_st_scheme) kop" where
  "procdump =
     foreach [0..<64] (\<lambda>i.
     bind (gets (\<lambda>s. ptable s i)) (\<lambda>x.
     if pstate x = UNUSED then skip
     else
       seq (cprintf (\<lambda>p. if p = 1 then map of_char (state_name (pstate x)) else name_of x) (cfmt ''%d %s %s'') [pid x, 1, 2])
       (seq (if pstate x = SLEEPING then
               bind (gets pmem) (\<lambda>m.
               foreach (takeWhile (\<lambda>pc. pc \<noteq> 0) (getcallerpcs (\<lambda>a. m (a - KERNBASE)) (c_ebp (pcontext x) + 8))) (\<lambda>pc.
               cprintf (\<lambda>_. []) (cfmt '' %p'') [pc]))
             else skip)
       (cprintf (\<lambda>_. []) (cfmt ''\<newline>'') []))))"

section \<open>Input\<close>

text \<open>Kill line: rub out back to the previous newline or to what is already committed.\<close>

function kill_line :: "inputbuf \<Rightarrow> nat" where
  "kill_line b =
     (if ie b \<noteq> iw b \<and> ibuf b (unat (ie b - 1) mod INPUT_BUF) \<noteq> 10
      then Suc (kill_line (b\<lparr>ie := ie b - 1\<rparr>)) else 0)"
  by pat_completeness auto
termination
proof (relation "measure (\<lambda>b. unat (ie b - iw b))")
  fix b :: inputbuf
  assume "ie b \<noteq> iw b \<and> ibuf b (unat (ie b - 1) mod INPUT_BUF) \<noteq> 10"
  then have "ie b - iw b \<noteq> 0" by simp
  then have "unat (ie b - iw b - 1) < unat (ie b - iw b)" by (simp add: measure_unat)
  then show "(b\<lparr>ie := ie b - 1\<rparr>, b) \<in> measure (\<lambda>b. unat (ie b - iw b))" by (simp add: algebra_simps)
qed auto

declare kill_line.simps [simp del]

definition input_put :: "u8 \<Rightarrow> inputbuf \<Rightarrow> inputbuf" where
  "input_put c b = b\<lparr>ibuf := (ibuf b)(unat (ie b) mod INPUT_BUF := c), ie := ie b + 1\<rparr>"

definition console_char :: "int \<Rightarrow> (unit, 'a cons_st_scheme) kop" where
  "console_char c =
     bind (gets input) (\<lambda>b.
     if c = 21 then
       foreach [0..<kill_line b] (\<lambda>_.
       seq (modify (upd_input (\<lambda>b. b\<lparr>ie := ie b - 1\<rparr>)))
       (consputc BACKSPACE))
     else if c = 8 \<or> c = 127 then
       (if ie b \<noteq> iw b then
          seq (modify (upd_input (\<lambda>b. b\<lparr>ie := ie b - 1\<rparr>)))
          (consputc BACKSPACE)
        else skip)
     else if c \<noteq> 0 \<and> ie b - ir b < of_nat INPUT_BUF then
       (let c = (if c = 13 then 10 else c) in
        seq (modify (upd_input (input_put (of_int c))))
        (seq (consputc c)
        (bind (gets input) (\<lambda>b.
        if c = 10 \<or> c = 4 \<or> ie b = ir b + of_nat INPUT_BUF then
          seq (modify (upd_input (\<lambda>b. b\<lparr>iw := ie b\<rparr>)))
          (wakeup C_input)
        else skip))))
     else skip)"

text \<open>
  The interrupt handler is given the characters its \<open>getc\<close> returns before it returns a negative
  value. Control-P asks for the process listing, which is printed once the lock is released.
\<close>

definition consoleintr :: "int list \<Rightarrow> (unit, 'a cons_st_scheme) kop" where
  "consoleintr cs =
     seq (acquire L_cons)
     (seq (foreach cs (\<lambda>c. if c = 16 then skip else console_char c))
     (seq (release L_cons)
     (if 16 \<in> set cs then procdump else skip)))"

text \<open>
  The loop of \<open>consoleread\<close> with \<open>n\<close> bytes still wanted of \<open>target\<close>.
\<close>

primrec consoleread_loop :: "nat \<Rightarrow> nat \<Rightarrow> bytes \<Rightarrow> nat \<Rightarrow> (int \<times> bytes, 'a cons_st_scheme) kop" where
  "consoleread_loop ip target dst 0 =
     seq (release L_cons)
     (seq (ilock (Some ip))
     (ret (int target, dst)))"
| "consoleread_loop ip target dst (Suc m) =
     bind (gets input) (\<lambda>b.
     if ir b = iw b then
       bind cur (\<lambda>p.
       bind (gets (\<lambda>s. killed (ptable s p))) (\<lambda>k.
       if k then
         seq (release L_cons)
         (seq (ilock (Some ip))
         (ret (-1, dst)))
       else seq (sleep C_input L_cons) (ret (0, dst))))
     else
       let c = ibuf b (unat (ir b) mod INPUT_BUF);
           done = target - Suc m;
           stop = (\<lambda>k dst. seq (release L_cons) (seq (ilock (Some ip)) (ret (int k, dst))))
       in
       seq (modify (upd_input (\<lambda>b. b\<lparr>ir := ir b + 1\<rparr>)))
       (if c = 4 then
          seq (if Suc m < target then modify (upd_input (\<lambda>b. b\<lparr>ir := ir b - 1\<rparr>)) else skip)
          (stop done dst)
        else
          let dst = dst(done := c) in
          if c = 10 then stop (Suc done) dst
          else consoleread_loop ip target dst m))"

definition consoleread :: "nat \<Rightarrow> bytes \<Rightarrow> nat \<Rightarrow> (int \<times> bytes, 'a cons_st_scheme) kop" where
  "consoleread ip dst n =
     seq (iunlock (Some ip))
     (seq (acquire L_cons)
     (consoleread_loop ip n dst n))"

definition consoleread_resume :: "nat \<Rightarrow> nat \<Rightarrow> bytes \<Rightarrow> nat \<Rightarrow> (int \<times> bytes, 'a cons_st_scheme) kop" where
  "consoleread_resume ip target dst n =
     seq (sleep_return L_cons)
     (consoleread_loop ip target dst n)"

definition consolewrite :: "nat \<Rightarrow> bytes \<Rightarrow> nat \<Rightarrow> (int, 'a cons_st_scheme) kop" where
  "consolewrite ip buf n =
     seq (iunlock (Some ip))
     (seq (acquire L_cons)
     (seq (foreach [0..<n] (\<lambda>i. consputc (int (unat (buf i)))))
     (seq (release L_cons)
     (seq (ilock (Some ip))
     (ret (int n))))))"

text \<open>The device switch after \<open>consoleinit\<close>.\<close>

definition devsw_read :: "'a cons_st_scheme devread" where
  "devsw_read m = (if m = 1 then Some consoleread else None)"

definition devsw_write :: "'a cons_st_scheme devwrite" where
  "devsw_write m = (if m = 1 then Some consolewrite else None)"

definition consoleinit :: "(unit, 'a cons_st_scheme) kop" where
  "consoleinit = modify (upd_cons (\<lambda>x. x\<lparr>locking := True\<rparr>))"


section \<open>The screen\<close>

abbreviation (input) CELLS :: nat where "CELLS \<equiv> 24 * 80"

lemma upd_cons_simps [simp]:
  "cons (upd_cons f s) = f (cons s)" "input (upd_cons f s) = input s" "held (upd_cons f s) = held s"
  "ptable (upd_cons f s) = ptable s" "upd_cons f (upd_cons g s) = upd_cons (\<lambda>x. f (g x)) s"
  "cons (upd_input h s) = cons s" "input (upd_input h s) = h (input s)" "held (upd_input h s) = held s"
  "ptable (upd_input h s) = ptable s" "uart_on (upd_cons f s) = uart_on s"
  by (simp_all add: upd_cons_def upd_input_def)

text \<open>One character, with the cursor on the screen before and after.\<close>

lemma cgaputc_eq:
  assumes "pos (cons s) < CELLS"
  shows "\<exists>crt' p. cgaputc c s = Ok () (upd_cons (\<lambda>x. x\<lparr>crt := crt', pos := p\<rparr>) s) \<and> p < CELLS
    \<and> (\<forall>k \<ge> CELLS. crt' k = crt (cons s) k)"
proof -
  let ?x = "cga_place c (cons s)"
  have "pos (cons s) = 80 * (pos (cons s) div 80) + pos (cons s) mod 80" "pos (cons s) div 80 \<le> 23" "pos (cons s) mod 80 < 80"
    using assms by simp_all
  then have "pos (cons s) + (80 - pos (cons s) mod 80) \<le> CELLS" by linarith
  then have place: "pos ?x \<le> CELLS" using assms by (auto simp: cga_place_def)
  have cells: "crt ?x k = crt (cons s) k" if "CELLS \<le> k" for k
    using assms that by (auto simp: cga_place_def)
  let ?y = "cga_scroll ?x"
  have y: "pos ?y < CELLS" "\<forall>k \<ge> CELLS. crt ?y k = crt ?x k"
    using place by (auto simp: cga_scroll_def Let_def)
  have f: "locking ?y = locking (cons s)" "uart ?y = uart (cons s)"
    by (simp_all add: cga_scroll_def cga_place_def Let_def)
  have eq: "?y\<lparr>pos := pos ?y mod 65536, crt := cr\<rparr> = (cons s)\<lparr>crt := cr, pos := pos ?y\<rparr>" for cr
    using y(1) f by (intro console.equality) simp_all
  have "cgaputc c s = Ok () (upd_cons (\<lambda>x. x\<lparr>crt := (crt ?y)(pos ?y := 0x0720), pos := pos ?y\<rparr>) s)"
    using place unfolding cgaputc_def Let_def bind_gets eq by (simp add: upd_cons_def)
  then show ?thesis using y cells by (intro exI [of _ "(crt ?y)(pos ?y := 0x0720)"] exI [of _ "pos ?y"]) auto
qed

definition serial :: "int \<Rightarrow> int list" where
  "serial c = (if c = BACKSPACE then [8, 32, 8] else [c])"

text \<open>What is left alone by console output, and where its output is.\<close>

definition shown :: "int list \<Rightarrow> 'a cons_st_scheme \<Rightarrow> 'a cons_st_scheme \<Rightarrow> bool" where
  "shown cs s s' \<longleftrightarrow> (\<exists>x. s' = s\<lparr>cons := x\<rparr>) \<and> locking (cons s') = locking (cons s) \<and> pos (cons s') < CELLS
     \<and> (\<forall>k \<ge> CELLS. crt (cons s') k = crt (cons s) k) \<and> uart (cons s') = uart (cons s) @ (if uart_on s then concat (map serial cs) else [])"

lemma shown_append:
  assumes "shown cs s s'" "shown ds s' s''"
  shows "shown (cs @ ds) s s''"
proof -
  obtain x y where x: "s' = s\<lparr>cons := x\<rparr>" "s'' = s'\<lparr>cons := y\<rparr>" using assms unfolding shown_def by blast
  have e: "s'' = s\<lparr>cons := y\<rparr>" "uart_on s' = uart_on s" using x by simp_all
  have "uart (cons s'') = uart (cons s) @ (if uart_on s then concat (map serial (cs @ ds)) else [])"
    using assms e(2) unfolding shown_def by simp
  then show ?thesis using assms e(1) unfolding shown_def by (metis (no_types, lifting))
qed

lemma consputc_shown:
  assumes "pos (cons s) < CELLS"
  shows "\<exists>s'. consputc c s = Ok () s' \<and> shown [c] s s'"
proof -
  let ?s = "upd_cons (\<lambda>x. x\<lparr>uart := uart x @ (if uart_on s then serial c else [])\<rparr>) s"
  obtain crt' p where "cgaputc c ?s = Ok () (upd_cons (\<lambda>x. x\<lparr>crt := crt', pos := p\<rparr>) ?s)" "p < CELLS"
    "\<forall>k \<ge> CELLS. crt' k = crt (cons ?s) k"
    using cgaputc_eq [of ?s c] assms by auto
  moreover have "consputc c s = cgaputc c ?s"
    by (cases s) (simp add: consputc_def uart_send_def serial_def upd_cons_def)
  ultimately show ?thesis by (auto simp: shown_def upd_cons_def)
qed

lemma shown_Nil [simp]: "shown [] s s \<longleftrightarrow> pos (cons s) < CELLS"
  by (auto simp: shown_def intro: exI [of _ "cons s"])

lemma foreach_consputc:
  assumes "pos (cons s) < CELLS"
  shows "\<exists>s'. foreach xs (\<lambda>x. consputc (f x)) s = Ok () s' \<and> shown (map f xs) s s'"
  using assms
proof (induction xs arbitrary: s)
  case (Cons x xs)
  obtain s1 where 1: "consputc (f x) s = Ok () s1" "shown [f x] s s1" using consputc_shown [OF Cons.prems] by blast
  then have "pos (cons s1) < CELLS" by (simp add: shown_def)
  then obtain s2 where 2: "foreach xs (\<lambda>x. consputc (f x)) s1 = Ok () s2" "shown (map f xs) s1 s2" using Cons.IH by blast
  show ?case using 1(1) 2(1) shown_append [OF 1(2) 2(2)] by simp
qed simp


section \<open>The line being edited\<close>

text \<open>What readers may take, and what is still being edited.\<close>

definition committed :: "inputbuf \<Rightarrow> u8 list" where
  "committed b = ring_list INPUT_BUF (ibuf b) (ir b) (iw b)"

definition pending :: "inputbuf \<Rightarrow> u8 list" where
  "pending b = ring_list INPUT_BUF (ibuf b) (iw b) (ie b)"

definition input_ok :: "inputbuf \<Rightarrow> bool" where
  "input_ok b \<longleftrightarrow> unat (ie b - ir b) \<le> INPUT_BUF \<and> unat (iw b - ir b) \<le> unat (ie b - ir b) \<and> 10 \<notin> set (pending b)"

lemma INPUT_BUF_dvd: "(128 :: nat) dvd 2 ^ 32"
  by (simp add: dvd_eq_mod_eq_0)

lemma input_lengths:
  assumes "input_ok b"
  shows "unat (ie b - ir b) = length (committed b) + length (pending b)"
  using ring_split_length [of "iw b" "ir b" "ie b"] assms by (simp add: input_ok_def committed_def pending_def)

lemma input_put:
  assumes "input_ok b" "length (committed b) + length (pending b) < INPUT_BUF"
  shows "committed (input_put c b) = committed b" "pending (input_put c b) = pending b @ [c]"
    "unat (ie (input_put c b) - ir b) = Suc (unat (ie b - ir b))"
proof -
  let ?b = "input_put c b"
  have less: "unat (ie b - ir b) < INPUT_BUF" using assms input_lengths by simp
  then show suc: "unat (ie ?b - ir b) = Suc (unat (ie b - ir b))"
    using unat_diff_Suc [of "ie b" "ir b"] by (simp add: input_put_def)
  have fields: "ir ?b = ir b" "iw ?b = iw b" by (simp_all add: input_put_def)
  have "ring_list INPUT_BUF (ibuf ?b) (ir b) (ie ?b) = ring_list INPUT_BUF (ibuf b) (ir b) (ie b) @ [c]"
    using ring_list_put [OF INPUT_BUF_dvd _ less] by (simp add: input_put_def)
  moreover have "ring_list INPUT_BUF (ibuf b) (ir b) (ie b) = committed b @ pending b"
    using ring_list_split [of "iw b" "ir b" "ie b"] assms(1) by (simp add: input_ok_def committed_def pending_def)
  moreover have "ring_list INPUT_BUF (ibuf ?b) (ir b) (ie ?b) = committed ?b @ pending ?b"
    using ring_list_split [of "iw b" "ir b" "ie ?b"] assms(1) suc by (simp add: input_ok_def committed_def pending_def fields)
  ultimately have "committed ?b @ pending ?b = committed b @ (pending b @ [c])" by simp
  moreover have "length (committed ?b) = length (committed b)" by (simp add: committed_def fields)
  ultimately show "committed ?b = committed b" "pending ?b = pending b @ [c]" by simp_all
qed

lemma input_back:
  assumes "input_ok b" "ie b \<noteq> iw b"
  shows "committed (b\<lparr>ie := ie b - 1\<rparr>) = committed b" "pending b = pending (b\<lparr>ie := ie b - 1\<rparr>) @ [ibuf b (unat (ie b - 1) mod INPUT_BUF)]"
    "input_ok (b\<lparr>ie := ie b - 1\<rparr>)"
proof -
  show p: "pending b = pending (b\<lparr>ie := ie b - 1\<rparr>) @ [ibuf b (unat (ie b - 1) mod INPUT_BUF)]"
    using ring_list_back [OF assms(2)] by (simp add: pending_def)
  show "committed (b\<lparr>ie := ie b - 1\<rparr>) = committed b" by (simp add: committed_def)
  have "unat (iw b - ir b) + unat (ie b - iw b) = unat (ie b - ir b)"
    using ring_split_length [of "iw b" "ir b" "ie b"] assms(1) by (simp add: input_ok_def)
  moreover have "0 < unat (ie b - iw b)" using assms(2) by (simp add: unat_gt_0)
  ultimately have "iw b - ir b < ie b - ir b" "ie b - ir b \<noteq> 0" by (auto simp: word_less_nat_alt)
  then have u: "unat (ie b - ir b - 1) = unat (ie b - ir b) - 1" "unat (iw b - ir b) \<le> unat (ie b - ir b) - 1"
    by (auto simp: unat_minus_one word_less_nat_alt)
  have "ie b - 1 - ir b = ie b - ir b - 1" by simp
  then have "unat (ie b - 1 - ir b) = unat (ie b - ir b) - 1" using u(1) by metis
  with u(2) show "input_ok (b\<lparr>ie := ie b - 1\<rparr>)"
    using assms(1) p unfolding input_ok_def by auto
qed

lemma pending_Nil_iff: "pending b = [] \<longleftrightarrow> ie b = iw b"
  using ring_empty_iff [of "iw b" "ie b"] by (auto simp: pending_def simp flip: length_0_conv)

lemma kill_line_all: "input_ok b \<Longrightarrow> kill_line b = length (pending b)"
proof (induction b rule: kill_line.induct)
  case (1 b)
  show ?case
  proof (cases "ie b = iw b")
    case True
    then show ?thesis by (subst kill_line.simps) (simp add: pending_Nil_iff [symmetric])
  next
    case False
    note bk = input_back [OF "1.prems" False]
    have "ibuf b (unat (ie b - 1) mod INPUT_BUF) \<noteq> 10" using "1.prems" bk(2) by (auto simp: input_ok_def)
    with False "1.IH" bk(3) have "kill_line b = Suc (length (pending (b\<lparr>ie := ie b - 1\<rparr>)))"
      by (subst kill_line.simps) simp
    then show ?thesis by (subst bk(2)) simp
  qed
qed


text \<open>
  The line discipline: the effect of a key on the committed and the pending bytes. The kill character
  rubs out the pending line, the erase character its last byte, and a newline, an end-of-file or a
  full buffer commits the line.
\<close>

definition edit :: "int \<Rightarrow> u8 list \<times> u8 list \<Rightarrow> u8 list \<times> u8 list" where
  "edit c = (\<lambda>(cm, pe).
     if c = 16 then (cm, pe)
     else if c = 21 then (cm, [])
     else if c = 8 \<or> c = 127 then (cm, butlast pe)
     else if c \<noteq> 0 \<and> length cm + length pe < INPUT_BUF then
       let c = (if c = 13 then 10 else c) in
       if c = 10 \<or> c = 4 \<or> length cm + length pe + 1 = INPUT_BUF then (cm @ pe @ [of_int c], [])
       else (cm, pe @ [of_int c])
     else (cm, pe))"

definition con_ok :: "lockid list \<Rightarrow> u8 list \<Rightarrow> u8 list \<Rightarrow> 'a cons_st_scheme \<Rightarrow> bool" where
  "con_ok h cm pe s \<longleftrightarrow> held s = h \<and> input_ok (input s) \<and> committed (input s) = cm \<and> pending (input s) = pe \<and> pos (cons s) < CELLS"

lemma wp_consputc_frame:
  assumes "pos (cons s) < CELLS"
  shows "wp (consputc c) (\<lambda>_ t. pos (cons t) < CELLS \<and> held t = held s \<and> input t = input s) s"
proof -
  obtain s' where "consputc c s = Ok () s'" "shown [c] s s'" using consputc_shown [OF assms] by blast
  then show ?thesis by (auto simp: wp_def shown_def)
qed

text \<open>Printing leaves the locks and the input line alone.\<close>

definition printed :: "lockid list \<Rightarrow> inputbuf \<Rightarrow> 'a cons_st_scheme \<Rightarrow> bool" where
  "printed h b t \<longleftrightarrow> pos (cons t) < CELLS \<and> held t = h \<and> input t = b"

lemma wp_print_all:
  assumes "printed h b s" "\<And>x s. printed h b s \<Longrightarrow> wp (f x) (\<lambda>_. printed h b) s"
  shows "wp (foreach xs f) (\<lambda>_. printed h b) s"
  using assms(1)
proof (induction xs arbitrary: s)
  case (Cons x xs)
  have "wp (f x) (\<lambda>_. wp (foreach xs f) (\<lambda>_. printed h b)) s"
    by (rule wp_mono [OF assms(2) [OF Cons.prems]]) (rule Cons.IH)
  then show ?case by (simp only: foreach.simps wp_seq)
qed simp

lemma wp_print_char: "printed h b s \<Longrightarrow> wp (consputc c) (\<lambda>_. printed h b) s"
  using wp_consputc_frame [of s c] by (simp add: printed_def [abs_def])

lemma wp_print_seq:
  assumes "wp m (\<lambda>_. printed h b) s" "\<And>t. printed h b t \<Longrightarrow> wp m' (\<lambda>_. printed h b) t"
  shows "wp (seq m m') (\<lambda>_. printed h b) s"
  unfolding wp_seq by (rule wp_mono [OF assms(1)]) (rule assms(2))

lemma wp_printint: "printed h b s \<Longrightarrow> wp (printint xx base sg) (\<lambda>_. printed h b) s"
  by (simp add: printint_def Let_def wp_print_all wp_print_char)

lemmas wp_prints = wp_print_seq wp_print_char wp_printint wp_print_all

lemma wp_cprintf_loop:
  fixes s :: "'a cons_st_scheme"
  shows "printed h b s \<Longrightarrow> wp (cprintf_loop strs fmt args) (\<lambda>_. printed h b) s"
proof (induction fmt arbitrary: args s rule: length_induct)
  case (1 fmt)
  then have ih: "wp (cprintf_loop strs fmt' args) (\<lambda>_. printed h b) t" if "length fmt' < length fmt" "printed h b t"
    for fmt' args and t :: "'a cons_st_scheme" using that by blast
  show ?case
  proof (cases fmt)
    case (Cons c fmt')
    show ?thesis
    proof (cases "c = 37")
      case True
      then show ?thesis using Cons 1(2) by (cases fmt') (auto simp del: wp_seq intro!: wp_prints ih)
    next
      case False
      then have eq: "cprintf_loop strs fmt args = seq (consputc (int (unat c))) (cprintf_loop strs fmt' args)" using Cons by simp
      show ?thesis unfolding eq using Cons 1(2) by (intro wp_print_seq wp_print_char ih) simp_all
    qed
  qed (use 1(2) in simp)
qed

lemma wp_cprintf:
  assumes "printed h b s" "L_cons \<notin> set h"
  shows "wp (cprintf strs (Some fmt) args) (\<lambda>_. printed h b) s"
proof (cases "locking (cons s)")
  case True
  let ?t = "s\<lparr>held := L_cons # h\<rparr>"
  have "wp (cprintf_loop strs fmt args) (\<lambda>_. printed (L_cons # h) b) ?t"
    by (rule wp_cprintf_loop) (use assms in \<open>simp add: printed_def\<close>)
  then have "wp (cprintf_loop strs fmt args) (\<lambda>_. wp (release L_cons) (\<lambda>_. printed h b)) ?t"
    by (rule wp_mono) (auto simp: printed_def)
  then show ?thesis using True assms by (simp add: cprintf_def printed_def)
next
  case False
  then show ?thesis using wp_cprintf_loop [OF assms(1)] by (simp add: cprintf_def)
qed

lemma wp_procdump:
  assumes "printed h b s" "L_cons \<notin> set h"
  shows "wp procdump (\<lambda>_. printed h b) s"
  unfolding procdump_def
  by (rule wp_print_all [OF assms(1)])
    (auto simp: cfmt_def simp del: wp_seq intro!: wp_print_seq wp_cprintf wp_print_all assms(2))

lemma wp_consputc:
  assumes "con_ok h cm pe s"
  shows "wp (consputc c) (\<lambda>_. con_ok h cm pe) s"
  using assms by (intro wp_mono [OF wp_consputc_frame]) (simp_all add: con_ok_def)

lemma wp_rub:
  assumes "con_ok h cm pe s" "pe \<noteq> []"
  shows "wp (seq (modify (upd_input (\<lambda>b. b\<lparr>ie := ie b - 1\<rparr>))) (consputc BACKSPACE)) (\<lambda>_. con_ok h cm (butlast pe)) s"
proof -
  have "ie (input s) \<noteq> iw (input s)" using assms by (auto simp: con_ok_def simp flip: pending_Nil_iff)
  from input_back [OF _ this] assms have "con_ok h cm (butlast pe) (upd_input (\<lambda>b. b\<lparr>ie := ie b - 1\<rparr>) s)"
    by (auto simp: con_ok_def)
  then show ?thesis using wp_consputc by simp
qed

lemma wp_kill_line:
  assumes "con_ok h cm pe s"
  shows "wp (foreach [0..<length pe] (\<lambda>_. seq (modify (upd_input (\<lambda>b. b\<lparr>ie := ie b - 1\<rparr>))) (consputc BACKSPACE)))
    (\<lambda>_. con_ok h cm []) s"
proof -
  have "wp (foreach [0..<length pe] (\<lambda>_. seq (modify (upd_input (\<lambda>b. b\<lparr>ie := ie b - 1\<rparr>))) (consputc BACKSPACE)))
    (\<lambda>_. con_ok h cm (take (length pe - length pe) pe)) s"
  proof (rule wp_foreach_upt [where I = "\<lambda>k. con_ok h cm (take (length pe - k) pe)"])
    show "con_ok h cm (take (length pe - 0) pe) s" using assms by simp
    fix k s assume k: "k < length pe" "con_ok h cm (take (length pe - k) pe) s"
    have "butlast (take (length pe - k) pe) = take (length pe - Suc k) pe" using k(1) by (simp add: butlast_take)
    then show "wp (seq (modify (upd_input (\<lambda>b. b\<lparr>ie := ie b - 1\<rparr>))) (consputc BACKSPACE))
      (\<lambda>_. con_ok h cm (take (length pe - Suc k) pe)) s"
      using wp_rub [OF k(2)] k(1) by (cases pe) simp_all
  qed
  then show ?thesis by simp
qed

lemma input_ok_put:
  assumes "input_ok b" "length (committed b) + length (pending b) < INPUT_BUF" "c \<noteq> 10"
  shows "input_ok (input_put c b)"
proof -
  note put = input_put [OF assms(1,2), of c] and len = input_lengths [OF assms(1)]
  have fields: "ir (input_put c b) = ir b" "iw (input_put c b) = iw b" by (simp_all add: input_put_def)
  show ?thesis using put(2,3) len assms unfolding input_ok_def fields by simp
qed

lemma input_commit:
  fixes c :: u8
  assumes "input_ok b" "length (committed b) + length (pending b) < INPUT_BUF"
  defines "b' \<equiv> (input_put c b)\<lparr>iw := ie (input_put c b)\<rparr>"
  shows "input_ok b'" "committed b' = committed b @ pending b @ [c]" "pending b' = []"
proof -
  note put = input_put [OF assms(1,2), of c] and len = input_lengths [OF assms(1)]
  show p: "pending b' = []" by (simp add: b'_def pending_def ring_list_def)
  have fields: "ir (input_put c b) = ir b" "iw (input_put c b) = iw b" by (simp_all add: input_put_def)
  then show "input_ok b'" using put(3) len assms(2) p by (simp add: input_ok_def b'_def)
  have "committed b' = ring_list INPUT_BUF (ibuf (input_put c b)) (ir b) (ie (input_put c b))"
    by (simp add: b'_def committed_def fields)
  also have "\<dots> = committed (input_put c b) @ pending (input_put c b)"
    using ring_list_split [of "iw b" "ir b" "ie (input_put c b)"] assms(1) put(3)
    by (simp add: input_ok_def committed_def pending_def fields)
  finally show "committed b' = committed b @ pending b @ [c]" using put by simp
qed


lemma full_iff_room:
  assumes "con_ok h cm pe s"
  shows "ie (input s) - ir (input s) < of_nat INPUT_BUF \<longleftrightarrow> length cm + length pe < INPUT_BUF"
    "length cm + length pe < INPUT_BUF \<Longrightarrow> ie (input_put c (input s)) = ir (input_put c (input s)) + of_nat INPUT_BUF
      \<longleftrightarrow> length cm + length pe + 1 = INPUT_BUF"
proof -
  have ok: "input_ok (input s)" "committed (input s) = cm" "pending (input s) = pe" using assms by (simp_all add: con_ok_def)
  note len = input_lengths [OF ok(1), unfolded ok(2,3)]
  show "ie (input s) - ir (input s) < of_nat INPUT_BUF \<longleftrightarrow> length cm + length pe < INPUT_BUF"
    by (simp add: word_less_nat_alt len)
  assume "length cm + length pe < INPUT_BUF"
  then have "unat (ie (input_put c (input s)) - ir (input_put c (input s))) = length cm + length pe + 1"
    using input_put(3) [OF ok(1), of c] ok(2,3) len by (simp add: input_put_def)
  then show "ie (input_put c (input s)) = ir (input_put c (input s)) + of_nat INPUT_BUF
      \<longleftrightarrow> length cm + length pe + 1 = INPUT_BUF"
    by (simp only: ring_full_iff)
qed

lemma wp_console_char:
  assumes "con_ok h cm pe s" "L_ptable \<notin> set h" "0 \<le> c" "c < 256" "c \<noteq> 16"
  shows "wp (console_char c) (\<lambda>_. con_ok h (fst (edit c (cm, pe))) (snd (edit c (cm, pe)))) s"
proof -
  let ?b = "input s"
  have ok: "input_ok ?b" "committed ?b = cm" "pending ?b = pe" "held s = h" using assms(1) by (simp_all add: con_ok_def)
  have kill: "kill_line ?b = length pe" using kill_line_all [OF ok(1)] ok(3) by simp
  have empty: "ie ?b \<noteq> iw ?b \<longleftrightarrow> pe \<noteq> []" using ok(3) pending_Nil_iff [of ?b] by simp
  note room = full_iff_room [OF assms(1)]
  consider "c = 21" | "c \<noteq> 21" "c = 8 \<or> c = 127" | "c \<noteq> 21" "\<not> (c = 8 \<or> c = 127)" "c \<noteq> 0 \<and> length cm + length pe < INPUT_BUF"
    | "c \<noteq> 21" "\<not> (c = 8 \<or> c = 127)" "\<not> (c \<noteq> 0 \<and> length cm + length pe < INPUT_BUF)" by blast
  then show ?thesis
  proof cases
    case 1
    then show ?thesis using wp_kill_line [OF assms(1)] assms(5) by (simp add: console_char_def kill edit_def)
  next
    case 2
    then show ?thesis using wp_rub [OF assms(1)] assms(1,5) by (auto simp: console_char_def empty edit_def)
  next
    case 3
    define d where "d = (if c = 13 then 10 else c)"
    have d: "0 \<le> d" "d < 256" using assms(3,4) by (simp_all add: d_def)
    have less: "length (committed ?b) + length (pending ?b) < INPUT_BUF" using 3 ok by simp
    have of10: "of_int d = (10 :: u8) \<longleftrightarrow> d = 10" 
    proof
      assume "of_int d = (10 :: u8)"
      then have "uint (of_int d :: u8) = 10" by simp
      then show "d = 10" using d by (simp add: uint_word_of_int)
    qed simp
    let ?s = "upd_input (input_put (of_int d)) s"
    have full: "ie (input ?s) = ir (input ?s) + of_nat INPUT_BUF \<longleftrightarrow> length cm + length pe + 1 = INPUT_BUF"
      using room(2) 3(3) by simp
    have "wp (consputc d) (\<lambda>_. wp (bind (gets input) (\<lambda>b. if d = 10 \<or> d = 4 \<or> ie b = ir b + of_nat INPUT_BUF
        then seq (modify (upd_input (\<lambda>b. b\<lparr>iw := ie b\<rparr>))) (wakeup C_input) else skip))
      (\<lambda>_. if d = 10 \<or> d = 4 \<or> length cm + length pe + 1 = INPUT_BUF then con_ok h (cm @ pe @ [of_int d]) []
           else con_ok h cm (pe @ [of_int d]))) ?s"
    proof (rule wp_mono [OF wp_consputc_frame])
      show "pos (cons ?s) < CELLS" using assms(1) by (simp add: con_ok_def)
      fix t assume t: "pos (cons t) < CELLS \<and> held t = held ?s \<and> input t = input ?s"
      then have "con_ok h (cm @ pe @ [of_int d]) [] (t\<lparr>input := (input t)\<lparr>iw := ie (input t)\<rparr>, ptable := pt\<rparr>)" for pt
        using input_commit [OF ok(1) less, of "of_int d"] ok by (simp add: con_ok_def)
      moreover have "con_ok h cm (pe @ [of_int d]) t" if "d \<noteq> 10"
        using t input_ok_put [OF ok(1) less, of "of_int d"] input_put [OF ok(1) less, of "of_int d"] ok that of10
        by (simp add: con_ok_def)
      ultimately show "wp (bind (gets input) (\<lambda>b. if d = 10 \<or> d = 4 \<or> ie b = ir b + of_nat INPUT_BUF
          then seq (modify (upd_input (\<lambda>b. b\<lparr>iw := ie b\<rparr>))) (wakeup C_input) else skip))
        (\<lambda>_. if d = 10 \<or> d = 4 \<or> length cm + length pe + 1 = INPUT_BUF then con_ok h (cm @ pe @ [of_int d]) []
           else con_ok h cm (pe @ [of_int d])) t"
        using t full ok(4) assms(2) by (auto simp: upd_input_def)
    qed
    moreover have "edit c (cm, pe) = (if d = 10 \<or> d = 4 \<or> length cm + length pe + 1 = INPUT_BUF
        then (cm @ pe @ [of_int d], []) else (cm, pe @ [of_int d]))"
      using 3 assms(5) by (simp add: edit_def Let_def flip: d_def)
    moreover have "console_char c s = seq (modify (upd_input (input_put (of_int d)))) (seq (consputc d)
        (bind (gets input) (\<lambda>b. if d = 10 \<or> d = 4 \<or> ie b = ir b + of_nat INPUT_BUF
          then seq (modify (upd_input (\<lambda>b. b\<lparr>iw := ie b\<rparr>))) (wakeup C_input) else skip))) s"
      using 3 room(1) by (simp only: console_char_def bind_gets Let_def if_False if_True simp_thms flip: d_def)
    then have "wp (console_char c) Q s = wp (seq (modify (upd_input (input_put (of_int d)))) (seq (consputc d)
        (bind (gets input) (\<lambda>b. if d = 10 \<or> d = 4 \<or> ie b = ir b + of_nat INPUT_BUF
          then seq (modify (upd_input (\<lambda>b. b\<lparr>iw := ie b\<rparr>))) (wakeup C_input) else skip)))) Q s" for Q
      by (simp only: wp_def)
    ultimately show ?thesis
      by (cases "d = 10 \<or> d = 4 \<or> length cm + length pe + 1 = INPUT_BUF")
        (simp_all only: wp_seq wp_prims if_True if_False fst_conv snd_conv)
  next
    case 4
    then have "edit c (cm, pe) = (cm, pe)" "console_char c s = Ok () s"
      using assms(5) room(1) by (simp_all only: edit_def console_char_def bind_gets prod.case if_False)
    then show ?thesis using assms(1) by (simp add: wp_def)
  qed
qed


lemma consoleintr_run:
  assumes "input_ok (input s)" "pos (cons s) < CELLS" "L_cons \<notin> set (held s)" "L_ptable \<notin> set (held s)"
    and "\<forall>c \<in> set cs. 0 \<le> c \<and> c < 256"
  shows "\<exists>s'. consoleintr cs s = Ok () s' \<and> input_ok (input s') \<and> pos (cons s') < CELLS \<and> held s' = held s
    \<and> (committed (input s'), pending (input s')) = fold edit cs (committed (input s), pending (input s))"
proof -
  let ?h = "L_cons # held s"
  have "\<exists>t'. foreach cs (\<lambda>c. if c = 16 then skip else console_char c) t = Ok () t' \<and> con_ok ?h (fst (fold edit cs (cm, pe))) (snd (fold edit cs (cm, pe))) t'"
    if "con_ok ?h cm pe t" "\<forall>c \<in> set cs. 0 \<le> c \<and> c < 256" for cm pe t
    using that
  proof (induction cs arbitrary: cm pe t)
    case (Cons c cs)
    have "wp (if c = 16 then skip else console_char c) (\<lambda>_. con_ok ?h (fst (edit c (cm, pe))) (snd (edit c (cm, pe)))) t"
      using wp_console_char [OF Cons.prems(1)] Cons.prems assms(4) by (auto simp: edit_def)
    then obtain t1 where t1: "(if c = 16 then skip else console_char c) t = Ok () t1"
      "con_ok ?h (fst (edit c (cm, pe))) (snd (edit c (cm, pe))) t1" by (auto simp: wp_Ok)
    from Cons.IH [OF t1(2)] Cons.prems(2) t1(1) show ?case by simp
  qed simp
  from this [of "committed (input s)" "pending (input s)" "s\<lparr>held := ?h\<rparr>"] assms(1,2,5)
  obtain t where t: "foreach cs (\<lambda>c. if c = 16 then skip else console_char c) (s\<lparr>held := ?h\<rparr>) = Ok () t"
    "con_ok ?h (fst (fold edit cs (committed (input s), pending (input s)))) (snd (fold edit cs (committed (input s), pending (input s)))) t"
    by (auto simp: con_ok_def)
  let ?t = "t\<lparr>held := held s\<rparr>"
  have p: "printed (held s) (input t) ?t" using t(2) by (simp add: printed_def con_ok_def)
  then have "wp (if 16 \<in> set cs then procdump else skip) (\<lambda>_. printed (held s) (input t)) ?t"
    using wp_procdump [OF p assms(3)] by simp
  then obtain s' where s': "(if 16 \<in> set cs then procdump else skip) ?t = Ok () s'" "printed (held s) (input t) s'"
    by (auto simp: wp_Ok)
  then have "consoleintr cs s = Ok () s'"
    using t assms(3) by (simp add: consoleintr_def acquire_def release_def con_ok_def)
  with t(2) s'(2) show ?thesis by (simp add: con_ok_def printed_def)
qed

text \<open>
  C14 The console's interrupt handler implements the line discipline: it neither panics nor overruns the 128
  byte ring however often its counters wrap, the bytes readers may take and the bytes being edited are those
  the keys leave, in order, and the cursor stays on the screen.
\<close>

theorem consoleintr_edits:
  assumes "input_ok (input s)" "pos (cons s) < CELLS" "L_cons \<notin> set (held s)" "L_ptable \<notin> set (held s)"
    and "\<forall>c \<in> set cs. 0 \<le> c \<and> c < 256"
  shows "\<exists>s'. consoleintr cs s = Ok () s' \<and> input_ok (input s') \<and> pos (cons s') < CELLS \<and> held s' = held s
    \<and> (committed (input s'), pending (input s')) = fold edit cs (committed (input s), pending (input s))"
  using assms by (rule consoleintr_run)


section \<open>Reading a line\<close>

text \<open>
  What a read of at most \<open>n\<close> more bytes takes from the committed bytes after it has got \<open>xs\<close>, and
  what it leaves; nothing if it has to wait. The end-of-file character ends the read; it is left for
  the next read if this one has got something.
\<close>

fun take_line :: "nat \<Rightarrow> u8 list \<Rightarrow> u8 list \<Rightarrow> (u8 list \<times> u8 list) option" where
  "take_line 0 xs cm = Some (xs, cm)"
| "take_line (Suc n) xs [] = None"
| "take_line (Suc n) xs (c # cm) =
     (if c = 4 then Some (xs, if xs = [] then cm else c # cm)
      else if c = 10 then Some (xs @ [c], cm)
      else take_line n (xs @ [c]) cm)"

lemma input_take:
  assumes "input_ok b" "committed b = c # cm"
  defines "b' \<equiv> b\<lparr>ir := ir b + 1\<rparr>"
  shows "ir b \<noteq> iw b" "ibuf b (unat (ir b) mod INPUT_BUF) = c" "committed b' = cm" "pending b' = pending b" "input_ok b'"
proof -
  show ne: "ir b \<noteq> iw b" using assms(2) by (auto simp: committed_def ring_list_def)
  then have ne': "iw b \<noteq> ir b" by simp
  from ring_list_front [OF ne', of INPUT_BUF "ibuf b"] assms(2)
  show c: "ibuf b (unat (ir b) mod INPUT_BUF) = c" "committed b' = cm" by (simp_all add: committed_def b'_def)
  show p: "pending b' = pending b" by (simp add: pending_def b'_def)
  have "unat (ie b - ir b) \<noteq> 0" using assms(1,2) input_lengths [OF assms(1)] by simp
  then have "ie b \<noteq> ir b" by auto
  from ring_list_front [OF this, of 1 "\<lambda>_. ()"] ring_list_front [OF ne', of 1 "\<lambda>_. ()"]
  have "unat (ie b - ir b) = Suc (unat (ie b - (ir b + 1)))" "unat (iw b - ir b) = Suc (unat (iw b - (ir b + 1)))"
    by (metis length_Cons length_ring_list)+
  then show "input_ok b'" using assms(1) p by (simp add: input_ok_def b'_def)
qed

text \<open>The running process has locked the inode, which is in the cache.\<close>

definition ino_mine :: "nat \<Rightarrow> 'a cons_st_scheme \<Rightarrow> bool" where
  "ino_mine ip s \<longleftrightarrow> held s = [] \<and> iref (icache s ip) \<ge> 1 \<and> ivalid (icache s ip) \<and> slocked (slocks s (SL_ino ip))
     \<and> (\<exists>p. curproc s = Some p \<and> slpid (slocks s (SL_ino ip)) = pid (ptable s p))"

text \<open>After the inode was unlocked, with the console locked.\<close>

definition con_mine :: "nat \<Rightarrow> 'a cons_st_scheme \<Rightarrow> bool" where
  "con_mine ip s \<longleftrightarrow> held s = [L_cons] \<and> iref (icache s ip) \<ge> 1 \<and> ivalid (icache s ip) \<and> \<not> slocked (slocks s (SL_ino ip))
     \<and> (\<exists>p. curproc s = Some p)"

lemma wp_enter:
  assumes "ino_mine ip s" "\<And>t. con_mine ip t \<Longrightarrow> input t = input s \<Longrightarrow> cons t = cons s \<Longrightarrow> uart_on t = uart_on s \<Longrightarrow> wp m Q t"
  shows "wp (seq (iunlock (Some ip)) (seq (acquire L_cons) m)) Q s"
proof -
  let ?t = "s\<lparr>slocks := (slocks s)(SL_ino ip := \<lparr>slocked = False, slpid = 0\<rparr>), ptable := wake (C_sl (SL_ino ip)) (ptable s),
    held := [L_cons]\<rparr>"
  have "wp m Q ?t" using assms(1) by (intro assms(2)) (auto simp: con_mine_def ino_mine_def)
  moreover obtain p where p: "curproc s = Some p" "slpid (slocks s (SL_ino ip)) = pid (ptable s p)"
    using assms(1) by (auto simp: ino_mine_def)
  ultimately show ?thesis using assms(1) unfolding ino_mine_def
    by (simp add: iunlock_def)
qed

lemma wp_leave:
  assumes "con_mine ip s" "\<And>t. ino_mine ip t \<Longrightarrow> input t = input s \<Longrightarrow> cons t = cons s \<Longrightarrow> Q x t"
  shows "wp (seq (release L_cons) (seq (ilock (Some ip)) (ret x))) Q s"
proof -
  obtain p where p: "curproc s = Some p" using assms(1) by (auto simp: con_mine_def)
  let ?t = "s\<lparr>held := [], slocks := (slocks s)(SL_ino ip := \<lparr>slocked = True, slpid = pid (ptable s p)\<rparr>)\<rparr>"
  have "Q x ?t" using assms(1) p by (intro assms(2)) (auto simp: con_mine_def ino_mine_def)
  then show ?thesis using assms(1) p by (simp add: ilock_def con_mine_def)
qed


lemma wp_consoleread_loop:
  assumes "con_mine ip s" "input_ok (input s)" "take_line n xs (committed (input s)) = Some (ys, rest)"
    "target = length xs + n" "\<forall>j < length xs. dst j = xs ! j"
  shows "wp (consoleread_loop ip target dst n) (\<lambda>(r, dst') t. r = int (length ys) \<and> (\<forall>j < length ys. dst' j = ys ! j)
    \<and> ino_mine ip t \<and> input_ok (input t) \<and> committed (input t) = rest \<and> pending (input t) = pending (input s)) s"
  using assms
proof (induction n arbitrary: xs s dst)
  case 0
  then show ?case by (auto simp del: wp_seq intro!: wp_leave)
next
  case (Suc m)
  obtain c cm where cm: "committed (input s) = c # cm" using Suc.prems(3) by (cases "committed (input s)") auto
  note tk = input_take [OF Suc.prems(2) cm]
  have dn: "target - Suc m = length xs" "Suc m < target \<longleftrightarrow> xs \<noteq> []" using Suc.prems(4) by auto
  let ?s = "upd_input (\<lambda>b. b\<lparr>ir := ir b + 1\<rparr>) s"
  have mine: "con_mine ip ?s" using Suc.prems(1) by (simp add: con_mine_def upd_input_def)
  let ?stop = "\<lambda>k d. seq (release L_cons) (seq (ilock (Some ip)) (ret (int k, d)))"
  let ?Q = "\<lambda>(r, dst') t. r = int (length ys) \<and> (\<forall>j < length ys. dst' j = ys ! j)
    \<and> ino_mine ip t \<and> input_ok (input t) \<and> committed (input t) = rest \<and> pending (input t) = pending (input s)"
  have bk: "upd_input (\<lambda>b. b\<lparr>ir := ir b - 1\<rparr>) ?s = s" by (simp add: upd_input_def)
  have step: "consoleread_loop ip target dst (Suc m) s =
    (if c = 4 then if xs \<noteq> [] then ?stop (length xs) dst s else ?stop (length xs) dst ?s
     else if c = 10 then ?stop (Suc (length xs)) (dst(length xs := c)) ?s
     else consoleread_loop ip target (dst(length xs := c)) m ?s)"
    using tk(1,2) bk by (cases "xs = []") (simp_all add: Let_def dn)
  consider "c = 4" "xs \<noteq> []" | "c = 4" "xs = []" | "c = 10" | "c \<noteq> 4" "c \<noteq> 10" by blast
  then show ?case
  proof cases
    case 1
    then have "wp (?stop (length xs) dst) ?Q s"
      using Suc.prems cm by (intro wp_leave [OF Suc.prems(1)]) auto
    then show ?thesis using 1 step by (simp add: wp_def)
  next
    case 2
    then have "wp (?stop (length xs) dst) ?Q ?s"
      using Suc.prems cm tk by (intro wp_leave [OF mine]) auto
    then show ?thesis using 2 step by (simp add: wp_def)
  next
    case 3
    then have "wp (?stop (Suc (length xs)) (dst(length xs := c))) ?Q ?s"
      using Suc.prems cm tk by (intro wp_leave [OF mine]) (auto simp: nth_append less_Suc_eq)
    then show ?thesis using 3 step by (simp add: wp_def)
  next
    case 4
    have *: "input_ok (input ?s)" "take_line m (xs @ [c]) (committed (input ?s)) = Some (ys, rest)"
      "target = length (xs @ [c]) + m" "\<forall>j < length (xs @ [c]). (dst(length xs := c)) j = (xs @ [c]) ! j"
      "pending (input ?s) = pending (input s)"
      using Suc.prems cm tk 4 by (simp_all add: nth_append less_Suc_eq)
    have "wp (consoleread_loop ip target (dst(length xs := c)) m) ?Q ?s"
      using Suc.IH [OF mine *(1-4)] unfolding *(5) .
    then show ?thesis using 4 step by (simp add: wp_def)
  qed
qed


text \<open>
  C26 \<open>consoleread\<close> returns the next committed line, or its first \<open>n\<close> bytes, and takes exactly those bytes
  from the input: an end-of-file character ends the read, and is consumed only by a read that returns nothing.
  The bytes being edited are untouched, and the inode is locked again on return.
\<close>

theorem consoleread_takes_line:
  assumes "ino_mine ip s" "input_ok (input s)" "take_line n [] (committed (input s)) = Some (ys, rest)"
  shows "\<exists>dst' s'. consoleread ip dst n s = Ok (int (length ys), dst') s' \<and> map dst' [0..<length ys] = ys
    \<and> committed (input s') = rest \<and> pending (input s') = pending (input s) \<and> input_ok (input s') \<and> ino_mine ip s'"
proof -
  let ?Q = "\<lambda>(r, dst') t. r = int (length ys) \<and> (\<forall>j < length ys. dst' j = ys ! j)
    \<and> ino_mine ip t \<and> input_ok (input t) \<and> committed (input t) = rest \<and> pending (input t) = pending (input s)"
  have "wp (consoleread ip dst n) ?Q s"
    unfolding consoleread_def
  proof (rule wp_enter [OF assms(1)])
    fix t :: "'a cons_st_scheme"
    assume t: "con_mine ip t" "input t = input s" "cons t = cons s"
    show "wp (consoleread_loop ip n dst n) ?Q t"
      using wp_consoleread_loop [OF t(1), of n "[]" ys rest n dst] assms(2,3) unfolding t(2) by simp
  qed
  then obtain r dst' s' where "consoleread ip dst n s = Ok (r, dst') s'" "?Q (r, dst') s'"
    by (auto simp: wp_Ok)
  then show ?thesis by (auto intro!: exI [of _ dst'] exI [of _ s'] nth_equalityI)
qed

lemma serial_bytes:
  "concat (map serial (map (\<lambda>i. int (unat (f i :: u8))) js)) = map (\<lambda>i. int (unat (f i))) js"
proof (induction js)
  case (Cons j js)
  have "int (unat (f j)) \<noteq> BACKSPACE" using unsigned_less [of "f j", where 'a = int] by simp
  then show ?case using Cons by (simp add: serial_def)
qed simp

text \<open>
  C34 \<open>consolewrite\<close> sends exactly the bytes it is given to the serial line, in order, if there is one, and nothing otherwise; it keeps the cursor on the
  screen, and never writes to the video memory beyond the screen's 24 lines, whatever the bytes are.
\<close>

theorem consolewrite_output:
  assumes "ino_mine ip s" "pos (cons s) < CELLS"
  shows "\<exists>s'. consolewrite ip buf n s = Ok (int n) s' \<and> uart (cons s') = uart (cons s) @ (if uart_on s then map (\<lambda>i. int (unat (buf i))) [0..<n] else [])
    \<and> pos (cons s') < CELLS \<and> (\<forall>k \<ge> CELLS. crt (cons s') k = crt (cons s) k) \<and> input s' = input s \<and> ino_mine ip s'"
proof -
  let ?cs = "map (\<lambda>i. int (unat (buf i))) [0..<n]"
  have ser: "concat (map serial ?cs) = ?cs" by (rule serial_bytes)
  let ?Q = "\<lambda>r t. r = int n \<and> uart (cons t) = uart (cons s) @ (if uart_on s then ?cs else [])
    \<and> pos (cons t) < CELLS \<and> (\<forall>k \<ge> CELLS. crt (cons t) k = crt (cons s) k) \<and> input t = input s \<and> ino_mine ip t"
  have "wp (consolewrite ip buf n) ?Q s"
    unfolding consolewrite_def
  proof (rule wp_enter [OF assms(1)])
    fix t :: "'a cons_st_scheme"
    assume t: "con_mine ip t" "input t = input s" "cons t = cons s" "uart_on t = uart_on s"
    obtain u where u: "foreach [0..<n] (\<lambda>i. consputc (int (unat (buf i)))) t = Ok () u" "shown ?cs t u"
      using foreach_consputc [of t "[0..<n]" "\<lambda>i. int (unat (buf i))"] assms(2) t(3) by auto
    have "con_mine ip u" "input u = input t" using t(1) u(2) by (auto simp: shown_def con_mine_def)
    then have "wp (seq (release L_cons) (seq (ilock (Some ip)) (ret (int n)))) ?Q u"
      using u(2) t unfolding shown_def ser by (intro wp_leave) simp_all
    then show "wp (seq (foreach [0..<n] (\<lambda>i. consputc (int (unat (buf i))))) (seq (release L_cons) (seq (ilock (Some ip)) (ret (int n))))) ?Q t"
      using u(1) by (simp add: wp_def)
  qed
  then show ?thesis by (auto simp: wp_Ok)
qed


text \<open>A console with the characters "hi" typed but not committed, on which process 0 has locked inode 3.\<close>

definition ex_cons :: cons_st where
  "ex_cons = file_st.extend (ex_kernel\<lparr>icache := (icache ex_kernel)(3 := (icache ex_kernel 3)\<lparr>iref := 1, ivalid := True, itype := 3, imajor := 1\<rparr>),
       slocks := (\<lambda>_. \<lparr>slocked = True, slpid = 1\<rparr>)\<rparr>)
     \<lparr>first = False, cons = \<lparr>locking = True, crt = (\<lambda>_. 0), pos = 1919, uart = []\<rparr>,
      input = \<lparr>ibuf = (\<lambda>_. 0)(127 := 104, 0 := 105), ir = 0xFFFFFFFF, iw = 0xFFFFFFFF, ie = 1\<rparr>, uart_on = True, kshift = 0\<rparr>"

lemma ex_cons_facts:
  "input_ok (input ex_cons)" "pos (cons ex_cons) = 1919" "held ex_cons = []" "ino_mine 3 ex_cons" "committed (input ex_cons) = []"
  "pending (input ex_cons) = [104, 105]" "uart (cons ex_cons) = []" "uart_on ex_cons"
  by (simp_all add: ex_cons_def file_st.defs mem_st.defs bio_st.defs input_ok_def committed_def pending_def ring_list_def
      ino_mine_def ex_kernel_def ex_mem_def ex_boot_def ex_bio_def upt_rec)

theorem consoleintr_edits_witness:
  "\<exists>s'. consoleintr [8, 111, 16, 13, 65] ex_cons = Ok () s' \<and> committed (input s') = [104, 111, 10] \<and> pending (input s') = [65]"
proof -
  have "\<exists>s'. consoleintr [8, 111, 16, 13, 65] ex_cons = Ok () s' \<and> input_ok (input s') \<and> pos (cons s') < CELLS \<and> held s' = held ex_cons
    \<and> (committed (input s'), pending (input s')) = fold edit [8, 111, 16, 13, 65] (committed (input ex_cons), pending (input ex_cons))"
    by (rule consoleintr_edits) (simp_all add: ex_cons_facts)
  then show ?thesis by (auto simp: ex_cons_facts edit_def)
qed

theorem consoleread_takes_line_witness:
  "\<exists>(s :: cons_st) dst' s'. committed (input s) = [104, 10] \<and> consoleread 3 (\<lambda>_. 0) 5 s = Ok (2, dst') s'
    \<and> map dst' [0..<2] = [104, 10] \<and> committed (input s') = []"
proof -
  define s where "s = ex_cons\<lparr>input := \<lparr>ibuf = (\<lambda>_. 0)(127 := 104, 0 := 10), ir = 0xFFFFFFFF, iw = 1, ie = 1\<rparr>\<rparr>"
  have inp: "committed (input s) = [104, 10]" "input_ok (input s)"
    by (simp_all add: s_def committed_def pending_def ring_list_def input_ok_def upt_rec)
  have mine: "ino_mine 3 s" using ex_cons_facts(4) by (simp add: s_def ino_mine_def)
  have ln: "take_line 5 [] (committed (input s)) = Some ([104, 10], [])" unfolding inp(1) by code_simp
  from consoleread_takes_line [OF mine inp(2) ln, of "\<lambda>_. 0"]
  obtain dst' s' where r: "consoleread 3 (\<lambda>_. 0) 5 s = Ok (2, dst') s'" "map dst' [0..<2] = [104, 10]" "committed (input s') = []"
    by (auto simp: upt_rec)
  show ?thesis
    by (rule exI [of _ s], rule exI [of _ dst'], rule exI [of _ s']) (simp only: inp(1) r simp_thms)
qed

theorem consolewrite_output_witness:
  "\<exists>s'. consolewrite 3 (\<lambda>_. 10) 4 ex_cons = Ok 4 s' \<and> uart (cons s') = [10, 10, 10, 10] \<and> pos (cons s') < CELLS"
proof -
  have p: "pos (cons ex_cons) < CELLS" "map (\<lambda>i. int (unat (10 :: u8))) [0..<4] = [10, 10, 10, 10]"
    by (simp_all add: ex_cons_facts upt_rec)
  from consolewrite_output [OF ex_cons_facts(4) p(1), of "\<lambda>_. 10" 4]
  obtain s' where "consolewrite 3 (\<lambda>_. 10) 4 ex_cons = Ok (int 4) s'" "pos (cons s') < CELLS"
    "uart (cons s') = uart (cons ex_cons) @ (if uart_on ex_cons then map (\<lambda>i. int (unat (10 :: u8))) [0..<4] else [])" by blast
  then show ?thesis unfolding p(2) by (simp add: ex_cons_facts)
qed

end
