(* ===== verification/Hw.thy ===== *)
theory Hw
  imports Prelude
begin

text \<open>
  Setting up the processor and the interrupt controllers: segment and gate descriptors (src/mmu.h, \<open>seginit\<close> of src/vm.c, \<open>tvinit\<close> of src/trap.c), the local APIC
  (src/lapic.c), the I/O APIC (src/ioapic.c), the legacy controllers (src/picirq.c), the serial port (src/uart.c) and the real-time clock.

  A register file maps the index of a register to its value; the writes to ports are recorded in order. What a port reads is a parameter.
  The message of \<open>ioapicinit\<close> is left out.
\<close>

section \<open>Descriptors\<close>

record segdesc =
  lim_15_0 :: u32
  base_15_0 :: u32
  base_23_16 :: u32
  sd_type :: u32
  sd_s :: u32
  sd_dpl :: u32
  sd_p :: u32
  lim_19_16 :: u32
  sd_avl :: u32
  sd_rsv1 :: u32
  sd_db :: u32
  sd_g :: u32
  base_31_24 :: u32

definition SEG :: "u32 \<Rightarrow> u32 \<Rightarrow> u32 \<Rightarrow> u32 \<Rightarrow> segdesc" where
  "SEG type base lim dpl =
     \<lparr>lim_15_0 = drop_bit 12 lim AND 0xffff, base_15_0 = base AND 0xffff, base_23_16 = drop_bit 16 base AND 0xff, sd_type = type, sd_s = 1, sd_dpl = dpl, sd_p = 1,
      lim_19_16 = drop_bit 28 lim, sd_avl = 0, sd_rsv1 = 0, sd_db = 1, sd_g = 1, base_31_24 = drop_bit 24 base\<rparr>"

definition SEG16 :: "u32 \<Rightarrow> u32 \<Rightarrow> u32 \<Rightarrow> u32 \<Rightarrow> segdesc" where
  "SEG16 type base lim dpl =
     \<lparr>lim_15_0 = lim AND 0xffff, base_15_0 = base AND 0xffff, base_23_16 = drop_bit 16 base AND 0xff, sd_type = type, sd_s = 1, sd_dpl = dpl, sd_p = 1,
      lim_19_16 = drop_bit 16 lim, sd_avl = 0, sd_rsv1 = 0, sd_db = 1, sd_g = 0, base_31_24 = drop_bit 24 base\<rparr>"

text \<open>The base address and the last offset of a segment, as the processor reads a descriptor.\<close>

definition seg_base :: "segdesc \<Rightarrow> u32" where
  "seg_base d = base_15_0 d OR push_bit 16 (base_23_16 d) OR push_bit 24 (base_31_24 d)"

definition seg_limit :: "segdesc \<Rightarrow> u32" where
  "seg_limit d = (let l = lim_15_0 d OR push_bit 16 (lim_19_16 d) in if sd_g d = 1 then push_bit 12 l OR 0xfff else l)"

lemma masks: "(0xffff :: u32) = mask 16" "(0xff :: u32) = mask 8" "(0xfff :: u32) = mask 12"
  by (simp_all add: mask_eq_exp_minus_1)

lemma seg_base_SEG: "seg_base (SEG type base lim dpl) = base"
proof (rule bit_word_eqI)
  fix n
  assume "n < LENGTH(32)"
  then show "bit (seg_base (SEG type base lim dpl)) n = bit base n"
    unfolding seg_base_def SEG_def masks segdesc.simps by (cases "24 \<le> n") (auto simp: bit_simps)
qed

lemma seg_limit_SEG: "seg_limit (SEG type base lim dpl) = lim OR 0xfff"
proof (rule bit_word_eqI)
  fix n
  assume "n < LENGTH(32)"
  then show "bit (seg_limit (SEG type base lim dpl)) n = bit (lim OR 0xfff) n"
    unfolding seg_limit_def SEG_def masks Let_def segdesc.simps if_True by (cases "28 \<le> n") (auto simp: bit_simps)
qed

definition seginit :: "nat \<Rightarrow> segdesc option" where
  "seginit = [1 \<mapsto> SEG 0xA 0 0xffffffff 0, 2 \<mapsto> SEG 2 0 0xffffffff 0, 3 \<mapsto> SEG 0xA 0 0xffffffff 3, 4 \<mapsto> SEG 2 0 0xffffffff 3]"

record gatedesc =
  off_15_0 :: u32
  gd_cs :: u32
  gd_args :: u32
  gd_rsv1 :: u32
  gd_type :: u32
  gd_s :: u32
  gd_dpl :: u32
  gd_p :: u32
  off_31_16 :: u32

abbreviation (input) STS_IG32 :: u32 where "STS_IG32 \<equiv> 0xE"
abbreviation (input) STS_TG32 :: u32 where "STS_TG32 \<equiv> 0xF"
abbreviation (input) T_SYSCALL :: nat where "T_SYSCALL \<equiv> 64"

definition SETGATE :: "bool \<Rightarrow> u32 \<Rightarrow> u32 \<Rightarrow> u32 \<Rightarrow> gatedesc" where
  "SETGATE istrap sel off d =
     \<lparr>off_15_0 = off AND 0xffff, gd_cs = sel, gd_args = 0, gd_rsv1 = 0, gd_type = (if istrap then STS_TG32 else STS_IG32), gd_s = 0, gd_dpl = d, gd_p = 1,
      off_31_16 = drop_bit 16 off\<rparr>"

definition tvinit :: "(nat \<Rightarrow> u32) \<Rightarrow> (nat \<Rightarrow> gatedesc) \<Rightarrow> nat \<Rightarrow> gatedesc" where
  "tvinit vectors idt =
     (let idt = fold (\<lambda>i idt. idt(i := SETGATE False (push_bit 3 1) (vectors i) 0)) [0..<256] idt
      in idt(T_SYSCALL := SETGATE True (push_bit 3 1) (vectors T_SYSCALL) 3))"

text \<open>
  The processor's part: an interrupt of the given vector, at a privilege level and with interrupts enabled or not. A software interrupt needs a gate of no lower level than its own. The result is
  the code segment and the address control goes to, and whether interrupts stay enabled.
\<close>

definition gate_off :: "gatedesc \<Rightarrow> u32" where
  "gate_off g = off_15_0 g OR push_bit 16 (off_31_16 g)"

definition deliver :: "gatedesc \<Rightarrow> bool \<Rightarrow> u32 \<Rightarrow> bool \<Rightarrow> (u32 \<times> u32 \<times> bool) option" where
  "deliver g software cpl ie =
     (if gd_p g = 0 \<or> software \<and> gd_dpl g < cpl then None
      else Some (gd_cs g, gate_off g, ie \<and> gd_type g = STS_TG32))"

lemma gate_off_SETGATE: "gate_off (SETGATE istrap sel off d) = off"
proof (rule bit_word_eqI)
  fix n
  assume "n < LENGTH(32)"
  then show "bit (gate_off (SETGATE istrap sel off d)) n = bit off n"
    unfolding gate_off_def SETGATE_def masks gatedesc.simps by (cases "16 \<le> n") (auto simp: bit_simps)
qed

lemma fold_upd: "fold (\<lambda>i f. f(i := g i)) [0..<n] f = (\<lambda>i. if i < n then g i else f i)"
  by (induction n) (auto simp: fun_eq_iff)

lemma tvinit_eq:
  "i < 256 \<Longrightarrow> tvinit vectors idt i = (if i = T_SYSCALL then SETGATE True 8 (vectors i) 3 else SETGATE False 8 (vectors i) 0)"
  unfolding tvinit_def Let_def fold_upd by simp

text \<open>
  C24 The interrupt table. An exception or a device's interrupt, of whatever vector and at either level, goes to the kernel's code segment at the address that \<open>vectors.S\<close> has for this vector;
  interrupts stay enabled only on a system call. A program at user level can raise the system call by an instruction and no other vector; the kernel can raise any.
\<close>

theorem tvinit_gates:
  assumes "i < 256"
  shows "deliver (tvinit vectors idt i) False cpl ie = Some (8, vectors i, ie \<and> i = T_SYSCALL)
    \<and> deliver (tvinit vectors idt i) True 3 ie = (if i = T_SYSCALL then Some (8, vectors i, ie) else None)
    \<and> deliver (tvinit vectors idt i) True 0 ie = Some (8, vectors i, ie \<and> i = T_SYSCALL)"
  using gate_off_SETGATE by (auto simp: deliver_def tvinit_eq [OF assms]) (simp_all add: SETGATE_def)

theorem tvinit_gates_witness:
  "let t = tvinit (\<lambda>i. of_nat (0x80105000 + 10 * i)) (\<lambda>_. SETGATE False 0 0 0) in
     deliver (t 13) True 3 True = None \<and> deliver (t 64) True 3 True = Some (8, 0x80105280, True)
     \<and> deliver (t 46) False 3 True = Some (8, 0x801051CC, False)"
  unfolding Let_def using tvinit_gates [of 13 "\<lambda>i. of_nat (0x80105000 + 10 * i)"] tvinit_gates [of 64 "\<lambda>i. of_nat (0x80105000 + 10 * i)"]
    tvinit_gates [of 46 "\<lambda>i. of_nat (0x80105000 + 10 * i)"] by simp

section \<open>Interrupt controllers\<close>

abbreviation (input) T_IRQ0 :: u32 where "T_IRQ0 \<equiv> 32"

record hw =
  lregs :: "nat \<Rightarrow> u32"
  lwrites :: "(nat \<times> u32) list"
  ioregs :: "nat \<Rightarrow> u32"
  outs :: "(nat \<times> u8) list"

definition outb :: "nat \<Rightarrow> u8 \<Rightarrow> hw \<Rightarrow> hw" where
  "outb p b h = h\<lparr>outs := outs h @ [(p, b)]\<rparr>"

definition lapicw :: "nat \<Rightarrow> u32 \<Rightarrow> hw \<Rightarrow> hw" where
  "lapicw i v h = h\<lparr>lregs := (lregs h)(i := v), lwrites := lwrites h @ [(i, v)]\<rparr>"

text \<open>
  The registers are indexed by their offset divided by four: ID 8, VER 12, TPR 32, EOI 44, SVR 60, ESR 160, ICRLO 192, ICRHI 196, TIMER 200, PCINT 208, LINT0 212, LINT1 216, ERROR 220,
  TICR 224, TDCR 248. The wait for the delivery of an interrupt command ends once the register reads as it was written.
\<close>

definition lapicinit :: "bool \<Rightarrow> hw \<Rightarrow> hw" where
  "lapicinit present h =
     (if \<not> present then h
      else
        let h = lapicw 60 (0x100 OR (T_IRQ0 + 31)) h;
            h = lapicw 248 0xB h;
            h = lapicw 200 (0x20000 OR T_IRQ0) h;
            h = lapicw 224 10000000 h;
            h = lapicw 212 0x10000 h;
            h = lapicw 216 0x10000 h;
            h = (if drop_bit 16 (lregs h 12) AND 0xFF \<ge> 4 then lapicw 208 0x10000 h else h);
            h = lapicw 220 (T_IRQ0 + 19) h;
            h = lapicw 160 0 (lapicw 160 0 h);
            h = lapicw 44 0 h;
            h = lapicw 196 0 h;
            h = lapicw 192 (0x80000 OR 0x500 OR 0x8000) h
        in lapicw 32 0 h)"

definition lapicid :: "bool \<Rightarrow> hw \<Rightarrow> u32" where
  "lapicid present h = (if present then drop_bit 24 (lregs h 8) else 0)"

definition lapiceoi :: "bool \<Rightarrow> hw \<Rightarrow> hw" where
  "lapiceoi present h = (if present then lapicw 44 0 h else h)"

text \<open>\<open>lapicstartap\<close> also sets the warm reset vector, two 16-bit words at physical address 0x467.\<close>

definition lapicstartap :: "u8 \<Rightarrow> u32 \<Rightarrow> hw \<times> bytes \<Rightarrow> hw \<times> bytes" where
  "lapicstartap apicid addr = (\<lambda>(h, m).
     let h = outb 0x71 0x0A (outb 0x70 0xF h);
         m = put16 0x469 (ucast (drop_bit 4 addr)) (put16 0x467 0 m);
         h = lapicw 196 (push_bit 24 (ucast apicid)) h;
         h = lapicw 192 (0x500 OR 0x8000 OR 0x4000) h;
         h = lapicw 192 (0x500 OR 0x8000) h;
         h = fold (\<lambda>_ h. lapicw 192 (0x600 OR drop_bit 12 addr) (lapicw 196 (push_bit 24 (ucast apicid)) h)) [0..<2] h
     in (h, m))"

text \<open>Register 0 of the I/O APIC is its id, 1 its version; the redirection table starts at 16.\<close>

definition ioapicwrite :: "nat \<Rightarrow> u32 \<Rightarrow> hw \<Rightarrow> hw" where
  "ioapicwrite reg x h = h\<lparr>ioregs := (ioregs h)(reg := x)\<rparr>"

definition ioapicinit :: "hw \<Rightarrow> hw" where
  "ioapicinit h =
     fold (\<lambda>i h. ioapicwrite (16 + 2 * i + 1) 0 (ioapicwrite (16 + 2 * i) (0x10000 OR (T_IRQ0 + of_nat i)) h))
       [0..<Suc (unat (drop_bit 16 (ioregs h 1) AND 0xFF))] h"

definition ioapicenable :: "nat \<Rightarrow> u32 \<Rightarrow> hw \<Rightarrow> hw" where
  "ioapicenable irq cpunum h = ioapicwrite (16 + 2 * irq + 1) (push_bit 24 cpunum) (ioapicwrite (16 + 2 * irq) (T_IRQ0 + of_nat irq) h)"

definition picinit :: "hw \<Rightarrow> hw" where
  "picinit h = outb 0xA1 0xFF (outb 0x21 0xFF h)"

text \<open>Where the I/O APIC sends an interrupt: the vector and the processor, unless it is masked.\<close>

definition routed :: "hw \<Rightarrow> nat \<Rightarrow> (u32 \<times> u32) option" where
  "routed h irq = (if bit (ioregs h (16 + 2 * irq)) 16 then None else Some (ioregs h (16 + 2 * irq) AND 0xFF, drop_bit 24 (ioregs h (16 + 2 * irq + 1))))"

lemma low_byte_bits:
  fixes w :: u32
  assumes "unat w < 2 ^ n"
  shows "\<not> bit w n" "w AND mask n = w"
proof -
  have "\<not> bit (unat w) n" using assms by (simp add: bit_iff_odd)
  then show "\<not> bit w n" by (simp add: bit_unsigned_iff)
  have "take_bit n w = w" using assms by (simp add: word_unat_eq_iff unsigned_take_bit_eq take_bit_nat_eq_self)
  then show "w AND mask n = w" by (simp add: take_bit_eq_mask)
qed

lemma ioapic_fold:
  assumes "n \<le> 256"
  shows "ioregs (fold (\<lambda>i h. ioapicwrite (16 + 2 * i + 1) 0 (ioapicwrite (16 + 2 * i) (0x10000 OR (T_IRQ0 + of_nat i)) h)) [0..<n] h) (16 + 2 * j)
    = (if j < n then 0x10000 OR (T_IRQ0 + of_nat j) else ioregs h (16 + 2 * j))"
proof (induction n)
  case (Suc n)
  have "16 + 2 * j \<noteq> Suc (16 + 2 * n)" by presburger
  then show ?case using Suc by (auto simp: ioapicwrite_def)
qed simp

text \<open>After \<open>ioapicinit\<close> no interrupt is routed; \<open>ioapicenable\<close> routes the one it is given to the vector the trap handler expects, and no other.\<close>

lemma ioapic_routes:
  assumes "irq \<le> unat (drop_bit 16 (ioregs h 1) AND 0xFF)" "irq < 224" "cpunum < 256"
  shows "routed (ioapicinit h) irq = None" "routed (ioapicenable irq cpunum h) irq = Some (T_IRQ0 + of_nat irq, cpunum)"
    "j \<noteq> irq \<Longrightarrow> routed (ioapicenable irq cpunum h) j = routed h j"
proof -
  have "unat (drop_bit 16 (ioregs h 1) AND 0xFF) \<le> unat (0xFF :: u32)" using word_and_le1 word_le_nat_alt by blast
  then have "Suc (unat (drop_bit 16 (ioregs h 1) AND 0xFF)) \<le> 256" by simp
  from ioapic_fold [OF this, of h irq] have "ioregs (ioapicinit h) (16 + 2 * irq) = 0x10000 OR (T_IRQ0 + of_nat irq)" using assms(1) by (simp add: ioapicinit_def del: upt_Suc)
  then show "routed (ioapicinit h) irq = None" by (simp add: routed_def bit_or_iff)
  have n: "unat (T_IRQ0 + of_nat irq) = 32 + irq" using assms(2) by (simp add: unat_word_ariths)
  then have v: "\<not> bit (T_IRQ0 + of_nat irq :: u32) 16" "(T_IRQ0 + of_nat irq :: u32) AND 0xFF = T_IRQ0 + of_nat irq"
    using assms(2) low_byte_bits(1) [of "T_IRQ0 + of_nat irq" 16] low_byte_bits(2) [of "T_IRQ0 + of_nat irq" 8] by (simp_all add: mask_eq_exp_minus_1)
  have "unat cpunum < 256" using assms(3) by (simp add: word_less_nat_alt)
  then have c: "drop_bit 24 (push_bit 24 cpunum) = cpunum"

    by (simp only: word_unat_eq_iff unat_drop_bit_eq unsigned_push_bit_eq) (simp add: take_bit_eq_mod drop_bit_eq_div push_bit_eq_mult)
  have e: "ioregs (ioapicenable irq cpunum h) = (ioregs h)(16 + 2 * irq := T_IRQ0 + of_nat irq, Suc (16 + 2 * irq) := push_bit 24 cpunum)"
    by (simp add: ioapicenable_def ioapicwrite_def)
  show "routed (ioapicenable irq cpunum h) irq = Some (T_IRQ0 + of_nat irq, cpunum)" unfolding routed_def e using v c by simp
  assume "j \<noteq> irq"
  moreover have "Suc (16 + 2 * irq) \<noteq> 16 + 2 * j" "16 + 2 * irq \<noteq> Suc (16 + 2 * j)" by presburger+
  ultimately show "routed (ioapicenable irq cpunum h) j = routed h j" unfolding routed_def e by simp
qed

section \<open>The serial port\<close>

abbreviation (input) COM1 :: nat where "COM1 \<equiv> 0x3f8"

definition uartputc :: "bool \<Rightarrow> u8 \<Rightarrow> hw \<Rightarrow> hw" where
  "uartputc present c h = (if present then outb COM1 c h else h)"

text \<open>It returns whether there is a serial port; \<open>status\<close> is what the line status register reads.\<close>

definition uartinit :: "u8 \<Rightarrow> hw \<Rightarrow> bool \<times> hw" where
  "uartinit status h =
     (let h = fold (\<lambda>(p, b). outb (COM1 + p) b) [(2, 0), (3, 0x80), (0, 12), (1, 0), (3, 3), (4, 0), (1, 1)] h in
      if status = 0xFF then (False, h)
      else (True, fold (uartputc True) [120, 118, 54, 46, 46, 46, 10] (ioapicenable 4 0 h)))"

definition uartgetc :: "bool \<Rightarrow> (nat \<Rightarrow> u8) \<Rightarrow> int" where
  "uartgetc present inb = (if \<not> present \<or> inb (COM1 + 5) AND 1 = 0 then -1 else uint (inb COM1))"

section \<open>The clock\<close>

record rtcdate =
  second :: u32
  minute :: u32
  hour :: u32
  day :: u32
  month :: u32
  year :: u32

text \<open>Each reading of the clock has its status and the six registers; \<open>n\<close> readings have been made so far.\<close>

definition fill_rtcdate :: "(nat \<Rightarrow> u8) \<Rightarrow> rtcdate" where
  "fill_rtcdate cmos =
     \<lparr>second = ucast (cmos 0), minute = ucast (cmos 2), hour = ucast (cmos 4), day = ucast (cmos 7), month = ucast (cmos 8), year = ucast (cmos 9)\<rparr>"

definition bcd_conv :: "u32 \<Rightarrow> u32" where
  "bcd_conv x = drop_bit 4 x * 10 + (x AND 0xf)"

partial_function (option) cmos_loop :: "(nat \<Rightarrow> nat \<Rightarrow> u8) \<Rightarrow> nat \<Rightarrow> rtcdate option" where
  "cmos_loop cmos n =
     (if cmos (n + 1) 0x0a AND 0x80 \<noteq> 0 then cmos_loop cmos (n + 2)
      else if fill_rtcdate (cmos n) = fill_rtcdate (cmos (n + 2)) then Some (fill_rtcdate (cmos n))
      else cmos_loop cmos (n + 3))"

definition cmostime :: "(nat \<Rightarrow> nat \<Rightarrow> u8) \<Rightarrow> rtcdate option" where
  "cmostime cmos =
     map_option (\<lambda>t. let t = (if cmos 0 0x0b AND 4 = 0
         then \<lparr>second = bcd_conv (second t), minute = bcd_conv (minute t), hour = bcd_conv (hour t), day = bcd_conv (day t), month = bcd_conv (month t), year = bcd_conv (year t)\<rparr>
         else t) in t\<lparr>year := year t + 2000\<rparr>)
       (cmos_loop cmos 1)"

text \<open>A number below a hundred in two decimal digits of four bits each is converted to binary.\<close>

lemma bcd_conv_digits: "n < 100 \<Longrightarrow> bcd_conv (of_nat (16 * (n div 10) + n mod 10)) = of_nat n"
proof -
  assume n: "n < 100"
  let ?x = "of_nat (16 * (n div 10) + n mod 10) :: u32"
  have u: "unat ?x = 16 * (n div 10) + n mod 10" by (rule unat_of_nat32) (use n in linarith)
  have "unat (drop_bit 4 ?x) = n div 10" unfolding unat_drop_bit_eq u by (simp add: drop_bit_eq_div)
  moreover have "?x AND 0xf = take_bit 4 ?x" by (simp add: take_bit_eq_mask mask_eq_exp_minus_1)
  then have "unat (?x AND 0xf) = (16 * (n div 10) + n mod 10) mod 16" by (simp only: unsigned_take_bit_eq u) (simp add: take_bit_eq_mod)
  then have "unat (?x AND 0xf) = n mod 10" by simp
  ultimately have "unat (bcd_conv ?x) = n" using n by (simp add: bcd_conv_def unat_word_ariths)
  then show ?thesis using n by (simp add: word_unat_eq_iff)
qed

lemma cmos_loop_stable:
  assumes "\<And>k. cmos k 0x0a AND 0x80 = 0" "\<And>k. fill_rtcdate (cmos k) = t"
  shows "cmos_loop cmos n = Some t"
  using assms by (subst cmos_loop.simps) simp

end
