(* ===== verification/Mp.thy ===== *)
theory Mp
  imports Prelude
begin

text \<open>
  Detecting the processors (src/mp.c, src/mp.h): the search of physical memory for the tables of the MultiProcessor Specification, and \<open>mpinit\<close>, which
  reads the entries of the configuration table. The kernel reads physical address \<open>a\<close> at \<open>P2V(a)\<close>; the memory of the model is indexed by physical addresses.
\<close>

section \<open>The code\<close>

abbreviation (input) NCPU :: nat where "NCPU \<equiv> 8"

text \<open>The low byte of the sum of \<open>len\<close> bytes.\<close>

primrec mp_sum :: "bytes \<Rightarrow> nat \<Rightarrow> nat \<Rightarrow> u8" where
  "mp_sum m a 0 = 0"
| "mp_sum m a (Suc n) = mp_sum m a n + m (a + n)"

definition bytes_at :: "bytes \<Rightarrow> nat \<Rightarrow> u8 list \<Rightarrow> bool" where
  "bytes_at m a xs \<longleftrightarrow> map (\<lambda>i. m (a + i)) [0..<length xs] = xs"

text \<open>The structure is 16 bytes long; its signature is \<open>"_MP_"\<close>.\<close>

definition mpsearch1 :: "bytes \<Rightarrow> nat \<Rightarrow> nat \<Rightarrow> string + nat option" where
  "mpsearch1 m a len =
     (if a > 0x80000000 then Inl ''P2V on address > KERNBASE''
      else Inr (find (\<lambda>p. bytes_at m p [95, 77, 80, 95] \<and> mp_sum m p 16 = 0) (map (\<lambda>i. a + 16 * i) [0..<(len + 15) div 16])))"

definition mpsearch :: "bytes \<Rightarrow> string + nat option" where
  "mpsearch m =
     (let p = (unat (m 0x40F) * 256 + unat (m 0x40E)) * 16;
          r = (if p \<noteq> 0 then mpsearch1 m p 1024
               else mpsearch1 m (u32wrap ((unat (m 0x414) * 256 + unat (m 0x413)) * 1024 + (2 ^ 32 - 1024))) 1024)
      in if r = Inr None then mpsearch1 m 0xF0000 0x10000 else r)"

text \<open>The configuration table: its signature is \<open>"PCMP"\<close>.\<close>

definition mpconfig :: "bytes \<Rightarrow> string + (nat \<times> nat) option" where
  "mpconfig m =
     (case mpsearch m of
        Inl e \<Rightarrow> Inl e
      | Inr None \<Rightarrow> Inr None
      | Inr (Some mp) \<Rightarrow>
          let conf = unat (get32 m (mp + 4)) in
          if conf = 0 then Inr None
          else if conf > 0x80000000 then Inl ''P2V on address > KERNBASE''
          else if \<not> bytes_at m conf [80, 67, 77, 80] \<or> m (conf + 6) \<noteq> 1 \<and> m (conf + 6) \<noteq> 4 \<or> mp_sum m conf (unat (get16 m (conf + 4))) \<noteq> 0
          then Inr None else Inr (Some (mp, conf)))"

text \<open>The globals that \<open>mpinit\<close> sets: the address of the local APIC, the APIC ids in \<open>cpus\<close> and that of the I/O APIC, and whether interrupts were routed to the APIC.\<close>

record mp_st =
  lapic :: u32
  apicids :: "u8 list"
  ioapicid :: u8
  imcr :: bool

text \<open>
  The loop over the entries. On an entry of another type the code leaves the switch but neither the loop nor this entry, so that it is looked at again.
\<close>

partial_function (option) mp_entries :: "bytes \<Rightarrow> nat \<Rightarrow> nat \<Rightarrow> mp_st \<Rightarrow> mp_st option" where
  "mp_entries m p e s =
     (if p < e then
        if m p = 0 then mp_entries m (p + 20) e (if length (apicids s) < NCPU then s\<lparr>apicids := apicids s @ [m (p + 1)]\<rparr> else s)
        else if m p = 2 then mp_entries m (p + 8) e (s\<lparr>ioapicid := m (p + 1)\<rparr>)
        else if m p = 1 \<or> m p = 3 \<or> m p = 4 then mp_entries m (p + 8) e s
        else mp_entries m p e s
      else Some s)"

definition mpinit :: "bytes \<Rightarrow> mp_st \<Rightarrow> (string + mp_st) option" where
  "mpinit m s =
     (case mpconfig m of
        Inl e \<Rightarrow> Some (Inl e)
      | Inr None \<Rightarrow> Some (Inl ''Expect to run on an SMP'')
      | Inr (Some (mp, conf)) \<Rightarrow>
          map_option (\<lambda>s. Inr (if m (mp + 12) \<noteq> 0 then s\<lparr>imcr := True\<rparr> else s))
            (mp_entries m (conf + 44) (conf + unat (get16 m (conf + 4))) (s\<lparr>lapic := get32 m (conf + 36)\<rparr>)))"

section \<open>Tables\<close>

text \<open>An entry names a processor, an I/O APIC, or a bus or interrupt source.\<close>

datatype mp_entry = Processor u8 | Ioapic u8 | Source u8

fun entry_size :: "mp_entry \<Rightarrow> nat" where
  "entry_size (Processor _) = 20"
| "entry_size _ = 8"

fun entry_at :: "bytes \<Rightarrow> nat \<Rightarrow> mp_entry \<Rightarrow> bool" where
  "entry_at m p (Processor i) \<longleftrightarrow> m p = 0 \<and> m (p + 1) = i"
| "entry_at m p (Ioapic i) \<longleftrightarrow> m p = 2 \<and> m (p + 1) = i"
| "entry_at m p (Source t) \<longleftrightarrow> m p = t \<and> t \<in> {1, 3, 4}"

primrec entries_at :: "bytes \<Rightarrow> nat \<Rightarrow> mp_entry list \<Rightarrow> nat \<Rightarrow> bool" where
  "entries_at m p [] e \<longleftrightarrow> p = e"
| "entries_at m p (x # xs) e \<longleftrightarrow> entry_at m p x \<and> entries_at m (p + entry_size x) xs e"

definition processors :: "mp_entry list \<Rightarrow> u8 list" where
  "processors es = concat (map (\<lambda>x. case x of Processor i \<Rightarrow> [i] | _ \<Rightarrow> []) es)"

definition last_ioapic :: "u8 \<Rightarrow> mp_entry list \<Rightarrow> u8" where
  "last_ioapic i es = foldl (\<lambda>i x. case x of Ioapic j \<Rightarrow> j | _ \<Rightarrow> i) i es"

text \<open>On an entry of an unknown type \<open>mpinit\<close> does not end.\<close>

lemma mp_entries_unknown:
  assumes "p < e" "m p \<notin> {0, 1, 2, 3, 4}"
  shows "mp_entries m p e s = None"
proof -
  have "\<not> (m' = m \<and> p' = p \<and> e' = e)" if "mp_entries m' p' e' s' = Some r" for m' p' e' s' r
  proof (rule mp_entries.raw_induct [where P = "\<lambda>m' p' e' s' r. \<not> (m' = m \<and> p' = p \<and> e' = e)", OF _ that])
    fix f m' p' e' s' r
    assume IH: "\<And>m' p' e' s' r. f m' p' e' s' = Some r \<Longrightarrow> \<not> (m' = m \<and> p' = p \<and> e' = e)"
      and r: "(if p' < e' then if m' p' = 0 then f m' (p' + 20) e' (if length (apicids s') < NCPU then s'\<lparr>apicids := apicids s' @ [m' (p' + 1)]\<rparr> else s')
        else if m' p' = 2 then f m' (p' + 8) e' (s'\<lparr>ioapicid := m' (p' + 1)\<rparr>) else if m' p' = 1 \<or> m' p' = 3 \<or> m' p' = 4 then f m' (p' + 8) e' s' else f m' p' e' s' else Some s') = Some r"
    show "\<not> (m' = m \<and> p' = p \<and> e' = e)" using r IH [of m p e s' r] assms by auto
  qed
  then show ?thesis by (cases "mp_entries m p e s") blast+
qed

lemma entries_at_le: "entries_at m p es e \<Longrightarrow> p \<le> e"
proof (induction es arbitrary: p)
  case (Cons x es)
  then have "p + entry_size x \<le> e" by simp
  then show ?case by simp
qed simp

lemma mp_entries_table:
  assumes "entries_at m p es q" "q \<le> e" "length (apicids s) \<le> NCPU"
  shows "mp_entries m p e s = mp_entries m q e (s\<lparr>apicids := take NCPU (apicids s @ processors es), ioapicid := last_ioapic (ioapicid s) es\<rparr>)"
  using assms
proof (induction es arbitrary: p s)
  case Nil
  then show ?case by (simp add: processors_def last_ioapic_def)
next
  case (Cons x es)
  have "p + entry_size x \<le> e" using Cons.prems(1,2) entries_at_le [of m "p + entry_size x" es q] by simp
  then have lt: "p < e" by (cases x) auto
  show ?case
  proof (cases x)
    case (Processor i)
    let ?s = "if length (apicids s) < NCPU then s\<lparr>apicids := apicids s @ [i]\<rparr> else s"
    have "mp_entries m p e s = mp_entries m (p + 20) e ?s" using lt Cons.prems(1) Processor by (subst mp_entries.simps) simp
    moreover have "take NCPU (apicids ?s @ processors es) = take NCPU (apicids s @ processors (x # es))"
      using Cons.prems(3) Processor by (cases "length (apicids s) < NCPU") (simp_all add: processors_def)
    moreover have "last_ioapic (ioapicid s) (x # es) = last_ioapic (ioapicid ?s) es" using Processor by (simp add: last_ioapic_def)
    ultimately show ?thesis using Cons.IH [of "p + 20" ?s] Cons.prems Processor by auto
  next
    case (Ioapic i)
    have "mp_entries m p e s = mp_entries m (p + 8) e (s\<lparr>ioapicid := i\<rparr>)" using lt Cons.prems(1) Ioapic by (subst mp_entries.simps) simp
    then show ?thesis using Cons.IH [of "p + 8" "s\<lparr>ioapicid := i\<rparr>"] Cons.prems Ioapic by (simp add: processors_def last_ioapic_def)
  next
    case (Source t)
    then have "mp_entries m p e s = mp_entries m (p + 8) e s" using lt Cons.prems(1) by (subst mp_entries.simps) auto
    then show ?thesis using Cons.IH [of "p + 8" s] Cons.prems Source by (simp add: processors_def last_ioapic_def)
  qed
qed

text \<open>
  C30 \<open>mpinit\<close> reads the configuration table up to its end or to the first entry of a type other than 0 to 4. If there is none it takes from the table the APIC ids of the first
  eight processors, in order, and the id of the last I/O APIC, whatever buses and interrupt sources are listed in between. If there is one \<open>mpinit\<close> never returns: the code meant to panic on it
  leaves the switch and looks at the same entry again.
\<close>

theorem mpinit_reads:
  assumes "mpconfig m = Inr (Some (mp, conf))" "apicids s = []"
  defines "e \<equiv> conf + unat (get16 m (conf + 4))"
  assumes "entries_at m (conf + 44) es q" "q \<le> e" "q < e \<Longrightarrow> m q \<notin> {0, 1, 2, 3, 4}"
  shows "mpinit m s = (if q < e then None
    else Some (Inr (s\<lparr>lapic := get32 m (conf + 36), apicids := take NCPU (processors es), ioapicid := last_ioapic (ioapicid s) es, imcr := imcr s \<or> m (mp + 12) \<noteq> 0\<rparr>)))"
proof -
  note T = mp_entries_table [OF assms(4,5), of "s\<lparr>lapic := get32 m (conf + 36)\<rparr>"]
  show ?thesis
  proof (cases "q < e")
    case True
    then show ?thesis using T assms(1,2) mp_entries_unknown [of q e m, OF True assms(6) [OF True]] by (simp add: mpinit_def e_def)
  next
    case False
    then show ?thesis using T assms(1,2) mp_entries.simps [of m q e] by (simp add: mpinit_def e_def)
  qed
qed

text \<open>A table with one processor and one entry of eight bytes that starts with the two given ones.\<close>

definition ex_mp :: "u8 \<Rightarrow> u8 \<Rightarrow> bytes" where
  "ex_mp t i = (\<lambda>_. 0)(0x40F := 16, 0x10000 := 95, 0x10001 := 77, 0x10002 := 80, 0x10003 := 95, 0x10006 := 2, 0x1000A := 163,
     0x20000 := 80, 0x20001 := 67, 0x20002 := 77, 0x20003 := 80, 0x20004 := 72, 0x20006 := 1, 0x20007 := 153, 0x20026 := 224, 0x20027 := 254,
     0x2002D := 5, 0x20040 := t, 0x20041 := i)"

lemma mp_sum_numeral: "mp_sum m a (numeral k) = mp_sum m a (pred_numeral k) + m (a + pred_numeral k)"
  by (simp add: numeral_eq_Suc)

lemma ex_mp_config:
  assumes "t + i = 11"
  shows "mpconfig (ex_mp t i) = Inr (Some (0x10000, 0x20000))"
proof -
  have "i + (t + 1013) = t + i + 1013" by (simp only: ac_simps)
  also have "\<dots> = 0" unfolding assms by simp
  finally have c: "i + (t + 1013) = 0" .
  have f: "bytes_at (ex_mp t i) 0x10000 [95, 77, 80, 95]" "bytes_at (ex_mp t i) 0x20000 [80, 67, 77, 80]" by (simp_all add: bytes_at_def ex_mp_def upt_rec)
  have s: "mp_sum (ex_mp t i) 0x10000 16 = 0" by (simp add: ex_mp_def mp_sum_numeral)
  have "[0..<(1024 + 15) div 16] = 0 # [1..<64]" by (simp add: upt_conv_Cons)
  then have "mpsearch1 (ex_mp t i) 0x10000 1024 = Inr (Some 0x10000)" unfolding mpsearch1_def using f(1) s by simp
  moreover have "unat ((ex_mp t i) 0x40F) = 16" "unat ((ex_mp t i) 0x40E) = 0" by (simp_all add: ex_mp_def)
  ultimately have "mpsearch (ex_mp t i) = Inr (Some 0x10000)" by (simp add: mpsearch_def)
  moreover have "get32 (ex_mp t i) 0x10004 = 0x20000" "(ex_mp t i) 0x20006 = 1" "get16 (ex_mp t i) 0x20004 = 72" by (simp_all add: ex_mp_def get32_def get16_def)
  moreover have "mp_sum (ex_mp t i) 0x20000 72 = 0" using c by (simp add: ex_mp_def mp_sum_numeral algebra_simps)
  ultimately show ?thesis using f(2) by (simp add: mpconfig_def)
qed

theorem mpinit_reads_witness:
  "(\<exists>s. mpinit (ex_mp 2 9) \<lparr>lapic = 0, apicids = [], ioapicid = 0, imcr = False\<rparr> = Some (Inr s) \<and> lapic s = 0xFEE00000 \<and> apicids s = [5] \<and> ioapicid s = 9)
   \<and> mpinit (ex_mp 6 5) \<lparr>lapic = 0, apicids = [], ioapicid = 0, imcr = False\<rparr> = None"
proof -
  let ?s = "\<lparr>lapic = 0, apicids = [], ioapicid = 0, imcr = False\<rparr>" and ?m = "ex_mp 6 5"
  have "get16 (ex_mp 2 9) 0x20004 = 72" "get32 (ex_mp 2 9) 0x20024 = 0xFEE00000" by (simp_all add: ex_mp_def get32_def get16_def)
  moreover have "entries_at (ex_mp 2 9) 0x2002C [Processor 5, Ioapic 9] 0x20048" by (simp add: ex_mp_def)
  ultimately have 1: "\<exists>s. mpinit (ex_mp 2 9) ?s = Some (Inr s) \<and> lapic s = 0xFEE00000 \<and> apicids s = [5] \<and> ioapicid s = 9"
    using mpinit_reads [OF ex_mp_config [of 2 9], of ?s "[Processor 5, Ioapic 9]" "0x20048"] by (simp add: processors_def last_ioapic_def)
  have "get16 ?m 0x20004 = 72" by (simp add: ex_mp_def get16_def)
  moreover have "entries_at ?m 0x2002C [Processor 5] 0x20040" "?m 0x20040 = 6" by (simp_all add: ex_mp_def)
  ultimately have "mpinit ?m ?s = None" using mpinit_reads [OF ex_mp_config [of 6 5], of ?s "[Processor 5]" "0x20040"] by simp
  then show ?thesis using 1 by blast
qed

end
