(* ===== verification/Start.thy ===== *)
theory Start
  imports Console Hw Mp Spinlock
begin

text \<open>
  Start-up (src/main.c), which calls the initialisation of every part in order and starts the other processors.

  The code that the other processors start with, the addresses of \<open>mpenter\<close> and \<open>entrypgdir\<close>, and what is found on the machine are parameters. A processor that has been
  started runs \<open>mpenter\<close> up to its scheduler before \<open>startothers\<close> goes on, as it waits for that.
\<close>

section \<open>Starting processors\<close>

record start_st = cons_st +
  hws :: hw
  mps :: mp_st
  idt :: "nat \<Rightarrow> gatedesc"
  gdt :: "nat \<Rightarrow> nat \<Rightarrow> segdesc option"
  started :: "nat \<Rightarrow> bool"

record machine_params =
  entryother :: "u8 list"
  mpenter_addr :: u32
  entrypgdir_addr :: u32
  vectors :: "nat \<Rightarrow> u32"
  uart_status :: u8
  disk1 :: bool
  initcode :: bytes
  initcode_size :: nat

definition upd_hw :: "(hw \<Rightarrow> hw) \<Rightarrow> 'a start_st_scheme \<Rightarrow> 'a start_st_scheme" where
  "upd_hw f s = s\<lparr>hws := f (hws s)\<rparr>"

definition seginit_cpu :: "nat \<Rightarrow> 'a start_st_scheme \<Rightarrow> 'a start_st_scheme" where
  "seginit_cpu c s = s\<lparr>gdt := (gdt s)(c := seginit)\<rparr>"

definition has_lapic :: "'a start_st_scheme \<Rightarrow> bool" where
  "has_lapic s \<longleftrightarrow> lapic (mps s) \<noteq> 0"

text \<open>The scheduler is entered next.\<close>

definition mpmain :: "nat \<Rightarrow> (unit, 'a start_st_scheme) kop" where
  "mpmain c =
     seq (cprintf (\<lambda>_. []) (cfmt ''cpu%d: starting %d\<newline>'') [of_nat c, of_nat c])
     (modify (\<lambda>s. s\<lparr>started := (started s)(c := True)\<rparr>))"

definition mpenter :: "nat \<Rightarrow> (unit, 'a start_st_scheme) kop" where
  "mpenter c =
     seq switchkvm
     (seq (modify (seginit_cpu c))
     (seq (modify (\<lambda>s. upd_hw (lapicinit (has_lapic s)) s))
     (mpmain c)))"

text \<open>The words below the code at 0x7000 tell it the stack, where to enter, and the page directory. The result of \<open>kalloc\<close> is not checked.\<close>

definition start_cpu :: "machine_params \<Rightarrow> nat \<Rightarrow> (unit, 'a start_st_scheme) kop" where
  "start_cpu k c =
     bind kalloc (\<lambda>stack.
     seq (modify (kstore32 (KERNBASE + 0x7000 - 4) (of_nat stack + 4096)))
     (seq (modify (kstore32 (KERNBASE + 0x7000 - 8) (mpenter_addr k)))
     (seq (modify (kstore32 (KERNBASE + 0x7000 - 12) (entrypgdir_addr k - of_nat KERNBASE)))
     (seq (modify (\<lambda>s. let (h, m) = lapicstartap (apicids (mps s) ! c) 0x7000 (hws s, pmem s) in s\<lparr>hws := h, pmem := m\<rparr>))
     (mpenter c)))))"

definition startothers :: "machine_params \<Rightarrow> nat \<Rightarrow> (unit, 'a start_st_scheme) kop" where
  "startothers k self =
     seq (modify (\<lambda>s. s\<lparr>pmem := splice (pmem s) 0x7000 ((!) (entryother k)) 0 (length (entryother k))\<rparr>))
     (bind (gets (\<lambda>s. length (apicids (mps s)))) (\<lambda>n.
     foreach [0..<n] (\<lambda>c. if c = self then skip else start_cpu k c)))"

section \<open>main\<close>

text \<open>The steps after the processors have been detected, on processor \<open>self\<close>.\<close>

definition main_rest :: "machine_params \<Rightarrow> nat \<Rightarrow> (unit, 'a start_st_scheme) kop" where
  "main_rest k self =
     seq (modify (\<lambda>s. upd_hw (lapicinit (has_lapic s)) s))
     (seq (modify (seginit_cpu self))
     (seq (modify (upd_hw picinit))
     (seq (modify (upd_hw ioapicinit))
     (seq (seq consoleinit (modify (upd_hw (ioapicenable 1 0))))
     (seq (modify (\<lambda>s. let (b, h) = uartinit (uart_status k) (hws s) in s\<lparr>hws := h, uart_on := b\<rparr>))
     (seq (modify (\<lambda>s. s\<lparr>idt := tvinit (vectors k) (idt s)\<rparr>))
     (seq binit
     (seq (seq (ideinit (disk1 k)) (modify (\<lambda>s. upd_hw (ioapicenable 14 (of_nat (length (apicids (mps s)) - 1))) s)))
     (seq (startothers k self)
     (seq (kinit2 (KERNBASE + 4 * 1024 * 1024) (KERNBASE + PHYSTOP))
     (seq (userinit devsw_read (initcode k) (initcode_size k))
     (mpmain self))))))))))))"

text \<open>\<open>None\<close> if \<open>mpinit\<close> does not end.\<close>

definition kernel_main :: "machine_params \<Rightarrow> nat \<Rightarrow> 'a start_st_scheme \<Rightarrow> (unit, 'a start_st_scheme) outcome option" where
  "kernel_main k self s =
     (case bind (gets sym_end) (\<lambda>e. seq (kinit1 e (KERNBASE + 4 * 1024 * 1024)) kvmalloc) s of
        Ok _ s \<Rightarrow>
          (case mpinit (pmem s) (mps s) of
             None \<Rightarrow> None
           | Some (Inl msg) \<Rightarrow> Some (Panic msg)
           | Some (Inr m) \<Rightarrow> Some (main_rest k self (s\<lparr>mps := m\<rparr>)))
      | r \<Rightarrow> Some r)"

end
