(* ===== verification/Kbd.thy ===== *)
theory Kbd
  imports Console
begin

text \<open>
  The keyboard driver (src/kbd.c, with the tables of src/kbd.h). The controller is the queue of scan
  codes it has received: its status register says whether the queue is empty, and reading the data
  register takes the first. The static variable \<open>shift\<close> of \<open>kbdgetc\<close> is an argument and a result. The character is computed as an unsigned integer of 32 bits
  and returned as a signed one.
\<close>

section \<open>Tables\<close>

abbreviation (input) SHIFT :: u32 where "SHIFT \<equiv> 1"
abbreviation (input) CTL :: u32 where "CTL \<equiv> 2"
abbreviation (input) ALT :: u32 where "ALT \<equiv> 4"
abbreviation (input) CAPSLOCK :: u32 where "CAPSLOCK \<equiv> 8"
abbreviation (input) NUMLOCK :: u32 where "NUMLOCK \<equiv> 16"
abbreviation (input) SCROLLLOCK :: u32 where "SCROLLLOCK \<equiv> 32"
abbreviation (input) E0ESC :: u32 where "E0ESC \<equiv> 64"

definition shiftcode :: "u8 \<Rightarrow> u32" where
  "shiftcode d =
     (if d = 0x1D then CTL else if d = 0x2A then SHIFT else if d = 0x36 then SHIFT else if d = 0x38 then ALT
      else if d = 0x9D then CTL else if d = 0xB8 then ALT else 0)"

definition togglecode :: "u8 \<Rightarrow> u32" where
  "togglecode d = (if d = 0x3A then CAPSLOCK else if d = 0x45 then NUMLOCK else if d = 0x46 then SCROLLLOCK else 0)"

text \<open>The character constants of the tables, and \<open>C(x)\<close>, the control character.\<close>

abbreviation chr :: "char \<Rightarrow> u8" where "chr c \<equiv> of_char c"

definition ctl :: "char \<Rightarrow> u8" where
  "ctl c = of_char c - 64"

text \<open>The entries that the three tables have in common for keys with an E0 prefix, but for the characters of Enter and of the division key.\<close>

definition e0map :: "u8 \<Rightarrow> u8 \<Rightarrow> u8 \<Rightarrow> u8" where
  "e0map enter slash d =
     (if d = 0x9C then enter else if d = 0xB5 then slash
      else if d = 0xC8 then 0xE2 else if d = 0xD0 then 0xE3
      else if d = 0xC9 then 0xE6 else if d = 0xD1 then 0xE7
      else if d = 0xCB then 0xE4 else if d = 0xCD then 0xE5
      else if d = 0x97 then 0xE0 else if d = 0xCF then 0xE1
      else if d = 0xD2 then 0xE8 else if d = 0xD3 then 0xE9 else 0)"

definition normalrow :: "u8 list" where
  "normalrow =
     [0, 0x1B] @ map chr ''1234567890-='' @ [8, 9]
     @ map chr ''qwertyuiop[]'' @ [10, 0] @ map chr ''as''
     @ map chr ''dfghjkl;'' @ [0x27, 0x60, 0, 0x5C] @ map chr ''zxcv''
     @ map chr ''bnm,./'' @ [0, 0x2A] @ [0, 0x20, 0, 0, 0, 0, 0, 0]
     @ [0, 0, 0, 0, 0, 0, 0] @ map chr ''7''
     @ map chr ''89-456+1'' @ map chr ''230.'' @ [0, 0, 0, 0]"

definition shiftrow :: "u8 list" where
  "shiftrow =
     [0, 0x1B] @ map chr ''!@#$%^&*()_+'' @ [8, 9]
     @ map chr ''QWERTYUIOP{}'' @ [10, 0] @ map chr ''AS''
     @ map chr ''DFGHJKL:'' @ [0x22, 0x7E, 0, 0x7C] @ map chr ''ZXCV''
     @ map chr ''BNM<>?'' @ [0, 0x2A] @ [0, 0x20, 0, 0, 0, 0, 0, 0]
     @ [0, 0, 0, 0, 0, 0, 0] @ map chr ''7''
     @ map chr ''89-456+1'' @ map chr ''230.'' @ [0, 0, 0, 0]"

definition ctlrow :: "u8 list" where
  "ctlrow =
     [0, 0, 0, 0, 0, 0, 0, 0, 0, 0, 0, 0, 0, 0, 0, 0]
     @ map ctl ''QWERTYUIOP'' @ [0, 0, 13, 0] @ map ctl ''AS''
     @ map ctl ''DFGHJKL'' @ [0, 0, 0, 0, ctl (CHR 0x5C)] @ map ctl ''ZXCV''
     @ map ctl ''BNM'' @ [0, 0, ctl CHR ''/'', 0, 0]"

definition normalmap :: "u8 \<Rightarrow> u8" where
  "normalmap d = (if unat d < length normalrow then normalrow ! unat d else e0map 10 (chr CHR ''/'') d)"

definition shiftmap :: "u8 \<Rightarrow> u8" where
  "shiftmap d = (if unat d < length shiftrow then shiftrow ! unat d else e0map 10 (chr CHR ''/'') d)"

definition ctlmap :: "u8 \<Rightarrow> u8" where
  "ctlmap d = (if unat d < length ctlrow then ctlrow ! unat d else e0map 13 (ctl CHR ''/'') d)"

definition charcode :: "u32 \<Rightarrow> u8 \<Rightarrow> u8" where
  "charcode k = (if k = 0 then normalmap else if k = 1 then shiftmap else ctlmap)"

section \<open>The driver\<close>

text \<open>Capitals and small letters exchanged, on unsigned integers.\<close>

definition caps_case :: "u32 \<Rightarrow> u32" where
  "caps_case c = (if 97 \<le> c \<and> c \<le> 122 then c + (65 - 97) else if 65 \<le> c \<and> c \<le> 90 then c + (97 - 65) else c)"

fun kbdgetc :: "u32 \<Rightarrow> u8 list \<Rightarrow> int \<times> u32 \<times> u8 list" where
  "kbdgetc shift [] = (-1, shift, [])"
| "kbdgetc shift (d # q) =
     (if d = 0xE0 then (0, shift OR E0ESC, q)
      else if d AND 0x80 \<noteq> 0 then
        (let d = (if shift AND E0ESC \<noteq> 0 then d else d AND 0x7F)
         in (0, shift AND NOT (shiftcode d OR E0ESC), q))
      else
        (let esc = (shift AND E0ESC \<noteq> 0);
             d = (if esc then d OR 0x80 else d);
             shift = (if esc then shift AND NOT E0ESC else shift);
             shift = shift OR shiftcode d;
             shift = shift XOR togglecode d;
             c = ucast (charcode (shift AND (CTL OR SHIFT)) d) :: u32;
             c = (if shift AND CAPSLOCK \<noteq> 0 then caps_case c else c)
         in (sint c, shift, q)))"

text \<open>The characters \<open>consoleintr\<close> gets before \<open>kbdgetc\<close> returns -1.\<close>

function kbd_drain :: "u32 \<Rightarrow> u8 list \<Rightarrow> int list \<times> u32" where
  "kbd_drain shift q =
     (case kbdgetc shift q of (c, shift, q') \<Rightarrow>
        if c < 0 \<or> q = [] then ([], shift) else (case kbd_drain shift q' of (cs, shift) \<Rightarrow> (c # cs, shift)))"
  by pat_completeness auto
termination
  by (relation "measure (\<lambda>(w, q). length q)") (auto simp: neq_Nil_conv Let_def split: if_splits)

declare kbd_drain.simps [simp del]

definition kbdintr :: "u32 \<Rightarrow> u8 list \<Rightarrow> (u32, 'a cons_st_scheme) kop" where
  "kbdintr shift q = (case kbd_drain shift q of (cs, shift) \<Rightarrow> seq (consoleintr cs) (ret shift))"

section \<open>Keys\<close>

text \<open>The state of the keyboard, and what a scan code does to it.\<close>

record kflags =
  k_shift :: bool
  k_ctl :: bool
  k_alt :: bool
  k_caps :: bool
  k_num :: bool
  k_scroll :: bool
  k_e0 :: bool

definition kflags_of :: "u32 \<Rightarrow> kflags" where
  "kflags_of w = \<lparr>k_shift = bit w 0, k_ctl = bit w 1, k_alt = bit w 2, k_caps = bit w 3, k_num = bit w 4, k_scroll = bit w 5, k_e0 = bit w 6\<rparr>"

definition hold :: "bool \<Rightarrow> u8 \<Rightarrow> kflags \<Rightarrow> kflags" where
  "hold b k f = (if k \<in> {0x2A, 0x36} then f\<lparr>k_shift := b\<rparr> else if k \<in> {0x1D, 0x9D} then f\<lparr>k_ctl := b\<rparr>
     else if k \<in> {0x38, 0xB8} then f\<lparr>k_alt := b\<rparr> else f)"

definition toggle :: "u8 \<Rightarrow> kflags \<Rightarrow> kflags" where
  "toggle k f = (if k = 0x3A then f\<lparr>k_caps := \<not> k_caps f\<rparr> else if k = 0x45 then f\<lparr>k_num := \<not> k_num f\<rparr>
     else if k = 0x46 then f\<lparr>k_scroll := \<not> k_scroll f\<rparr> else f)"

definition swap_case :: "u8 \<Rightarrow> u8" where
  "swap_case c = (if 97 \<le> c \<and> c \<le> 122 then c - 32 else if 65 \<le> c \<and> c \<le> 90 then c + 32 else c)"

definition key_char :: "kflags \<Rightarrow> u8 \<Rightarrow> u8" where
  "key_char f k = (let c = (if k_ctl f then ctlmap k else if k_shift f then shiftmap k else normalmap k) in
     if k_caps f then swap_case c else c)"

definition key_event :: "kflags \<Rightarrow> u8 \<Rightarrow> u8 \<times> kflags" where
  "key_event f d =
     (if d = 0xE0 then (0, f\<lparr>k_e0 := True\<rparr>)
      else
        let k = (if k_e0 f then d OR 0x80 else d AND 0x7F); f = f\<lparr>k_e0 := False\<rparr> in
        if d \<ge> 0x80 then (0, hold False k f)
        else let f = toggle k (hold True k f) in (key_char f k, f))"

section \<open>The bits of the shift state\<close>

lemma and_flag: "(w :: u32) AND 8 = 0 \<longleftrightarrow> \<not> bit w 3" "w AND 64 = 0 \<longleftrightarrow> \<not> bit w 6"
  using and_exp_eq_0_iff_not_bit [of w 3] and_exp_eq_0_iff_not_bit [of w 6] by simp_all

lemma and_3: "(w :: u32) AND 3 = of_bool (bit w 0) + 2 * of_bool (bit w 1)"
proof -
  have "w AND 3 = take_bit 2 w" by (simp add: take_bit_eq_mask mask_eq_exp_minus_1)
  also have "\<dots> = w div 2 mod 2 * 2 + w mod 2" by (simp add: numeral_2_eq_2 take_bit_Suc)
  also have "\<dots> = of_bool (bit w 0) + 2 * of_bool (bit w 1)" by (simp add: bit_0 bit_Suc mod_2_eq_odd)
  finally show ?thesis .
qed

lemma charcode_flags: "charcode (w AND 3) d = (if bit w 1 then ctlmap d else if bit w 0 then shiftmap d else normalmap d)"
  by (simp add: charcode_def and_3)

lemma flags_step:
  "kflags_of (w OR shiftcode k) = hold True k (kflags_of w)" "kflags_of (w AND NOT (shiftcode k OR E0ESC)) = hold False k ((kflags_of w)\<lparr>k_e0 := False\<rparr>)"
  "kflags_of (w XOR togglecode k) = toggle k (kflags_of w)" "kflags_of (w AND NOT E0ESC) = (kflags_of w)\<lparr>k_e0 := False\<rparr>"
  "kflags_of (w OR E0ESC) = (kflags_of w)\<lparr>k_e0 := True\<rparr>"
  by (simp_all add: kflags_of_def hold_def toggle_def shiftcode_def togglecode_def bit_or_iff bit_and_iff bit_xor_iff bit_not_iff)

lemma high_bit: "(d :: u8) AND 0x80 \<noteq> 0 \<longleftrightarrow> d \<ge> 0x80"
proof -
  have "d AND 0x80 \<noteq> 0 \<longleftrightarrow> bit d 7" using and_exp_eq_0_iff_not_bit [of d 7] by simp
  also have "\<dots> \<longleftrightarrow> bit (unat d) 7" by (simp add: bit_unsigned_iff)
  also have "\<dots> \<longleftrightarrow> odd (unat d div 128)" by (simp add: bit_iff_odd)
  also have "\<dots> \<longleftrightarrow> 128 \<le> unat d"
  proof -
    have "unat d < 256" using unsigned_less [of d] by simp
    then have "unat d div 128 < 2" by (simp add: less_mult_imp_div_less)
    moreover have "unat d div 128 = 0 \<longleftrightarrow> unat d < 128" by (simp add: div_eq_0_iff)
    ultimately show ?thesis by (cases "unat d div 128 = 0") (auto dest: less_2_cases)
  qed
  also have "\<dots> \<longleftrightarrow> d \<ge> 0x80" by (simp add: word_le_nat_alt)
  finally show ?thesis .
qed

lemma low_bits: "(d :: u8) < 0x80 \<Longrightarrow> d AND 0x7F = d" "d \<ge> 0x80 \<Longrightarrow> d OR 0x80 = d"
proof -
  have b: "bit d 7 \<longleftrightarrow> d \<ge> 0x80" using high_bit [of d] and_exp_eq_0_iff_not_bit [of d 7] by simp
  have m: "(0x7F :: u8) = mask 7" "(0x80 :: u8) = 2 ^ 7" by (simp_all add: mask_eq_exp_minus_1)
  show "d AND 0x7F = d" if "d < 0x80"
  proof -
    have "bit d k \<Longrightarrow> k < 7" for k using b that bit_imp_le_length [of d k] by (cases "k = 7") auto
    then show ?thesis unfolding m by (auto intro!: bit_eqI simp: bit_and_iff bit_mask_iff)
  qed
  show "d OR 0x80 = d" if "d \<ge> 0x80"
    by (rule bit_eqI) (simp only: m bit_or_iff bit_exp_iff, use b that in auto)
qed

lemma small_iff: "(w :: u32) < 128 \<longleftrightarrow> (\<forall>n. bit w n \<longrightarrow> n < 7)"
proof -
  have u: "bit (unat w) n = bit w n" for n by (simp add: bit_unsigned_iff)
  have "w < 128 \<longleftrightarrow> take_bit 7 (unat w) = unat w" by (simp add: word_less_nat_alt take_bit_nat_eq_self_iff)
  also have "\<dots> \<longleftrightarrow> (\<forall>n. (n < 7 \<and> bit (unat w) n) = bit (unat w) n)" by (subst bit_eq_iff) (simp add: bit_take_bit_iff)
  also have "\<dots> \<longleftrightarrow> (\<forall>n. bit w n \<longrightarrow> n < 7)" unfolding u by blast
  finally show ?thesis .
qed

lemma small_codes: "bit (shiftcode k) n \<Longrightarrow> n < 7" "bit (togglecode k) n \<Longrightarrow> n < 7" "bit (64 :: int) n \<Longrightarrow> n < 7"
proof -
  have "shiftcode k < 128" "togglecode k < 128" by (simp_all add: shiftcode_def togglecode_def)
  then show "bit (shiftcode k) n \<Longrightarrow> n < 7" "bit (togglecode k) n \<Longrightarrow> n < 7" unfolding small_iff by blast+
  have "bit (2 ^ 6 :: int) n \<longleftrightarrow> n = 6" by (simp only: bit_exp_iff) simp
  then show "bit (64 :: int) n \<Longrightarrow> n < 7" by simp
qed

lemma byte_bound: "uint (c :: u8) < 256"
proof -
  have "uint c < 2 ^ LENGTH(8)" by (rule unsigned_less)
  then show ?thesis by simp
qed

text \<open>The change of case in 32-bit arithmetic is the one on bytes, and the result is not negative as a signed integer.\<close>

lemma unat_ucast8: "unat (ucast (c :: u8) :: u32) = unat c"
proof -
  have "unat c < 2 ^ 8" using unsigned_less [of c] by simp
  then have "unat c < 2 ^ 32" by simp
  then show ?thesis by (simp add: unsigned_ucast_eq take_bit_nat_eq_self)
qed

lemma caps_case_byte: "caps_case (ucast (c :: u8)) = ucast (swap_case c)"
proof -
  let ?x = "ucast c :: u32"
  have le: "97 \<le> ?x \<longleftrightarrow> 97 \<le> c" "?x \<le> 122 \<longleftrightarrow> c \<le> 122" "65 \<le> ?x \<longleftrightarrow> 65 \<le> c" "?x \<le> 90 \<longleftrightarrow> c \<le> 90"
    by (simp_all add: word_le_nat_alt unat_ucast8)
  have "?x - 32 = ucast (c - 32)" if "97 \<le> c"
  proof -
    have "32 \<le> c" "32 \<le> ?x" using that by (simp_all add: word_le_nat_alt unat_ucast8)
    then have "unat (?x - 32) = unat (ucast (c - 32) :: u32)" unfolding unat_ucast8 by (simp add: unat_sub unat_ucast8)
    then show ?thesis by (simp only: word_unat_eq_iff)
  qed
  moreover have "?x + 32 = ucast (c + 32)" if "c \<le> 90"
  proof -
    have "unat c \<le> 90" using that by (simp add: word_le_nat_alt)
    then have "unat (?x + 32) = unat (ucast (c + 32) :: u32)" unfolding unat_ucast8 by (simp add: unat_ucast8 unat_word_ariths)
    then show ?thesis by (simp only: word_unat_eq_iff)
  qed
  ultimately show ?thesis unfolding caps_case_def le swap_case_def by auto
qed

lemma sint_ucast8: "sint (ucast (c :: u8) :: u32) = uint c"
proof -
  have "unat c < 256" using unsigned_less [of c] by simp
  then have "sint (ucast c :: u32) = int (unat c)" by (subst sint_small) (simp_all add: unat_ucast8)
  then show ?thesis by simp
qed

section \<open>Properties\<close>

lemma kbdgetc_event:
  fixes w :: u32 and d :: u8
  shows "\<exists>w'. kbdgetc w (d # q) = (uint (fst (key_event (kflags_of w) d)), w', q) \<and> kflags_of w' = snd (key_event (kflags_of w) d)"
proof -
  have e: "w AND 64 \<noteq> 0 \<longleftrightarrow> k_e0 (kflags_of w)" by (simp add: and_flag kflags_of_def)
  show ?thesis
  proof (cases "d = 0xE0 \<or> d \<ge> 0x80")
    case True
    then show ?thesis
      using flags_step(2) [of w "if k_e0 (kflags_of w) then d else d AND 0x7F"] flags_step(5) [of w] low_bits(2) [of d]
      by (auto simp: key_event_def e high_bit Let_def)
  next
    case False
    define k where "k = (if k_e0 (kflags_of w) then d OR 0x80 else d)"
    define v where "v = ((if k_e0 (kflags_of w) then w AND NOT E0ESC else w) OR shiftcode k) XOR togglecode k"
    have "kflags_of (if k_e0 (kflags_of w) then w AND NOT E0ESC else w) = (kflags_of w)\<lparr>k_e0 := False\<rparr>"
      using flags_step(4) [of w] by (cases "kflags_of w") auto
    then have v: "kflags_of v = toggle k (hold True k ((kflags_of w)\<lparr>k_e0 := False\<rparr>))"
      unfolding v_def by (simp only: flags_step)
    have dk: "d AND 0x7F = d" using low_bits(1) [of d] False by (simp add: not_le)
    have c: "charcode (v AND 3) k = (if k_ctl (kflags_of v) then ctlmap k else if k_shift (kflags_of v) then shiftmap k else normalmap k)"
      unfolding charcode_flags by (simp add: kflags_of_def)
    have l: "v AND CAPSLOCK \<noteq> 0 \<longleftrightarrow> k_caps (kflags_of v)" by (simp add: and_flag kflags_of_def)
    have "kbdgetc w (d # q) = (uint (key_char (kflags_of v) k), v, q)"
      using False by (simp add: high_bit e k_def [symmetric] v_def [symmetric] c l key_char_def Let_def caps_case_byte sint_ucast8)
    moreover have "key_event (kflags_of w) d = (key_char (kflags_of v) k, kflags_of v)"
      using False dk by (simp add: key_event_def v k_def Let_def)
    ultimately show ?thesis by auto
  qed
qed

text \<open>The characters that a sequence of scan codes types, and the state it leaves the keyboard in.\<close>

primrec key_events :: "kflags \<Rightarrow> u8 list \<Rightarrow> u8 list \<times> kflags" where
  "key_events f [] = ([], f)"
| "key_events f (d # q) = (case key_event f d of (c, f) \<Rightarrow> case key_events f q of (cs, f) \<Rightarrow> (c # cs, f))"

lemma kbd_drain_events:
  "\<exists>w'. kbd_drain w q = (map uint (fst (key_events (kflags_of w) q)), w') \<and> kflags_of w' = snd (key_events (kflags_of w) q)"
proof (induction q arbitrary: w)
  case Nil
  then show ?case by (subst kbd_drain.simps) simp
next
  case (Cons d q)
  obtain w1 where 1: "kbdgetc w (d # q) = (uint (fst (key_event (kflags_of w) d)), w1, q)" "kflags_of w1 = snd (key_event (kflags_of w) d)"
    using kbdgetc_event [of w d q] by blast
  obtain w2 where 2: "kbd_drain w1 q = (map uint (fst (key_events (kflags_of w1) q)), w2)" "kflags_of w2 = snd (key_events (kflags_of w1) q)"
    using Cons.IH [of w1] by blast
  have "kbd_drain w (d # q) = (uint (fst (key_event (kflags_of w) d)) # fst (kbd_drain w1 q), snd (kbd_drain w1 q))"
    by (subst kbd_drain.simps) (simp add: 1(1) not_less del: kbdgetc.simps split: prod.splits)
  then show ?case using 1(2) 2 by (simp split: prod.splits)
qed

text \<open>
  C19 From the keys to the line: for every state of the modifier keys and every sequence of scan codes the controller may have
  received, releases, E0 prefixes and unknown codes included, \<open>kbdintr\<close> takes all of them without panic. What readers of the console may take
  and what is being edited are what the typed characters leave, each of them a byte, and \<open>shift\<close> represents the modifier keys
  that are held and the locks that are on.
\<close>

theorem kbdintr_types:
  fixes w :: u32 and q :: "u8 list"
  assumes "input_ok (input s)" "pos (cons s) < CELLS" "L_cons \<notin> set (held s)" "L_ptable \<notin> set (held s)"
  defines "ev \<equiv> key_events (kflags_of w) q"
  shows "\<exists>w' s'. kbdintr w q s = Ok w' s' \<and> kflags_of w' = snd ev \<and> input_ok (input s')
    \<and> (committed (input s'), pending (input s')) = fold edit (map uint (fst ev)) (committed (input s), pending (input s))"
proof -
  obtain w' where w: "kbd_drain w q = (map uint (fst ev), w')" "kflags_of w' = snd ev" using kbd_drain_events [of w q] unfolding ev_def by blast
  have b: "\<forall>c \<in> set (map uint (fst ev)). 0 \<le> c \<and> c < 256" using byte_bound by simp
  obtain s' where "consoleintr (map uint (fst ev)) s = Ok () s'" "input_ok (input s')"
    "(committed (input s'), pending (input s')) = fold edit (map uint (fst ev)) (committed (input s), pending (input s))"
    using consoleintr_run [OF assms(1-4) b] by blast
  moreover from this(1) have "kbdintr w q s = Ok w' s'" using w(1) by (simp add: kbdintr_def)
  ultimately show ?thesis using w(2) by blast
qed

text \<open>Shift and \<open>h\<close>, the release of both, the up arrow (with its prefix), and Enter.\<close>

theorem kbdintr_types_witness:
  "\<exists>w' s'. kbdintr 0 [0x2A, 0x23, 0xA3, 0xAA, 0xE0, 0x48, 0xE0, 0xC8, 0x1C] ex_cons = Ok w' s'
    \<and> committed (input s') = [104, 105, 72, 0xE2, 10] \<and> pending (input s') = [] \<and> kflags_of w' = kflags_of 0"
proof -
  let ?q = "[0x2A, 0x23, 0xA3, 0xAA, 0xE0, 0x48, 0xE0, 0xC8, 0x1C]"
  have m: "shiftmap 0x23 = 72" "normalmap 0x1C = 10" "normalmap 0xC8 = 0xE2" "shiftmap 0x2A = 0"
    by (simp_all add: shiftmap_def normalmap_def shiftrow_def normalrow_def e0map_def)
  have e: "key_events (kflags_of 0) ?q = ([0, 72, 0, 0, 0, 0xE2, 0, 0, 10], kflags_of 0)"
    by (simp add: key_event_def key_char_def kflags_of_def hold_def toggle_def m)
  have "\<exists>w' s'. kbdintr 0 ?q ex_cons = Ok w' s' \<and> kflags_of w' = snd (key_events (kflags_of 0) ?q) \<and> input_ok (input s')
    \<and> (committed (input s'), pending (input s')) = fold edit (map uint (fst (key_events (kflags_of 0) ?q))) (committed (input ex_cons), pending (input ex_cons))"
    by (rule kbdintr_types) (simp_all add: ex_cons_facts)
  then show ?thesis unfolding e by (auto simp: ex_cons_facts edit_def)
qed

lemma kbd_drain_flags: "w < 128 \<Longrightarrow> snd (kbd_drain w q) < 128"
proof (induction q arbitrary: w)
  case Nil
  then show ?case by (subst kbd_drain.simps) simp
next
  case (Cons d q)
  obtain c w1 where 1: "kbdgetc w (d # q) = (c, w1, q)" using kbdgetc_event [of w d q] by blast
  have "w1 < 128" using 1 Cons.prems
    by (auto simp: small_iff bit_or_iff bit_and_iff bit_xor_iff bit_not_iff Let_def split: if_splits dest: small_codes)
  then show ?case using Cons.IH [of w1] by (subst kbd_drain.simps) (auto simp add: 1 simp del: kbdgetc.simps split: prod.splits)
qed

text \<open>
  C32 No scan code is left in the controller: \<open>consoleintr\<close> stops at the first negative result, and although \<open>kbdgetc\<close> computes with unsigned
  32-bit integers, adds \<open>'A' - 'a'\<close> to them and returns them as signed ones, none of its results is negative before the queue is empty. So
  an interrupt takes one character for each scan code, each of them a byte, and no bit but the seven flags of \<open>shift\<close> is ever set.
\<close>

theorem kbdgetc_type:
  assumes "w < 128"
  shows "length (fst (kbd_drain w q)) = length q \<and> (\<forall>c \<in> set (fst (kbd_drain w q)). 0 \<le> c \<and> c < 256) \<and> snd (kbd_drain w q) < 128"
proof -
  have len: "length (fst (key_events f q)) = length q" for f
    by (induction q arbitrary: f) (auto split: prod.splits, metis fst_conv)
  obtain w' where "kbd_drain w q = (map uint (fst (key_events (kflags_of w) q)), w')" using kbd_drain_events [of w q] by blast
  then show ?thesis using len byte_bound kbd_drain_flags [OF assms, of q] by auto
qed

text \<open>Caps lock, and keys with a letter, without one, and with an E0 prefix.\<close>

theorem kbdgetc_type_witness:
  "length (fst (kbd_drain 0 [0x3A, 0x1E, 0x02, 0xE0, 0x48])) = 5 \<and> snd (kbd_drain 0 [0x3A, 0x1E, 0x02, 0xE0, 0x48]) < 128"
  using kbdgetc_type [of 0 "[0x3A, 0x1E, 0x02, 0xE0, 0x48]"] by simp

end
