(* ===== verification/Inode.thy ===== *)
theory Inode
  imports Fs
begin

text \<open>
  The block allocator and the block addresses of files (\<open>balloc\<close>, \<open>bmap\<close> of src/fs.c). A file is the list of
  bytes its inode and the current contents of the blocks give (\<open>fdata\<close>), whatever blocks they are in;
  \<open>balloc\<close> and \<open>bmap\<close> do not change it, nor any other file.
\<close>

section \<open>Blocks in use\<close>

abbreviation bm :: "'a fs_st_scheme \<Rightarrow> nat" where "bm s \<equiv> sb_bmapstart (sb s)"

definition taken :: "(nat \<Rightarrow> bytes) \<Rightarrow> nat \<Rightarrow> nat \<Rightarrow> bool" where
  "taken B m b \<longleftrightarrow> bit (B m (b div 8)) (b mod 8)"

definition set_taken :: "nat \<Rightarrow> bytes \<Rightarrow> bytes" where
  "set_taken b d = d(b div 8 := d (b div 8) OR bbit b)"

lemma bbit_bit [simp]: "bit (bbit b) k \<longleftrightarrow> k = b mod 8"
  by (auto simp: bbit_def bit_exp_iff)

lemma bbit_zero_iff: "(d AND bbit b = 0) \<longleftrightarrow> \<not> bit d (b mod 8)"
proof
  assume "d AND bbit b = 0"
  then have "\<not> bit (d AND bbit b) (b mod 8)" by simp
  then show "\<not> bit d (b mod 8)" by (simp add: bit_and_iff)
next
  assume "\<not> bit d (b mod 8)"
  then show "d AND bbit b = 0" by (auto intro!: bit_eqI simp: bit_and_iff)
qed

lemma taken_set [simp]: "taken (B(m := set_taken b (B m))) m c \<longleftrightarrow> c = b \<or> taken B m c"
proof -
  have "c = b" if "c div 8 = b div 8" "c mod 8 = b mod 8" using that by (metis div_mult_mod_eq)
  then show ?thesis by (auto simp: taken_def set_taken_def bit_or_iff)
qed

lemma taken_other [simp]: "b \<noteq> m \<Longrightarrow> taken (B(b := d)) m c = taken B m c"
  by (simp add: taken_def)

text \<open>The file system as mkfs lays it out: log, inodes, one bitmap block, data.\<close>

definition layout :: "'a fs_st_scheme \<Rightarrow> bool" where
  "layout s \<longleftrightarrow> start (log s) + LOGSIZE \<le> sb_inodestart (sb s) \<and> sb_inodestart (sb s) + sb_ninodes (sb s) div IPB < bm s
     \<and> bm s < sb_size (sb s) \<and> sb_size (sb s) \<le> FSSIZE \<and> (\<forall>b \<le> bm s. taken (blks s) (bm s) b)"

definition frees :: "'a fs_st_scheme \<Rightarrow> nat set" where
  "frees s = {b. b < sb_size (sb s) \<and> \<not> taken (blks s) (bm s) b}"

lemma finite_frees [simp]: "finite (frees s)"
  by (simp add: frees_def)

lemma layoutD:
  assumes "layout s"
  shows "bm s < FSSIZE" "home (log s) (bm s)" "0 < sb_size (sb s)" "sb_size (sb s) \<le> FSSIZE" "BBLOCK 0 (sb s) = bm s"
    "b < sb_size (sb s) \<Longrightarrow> bm s < b \<Longrightarrow> b < FSSIZE \<and> home (log s) b \<and> b \<noteq> 0"
    "b \<in> frees s \<Longrightarrow> bm s < b"
    "n < sb_ninodes (sb s) \<Longrightarrow> IBLOCK n (sb s) < bm s \<and> home (log s) (IBLOCK n (sb s))"
proof -
  show "bm s < FSSIZE" "home (log s) (bm s)" "0 < sb_size (sb s)" "sb_size (sb s) \<le> FSSIZE" "BBLOCK 0 (sb s) = bm s"
    using assms by (auto simp: layout_def home_def BBLOCK_def)
  show "b < sb_size (sb s) \<Longrightarrow> bm s < b \<Longrightarrow> b < FSSIZE \<and> home (log s) b \<and> b \<noteq> 0" using assms by (auto simp: layout_def home_def)
  show "b \<in> frees s \<Longrightarrow> bm s < b" using assms by (force simp: layout_def frees_def not_le [symmetric])
  assume "n < sb_ninodes (sb s)"
  then have "n div IPB \<le> sb_ninodes (sb s) div IPB" by (simp add: div_le_mono)
  then show "IBLOCK n (sb s) < bm s \<and> home (log s) (IBLOCK n (sb s))" using assms by (auto simp: layout_def home_def IBLOCK_def)
qed

section \<open>Steps of the file system\<close>

text \<open>Only the cache, the header of the log and the inode \<open>i\<close> in the inode cache have changed.\<close>

definition fs_step :: "nat \<Rightarrow> 'a fs_st_scheme \<Rightarrow> 'a fs_st_scheme \<Rightarrow> bool" where
  "fs_step i s s' \<longleftrightarrow> same_thread s s' \<and> (\<forall>l. (\<forall>j. l \<noteq> SL_buf j) \<longrightarrow> slocks s' l = slocks s l)
     \<and> start (log s') = start (log s) \<and> lsize (log s') = lsize (log s) \<and> outstanding (log s') = outstanding (log s)
     \<and> committing (log s') = committing (log s) \<and> sb s' = sb s \<and> (\<forall>j. j \<noteq> i \<longrightarrow> icache s' j = icache s j)
     \<and> fs_st.more s' = fs_st.more s \<and> c_disk (cache_of s') = c_disk (cache_of s) \<and> c_trace (cache_of s') = c_trace (cache_of s)"

lemma fs_step_refl [simp, intro]: "fs_step i s s"
  by (simp add: fs_step_def same_thread_def)

lemma fs_step_trans [trans]: "fs_step i s s' \<Longrightarrow> fs_step i s' s'' \<Longrightarrow> fs_step i s s''"
  by (auto simp: fs_step_def intro: same_thread_trans)

lemma fs_more:
  fixes s s' :: "'a fs_st_scheme"
  assumes "log_st.more s' = log_st.more s"
  shows "sb s' = sb s" "icache s' = icache s" "fs_st.more s' = fs_st.more s"
  using assms by (cases s; cases s'; simp)+

lemma txn_fs_step: "txn_step s s' \<Longrightarrow> fs_step i s s'"
  using txn_stepD [of s s'] fs_more [of s' s] unfolding fs_step_def by (simp add: txn_step_def)

lemma fs_stepD:
  assumes "fs_step i s s'"
  shows "start (log s') = start (log s)" "lsize (log s') = lsize (log s)" "home (log s') = home (log s)"
    "outstanding (log s') = outstanding (log s)" "sb s' = sb s" "j \<noteq> i \<Longrightarrow> icache s' j = icache s j"
  using assms by (auto simp: fs_step_def home_def)

lemma layout_step:
  assumes "layout s" "fs_step i s s'" "\<And>b. taken (blks s) (bm s) b \<Longrightarrow> taken (blks s') (bm s) b"
  shows "layout s'"
  using assms fs_stepD(1,5) [OF assms(2)] by (auto simp: layout_def)

lemma upd_ino_step:
  assumes "log_ok s"
  shows "log_ok (upd_ino i f s)" "cache_of (upd_ino i f s) = cache_of s" "fs_step i s (upd_ino i f s)"
    "icache (upd_ino i f s) i = f (icache s i)" "sb (upd_ino i f s) = sb s" "log (upd_ino i f s) = log s"
proof -
  have b: "same_bio s (upd_ino i f s)" by (simp add: same_bio_def upd_ino_def)
  note B = same_bio_inv [OF b log_okD(1) [OF assms]]
  show l: "log (upd_ino i f s) = log s" "icache (upd_ino i f s) i = f (icache s i)" "sb (upd_ino i f s) = sb s" by (simp_all add: upd_ino_def)
  show c: "cache_of (upd_ino i f s) = cache_of s" by (rule B(2))
  show "log_ok (upd_ino i f s)" using assms B(1) unfolding log_ok_def l c by blast
  show "fs_step i s (upd_ino i f s)" unfolding fs_step_def c l by (simp add: upd_ino_def same_thread_def)
qed

section \<open>The block allocator\<close>

text \<open>The rest of the pattern of \<open>fs.c\<close>: change a locked block, log it, release it, go on.\<close>

lemma wp_put_txn:
  fixes s :: "'a log_st_scheme"
  assumes s: "log_ok s" and i: "lkd s i = Some b"
    and l: "home (log s) b" "int (card (lgd s)) < lsize (log s) - 1" "0 < outstanding (log s)"
    and Q: "\<And>s'. \<lbrakk>log_ok s'; txn_step s s'; cache_of s' = (cache_of s)\<lparr>c_blk := (blks s)(b := f (blks s b)),
      c_lock := (lkd s)(i := None), c_dirty := insert b (lgd s)\<rparr>\<rbrakk> \<Longrightarrow> wp m Q s'"
  shows "wp (seq (set_data i f) (seq (log_write i) (seq (brelse i) m))) Q s"
  unfolding set_data_def
proof (rule wp_seqI, rule wp_bset_txn [OF s i])
  fix s1 :: "'a log_st_scheme"
  assume 1: "log_ok s1" "txn_step s s1" "cache_of s1 = (cache_of s)\<lparr>c_blk := (blks s)(b := f (blks s b))\<rparr>"
  note D = txn_stepD [OF 1(2)]
  show "wp (seq (log_write i) (seq (brelse i) m)) Q s1"
  proof (rule wp_seqI, rule wp_log_write_txn [OF 1(1), where b = b])
    show "lkd s1 i = Some b" "home (log s1) b" "int (card (lgd s1)) < lsize (log s1) - 1" "0 < outstanding (log s1)"
      using i l D by (simp_all add: 1(3))
    fix s2 :: "'a log_st_scheme"
    assume 2: "log_ok s2" "txn_step s1 s2" "cache_of s2 = (cache_of s1)\<lparr>c_dirty := insert b (lgd s1)\<rparr>"
    show "wp (seq (brelse i) m) Q s2"
    proof (rule wp_seqI, rule wp_brelse_txn [OF 2(1), where b = b])
      show "lkd s2 i = Some b" "b \<in> lgd s2 \<or> blks s2 b = c_disk (cache_of s2) b" using i by (simp_all add: 2(3) 1(3))
      fix s3 :: "'a log_st_scheme"
      assume 3: "log_ok s3" "txn_step s2 s3" "cache_of s3 = (cache_of s2)\<lparr>c_lock := (lkd s2)(i := None)\<rparr>"
      show "wp m Q s3"
        by (rule Q [OF 3(1) txn_step_trans [OF 1(2) txn_step_trans [OF 2(2) 3(2)]]]) (simp add: 3(3) 2(3) 1(3))
    qed
  qed
qed

lemma balloc_scan_some:
  assumes "bi \<le> f" "f < BPB" "b + f < n" "\<not> bit (d (f div 8)) (f mod 8)"
  shows "\<exists>k. balloc_scan d b n bi = Some k \<and> bi \<le> k \<and> k < BPB \<and> b + k < n \<and> \<not> bit (d (k div 8)) (k mod 8)"
  using assms
proof (induction d b n bi rule: balloc_scan.induct)
  case (1 d b n bi)
  have c: "bi < BPB \<and> b + bi < n" using 1(2-4) by simp
  show ?case
  proof (cases "bit (d (bi div 8)) (bi mod 8)")
    case True
    then have "bi \<noteq> f" using 1(5) by auto
    then have "\<exists>k. balloc_scan d b n (bi + 1) = Some k \<and> bi + 1 \<le> k \<and> k < BPB \<and> b + k < n \<and> \<not> bit (d (k div 8)) (k mod 8)"
      using 1(1) c True 1(2-5) by (simp add: bbit_zero_iff)
    then show ?thesis using c True by (subst balloc_scan.simps) (auto simp: bbit_zero_iff)
  next
    case False
    then show ?thesis using c by (subst balloc_scan.simps) (simp add: bbit_zero_iff)
  qed
qed

lemma search_one: "search [x] f = f x"
  by (rule ext) (auto simp: bind_def split: outcome.splits option.splits)

text \<open>
  \<open>balloc\<close> takes a free block, marks it and clears it; nothing else changes. The log must have room for
  two more blocks, and the blocks locked meanwhile are in use.
\<close>

lemma wp_balloc:
  fixes s :: "'a fs_st_scheme"
  assumes s: "log_ok s" "layout s" "frees s \<noteq> {}" "0 < outstanding (log s)"
    and l: "\<And>b. b \<in> ran (lkd s) \<Longrightarrow> b \<noteq> bm s \<and> b \<notin> frees s" "card (ran (lkd s)) \<le> 1"
    and n: "int (card (insert (bm s) (lgd s))) < lsize (log s) - 1"
    and Q: "\<And>b s'. \<lbrakk>b \<in> frees s; log_ok s'; txn_step s s'; cache_of s' = (cache_of s)\<lparr>
      c_blk := (blks s)(bm s := set_taken b (blks s (bm s)), b := \<lambda>_. 0), c_dirty := insert b (insert (bm s) (lgd s))\<rparr>\<rbrakk> \<Longrightarrow> Q b s'"
  shows "wp (balloc ROOTDEV) Q s"
proof -
  note L = layoutD [OF s(2)]
  have fin: "finite (lgd s)" using log_okD(2) [OF s(1)] .
  have lz: "lsize (log s) \<le> int LOGSIZE" using s(1) by (simp add: log_ok_def)
  have rm: "card (ran (lkd s) \<union> insert (bm s) (lgd s)) < NBUF"
    using card_Un_le [of "ran (lkd s)" "insert (bm s) (lgd s)"] l(2) n lz by simp
  have "card (ran (lkd s) \<union> lgd s) \<le> card (insert (bm s) (ran (lkd s) \<union> lgd s))" by (rule card_insert_le)
  then have r0: "room (cache_of s)" using rm by (simp add: room_def)
  have n0: "int (card (lgd s)) < lsize (log s) - 1" using n card_insert_le [of "lgd s" "bm s"] by simp
  have b0: "bm s \<notin> ran (lkd s)" using l(1) by auto
  have one: "map (\<lambda>k. k * BPB) [0..<(sb_size (sb s) + BPB - 1) div BPB] = [0]"
  proof -
    have "(sb_size (sb s) + BPB - 1) div BPB = 1" using L(3,4) by (intro div_nat_eqI) simp_all
    then show ?thesis by (simp del: upt_rec_numeral)
  qed
  obtain f where f: "f < sb_size (sb s)" "\<not> bit (blks s (bm s) (f div 8)) (f mod 8)" using s(3) by (auto simp: frees_def taken_def)
  obtain b where b: "balloc_scan (blks s (bm s)) 0 (sb_size (sb s)) 0 = Some b" "b < BPB" "b < sb_size (sb s)" "\<not> bit (blks s (bm s) (b div 8)) (b mod 8)"
    using balloc_scan_some [of 0 f 0 "sb_size (sb s)" "blks s (bm s)"] f L(4) by auto
  have bf: "b \<in> frees s" using b by (simp add: frees_def taken_def)
  have bh: "b < FSSIZE" "home (log s) b" "b \<noteq> bm s" "b \<notin> ran (lkd s)" using L(6) [OF b(3) L(7) [OF bf]] L(7) [OF bf] l(1) [of b] bf by auto
  let ?body = "\<lambda>bp. bind (gets (\<lambda>s. data (bufs s bp))) (\<lambda>dat.
       case balloc_scan dat 0 (sb_size (sb s)) 0 of
         Some bi \<Rightarrow>
           seq (set_data bp (\<lambda>dat. dat(bi div 8 := dat (bi div 8) OR bbit bi)))
           (seq (log_write bp)
           (seq (brelse bp)
           (seq (bzero ROOTDEV (0 + bi))
           (ret (Some (0 + bi))))))
       | None \<Rightarrow> seq (brelse bp) (ret None))"
  have "wp (bind (bread ROOTDEV (bm s)) ?body) (\<lambda>r. case r of None \<Rightarrow> (\<lambda>_. False) | Some b \<Rightarrow> Q b) s"
  proof (rule wp_bindI, rule wp_bread_txn [OF s(1) b0 L(1)])
    show "room (cache_of s) \<or> bm s \<in> lgd s" using r0 by simp
    fix i and s1 :: "'a fs_st_scheme"
    assume 1: "log_ok s1" "txn_step s s1" "lkd s i = None" "data (bufs s1 i) = blks s (bm s)" "cache_of s1 = (cache_of s)\<lparr>c_lock := (lkd s)(i \<mapsto> bm s)\<rparr>"
    note D = txn_stepD [OF 1(2)]
    have "wp (seq (set_data i (set_taken b)) (seq (log_write i) (seq (brelse i) (seq (bzero ROOTDEV b) (ret (Some b))))))
      (\<lambda>r. case r of None \<Rightarrow> (\<lambda>_. False) | Some b \<Rightarrow> Q b) s1"
    proof (rule wp_put_txn [OF 1(1), where b = "bm s"])
      show "lkd s1 i = Some (bm s)" "home (log s1) (bm s)" "int (card (lgd s1)) < lsize (log s1) - 1" "0 < outstanding (log s1)"
        using D L(2) n0 s(4) by (simp_all add: 1(5))
      fix s2 :: "'a fs_st_scheme"
      assume 2: "log_ok s2" "txn_step s1 s2" "cache_of s2 = (cache_of s1)\<lparr>c_blk := (blks s1)(bm s := set_taken b (blks s1 (bm s))),
        c_lock := (lkd s1)(i := None), c_dirty := insert (bm s) (lgd s1)\<rparr>"
      note E = txn_stepD [OF 2(2)]
      have k: "lkd s2 = lkd s" "lgd s2 = insert (bm s) (lgd s)" using 1(3) by (simp_all add: 2(3) 1(5) fun_upd_idem)
      have "wp (bzero ROOTDEV b) (\<lambda>_. Q b) s2"
        unfolding bzero_def set_data_def
      proof (rule wp_update_txn [OF 2(1)])
        show "b \<notin> ran (lkd s2)" "b < FSSIZE" "room (cache_of s2) \<or> b \<in> lgd s2" "home (log s2) b"
          "int (card (lgd s2)) < lsize (log s2) - 1" "0 < outstanding (log s2)"
          using bh rm n s(4) D E by (simp_all add: k room_def)
        fix s3 :: "'a fs_st_scheme"
        assume 3: "log_ok s3" "txn_step s2 s3"
          "cache_of s3 = (cache_of s2)\<lparr>c_blk := (blks s2)(b := \<lambda>_. 0), c_dirty := insert b (lgd s2)\<rparr>"
        show "Q b s3"
          by (rule Q [OF bf 3(1) txn_step_trans [OF 1(2) txn_step_trans [OF 2(2) 3(2)]]])
            (use 1(3) in \<open>simp add: 3(3) 2(3) 1(5) fun_upd_idem\<close>)
      qed
      then show "wp (seq (bzero ROOTDEV b) (ret (Some b))) (\<lambda>r. case r of None \<Rightarrow> (\<lambda>_. False) | Some b \<Rightarrow> Q b) s2" by simp
    qed
    then show "wp (?body i) (\<lambda>r. case r of None \<Rightarrow> (\<lambda>_. False) | Some b \<Rightarrow> Q b) s1"
      by (simp add: 1(4) b(1) set_taken_def [abs_def])
  qed
  note got = this
  have "wp (bind (bind (bread ROOTDEV (bm s)) ?body) (\<lambda>r. case r of Some b \<Rightarrow> ret b | None \<Rightarrow> panic ''balloc: out of blocks'')) Q s"
    by (rule wp_bindI, rule wp_mono [OF got]) (auto split: option.splits)
  moreover have "balloc ROOTDEV s = bind (bind (bread ROOTDEV (bm s)) ?body) (\<lambda>r. case r of Some b \<Rightarrow> ret b | None \<Rightarrow> panic ''balloc: out of blocks'') s"
    unfolding balloc_def bind_gets one search_one L(5) ..
  ultimately show ?thesis by (simp only: wp_def)
qed

section \<open>Files\<close>

text \<open>The address of a file's block (0 if it has none), the blocks it occupies, its bytes.\<close>

definition baddr :: "(nat \<Rightarrow> bytes) \<Rightarrow> inode \<Rightarrow> nat \<Rightarrow> nat" where
  "baddr B ip bn = (if bn < NDIRECT then addrs ip bn else if addrs ip NDIRECT = 0 then 0
     else unat (get32 (B (addrs ip NDIRECT)) (4 * (bn - NDIRECT))))"

definition fblocks :: "(nat \<Rightarrow> bytes) \<Rightarrow> inode \<Rightarrow> nat set" where
  "fblocks B ip = insert (addrs ip NDIRECT) (baddr B ip ` {..<MAXFILE}) - {0}"

definition fbyte :: "(nat \<Rightarrow> bytes) \<Rightarrow> inode \<Rightarrow> nat \<Rightarrow> u8" where
  "fbyte B ip k = (let a = baddr B ip (k div BSIZE) in if a = 0 then 0 else B a (k mod BSIZE))"

definition fdata :: "(nat \<Rightarrow> bytes) \<Rightarrow> inode \<Rightarrow> u8 list" where
  "fdata B ip = map (fbyte B ip) [0..<isize ip]"

definition good_file :: "superblock \<Rightarrow> (nat \<Rightarrow> bytes) \<Rightarrow> inode \<Rightarrow> bool" where
  "good_file sp B ip \<longleftrightarrow>
     (\<forall>a \<in> fblocks B ip. sb_bmapstart sp < a \<and> a < sb_size sp \<and> taken B (sb_bmapstart sp) a)
     \<and> inj_on (baddr B ip) {bn. bn < MAXFILE \<and> baddr B ip bn \<noteq> 0}
     \<and> (\<forall>bn < MAXFILE. baddr B ip bn \<noteq> 0 \<longrightarrow> baddr B ip bn \<noteq> addrs ip NDIRECT)
     \<and> isize ip \<le> MAXFILE * BSIZE \<and> (\<forall>bn. bn * BSIZE < isize ip \<longrightarrow> baddr B ip bn \<noteq> 0)"

lemma baddr_fblocks: "bn < MAXFILE \<Longrightarrow> baddr B ip bn \<noteq> 0 \<Longrightarrow> baddr B ip bn \<in> fblocks B ip"
  by (auto simp: fblocks_def)

lemma fblocks_cong:
  assumes "\<forall>a \<in> fblocks B ip. B' a = B a"
  shows "baddr B' ip = baddr B ip" "fblocks B' ip = fblocks B ip" "k < MAXFILE * BSIZE \<Longrightarrow> fbyte B' ip k = fbyte B ip k"
proof -
  have "B' (addrs ip NDIRECT) = B (addrs ip NDIRECT)" if "addrs ip NDIRECT \<noteq> 0" using assms that by (simp add: fblocks_def)
  then show b: "baddr B' ip = baddr B ip" by (auto simp: baddr_def)
  then show "fblocks B' ip = fblocks B ip" by (simp add: fblocks_def)
  assume "k < MAXFILE * BSIZE"
  then have "k div BSIZE < MAXFILE" by (simp add: less_mult_imp_div_less)
  then show "fbyte B' ip k = fbyte B ip k" using assms b baddr_fblocks [of "k div BSIZE" B ip] by (simp add: fbyte_def Let_def)
qed

text \<open>
  What an operation on one file leaves alone: it takes free blocks for the file, and changes no block but these, the bitmap and
  those the file had.
\<close>

definition only_file :: "superblock \<Rightarrow> (nat \<Rightarrow> bytes) \<Rightarrow> inode \<Rightarrow> (nat \<Rightarrow> bytes) \<Rightarrow> inode \<Rightarrow> bool" where
  "only_file sp B ip B' ip' \<longleftrightarrow> (let m = sb_bmapstart sp in
     (\<forall>a. a \<noteq> m \<and> taken B m a \<and> a \<notin> fblocks B ip \<longrightarrow> B' a = B a)
     \<and> (\<forall>a. taken B m a \<longrightarrow> taken B' m a)
     \<and> fblocks B ip \<subseteq> fblocks B' ip' \<and> fblocks B' ip' \<subseteq> fblocks B ip \<union> {b. \<not> taken B m b}
     \<and> (\<forall>bn < MAXFILE. baddr B ip bn \<noteq> 0 \<longrightarrow> baddr B' ip' bn = baddr B ip bn))"

lemma only_file_refl [simp, intro]: "only_file sp B ip B ip"
  by (simp add: only_file_def)

lemma only_fileD:
  assumes "only_file sp B ip B' ip'"
  shows "a \<noteq> sb_bmapstart sp \<Longrightarrow> taken B (sb_bmapstart sp) a \<Longrightarrow> a \<notin> fblocks B ip \<Longrightarrow> B' a = B a"
    "taken B (sb_bmapstart sp) a \<Longrightarrow> taken B' (sb_bmapstart sp) a" "a \<in> fblocks B ip \<Longrightarrow> a \<in> fblocks B' ip'"
    "a \<in> fblocks B' ip' \<Longrightarrow> a \<in> fblocks B ip \<or> \<not> taken B (sb_bmapstart sp) a"
    "bn < MAXFILE \<Longrightarrow> baddr B ip bn \<noteq> 0 \<Longrightarrow> baddr B' ip' bn = baddr B ip bn"
  using assms unfolding only_file_def Let_def by blast+

lemma only_file_trans [trans]:
  assumes "only_file sp B ip B' ip'" "only_file sp B' ip' B'' ip''"
  shows "only_file sp B ip B'' ip''"
proof -
  note 1 = only_fileD [OF assms(1)] and 2 = only_fileD [OF assms(2)]
  have "B'' a = B a" if "a \<noteq> sb_bmapstart sp" "taken B (sb_bmapstart sp) a" "a \<notin> fblocks B ip" for a
    using 1(1) [OF that] 2(1) [OF that(1) 1(2) [OF that(2)]] 1(4) [of a] that(2,3) by metis
  moreover have "a \<in> fblocks B ip \<or> \<not> taken B (sb_bmapstart sp) a" if "a \<in> fblocks B'' ip''" for a
    using 2(4) [OF that] 1(2) [of a] 1(4) [of a] by blast
  moreover have "baddr B'' ip'' bn = baddr B ip bn" if "bn < MAXFILE" "baddr B ip bn \<noteq> 0" for bn
    using 1(5) [OF that] 2(5) [OF that(1)] that(2) by simp
  ultimately show ?thesis using 1(2,3) 2(2,3) unfolding only_file_def Let_def by blast
qed

lemma only_file_other:
  assumes "only_file sp B ip B' ip'" "good_file sp B jp" "fblocks B jp \<inter> fblocks B ip = {}"
  shows "good_file sp B' jp" "fdata B' jp = fdata B jp" "fblocks B' jp \<inter> fblocks B' ip' = {}"
proof -
  let ?m = "sb_bmapstart sp"
  have t: "?m < a" "taken B ?m a" "a < sb_size sp" if "a \<in> fblocks B jp" for a using assms(2) that by (auto simp: good_file_def)
  note O = only_fileD [OF assms(1)]
  have "B' a = B a" if "a \<in> fblocks B jp" for a
    using assms(3) t [OF that] that by (intro O(1)) auto
  then have c: "baddr B' jp = baddr B jp" "fblocks B' jp = fblocks B jp" "\<And>k. k < MAXFILE * BSIZE \<Longrightarrow> fbyte B' jp k = fbyte B jp k"
    using fblocks_cong [of B jp B'] by blast+
  have "taken B' ?m a" if "a \<in> fblocks B jp" for a using O(2) t [OF that] by blast
  then show "good_file sp B' jp" using assms(2) t unfolding good_file_def c(1,2) by blast
  have "isize jp \<le> MAXFILE * BSIZE" using assms(2) by (simp add: good_file_def)
  then show "fdata B' jp = fdata B jp" by (simp add: fdata_def c(3))
  show "fblocks B' jp \<inter> fblocks B' ip' = {}" using assms(3) t(2) O(4) unfolding c(2) by blast
qed

text \<open>A file that gets a fresh block for one of its block numbers, or as its indirect block, keeps its bytes.\<close>

lemma grow_file:
  assumes g: "good_file sp B ip" and b: "\<not> taken B (sb_bmapstart sp) b" "sb_bmapstart sp < b" "b < sb_size sp"
    and addr: "\<And>bn. bn < MAXFILE \<Longrightarrow> baddr B' ip' bn = (if bn \<in> N then b else baddr B ip bn)" "\<And>n n'. n \<in> N \<Longrightarrow> n' \<in> N \<Longrightarrow> n = n'"
      "\<And>bn. bn \<in> N \<Longrightarrow> bn < MAXFILE \<and> baddr B ip bn = 0"
    and ind: "addrs ip' NDIRECT = (if N = {} then b else addrs ip NDIRECT)" "N = {} \<Longrightarrow> addrs ip NDIRECT = 0" and sz: "isize ip' = isize ip"
    and data: "\<And>a. a \<noteq> sb_bmapstart sp \<Longrightarrow> a \<noteq> b \<Longrightarrow> a \<noteq> addrs ip NDIRECT \<or> a = 0 \<Longrightarrow> B' a = B a" "B' b = (\<lambda>_. 0)"
      "\<And>c. taken B' (sb_bmapstart sp) c \<longleftrightarrow> c = b \<or> taken B (sb_bmapstart sp) c"
  shows "good_file sp B' ip'" "k < MAXFILE * BSIZE \<Longrightarrow> fbyte B' ip' k = fbyte B ip k" "only_file sp B ip B' ip'"
    "fblocks B' ip' = insert b (fblocks B ip)"
proof -
  let ?m = "sb_bmapstart sp"
  have G: "\<And>a. a \<in> fblocks B ip \<Longrightarrow> ?m < a \<and> a < sb_size sp \<and> taken B ?m a" "inj_on (baddr B ip) {bn. bn < MAXFILE \<and> baddr B ip bn \<noteq> 0}"
    "\<And>bn. bn < MAXFILE \<Longrightarrow> baddr B ip bn \<noteq> 0 \<Longrightarrow> baddr B ip bn \<noteq> addrs ip NDIRECT" "isize ip \<le> MAXFILE * BSIZE"
    "\<And>bn. bn * BSIZE < isize ip \<Longrightarrow> baddr B ip bn \<noteq> 0"
    using g by (simp_all add: good_file_def)
  have nb: "baddr B ip bn \<noteq> b" if "bn < MAXFILE" for bn using G(1) [OF baddr_fblocks [OF that]] b by (cases "baddr B ip bn = 0") auto
  have b0: "b \<noteq> 0" "b \<noteq> ?m" using b(2) by auto
  have ib: "addrs ip NDIRECT \<noteq> b" using G(1) [of "addrs ip NDIRECT"] b(1) b0 by (auto simp: fblocks_def)
  have used: "b \<in> insert (addrs ip' NDIRECT) (baddr B' ip' ` {..<MAXFILE})"
  proof (cases "N = {}")
    case False
    then obtain n where "n \<in> N" by auto
    then show ?thesis using addr(1,3) [of n] by (intro insertI2 image_eqI [of _ _ n]) auto
  qed (simp add: ind)
  show fb: "fblocks B' ip' = insert b (fblocks B ip)"
  proof (rule set_eqI)
    fix a
    show "a \<in> fblocks B' ip' \<longleftrightarrow> a \<in> insert b (fblocks B ip)"
    proof (cases "a = b \<or> a = 0")
      case True
      then show ?thesis using used b0 by (auto simp: fblocks_def)
    next
      case False
      have "a \<in> baddr B' ip' ` {..<MAXFILE} \<longleftrightarrow> a \<in> baddr B ip ` {..<MAXFILE}"
        using False addr(1,3) by (force simp: image_iff split: if_splits)
      moreover have "a = addrs ip' NDIRECT \<longleftrightarrow> a = addrs ip NDIRECT" using False ind by auto
      ultimately show ?thesis using False by (auto simp: fblocks_def)
    qed
  qed
  have "inj_on (baddr B' ip') {bn. bn < MAXFILE \<and> baddr B' ip' bn \<noteq> 0}"
    using G(2) nb addr by (auto simp: inj_on_def split: if_splits)
  moreover have "baddr B' ip' bn \<noteq> addrs ip' NDIRECT" if "bn < MAXFILE" "baddr B' ip' bn \<noteq> 0" for bn
    using that addr(1) [of bn] G(3) [of bn] nb [of bn] ib ind by (auto split: if_splits)
  moreover have "baddr B' ip' bn \<noteq> 0" if "bn * BSIZE < isize ip'" for bn
  proof -
    have "bn < MAXFILE" using that G(4) sz by simp
    then show ?thesis using G(5) [of bn] addr(1) [of bn] b0 that sz by simp
  qed
  moreover have "?m < a \<and> a < sb_size sp \<and> taken B' ?m a" if "a \<in> fblocks B' ip'" for a
    using that b G(1) unfolding fb data(3) by auto
  ultimately show "good_file sp B' ip'" using G(4) sz by (simp add: good_file_def)
  show "only_file sp B ip B' ip'"
    unfolding only_file_def Let_def fb data(3) using data(1) b(1) b0 addr(1,3) by (auto simp: fblocks_def)
  assume k: "k < MAXFILE * BSIZE"
  then have k: "k div BSIZE < MAXFILE" by (simp add: less_mult_imp_div_less)
  show "fbyte B' ip' k = fbyte B ip k"
  proof (cases "k div BSIZE \<in> N \<or> baddr B ip (k div BSIZE) = 0")
    case True
    then show ?thesis using addr(1,3) [of "k div BSIZE"] k b0 data(2) by (auto simp: fbyte_def Let_def)
  next
    case False
    then have "B' (baddr B ip (k div BSIZE)) = B (baddr B ip (k div BSIZE))"
      using G(1) [OF baddr_fblocks [OF k]] nb [OF k] G(3) [OF k] by (intro data(1)) auto
    then show ?thesis using False addr(1) [OF k] by (simp add: fbyte_def)
  qed
qed

lemma grow_direct:
  assumes g: "good_file sp B ip" and b: "\<not> taken B (sb_bmapstart sp) b" "sb_bmapstart sp < b" "b < sb_size sp"
    and n: "bn < NDIRECT" "addrs ip bn = 0"
  defines "B' \<equiv> B(sb_bmapstart sp := set_taken b (B (sb_bmapstart sp)), b := \<lambda>_. 0)" and "ip' \<equiv> ip\<lparr>addrs := (addrs ip)(bn := b)\<rparr>"
  shows "good_file sp B' ip'" "k < MAXFILE * BSIZE \<Longrightarrow> fbyte B' ip' k = fbyte B ip k" "only_file sp B ip B' ip'"
    "fblocks B' ip' = insert b (fblocks B ip)" "n < MAXFILE \<Longrightarrow> baddr B' ip' n = (if n = bn then b else baddr B ip n)"
proof -
  have i: "addrs ip NDIRECT \<noteq> 0 \<Longrightarrow> addrs ip NDIRECT \<noteq> sb_bmapstart sp \<and> addrs ip NDIRECT \<noteq> b"
    using g b(1) by (auto simp: good_file_def fblocks_def)
  note G = grow_file [OF g b, of B' ip' "{bn}"]
  have 1: "\<And>n. n < MAXFILE \<Longrightarrow> baddr B' ip' n = (if n \<in> {bn} then b else baddr B ip n)"
    using n i by (auto simp: baddr_def B'_def ip'_def)
  then show "n < MAXFILE \<Longrightarrow> baddr B' ip' n = (if n = bn then b else baddr B ip n)" by simp
  have 2: "\<And>n. n \<in> {bn} \<Longrightarrow> n < MAXFILE \<and> baddr B ip n = 0" using n by (simp add: baddr_def)
  have 3: "addrs ip' NDIRECT = (if {bn} = {} then b else addrs ip NDIRECT)" using n by (simp add: ip'_def)
  have 4: "\<And>a. a \<noteq> sb_bmapstart sp \<Longrightarrow> a \<noteq> b \<Longrightarrow> B' a = B a" "B' b = (\<lambda>_. 0)" "isize ip' = isize ip" by (simp_all add: B'_def ip'_def)
  have 5: "taken B' (sb_bmapstart sp) c \<longleftrightarrow> c = b \<or> taken B (sb_bmapstart sp) c" for c using b(2) by (simp add: B'_def)
  show "good_file sp B' ip'" "k < MAXFILE * BSIZE \<Longrightarrow> fbyte B' ip' k = fbyte B ip k" "only_file sp B ip B' ip'"
    "fblocks B' ip' = insert b (fblocks B ip)"
    by (rule G; use 1 2 3 4 5 in simp)+
qed

lemma grow_ind:
  assumes g: "good_file sp B ip" and b: "\<not> taken B (sb_bmapstart sp) b" "sb_bmapstart sp < b" "b < sb_size sp"
    and n: "addrs ip NDIRECT = 0"
  defines "B' \<equiv> B(sb_bmapstart sp := set_taken b (B (sb_bmapstart sp)), b := \<lambda>_. 0)" and "ip' \<equiv> ip\<lparr>addrs := (addrs ip)(NDIRECT := b)\<rparr>"
  shows "good_file sp B' ip'" "k < MAXFILE * BSIZE \<Longrightarrow> fbyte B' ip' k = fbyte B ip k" "only_file sp B ip B' ip'"
    "fblocks B' ip' = insert b (fblocks B ip)" "j < MAXFILE \<Longrightarrow> baddr B' ip' j = baddr B ip j"
proof -
  note G = grow_file [OF g b, of B' ip' "{}"]
  have 1: "\<And>n. n < MAXFILE \<Longrightarrow> baddr B' ip' n = (if n \<in> {} then b else baddr B ip n)"
    using n b(2) by (auto simp: baddr_def B'_def ip'_def get32_def)
  then show "j < MAXFILE \<Longrightarrow> baddr B' ip' j = baddr B ip j" by simp
  have 4: "\<And>a. a \<noteq> sb_bmapstart sp \<Longrightarrow> a \<noteq> b \<Longrightarrow> B' a = B a" "B' b = (\<lambda>_. 0)" "isize ip' = isize ip" "addrs ip' NDIRECT = b"
    by (simp_all add: B'_def ip'_def)
  have 5: "taken B' (sb_bmapstart sp) c \<longleftrightarrow> c = b \<or> taken B (sb_bmapstart sp) c" for c using b(2) by (simp add: B'_def)
  show "good_file sp B' ip'" "k < MAXFILE * BSIZE \<Longrightarrow> fbyte B' ip' k = fbyte B ip k" "only_file sp B ip B' ip'"
    "fblocks B' ip' = insert b (fblocks B ip)"
    by (rule G; use 1 n 4 5 in simp)+
qed

lemma grow_entry:
  assumes g: "good_file sp B ip" and b: "\<not> taken B (sb_bmapstart sp) b" "sb_bmapstart sp < b" "b < sb_size sp" "sb_size sp \<le> FSSIZE"
    and n: "j < NINDIRECT" "addrs ip NDIRECT \<noteq> 0" "get32 (B (addrs ip NDIRECT)) (4 * j) = 0"
  defines "B' \<equiv> B(sb_bmapstart sp := set_taken b (B (sb_bmapstart sp)), b := \<lambda>_. 0,
    addrs ip NDIRECT := put32 (4 * j) (of_nat b) (B (addrs ip NDIRECT)))"
  shows "good_file sp B' ip" "k < MAXFILE * BSIZE \<Longrightarrow> fbyte B' ip k = fbyte B ip k" "only_file sp B ip B' ip"
    "fblocks B' ip = insert b (fblocks B ip)" "n < MAXFILE \<Longrightarrow> baddr B' ip n = (if n = NDIRECT + j then b else baddr B ip n)"
proof -
  have i: "addrs ip NDIRECT \<noteq> sb_bmapstart sp \<and> addrs ip NDIRECT \<noteq> b"
    using g b(1) n(2) by (auto simp: good_file_def fblocks_def)
  have u: "unat (of_nat b :: u32) = b" using b(3,4) by (simp add: unsigned_of_nat take_bit_nat_eq_self)
  note G = grow_file [OF g b(1-3), of B' ip "{NDIRECT + j}"]
  have 1: "baddr B' ip n = (if n \<in> {NDIRECT + j} then b else baddr B ip n)" if "n < MAXFILE" for n
  proof -
    consider "n < NDIRECT" | j' where "n = NDIRECT + j'" by (metis le_Suc_ex not_le)
    then show ?thesis
    proof cases
      case 2
      then have "get32 (put32 (4 * j) (of_nat b) (B (addrs ip NDIRECT))) (4 * j') = (if j' = j then of_nat b else get32 (B (addrs ip NDIRECT)) (4 * j'))"
        by (cases "j' = j"; cases "j' < j") auto
      then show ?thesis using n u 2 by (simp add: baddr_def B'_def)
    qed (simp add: baddr_def)
  qed
  then show "n < MAXFILE \<Longrightarrow> baddr B' ip n = (if n = NDIRECT + j then b else baddr B ip n)" by simp
  have 2: "\<And>n. n \<in> {NDIRECT + j} \<Longrightarrow> n < MAXFILE \<and> baddr B ip n = 0" using n by (simp add: baddr_def)
  have 4: "\<And>a. a \<noteq> sb_bmapstart sp \<Longrightarrow> a \<noteq> b \<Longrightarrow> a \<noteq> addrs ip NDIRECT \<or> a = 0 \<Longrightarrow> B' a = B a" "B' b = (\<lambda>_. 0)"
    using i n(2) by (auto simp: B'_def)
  have 5: "taken B' (sb_bmapstart sp) c \<longleftrightarrow> c = b \<or> taken B (sb_bmapstart sp) c" for c using b(2) i by (simp add: B'_def)
  show "good_file sp B' ip" "k < MAXFILE * BSIZE \<Longrightarrow> fbyte B' ip k = fbyte B ip k" "only_file sp B ip B' ip"
    "fblocks B' ip = insert b (fblocks B ip)"
    by (rule G; use 1 2 4 5 in simp)+
qed

section \<open>Block addresses\<close>

text \<open>The state in which the file system works on the inode \<open>i\<close>, with no block locked.\<close>

definition ino_ok :: "nat \<Rightarrow> 'a fs_st_scheme \<Rightarrow> bool" where
  "ino_ok i s \<longleftrightarrow> log_ok s \<and> unlocked (cache_of s) \<and> layout s \<and> idev (icache s i) = ROOTDEV
     \<and> good_file (sb s) (blks s) (icache s i)"

text \<open>The file may have got blocks, but its bytes and everything else are as before.\<close>

definition grew :: "nat \<Rightarrow> 'a fs_st_scheme \<Rightarrow> 'a fs_st_scheme \<Rightarrow> bool" where
  "grew i s s' \<longleftrightarrow> ino_ok i s' \<and> fs_step i s s' \<and> (\<exists>f. icache s' i = (icache s i)\<lparr>addrs := f\<rparr>)
     \<and> (\<forall>k < MAXFILE * BSIZE. fbyte (blks s') (icache s' i) k = fbyte (blks s) (icache s i) k)
     \<and> only_file (sb s) (blks s) (icache s i) (blks s') (icache s' i)"

lemma ino_okD:
  assumes "ino_ok i s"
  shows "log_ok s" "lkd s = (\<lambda>_. None)" "layout s" "idev (icache s i) = ROOTDEV" "good_file (sb s) (blks s) (icache s i)" "finite (lgd s)"
  using assms log_okD(2) [of s] by (simp_all add: ino_ok_def unlocked_def)

lemma grew_refl: "ino_ok i s \<Longrightarrow> grew i s s"
  by (auto simp: grew_def intro!: exI [of _ "addrs (icache s i)"])

lemma grewI:
  assumes "ino_ok i s" "log_ok s'" "fs_step i s s'" "lkd s' = lkd s" "icache s' i = (icache s i)\<lparr>addrs := f\<rparr>"
    "good_file (sb s) (blks s') (icache s' i)" "\<And>k. k < MAXFILE * BSIZE \<Longrightarrow> fbyte (blks s') (icache s' i) k = fbyte (blks s) (icache s i) k"
    "only_file (sb s) (blks s) (icache s i) (blks s') (icache s' i)"
  shows "grew i s s'"
proof -
  note D = ino_okD [OF assms(1)]
  have "layout s'" by (rule layout_step [OF D(3) assms(3)]) (rule only_fileD(2) [OF assms(8)])
  then have "ino_ok i s'"
    using assms(2,4,6) D(2,4) fs_stepD(5) [OF assms(3)] assms(5) by (simp add: ino_ok_def unlocked_def)
  then show ?thesis using assms by (auto simp: grew_def)
qed

lemma grew_trans [trans]:
  assumes "grew i s s'" "grew i s' s''"
  shows "grew i s s''"
proof -
  have "sb s' = sb s" using assms(1) fs_stepD(5) by (auto simp: grew_def)
  then have "only_file (sb s) (blks s) (icache s i) (blks s'') (icache s'' i)"
    using assms by (auto simp: grew_def intro: only_file_trans)
  moreover have "\<exists>f. icache s'' i = (icache s i)\<lparr>addrs := f\<rparr>" using assms by (auto simp: grew_def)
  ultimately show ?thesis using assms by (auto simp: grew_def intro: fs_step_trans)
qed

text \<open>What is reserved: blocks the log will hold at most, and blocks that may be needed, for the indirect block.\<close>

abbreviation indset :: "inode \<Rightarrow> nat set" where "indset ip \<equiv> {addrs ip NDIRECT} - {0}"

definition indn :: "inode \<Rightarrow> nat" where
  "indn ip = (if addrs ip NDIRECT = 0 then 1 else 0)"

definition cost :: "'a fs_st_scheme \<Rightarrow> inode \<Rightarrow> nat" where
  "cost s ip = card (lgd s \<union> insert (bm s) (indset ip)) + indn ip"

lemma cost_ind:
  assumes "finite (lgd s)" "addrs ip' NDIRECT = addrs ip NDIRECT \<or> addrs ip NDIRECT = 0"
  shows "card (lgd s \<union> insert (bm s) (indset ip')) + indn ip' \<le> cost s ip"
proof (cases "addrs ip' NDIRECT = addrs ip NDIRECT")
  case False
  then have z: "addrs ip NDIRECT = 0" "addrs ip' NDIRECT \<noteq> 0" using assms(2) by auto
  then have "card (lgd s \<union> insert (bm s) (indset ip')) \<le> card (lgd s \<union> {bm s}) + 1"
    using assms(1) card_insert_if [of "lgd s \<union> {bm s}" "addrs ip' NDIRECT"] by (auto simp: insert_commute)
  then show ?thesis using z by (simp add: cost_def indn_def)
qed (simp add: cost_def indn_def)

lemma cost_step:
  assumes "finite (lgd s)" "bm s' = bm s" "addrs ip' NDIRECT = addrs ip NDIRECT \<or> addrs ip NDIRECT = 0"
  shows "lgd s' \<subseteq> lgd s \<union> insert (bm s) (indset ip') \<Longrightarrow> cost s' ip' \<le> cost s ip"
    "lgd s' \<subseteq> lgd s \<union> insert (bm s) (insert a (indset ip')) \<Longrightarrow> cost s' ip' \<le> cost s ip + 1"
proof -
  let ?X = "lgd s \<union> insert (bm s) (indset ip')"
  have fin: "finite ?X" using assms(1) by simp
  have le: "card (lgd s' \<union> insert (bm s') (indset ip')) \<le> card Y" if "lgd s' \<union> insert (bm s) (indset ip') \<subseteq> Y" "finite Y" for Y
    using that assms(2) by (simp add: card_mono)
  note C = cost_ind [OF assms(1,3)]
  show "cost s' ip' \<le> cost s ip" if "lgd s' \<subseteq> lgd s \<union> insert (bm s) (indset ip')"
  proof -
    have "card (lgd s' \<union> insert (bm s') (indset ip')) \<le> card ?X" by (rule le) (use that fin in auto)
    then show ?thesis using C by (simp add: cost_def)
  qed
  show "cost s' ip' \<le> cost s ip + 1" if "lgd s' \<subseteq> lgd s \<union> insert (bm s) (insert a (indset ip'))"
  proof -
    have "card (lgd s' \<union> insert (bm s') (indset ip')) \<le> card (insert a ?X)" by (rule le) (use that fin in auto)
    also have "\<dots> \<le> card ?X + 1" using fin by (simp add: card_insert_if)
    finally show ?thesis using C by (simp add: cost_def)
  qed
qed

lemma cost_ge:
  assumes "finite (lgd s)"
  shows "card (insert (bm s) (lgd s)) + indn ip \<le> cost s ip" "card (lgd s) + indn ip \<le> cost s ip"
proof -
  have f: "finite (lgd s \<union> insert (bm s) (indset ip))" using assms by simp
  show "card (insert (bm s) (lgd s)) + indn ip \<le> cost s ip" "card (lgd s) + indn ip \<le> cost s ip"
    unfolding cost_def by (rule add_right_mono, rule card_mono [OF f], blast)+
qed

lemma frees_alloc:
  assumes "sb s' = sb s" "\<And>c. taken (blks s') (bm s) c \<longleftrightarrow> c = b \<or> taken (blks s) (bm s) c" "b \<in> frees s"
  shows "frees s' = frees s - {b}" "card (frees s) = card (frees s') + 1"
proof -
  show f: "frees s' = frees s - {b}" using assms by (auto simp: frees_def)
  show "card (frees s) = card (frees s') + 1" unfolding f using card_Suc_Diff1 [OF finite_frees assms(3)] by simp
qed

text \<open>The blocks and the inode that \<open>bmap\<close> leaves behind, with the address it returns.\<close>

definition bmap_post :: "nat \<Rightarrow> nat \<Rightarrow> nat \<Rightarrow> 'a fs_st_scheme \<Rightarrow> 'a fs_st_scheme \<Rightarrow> bool" where
  "bmap_post i bn a s s' \<longleftrightarrow> grew i s s' \<and> a \<noteq> 0 \<and> baddr (blks s') (icache s' i) bn = a
     \<and> lgd s' \<subseteq> lgd s \<union> insert (bm s) (insert a (indset (icache s' i)))
     \<and> card (frees s) + indn (icache s' i) \<le> card (frees s') + indn (icache s i) + 1
     \<and> (addrs (icache s' i) NDIRECT = addrs (icache s i) NDIRECT \<or> addrs (icache s i) NDIRECT = 0)
     \<and> (baddr (blks s) (icache s i) bn \<noteq> 0 \<longrightarrow> icache s' i = icache s i)"

lemma wp_balloc_ino:
  fixes s :: "'a fs_st_scheme"
  assumes s: "ino_ok i s" "frees s \<noteq> {}" "0 < outstanding (log s)" "int (cost s (icache s i)) < lsize (log s) - 1"
    and Q: "\<And>b s'. \<lbrakk>b \<in> frees s; bm s < b; b < sb_size (sb s); \<not> taken (blks s) (bm s) b; log_ok s'; txn_step s s'; sb s' = sb s; icache s' = icache s;
      cache_of s' = (cache_of s)\<lparr>c_blk := (blks s)(bm s := set_taken b (blks s (bm s)), b := \<lambda>_. 0),
        c_dirty := insert b (insert (bm s) (lgd s))\<rparr>\<rbrakk> \<Longrightarrow> Q b s'"
  shows "wp (balloc ROOTDEV) Q s"
proof (rule wp_balloc)
  note D = ino_okD [OF s(1)]
  show "log_ok s" "layout s" "frees s \<noteq> {}" "0 < outstanding (log s)" using D s by simp_all
  show "b \<noteq> bm s \<and> b \<notin> frees s" if "b \<in> ran (lkd s)" for b using that D(2) by simp
  show "card (ran (lkd s)) \<le> 1" by (simp add: D(2))
  show "int (card (insert (bm s) (lgd s))) < lsize (log s) - 1" using cost_ge(1) [OF D(6), of "icache s i"] s(4) by simp
  fix b and s' :: "'a fs_st_scheme"
  assume a: "b \<in> frees s" "log_ok s'" "txn_step s s'" "cache_of s' = (cache_of s)\<lparr>
    c_blk := (blks s)(bm s := set_taken b (blks s (bm s)), b := \<lambda>_. 0), c_dirty := insert b (insert (bm s) (lgd s))\<rparr>"
  show "Q b s'"
    using a(1) layoutD(7) [OF D(3) a(1)] fs_more [OF txn_stepD(6) [OF a(3)]] by (intro Q a) (auto simp: frees_def)
qed

lemma wp_bmap_direct:
  fixes s :: "'a fs_st_scheme"
  assumes s: "ino_ok i s" "0 < outstanding (log s)" and n: "bn < NDIRECT"
    and r: "int (cost s (icache s i)) + 1 < lsize (log s) - 1" "indn (icache s i) + 1 \<le> card (frees s)"
    and Q: "\<And>a s'. bmap_post i bn a s s' \<Longrightarrow> Q a s'"
  shows "wp (bmap i bn) Q s"
proof (cases "addrs (icache s i) bn = 0")
  case False
  then have "bmap_post i bn (addrs (icache s i) bn) s s"
    using grew_refl [OF s(1)] n by (auto simp: bmap_post_def baddr_def)
  then show ?thesis using False n Q by (simp add: bmap_def)
next
  case True
  note D = ino_okD [OF s(1)]
  have "wp (balloc ROOTDEV) (\<lambda>b. wp (seq (modify (upd_ino i (\<lambda>x. x\<lparr>addrs := (addrs x)(bn := b)\<rparr>))) (ret b)) Q) s"
  proof (rule wp_balloc_ino [OF s(1)])
    show "frees s \<noteq> {}" "0 < outstanding (log s)" "int (cost s (icache s i)) < lsize (log s) - 1" using r s(2) by auto
    fix b and s1 :: "'a fs_st_scheme"
    assume 1: "b \<in> frees s" "bm s < b" "b < sb_size (sb s)" "\<not> taken (blks s) (bm s) b" "log_ok s1" "txn_step s s1" "sb s1 = sb s" "icache s1 = icache s"
      "cache_of s1 = (cache_of s)\<lparr>c_blk := (blks s)(bm s := set_taken b (blks s (bm s)), b := \<lambda>_. 0), c_dirty := insert b (insert (bm s) (lgd s))\<rparr>"
    let ?s = "upd_ino i (\<lambda>x. x\<lparr>addrs := (addrs x)(bn := b)\<rparr>) s1"
    note U = upd_ino_step [OF 1(5), of i "\<lambda>x. x\<lparr>addrs := (addrs x)(bn := b)\<rparr>"]
    note G = grow_direct [OF D(5) 1(4,2,3) n True]
    have ic: "icache ?s i = (icache s i)\<lparr>addrs := (addrs (icache s i))(bn := b)\<rparr>" by (simp add: U(4) 1(8))
    have B: "blks ?s = (blks s)(bm s := set_taken b (blks s (bm s)), b := \<lambda>_. 0)" "lgd ?s = insert b (insert (bm s) (lgd s))" "lkd ?s = lkd s"
      by (simp_all add: U(2) 1(9))
    have "grew i s ?s"
    proof (rule grewI [OF s(1) U(1) _ B(3) ic])
      show "fs_step i s ?s" by (rule fs_step_trans [OF txn_fs_step [OF 1(6)] U(3)])
    qed (unfold ic B(1), rule G, rule G, assumption, rule G)
    moreover have "card (frees s) = card (frees ?s) + 1"
      by (rule frees_alloc(2) [OF _ _ 1(1)]) (use 1(2) in \<open>simp_all add: U(5) 1(7) B(1)\<close>)
    ultimately have "bmap_post i bn b s ?s" unfolding bmap_post_def B(2) ic
      using 1(2) n True by (auto simp: baddr_def indn_def)
    then show "wp (seq (modify (upd_ino i (\<lambda>x. x\<lparr>addrs := (addrs x)(bn := b)\<rparr>))) (ret b)) Q s1"
      by (simp add: Q)
  qed
  then show ?thesis using True n D(4) by (simp add: bmap_def)
qed

text \<open>The indirect block: it is allocated if the file has none.\<close>

definition bmap_ind :: "nat \<Rightarrow> (nat, 'a fs_st_scheme) kop" where
  "bmap_ind i = bind (gets (\<lambda>s. icache s i)) (\<lambda>ip.
     if addrs ip NDIRECT = 0 then
       bind (balloc (idev ip)) (\<lambda>addr.
       seq (modify (upd_ino i (\<lambda>x. x\<lparr>addrs := (addrs x)(NDIRECT := addr)\<rparr>)))
       (ret addr))
     else ret (addrs ip NDIRECT))"

lemma wp_bmap_ind:
  fixes s :: "'a fs_st_scheme"
  assumes s: "ino_ok i s" "0 < outstanding (log s)"
    and r: "int (cost s (icache s i)) < lsize (log s) - 1" "indn (icache s i) \<le> card (frees s)"
    and Q: "\<And>s'. \<lbrakk>grew i s s'; addrs (icache s' i) NDIRECT \<noteq> 0; lgd s' \<subseteq> lgd s \<union> insert (bm s) (indset (icache s' i));
      card (frees s) \<le> card (frees s') + indn (icache s i);
      icache s' i = icache s i \<or> addrs (icache s i) NDIRECT = 0\<rbrakk> \<Longrightarrow> Q (addrs (icache s' i) NDIRECT) s'"
  shows "wp (bmap_ind i) Q s"
proof (cases "addrs (icache s i) NDIRECT = 0")
  case False
  moreover have "Q (addrs (icache s i) NDIRECT) s" by (rule Q [OF grew_refl [OF s(1)]]) (use False in auto)
  ultimately show ?thesis by (simp add: bmap_ind_def)
next
  case True
  note D = ino_okD [OF s(1)]
  have "wp (balloc ROOTDEV) (\<lambda>b. wp (seq (modify (upd_ino i (\<lambda>x. x\<lparr>addrs := (addrs x)(NDIRECT := b)\<rparr>))) (ret b)) Q) s"
  proof (rule wp_balloc_ino [OF s(1)])
    show "frees s \<noteq> {}" "0 < outstanding (log s)" "int (cost s (icache s i)) < lsize (log s) - 1" using r s(2) True by (auto simp: indn_def)
    fix b and s1 :: "'a fs_st_scheme"
    assume 1: "b \<in> frees s" "bm s < b" "b < sb_size (sb s)" "\<not> taken (blks s) (bm s) b" "log_ok s1" "txn_step s s1" "sb s1 = sb s" "icache s1 = icache s"
      "cache_of s1 = (cache_of s)\<lparr>c_blk := (blks s)(bm s := set_taken b (blks s (bm s)), b := \<lambda>_. 0), c_dirty := insert b (insert (bm s) (lgd s))\<rparr>"
    let ?s = "upd_ino i (\<lambda>x. x\<lparr>addrs := (addrs x)(NDIRECT := b)\<rparr>) s1"
    note U = upd_ino_step [OF 1(5), of i "\<lambda>x. x\<lparr>addrs := (addrs x)(NDIRECT := b)\<rparr>"]
    note G = grow_ind [OF D(5) 1(4,2,3) True]
    have ic: "icache ?s i = (icache s i)\<lparr>addrs := (addrs (icache s i))(NDIRECT := b)\<rparr>" by (simp add: U(4) 1(8))
    have B: "blks ?s = (blks s)(bm s := set_taken b (blks s (bm s)), b := \<lambda>_. 0)" "lgd ?s = insert b (insert (bm s) (lgd s))" "lkd ?s = lkd s"
      by (simp_all add: U(2) 1(9))
    have "grew i s ?s"
    proof (rule grewI [OF s(1) U(1) _ B(3) ic])
      show "fs_step i s ?s" by (rule fs_step_trans [OF txn_fs_step [OF 1(6)] U(3)])
    qed (unfold ic B(1), rule G, rule G, assumption, rule G)
    moreover have "card (frees s) = card (frees ?s) + 1"
      by (rule frees_alloc(2) [OF _ _ 1(1)]) (use 1(2) in \<open>simp_all add: U(5) 1(7) B(1)\<close>)
    ultimately have "Q (addrs (icache ?s i) NDIRECT) ?s" using 1(2) True by (intro Q) (auto simp: ic B(2) indn_def)
    then show "wp (seq (modify (upd_ino i (\<lambda>x. x\<lparr>addrs := (addrs x)(NDIRECT := b)\<rparr>))) (ret b)) Q s1" by (simp add: ic)
  qed
  then show ?thesis using True D(4) by (simp add: bmap_ind_def)
qed

text \<open>The entry of the indirect block.\<close>

definition bmap_entry :: "nat \<Rightarrow> nat \<Rightarrow> nat \<Rightarrow> (nat, 'a fs_st_scheme) kop" where
  "bmap_entry d addr j =
     bind (bread d addr) (\<lambda>bp.
     bind (gets (\<lambda>s. unat (get32 (data (bufs s bp)) (4 * j)))) (\<lambda>addr.
     bind (if addr = 0 then
             bind (balloc d) (\<lambda>addr.
             seq (set_data bp (put32 (4 * j) (of_nat addr)))
             (seq (log_write bp)
             (ret addr)))
           else ret addr) (\<lambda>addr.
     seq (brelse bp)
     (ret addr))))"

lemma bmap_indirect:
  assumes "NDIRECT \<le> bn" "bn < MAXFILE"
  shows "bmap i bn s = bind (bmap_ind i) (\<lambda>addr. bmap_entry (idev (icache s i)) addr (bn - NDIRECT)) s"
proof -
  have "bn - NDIRECT < NINDIRECT" using assms by simp
  then show ?thesis using assms by (simp add: bmap_def bmap_ind_def bmap_entry_def bind_def Let_def)
qed

lemma ind_block:
  assumes "ino_ok i s" "addrs (icache s i) NDIRECT \<noteq> 0"
  shows "bm s < addrs (icache s i) NDIRECT" "addrs (icache s i) NDIRECT < FSSIZE" "home (log s) (addrs (icache s i) NDIRECT)"
    "taken (blks s) (bm s) (addrs (icache s i) NDIRECT)"
proof -
  note D = ino_okD [OF assms(1)]
  have a: "bm s < addrs (icache s i) NDIRECT" "addrs (icache s i) NDIRECT < sb_size (sb s)" "taken (blks s) (bm s) (addrs (icache s i) NDIRECT)"
    using D(5) assms(2) by (auto simp: good_file_def fblocks_def)
  show "bm s < addrs (icache s i) NDIRECT" "addrs (icache s i) NDIRECT < FSSIZE" "home (log s) (addrs (icache s i) NDIRECT)"
    "taken (blks s) (bm s) (addrs (icache s i) NDIRECT)"
    using a layoutD(6) [OF D(3) a(2,1)] by auto
qed

lemma clean_or_logged: "log_ok s \<Longrightarrow> b \<notin> ran (lkd s) \<Longrightarrow> b \<in> lgd s \<or> blks s b = c_disk (cache_of s) b"
  by (auto simp: log_ok_def txn_inv_def)

lemma wp_bmap_entry_get:
  fixes s :: "'a fs_st_scheme"
  assumes s: "ino_ok i s" "room (cache_of s)" and ai: "addrs (icache s i) NDIRECT \<noteq> 0"
    and e: "unat (get32 (blks s (addrs (icache s i) NDIRECT)) (4 * j)) \<noteq> 0"
    and Q: "\<And>s'. log_ok s' \<Longrightarrow> txn_step s s' \<Longrightarrow> cache_of s' = cache_of s \<Longrightarrow> Q (unat (get32 (blks s (addrs (icache s i) NDIRECT)) (4 * j))) s'"
  shows "wp (bmap_entry ROOTDEV (addrs (icache s i) NDIRECT) j) Q s"
  unfolding bmap_entry_def
proof (rule wp_bindI, rule wp_bread_txn)
  let ?ai = "addrs (icache s i) NDIRECT"
  let ?e = "unat (get32 (blks s ?ai) (4 * j))"
  note D = ino_okD [OF s(1)] and A = ind_block [OF s(1) ai]
  show "log_ok s" "?ai \<notin> ran (lkd s)" "?ai < FSSIZE" "room (cache_of s) \<or> ?ai \<in> lgd s" using D A s(2) by simp_all
  fix bp and s1 :: "'a fs_st_scheme"
  assume 1: "log_ok s1" "txn_step s s1" "lkd s bp = None" "data (bufs s1 bp) = blks s ?ai" "cache_of s1 = (cache_of s)\<lparr>c_lock := (lkd s)(bp \<mapsto> ?ai)\<rparr>"
  have "wp (brelse bp) (\<lambda>_. Q ?e) s1"
  proof (rule wp_brelse_txn [OF 1(1), where b = ?ai])
    show "lkd s1 bp = Some ?ai" "?ai \<in> lgd s1 \<or> blks s1 ?ai = c_disk (cache_of s1) ?ai"
      using clean_or_logged [OF D(1), of ?ai] by (simp_all add: 1(5) D(2))
    fix s2 :: "'a fs_st_scheme"
    assume 2: "log_ok s2" "txn_step s1 s2" "cache_of s2 = (cache_of s1)\<lparr>c_lock := (lkd s1)(bp := None)\<rparr>"
    show "Q ?e s2" using 1(3) by (intro Q 2(1) txn_step_trans [OF 1(2) 2(2)]) (simp add: 2(3) 1(5) fun_upd_idem)
  qed
  then show "wp (bind (gets (\<lambda>s. unat (get32 (data (bufs s bp)) (4 * j)))) (\<lambda>addr.
     bind (if addr = 0 then bind (balloc ROOTDEV) (\<lambda>addr. seq (set_data bp (put32 (4 * j) (of_nat addr))) (seq (log_write bp) (ret addr)))
           else ret addr) (\<lambda>addr. seq (brelse bp) (ret addr)))) Q s1"
    using e by (simp add: 1(4))
qed

lemma wp_bmap_entry_new:
  fixes s :: "'a fs_st_scheme"
  assumes s: "ino_ok i s" "0 < outstanding (log s)" and j: "j < NINDIRECT" and ai: "addrs (icache s i) NDIRECT \<noteq> 0"
    and r: "int (cost s (icache s i)) + 1 < lsize (log s) - 1" "1 \<le> card (frees s)"
    and z: "get32 (blks s (addrs (icache s i) NDIRECT)) (4 * j) = 0"
    and Q: "\<And>a s'. bmap_post i (NDIRECT + j) a s s' \<Longrightarrow> Q a s'"
  shows "wp (bmap_entry ROOTDEV (addrs (icache s i) NDIRECT) j) Q s"
  unfolding bmap_entry_def
proof (rule wp_bindI, rule wp_bread_txn)
  note D = ino_okD [OF s(1)] and a = ind_block [OF s(1) ai]
  let ?ip = "icache s i" and ?ai = "addrs (icache s i) NDIRECT"
  note L = layoutD [OF D(3)]
  have lz: "lsize (log s) \<le> int LOGSIZE" using D(1) by (simp add: log_ok_def)
  have cs: "int (card (insert ?ai (insert (bm s) (lgd s)))) + 1 < lsize (log s) - 1" using r(1) ai by (simp add: cost_def indn_def insert_commute)
  have cl: "card (lgd s) \<le> card (insert (bm s) (lgd s))" "card (insert (bm s) (lgd s)) \<le> card (insert ?ai (insert (bm s) (lgd s)))"
    by (rule card_insert_le)+
  show "log_ok s" "?ai \<notin> ran (lkd s)" "?ai < FSSIZE" "room (cache_of s) \<or> ?ai \<in> lgd s"
    using D a cs cl lz by (simp_all add: room_def)
  fix bp and s1 :: "'a fs_st_scheme"
  assume 1: "log_ok s1" "txn_step s s1" "lkd s bp = None" "data (bufs s1 bp) = blks s ?ai" "cache_of s1 = (cache_of s)\<lparr>c_lock := (lkd s)(bp \<mapsto> ?ai)\<rparr>"
  note T1 = txn_stepD [OF 1(2)] and M1 = fs_more [OF txn_stepD(6) [OF 1(2)]]
  have "wp (balloc ROOTDEV) (\<lambda>b. wp (seq (set_data bp (put32 (4 * j) (of_nat b))) (seq (log_write bp) (ret b)))
    (\<lambda>b. wp (seq (brelse bp) (ret b)) Q)) s1"
  proof (rule wp_balloc [OF 1(1)])
    have fr: "frees s1 = frees s" by (simp add: frees_def 1(5) M1)
    show "layout s1" by (rule layout_step [OF D(3) txn_fs_step [OF 1(2)]]) (simp add: 1(5))
    show "frees s1 \<noteq> {}" "0 < outstanding (log s1)" using r(2) s(2) T1 by (auto simp: fr)
    show "b \<noteq> bm s1 \<and> b \<notin> frees s1" if "b \<in> ran (lkd s1)" for b
      using that a D(2) by (auto simp: 1(5) M1 fr frees_def split: if_splits)
    show "card (ran (lkd s1)) \<le> 1" by (simp add: 1(5) D(2))
    show "int (card (insert (bm s1) (lgd s1))) < lsize (log s1) - 1" using cs cl T1 by (simp add: 1(5) M1)
    fix b and s2 :: "'a fs_st_scheme"
    assume b: "b \<in> frees s1" and 2: "log_ok s2" "txn_step s1 s2" "cache_of s2 = (cache_of s1)\<lparr>
      c_blk := (blks s1)(bm s1 := set_taken b (blks s1 (bm s1)), b := \<lambda>_. 0), c_dirty := insert b (insert (bm s1) (lgd s1))\<rparr>"
    have bf: "\<not> taken (blks s) (bm s) b" "bm s < b" "b < sb_size (sb s)" "b \<in> frees s"
      using b L(7) [of b] unfolding fr by (auto simp: frees_def)
    note T2 = txn_stepD [OF 2(2)]
    have ne: "?ai \<noteq> b" "?ai \<noteq> bm s" using a bf(1) by auto
    have "card (insert b (insert (bm s) (lgd s))) \<le> card (insert (bm s) (lgd s)) + 1" using D(6) by (simp add: card_insert_if)
    then have c2: "int (card (lgd s2)) < lsize (log s2) - 1" using cs cl T1 T2 by (simp add: 2(3) 1(5) M1)
    show "wp (seq (set_data bp (put32 (4 * j) (of_nat b))) (seq (log_write bp) (ret b))) (\<lambda>b. wp (seq (brelse bp) (ret b)) Q) s2"
      unfolding set_data_def
    proof (rule wp_seqI, rule wp_bset_txn [OF 2(1), where b = ?ai])
      show "lkd s2 bp = Some ?ai" by (simp add: 2(3) 1(5))
      fix s3 :: "'a fs_st_scheme"
      assume 3: "log_ok s3" "txn_step s2 s3" "cache_of s3 = (cache_of s2)\<lparr>c_blk := (blks s2)(?ai := put32 (4 * j) (of_nat b) (blks s2 ?ai))\<rparr>"
      note T3 = txn_stepD [OF 3(2)]
      show "wp (seq (log_write bp) (ret b)) (\<lambda>b. wp (seq (brelse bp) (ret b)) Q) s3"
      proof (rule wp_seqI, rule wp_log_write_txn [OF 3(1), where b = ?ai])
        show "lkd s3 bp = Some ?ai" "home (log s3) ?ai" "int (card (lgd s3)) < lsize (log s3) - 1" "0 < outstanding (log s3)"
          using a c2 s(2) T1 T2 T3 by (simp_all add: 3(3) 2(3) 1(5))
        fix s4 :: "'a fs_st_scheme"
        assume 4: "log_ok s4" "txn_step s3 s4" "cache_of s4 = (cache_of s3)\<lparr>c_dirty := insert ?ai (lgd s3)\<rparr>"
        have "wp (brelse bp) (\<lambda>_. Q b) s4"
        proof (rule wp_brelse_txn [OF 4(1), where b = ?ai])
          show "lkd s4 bp = Some ?ai" "?ai \<in> lgd s4 \<or> blks s4 ?ai = c_disk (cache_of s4) ?ai" by (simp_all add: 4(3) 3(3) 2(3) 1(5))
          fix s5 :: "'a fs_st_scheme"
          assume 5: "log_ok s5" "txn_step s4 s5" "cache_of s5 = (cache_of s4)\<lparr>c_lock := (lkd s4)(bp := None)\<rparr>"
          have t: "txn_step s s5"
            by (rule txn_step_trans [OF 1(2) txn_step_trans [OF 2(2) txn_step_trans [OF 3(2) txn_step_trans [OF 4(2) 5(2)]]]])
          note M = fs_more [OF txn_stepD(6) [OF t]]
          note G = grow_entry [OF D(5) bf(1-3) L(4) j ai z]
          have B: "blks s5 = (blks s)(bm s := set_taken b (blks s (bm s)), b := \<lambda>_. 0, ?ai := put32 (4 * j) (of_nat b) (blks s ?ai))"
            "lgd s5 = insert ?ai (insert b (insert (bm s) (lgd s)))" "lkd s5 = lkd s"
            using ne 1(3) by (simp_all add: 5(3) 4(3) 3(3) 2(3) 1(5) M1 fun_upd_idem)
          have g: "grew i s s5"
          proof (rule grewI [OF s(1) 5(1) txn_fs_step [OF t] B(3), where f = "addrs ?ip"])
            show "icache s5 i = ?ip\<lparr>addrs := addrs ?ip\<rparr>" by (simp add: M)
          qed (unfold M(2) B(1), rule G, rule G, assumption, rule G)
          have "card (frees s) = card (frees s5) + 1"
            by (rule frees_alloc(2) [OF M(1) _ bf(4)]) (use bf(2) ne in \<open>simp add: B(1)\<close>)
          then show "Q b s5" using g G(5) [of "NDIRECT + j"] j bf(2) ai by (intro Q) (auto simp: bmap_post_def B M)
        qed
        then show "wp (ret b) (\<lambda>b. wp (seq (brelse bp) (ret b)) Q) s4" by simp
      qed
    qed
  qed
  then show "wp (bind (gets (\<lambda>s. unat (get32 (data (bufs s bp)) (4 * j)))) (\<lambda>addr.
   bind (if addr = 0 then bind (balloc ROOTDEV) (\<lambda>addr. seq (set_data bp (put32 (4 * j) (of_nat addr))) (seq (log_write bp) (ret addr)))
         else ret addr) (\<lambda>addr. seq (brelse bp) (ret addr)))) Q s1"
    using z by (simp add: 1(4))
qed

lemma wp_bmap_entry:
  fixes s :: "'a fs_st_scheme"
  assumes s: "ino_ok i s" "0 < outstanding (log s)" and j: "j < NINDIRECT" and ai: "addrs (icache s i) NDIRECT \<noteq> 0"
    and r: "int (cost s (icache s i)) + 1 < lsize (log s) - 1" "1 \<le> card (frees s)"
    and Q: "\<And>a s'. bmap_post i (NDIRECT + j) a s s' \<Longrightarrow> Q a s'"
  shows "wp (bmap_entry ROOTDEV (addrs (icache s i) NDIRECT) j) Q s"
proof (cases "get32 (blks s (addrs (icache s i) NDIRECT)) (4 * j) = 0")
  case True
  then show ?thesis by (rule wp_bmap_entry_new [OF s j ai r _ Q])
next
  case False
  note D = ino_okD [OF s(1)]
  have e: "unat (get32 (blks s (addrs (icache s i) NDIRECT)) (4 * j)) \<noteq> 0" using False by (simp add: word_unat_eq_iff)
  have "lsize (log s) \<le> int LOGSIZE" using D(1) by (simp add: log_ok_def)
  then have "room (cache_of s)" using cost_ge(2) [OF D(6), of "icache s i"] r(1) D(2) by (simp add: room_def)
  then show ?thesis
  proof (rule wp_bmap_entry_get [OF s(1) _ ai e])
    fix s' :: "'a fs_st_scheme"
    assume 2: "log_ok s'" "txn_step s s'" and c: "cache_of s' = cache_of s"
    note M = fs_more [OF txn_stepD(6) [OF 2(2)]]
    have "grew i s s'" by (rule grewI [OF s(1) 2(1) txn_fs_step [OF 2(2)], where f = "addrs (icache s i)"]) (use D in \<open>simp_all add: c M\<close>)
    moreover have "frees s' = frees s" by (simp add: frees_def c M)
    ultimately show "Q (unat (get32 (blks s (addrs (icache s i) NDIRECT)) (4 * j))) s'"
      using e ai by (intro Q) (auto simp: bmap_post_def baddr_def c M)
  qed
qed

lemma wp_bmap:
  fixes s :: "'a fs_st_scheme"
  assumes s: "ino_ok i s" "0 < outstanding (log s)" and n: "bn < MAXFILE"
    and r: "int (cost s (icache s i)) + 1 < lsize (log s) - 1" "indn (icache s i) + 1 \<le> card (frees s)"
    and Q: "\<And>a s'. bmap_post i bn a s s' \<Longrightarrow> Q a s'"
  shows "wp (bmap i bn) Q s"
proof (cases "bn < NDIRECT")
  case True
  then show ?thesis by (rule wp_bmap_direct [OF s _ r Q])
next
  case False
  note D = ino_okD [OF s(1)]
  have "wp (bmap_ind i) (\<lambda>addr. wp (bmap_entry ROOTDEV addr (bn - NDIRECT)) Q) s"
  proof (rule wp_bmap_ind [OF s])
    show "int (cost s (icache s i)) < lsize (log s) - 1" "indn (icache s i) \<le> card (frees s)" using r by simp_all
    fix s1 :: "'a fs_st_scheme"
    assume 1: "grew i s s1" "addrs (icache s1 i) NDIRECT \<noteq> 0" "lgd s1 \<subseteq> lgd s \<union> insert (bm s) (indset (icache s1 i))"
      "card (frees s) \<le> card (frees s1) + indn (icache s i)" "icache s1 i = icache s i \<or> addrs (icache s i) NDIRECT = 0"
    have g: "ino_ok i s1" "fs_step i s s1" using 1(1) by (simp_all add: grew_def)
    note F = fs_stepD [OF g(2)]
    have i1: "addrs (icache s1 i) NDIRECT = addrs (icache s i) NDIRECT \<or> addrs (icache s i) NDIRECT = 0" using 1(5) by auto
    have c: "cost s1 (icache s1 i) \<le> cost s (icache s i)" by (rule cost_step(1) [OF D(6) _ i1 1(3)]) (simp add: F)
    show "wp (bmap_entry ROOTDEV (addrs (icache s1 i) NDIRECT) (bn - NDIRECT)) Q s1"
    proof (rule wp_bmap_entry [OF g(1) _ _ 1(2)])
      show "0 < outstanding (log s1)" "bn - NDIRECT < NINDIRECT" "int (cost s1 (icache s1 i)) + 1 < lsize (log s1) - 1" "1 \<le> card (frees s1)"
        using s(2) F False n c r 1(4) by simp_all
      fix a and s2 :: "'a fs_st_scheme"
      assume 2: "bmap_post i (NDIRECT + (bn - NDIRECT)) a s1 s2"
      note P = 2 [unfolded bmap_post_def]
      have e: "addrs (icache s2 i) NDIRECT = addrs (icache s1 i) NDIRECT" using P 1(2) by auto
      have "bmap_post i bn a s s2"
        unfolding bmap_post_def
      proof (intro conjI)
        show "grew i s s2" using grew_trans [OF 1(1)] P by blast
        show "a \<noteq> 0" "baddr (blks s2) (icache s2 i) bn = a" using P False by simp_all
        show "lgd s2 \<subseteq> lgd s \<union> insert (bm s) (insert a (indset (icache s2 i)))" using P 1(3) F(5) unfolding e by auto
        show "card (frees s) + indn (icache s2 i) \<le> card (frees s2) + indn (icache s i) + 1"
          using P 1(2,4) by (simp add: indn_def e)
        show "addrs (icache s2 i) NDIRECT = addrs (icache s i) NDIRECT \<or> addrs (icache s i) NDIRECT = 0" using i1 unfolding e .
        show "baddr (blks s) (icache s i) bn \<noteq> 0 \<longrightarrow> icache s2 i = icache s i"
        proof
          assume b: "baddr (blks s) (icache s i) bn \<noteq> 0"
          then have "icache s1 i = icache s i" using 1(5) False by (auto simp: baddr_def split: if_splits)
          moreover have "only_file (sb s) (blks s) (icache s i) (blks s1) (icache s1 i)" using 1(1) by (simp add: grew_def)
          from only_fileD(5) [OF this n b] have "baddr (blks s1) (icache s1 i) bn \<noteq> 0" using b by simp
          ultimately show "icache s2 i = icache s i" using P False by simp
        qed
      qed
      then show "Q a s2" by (rule Q)
    qed
  qed
  then show ?thesis using bmap_indirect [of bn i s] False n D(4) by (simp add: wp_def bind_def split: outcome.splits)
qed

text \<open>A block the file has is found without any change, inside or outside a transaction.\<close>

lemma wp_bmap_get:
  fixes s :: "'a fs_st_scheme"
  assumes s: "ino_ok i s" "room (cache_of s)" and n: "bn < MAXFILE" "baddr (blks s) (icache s i) bn \<noteq> 0"
    and Q: "\<And>s'. log_ok s' \<Longrightarrow> txn_step s s' \<Longrightarrow> cache_of s' = cache_of s \<Longrightarrow> Q (baddr (blks s) (icache s i) bn) s'"
  shows "wp (bmap i bn) Q s"
proof (cases "bn < NDIRECT")
  case True
  then show ?thesis using n Q [OF ino_okD(1) [OF s(1)]] by (simp add: bmap_def baddr_def)
next
  case False
  then have b: "addrs (icache s i) NDIRECT \<noteq> 0" "baddr (blks s) (icache s i) bn = unat (get32 (blks s (addrs (icache s i) NDIRECT)) (4 * (bn - NDIRECT)))"
    using n by (auto simp: baddr_def split: if_splits)
  have "wp (bmap_entry ROOTDEV (addrs (icache s i) NDIRECT) (bn - NDIRECT)) Q s"
    by (rule wp_bmap_entry_get [OF s b(1)]) (use n(2) b Q in simp_all)
  then show ?thesis using bmap_indirect [of bn i s] False n b(1) ino_okD(4) [OF s(1)] by (simp add: wp_def bmap_ind_def)
qed

end
