(* ===== verification/Fdata.thy ===== *)
theory Fdata
  imports Inode
begin

text \<open>
  The contents of files (\<open>readi\<close>, \<open>writei\<close>, \<open>iupdate\<close> of src/fs.c): on the list of bytes \<open>fdata\<close> of the file
  they are list operations, whatever blocks the file is in, and they leave every other file as it is.
\<close>

section \<open>Reading\<close>

lemma wp_look_then:
  fixes s :: "'a log_st_scheme"
  assumes s: "log_ok s" and b: "b \<notin> ran (lkd s)" "b < FSSIZE" "room (cache_of s) \<or> b \<in> lgd s"
    and Q: "\<And>s'. \<lbrakk>log_ok s'; txn_step s s'; cache_of s' = cache_of s\<rbrakk> \<Longrightarrow> wp (f (blks s b)) Q s'"
  shows "wp (bind (bread ROOTDEV b) (\<lambda>i. bind (gets (\<lambda>s. data (bufs s i))) (\<lambda>d. seq (brelse i) (f d)))) Q s"
proof (rule wp_bindI, rule wp_bread_txn [OF s b])
  fix i and s1 :: "'a log_st_scheme"
  assume 1: "log_ok s1" "txn_step s s1" "lkd s i = None" "data (bufs s1 i) = blks s b" "cache_of s1 = (cache_of s)\<lparr>c_lock := (lkd s)(i \<mapsto> b)\<rparr>"
  have i1: "lkd s1 i = Some b" "b \<in> lgd s1 \<or> blks s1 b = c_disk (cache_of s1) b"
    using clean_or_logged [OF s b(1)] by (simp_all add: 1(5))
  have "wp (brelse i) (\<lambda>_. wp (f (blks s b)) Q) s1"
  proof (rule wp_brelse_txn [OF 1(1) i1])
    fix s2 :: "'a log_st_scheme"
    assume 2: "log_ok s2" "txn_step s1 s2" "cache_of s2 = (cache_of s1)\<lparr>c_lock := (lkd s1)(i := None)\<rparr>"
    show "wp (f (blks s b)) Q s2"
      using 1(3) by (intro Q [OF 2(1) txn_step_trans [OF 1(2) 2(2)]]) (simp add: 2(3) 1(5) fun_upd_idem)
  qed
  then show "wp (bind (gets (\<lambda>s. data (bufs s i))) (\<lambda>d. seq (brelse i) (f d))) Q s1" by (simp add: 1(4))
qed

lemma block_offset:
  fixes off :: nat
  assumes "off mod BSIZE + k < BSIZE"
  shows "(off + k) div BSIZE = off div BSIZE" "(off + k) mod BSIZE = off mod BSIZE + k"
proof -
  obtain q r where o: "off = BSIZE * q + r" "r < BSIZE" by (metis mod_less_divisor mult_div_mod_eq zero_less_numeral)
  then have "r + k < BSIZE" using assms by simp
  then show "(off + k) div BSIZE = off div BSIZE" "(off + k) mod BSIZE = off mod BSIZE + k"
    using o by (simp_all add: add.assoc)
qed

lemma ino_ok_same:
  assumes "ino_ok i s" "log_ok s'" "txn_step s s'" "cache_of s' = cache_of s"
  shows "ino_ok i s'" "icache s' = icache s" "sb s' = sb s"
proof -
  note M = fs_more [OF txn_stepD(6) [OF assms(3)]]
  show "icache s' = icache s" "sb s' = sb s" by (rule M)+
  have "layout s'" by (rule layout_step [OF ino_okD(3) [OF assms(1)] txn_fs_step [OF assms(3)]]) (simp add: assms(4))
  then show "ino_ok i s'" using assms M by (simp add: ino_ok_def)
qed

lemma file_block:
  assumes "ino_ok i s" "bn < MAXFILE" "baddr (blks s) (icache s i) bn \<noteq> 0"
  shows "baddr (blks s) (icache s i) bn < FSSIZE" "home (log s) (baddr (blks s) (icache s i) bn)"
    "bm s < baddr (blks s) (icache s i) bn"
proof -
  note D = ino_okD [OF assms(1)]
  have a: "bm s < baddr (blks s) (icache s i) bn" "baddr (blks s) (icache s i) bn < sb_size (sb s)"
    using D(5) baddr_fblocks [OF assms(2,3)] by (auto simp: good_file_def)
  show "baddr (blks s) (icache s i) bn < FSSIZE" "home (log s) (baddr (blks s) (icache s i) bn)" "bm s < baddr (blks s) (icache s i) bn"
    using a layoutD(6) [OF D(3) a(2,1)] by auto
qed

lemma splice_0 [simp]: "splice dst t d j 0 = dst"
  by (auto simp: splice_def fun_eq_iff)

lemma splice_splice:
  assumes "\<And>k. k < m \<Longrightarrow> d (j + k) = F k"
  shows "splice (splice dst t d j m) (t + m) (\<lambda>k. F (m + k)) 0 n = splice dst t F 0 (m + n)"
proof
  fix k
  consider "k < t" | "t \<le> k" "k < t + m" | "t + m \<le> k" by linarith
  then show "splice (splice dst t d j m) (t + m) (\<lambda>k. F (m + k)) 0 n k = splice dst t F 0 (m + n) k"
  proof cases
    case 2
    then have "d (j + (k - t)) = F (k - t)" by (intro assms) simp
    then show ?thesis using 2 by (simp add: splice_def)
  next
    case 3
    then have "m + (k - (t + m)) = k - t" by simp
    then show ?thesis using 3 by (simp add: splice_def)
  qed (simp add: splice_def)
qed

lemma wp_readi_loop:
  fixes s :: "'a fs_st_scheme"
  assumes "ino_ok i s" "room (cache_of s)" "tot \<le> n" "off + (n - tot) \<le> isize (icache s i)"
    and "\<And>s'. \<lbrakk>log_ok s'; txn_step s s'; cache_of s' = cache_of s\<rbrakk> \<Longrightarrow> Q (splice dst tot (\<lambda>k. fbyte (blks s) (icache s i) (off + k)) 0 (n - tot)) s'"
  shows "wp (readi_loop i off n tot dst) Q s"
  using assms
proof (induction i off n tot dst arbitrary: s rule: readi_loop.induct)
  case (1 i off n tot dst)
  note Q = "1.prems"(5) and D = ino_okD [OF "1.prems"(1)]
  show ?case
  proof (cases "tot < n")
    case False
    then have "Q dst s" using Q [of s] D(1) "1.prems"(3) by simp
    then show ?thesis using False by (subst readi_loop.simps) simp
  next
    case True
    define m where "m = min (n - tot) (BSIZE - off mod BSIZE)"
    let ?ip = "icache s i" and ?bn = "off div BSIZE"
    have m: "0 < m" "tot + m \<le> n" "off mod BSIZE + m \<le> BSIZE" using True mod_less_divisor [of BSIZE off] by (auto simp: m_def)
    have o: "off < isize ?ip" "isize ?ip \<le> MAXFILE * BSIZE" using "1.prems"(4) True D(5) by (simp_all add: good_file_def)
    have bn: "?bn < MAXFILE" using o by (simp add: less_mult_imp_div_less)
    have "?bn * BSIZE < isize ?ip" using o(1) by (metis div_times_less_eq_dividend le_less_trans)
    then have nz: "baddr (blks s) ?ip ?bn \<noteq> 0" using D(5) by (simp add: good_file_def)
    have "wp (bmap i ?bn) (\<lambda>b. wp (bind (bread ROOTDEV b) (\<lambda>bp. bind (gets (\<lambda>s. data (bufs s bp))) (\<lambda>dat. seq (brelse bp)
      (readi_loop i (off + m) n (tot + m) (splice dst tot dat (off mod BSIZE) m))))) Q) s"
    proof (rule wp_bmap_get [OF "1.prems"(1,2) bn nz], rule wp_look_then)
      fix s1 :: "'a fs_st_scheme"
      assume 1: "log_ok s1" "txn_step s s1" "cache_of s1 = cache_of s"
      show "log_ok s1" "baddr (blks s) ?ip ?bn \<notin> ran (lkd s1)" "baddr (blks s) ?ip ?bn < FSSIZE" "room (cache_of s1) \<or> baddr (blks s) ?ip ?bn \<in> lgd s1"
        using 1 D(2) file_block(1) [OF "1.prems"(1) bn nz] "1.prems"(2) by simp_all
      fix s2 :: "'a fs_st_scheme"
      assume 2: "log_ok s2" "txn_step s1 s2" "cache_of s2 = cache_of s1"
      have t: "txn_step s s2" "cache_of s2 = cache_of s" using txn_step_trans [OF 1(2) 2(2)] 1(3) 2(3) by simp_all
      note S = ino_ok_same [OF "1.prems"(1) 2(1) t]
      let ?dat = "blks s1 (baddr (blks s) ?ip ?bn)"
      have dat: "?dat (off mod BSIZE + k) = fbyte (blks s) ?ip (off + k)" if "k < m" for k
        using block_offset [of off k] that m(3) nz by (simp add: fbyte_def 1(3))
      show "wp (readi_loop i (off + m) n (tot + m) (splice dst tot ?dat (off mod BSIZE) m)) Q s2"
        unfolding m_def
      proof (rule "1.IH" [OF True refl], unfold m_def [symmetric])
        show "ino_ok i s2" "room (cache_of s2)" "tot + m \<le> n" "off + m + (n - (tot + m)) \<le> isize (icache s2 i)"
          using S t "1.prems" m by simp_all
        fix s3 :: "'a fs_st_scheme"
        assume 3: "log_ok s3" "txn_step s2 s3" "cache_of s3 = cache_of s2"
        have "splice (splice dst tot ?dat (off mod BSIZE) m) (tot + m) (\<lambda>k. fbyte (blks s2) (icache s2 i) (off + m + k)) 0 (n - (tot + m))
          = splice dst tot (\<lambda>k. fbyte (blks s) ?ip (off + k)) 0 (n - tot)"
          using splice_splice [where F = "\<lambda>k. fbyte (blks s) ?ip (off + k)", OF dat, where n = "n - (tot + m)"] m(2)
          by (simp add: t(2) S add.assoc)
        then show "Q (splice (splice dst tot ?dat (off mod BSIZE) m) (tot + m) (\<lambda>k. fbyte (blks s2) (icache s2 i) (off + m + k)) 0 (n - (tot + m))) s3"
          using Q [OF 3(1) txn_step_trans [OF t(1) 3(2)]] 3(3) t(2) by simp
      qed
    qed
    then show ?thesis using True D(4) by (subst readi_loop.simps) (simp add: m_def Let_def)
  qed
qed

section \<open>Writing\<close>

text \<open>New contents for a block of the file.\<close>

lemma write_block:
  assumes g: "good_file sp B ip" and n: "bn < MAXFILE" "baddr B ip bn \<noteq> 0" and B': "B' = B(baddr B ip bn := x)"
  shows "baddr B' ip = baddr B ip" "good_file sp B' ip" "only_file sp B ip B' ip" "taken B' (sb_bmapstart sp) = taken B (sb_bmapstart sp)"
    "k < MAXFILE * BSIZE \<Longrightarrow> fbyte B' ip k = (if k div BSIZE = bn then x (k mod BSIZE) else fbyte B ip k)"
proof -
  let ?a = "baddr B ip bn"
  have G: "\<And>a. a \<in> fblocks B ip \<Longrightarrow> sb_bmapstart sp < a" "inj_on (baddr B ip) {bn. bn < MAXFILE \<and> baddr B ip bn \<noteq> 0}" "?a \<noteq> addrs ip NDIRECT"
    using g n by (simp_all add: good_file_def)
  have a: "?a \<in> fblocks B ip" by (rule baddr_fblocks [OF n])
  have "B' (addrs ip NDIRECT) = B (addrs ip NDIRECT)" using G(3) B' by simp
  then show b: "baddr B' ip = baddr B ip" by (intro ext) (simp add: baddr_def)
  then have f: "fblocks B' ip = fblocks B ip" by (simp add: fblocks_def)
  show t: "taken B' (sb_bmapstart sp) = taken B (sb_bmapstart sp)" using G(1) [OF a] by (simp add: B' fun_eq_iff)
  show "good_file sp B' ip" using g unfolding good_file_def b f t .
  show "only_file sp B ip B' ip" unfolding only_file_def Let_def b f t using a by (auto simp: B')
  assume "k < MAXFILE * BSIZE"
  then have k: "k div BSIZE < MAXFILE" by (simp add: less_mult_imp_div_less)
  have "k div BSIZE = bn" if "baddr B ip (k div BSIZE) = ?a" using inj_onD [OF G(2) that] k n that by simp
  then show "fbyte B' ip k = (if k div BSIZE = bn then x (k mod BSIZE) else fbyte B ip k)"
    unfolding fbyte_def b Let_def using n(2) by (cases "k div BSIZE = bn") (auto simp: B')
qed

text \<open>Bytes of one block are replaced.\<close>

lemma write_bytes:
  assumes g: "good_file sp B ip" and n: "off div BSIZE < MAXFILE" "baddr B ip (off div BSIZE) = a" "a \<noteq> 0" "off mod BSIZE + m \<le> BSIZE"
    and k: "k < MAXFILE * BSIZE"
  shows "fbyte (B(a := splice (B a) (off mod BSIZE) src tot m)) ip k = (if off \<le> k \<and> k < off + m then src (tot + (k - off)) else fbyte B ip k)"
proof -
  note W = write_block(5) [OF g n(1), unfolded n(2), OF n(3) refl k, of "splice (B a) (off mod BSIZE) src tot m"]
  show ?thesis
  proof (cases "k div BSIZE = off div BSIZE")
    case False
    have "\<not> (off \<le> k \<and> k < off + m)"
    proof
      assume "off \<le> k \<and> k < off + m"
      then obtain j where "k = off + j" "j < m" by (auto simp: le_iff_add)
      then show False using block_offset(1) [of off j] False n(4) by simp
    qed
    then have "(if off \<le> k \<and> k < off + m then src (tot + (k - off)) else fbyte B ip k) = fbyte B ip k" by (rule if_not_P)
    then show ?thesis using False W by simp
  next
    case True
    have kq: "k = BSIZE * (off div BSIZE) + k mod BSIZE" "off = BSIZE * (off div BSIZE) + off mod BSIZE" using True by (metis mult_div_mod_eq, simp)
    have "off \<le> k \<and> k < off + m \<longleftrightarrow> off mod BSIZE \<le> k mod BSIZE \<and> k mod BSIZE < off mod BSIZE + m" "k - off = k mod BSIZE - off mod BSIZE"
      using kq by linarith+
    moreover have "fbyte B ip k = B a (k mod BSIZE)" using True n by (simp add: fbyte_def)
    ultimately show ?thesis using True W by (simp add: splice_def)
  qed
qed

text \<open>The number of blocks that \<open>n\<close> bytes from \<open>off\<close> touch.\<close>

definition nblks :: "nat \<Rightarrow> nat \<Rightarrow> nat" where
  "nblks off n = (if n = 0 then 0 else (off mod BSIZE + n + BSIZE - 1) div BSIZE)"

lemma nblks_step:
  assumes "0 < n" "m = min n (BSIZE - off mod BSIZE)"
  shows "nblks (off + m) (n - m) + 1 \<le> nblks off n"
proof (cases "n \<le> BSIZE - off mod BSIZE")
  case True
  have "1 * BSIZE \<le> off mod BSIZE + n + BSIZE - 1" using assms(1) by simp
  then have "1 \<le> (off mod BSIZE + n + BSIZE - 1) div BSIZE" by (subst less_eq_div_iff_mult_less_eq) simp_all
  then show ?thesis using True assms by (simp add: nblks_def)
next
  case False
  then have m: "m = BSIZE - off mod BSIZE" using assms(2) by simp
  have "(off + m) mod BSIZE = 0"
  proof -
    have "off + m = BSIZE * (off div BSIZE) + BSIZE"
      using mult_div_mod_eq [of BSIZE off] mod_less_divisor [of BSIZE off] unfolding m by linarith
    then show ?thesis by simp
  qed
  moreover have "off mod BSIZE + n + BSIZE - 1 = (n - m + BSIZE - 1) + BSIZE"
    using False mod_less_divisor [of BSIZE off] unfolding m by linarith
  then have "(off mod BSIZE + n + BSIZE - 1) div BSIZE = (n - m + BSIZE - 1) div BSIZE + 1" by (simp del: diff_Suc_1)
  ultimately show ?thesis using False m by (auto simp: nblks_def)
qed

text \<open>The file after \<open>n\<close> bytes were written to it at \<open>off\<close>, its size apart.\<close>

definition wrote :: "nat \<Rightarrow> nat \<Rightarrow> nat \<Rightarrow> (nat \<Rightarrow> u8) \<Rightarrow> 'a fs_st_scheme \<Rightarrow> 'a fs_st_scheme \<Rightarrow> bool" where
  "wrote i off n F s s' \<longleftrightarrow> ino_ok i s' \<and> fs_step i s s' \<and> (\<exists>f. icache s' i = (icache s i)\<lparr>addrs := f\<rparr>)
     \<and> only_file (sb s) (blks s) (icache s i) (blks s') (icache s' i)
     \<and> (\<forall>k < MAXFILE * BSIZE. fbyte (blks s') (icache s' i) k
          = (if off \<le> k \<and> k < off + n then F (k - off) else fbyte (blks s) (icache s i) k))
     \<and> (\<forall>k. off \<le> k \<and> k < off + n \<longrightarrow> baddr (blks s') (icache s' i) (k div BSIZE) \<noteq> 0)
     \<and> ((\<forall>k. off \<le> k \<and> k < off + n \<longrightarrow> baddr (blks s) (icache s i) (k div BSIZE) \<noteq> 0) \<longrightarrow> icache s' i = icache s i)"

lemma wroteD:
  assumes "wrote i off n F s s'"
  shows "ino_ok i s'" "fs_step i s s'" "only_file (sb s) (blks s) (icache s i) (blks s') (icache s' i)" "isize (icache s' i) = isize (icache s i)"
    "k < MAXFILE * BSIZE \<Longrightarrow> fbyte (blks s') (icache s' i) k = (if off \<le> k \<and> k < off + n then F (k - off) else fbyte (blks s) (icache s i) k)"
    "off \<le> k \<Longrightarrow> k < off + n \<Longrightarrow> baddr (blks s') (icache s' i) (k div BSIZE) \<noteq> 0" "\<exists>f. icache s' i = (icache s i)\<lparr>addrs := f\<rparr>"
    "(\<And>k. off \<le> k \<Longrightarrow> k < off + n \<Longrightarrow> baddr (blks s) (icache s i) (k div BSIZE) \<noteq> 0) \<Longrightarrow> icache s' i = icache s i"
  using assms unfolding wrote_def by auto

lemma wrote_trans:
  assumes "wrote i off m F s s'" "wrote i (off + m) n (\<lambda>k. F (m + k)) s' s''" "off + m + n \<le> MAXFILE * BSIZE"
  shows "wrote i off (m + n) F s s''"
proof -
  note 1 = wroteD [OF assms(1)] and 2 = wroteD [OF assms(2)]
  have e: "sb s' = sb s" using fs_stepD(5) [OF 1(2)] .
  have "\<exists>f. icache s'' i = (icache s i)\<lparr>addrs := f\<rparr>" using 1(7) 2(7) by auto
  moreover have "only_file (sb s) (blks s) (icache s i) (blks s'') (icache s'' i)"
    using only_file_trans [OF 1(3)] 2(3) by (simp add: e)
  moreover have "fbyte (blks s'') (icache s'' i) k = (if off \<le> k \<and> k < off + (m + n) then F (k - off) else fbyte (blks s) (icache s i) k)"
    if "k < MAXFILE * BSIZE" for k
    using 1(5) [OF that] 2(5) [OF that] by (auto simp: not_less)
  moreover have "baddr (blks s'') (icache s'' i) (k div BSIZE) \<noteq> 0" if "off \<le> k" "k < off + (m + n)" for k
  proof (cases "k < off + m")
    case True
    then have "baddr (blks s') (icache s' i) (k div BSIZE) \<noteq> 0" "k div BSIZE < MAXFILE"
      using 1(6) that assms(3) by (simp_all add: less_mult_imp_div_less)
    then show ?thesis using only_fileD(5) [OF 2(3)] by simp
  qed (use 2(6) that in simp)
  moreover have "icache s'' i = icache s i" if "\<forall>k. off \<le> k \<and> k < off + (m + n) \<longrightarrow> baddr (blks s) (icache s i) (k div BSIZE) \<noteq> 0"
  proof -
    have "icache s' i = icache s i" by (rule 1(8)) (use that in simp)
    moreover have "icache s'' i = icache s' i"
    proof (rule 2(8))
      fix k
      assume "off + m \<le> k" "k < off + m + n"
      then have "baddr (blks s) (icache s i) (k div BSIZE) \<noteq> 0" "k div BSIZE < MAXFILE"
        using that assms(3) by (simp_all add: less_mult_imp_div_less)
      then show "baddr (blks s') (icache s' i) (k div BSIZE) \<noteq> 0" using only_fileD(5) [OF 1(3)] by simp
    qed
    ultimately show ?thesis by simp
  qed
  ultimately show ?thesis unfolding wrote_def using 2(1) fs_step_trans [OF 1(2) 2(2)] by auto
qed

text \<open>One round of the loop: the block is found or allocated, changed and logged.\<close>

lemma wp_write_one:
  fixes s :: "'a fs_st_scheme"
  assumes s: "ino_ok i s" "0 < outstanding (log s)" and m: "off mod BSIZE + m \<le> BSIZE" "off + m \<le> MAXFILE * BSIZE" "0 < m"
    and r: "int (cost s (icache s i)) + 1 < lsize (log s) - 1" "indn (icache s i) + 1 \<le> card (frees s)"
    and Q: "\<And>s'. \<lbrakk>wrote i off m (\<lambda>k. src (tot + k)) s s'; cost s' (icache s' i) \<le> cost s (icache s i) + 1;
      card (frees s) + indn (icache s' i) \<le> card (frees s') + indn (icache s i) + 1\<rbrakk> \<Longrightarrow> wp rest Q s'"
  shows "wp (bind (bmap i (off div BSIZE)) (\<lambda>b. bind (bread ROOTDEV b) (\<lambda>bp. seq (set_data bp (\<lambda>dat. splice dat (off mod BSIZE) src tot m))
    (seq (log_write bp) (seq (brelse bp) rest))))) Q s"
proof -
  let ?bn = "off div BSIZE"
  have bn: "?bn < MAXFILE" using m(2,3) by (simp add: less_mult_imp_div_less)
  show ?thesis
  proof (rule wp_bindI, rule wp_bmap [OF s bn r], rule wp_bindI, rule wp_bread_txn)
    fix a and s1 :: "'a fs_st_scheme"
    assume "bmap_post i ?bn a s s1"
    note P = this [unfolded bmap_post_def]
    have g: "grew i s s1" "a \<noteq> 0" "baddr (blks s1) (icache s1 i) ?bn = a" "lgd s1 \<subseteq> lgd s \<union> insert (bm s) (insert a (indset (icache s1 i)))"
      "card (frees s) + indn (icache s1 i) \<le> card (frees s1) + indn (icache s i) + 1"
      "addrs (icache s1 i) NDIRECT = addrs (icache s i) NDIRECT \<or> addrs (icache s i) NDIRECT = 0"
      "baddr (blks s) (icache s i) ?bn \<noteq> 0 \<longrightarrow> icache s1 i = icache s i"
      using P by meson+
    have k: "ino_ok i s1" "fs_step i s s1" "\<exists>f. icache s1 i = (icache s i)\<lparr>addrs := f\<rparr>"
      "only_file (sb s) (blks s) (icache s i) (blks s1) (icache s1 i)" using g(1) by (simp_all add: grew_def)
    have fb: "\<And>k. k < MAXFILE * BSIZE \<Longrightarrow> fbyte (blks s1) (icache s1 i) k = fbyte (blks s) (icache s i) k" using g(1) by (simp add: grew_def)
    note D = ino_okD [OF s(1)] and D1 = ino_okD [OF k(1)] and F = fs_stepD [OF k(2)]
    have c: "cost s1 (icache s1 i) \<le> cost s (icache s i) + 1" by (rule cost_step(2) [OF D(6) _ g(6,4)]) (simp add: F)
    have nz: "baddr (blks s1) (icache s1 i) ?bn \<noteq> 0" using g(2,3) by simp
    note A = file_block [OF k(1) bn nz, unfolded g(3)]
    have lz: "lsize (log s1) \<le> int LOGSIZE" using D1(1) by (simp add: log_ok_def)
    have cl: "int (card (lgd s1)) < lsize (log s1) - 1" using cost_ge(2) [OF D1(6), of "icache s1 i"] c r(1) F(2) by simp
    show "log_ok s1" "a \<notin> ran (lkd s1)" "a < FSSIZE" "room (cache_of s1) \<or> a \<in> lgd s1" using D1 A cl lz by (simp_all add: room_def)
    fix bp and s2 :: "'a fs_st_scheme"
    assume 2: "log_ok s2" "txn_step s1 s2" "lkd s1 bp = None" "cache_of s2 = (cache_of s1)\<lparr>c_lock := (lkd s1)(bp \<mapsto> a)\<rparr>"
    note T = txn_stepD [OF 2(2)]
    show "wp (seq (set_data bp (\<lambda>dat. splice dat (off mod BSIZE) src tot m)) (seq (log_write bp) (seq (brelse bp) rest))) Q s2"
    proof (rule wp_put_txn [OF 2(1), where b = a])
      show "lkd s2 bp = Some a" "home (log s2) a" "int (card (lgd s2)) < lsize (log s2) - 1" "0 < outstanding (log s2)"
        using A cl s(2) T F by (simp_all add: 2(4))
      fix s3 :: "'a fs_st_scheme"
      assume 3: "log_ok s3" "txn_step s2 s3" "cache_of s3 = (cache_of s2)\<lparr>c_blk := (blks s2)(a := splice (blks s2 a) (off mod BSIZE) src tot m),
        c_lock := (lkd s2)(bp := None), c_dirty := insert a (lgd s2)\<rparr>"
      have t: "txn_step s1 s3" by (rule txn_step_trans [OF 2(2) 3(2)])
      note M = fs_more [OF txn_stepD(6) [OF t]]
      let ?x = "splice (blks s1 a) (off mod BSIZE) src tot m"
      have B: "blks s3 = (blks s1)(a := ?x)" "lgd s3 = insert a (lgd s1)" "lkd s3 = lkd s1"
        using 2(3) by (simp_all add: 3(3) 2(4) fun_upd_idem)
      note W = write_block [OF D1(5) bn nz, unfolded g(3), OF B(1)]
      have f3: "fs_step i s s3" by (rule fs_step_trans [OF k(2) txn_fs_step [OF t]])
      have "layout s3" by (rule layout_step [OF D1(3) txn_fs_step [OF t]]) (simp add: W(4))
      then have ok: "ino_ok i s3" using 3(1) D1(2,4) W(2) by (simp add: ino_ok_def unlocked_def B(3) M)
      have "wrote i off m (\<lambda>k. src (tot + k)) s s3"
        unfolding wrote_def
      proof (intro conjI allI impI)
        show "ino_ok i s3" "fs_step i s s3" by (rule ok, rule f3)
        show "\<exists>f. icache s3 i = (icache s i)\<lparr>addrs := f\<rparr>" using k(3) by (simp add: M)
        show "only_file (sb s) (blks s) (icache s i) (blks s3) (icache s3 i)" using only_file_trans [OF k(4)] W(3) F(5) by (simp add: M)
        show "fbyte (blks s3) (icache s3 i) k = (if off \<le> k \<and> k < off + m then src (tot + (k - off)) else fbyte (blks s) (icache s i) k)"
          if kk: "k < MAXFILE * BSIZE" for k
          using write_bytes [OF D1(5) bn g(3,2) m(1) kk, of src tot] fb [OF kk] by (simp add: M(2) B(1))
        show "baddr (blks s3) (icache s3 i) (k div BSIZE) \<noteq> 0" if kk: "off \<le> k \<and> k < off + m" for k
        proof -
          obtain j where "k = off + j" "j < m" using kk by (auto simp: le_iff_add)
          then show ?thesis using block_offset(1) [of off j] m(1) nz by (simp add: M(2) W(1))
        qed
        show "icache s3 i = icache s i" if "\<forall>k. off \<le> k \<and> k < off + m \<longrightarrow> baddr (blks s) (icache s i) (k div BSIZE) \<noteq> 0"
          using g(7) that m(3) by (simp add: M(2))
      qed
      moreover have "cost s3 (icache s3 i) \<le> cost s (icache s i) + 1"
        by (rule cost_step(2) [OF D(6)]) (use g(4,6) F(5) in \<open>auto simp: M B(2)\<close>)
      moreover have "frees s3 = frees s1" using W(4) by (simp add: frees_def M)
      ultimately show "wp rest Q s3" using g(5) by (intro Q) (simp_all add: M)
    qed
  qed
qed

lemma wp_writei_loop:
  fixes s :: "'a fs_st_scheme"
  assumes "ino_ok i s" "0 < outstanding (log s)" "tot \<le> n" "off + (n - tot) \<le> MAXFILE * BSIZE"
    and "int (cost s (icache s i) + nblks off (n - tot)) < lsize (log s) - 1" "indn (icache s i) + nblks off (n - tot) \<le> card (frees s)"
    and "\<And>s'. \<lbrakk>wrote i off (n - tot) (\<lambda>k. src (tot + k)) s s'; int (cost s' (icache s' i)) < lsize (log s) - 1\<rbrakk> \<Longrightarrow> Q () s'"
  shows "wp (writei_loop i off n tot src) Q s"
  using assms
proof (induction i off n tot src arbitrary: s rule: writei_loop.induct)
  case (1 i off n tot src)
  note Q = "1.prems"(7) and D = ino_okD [OF "1.prems"(1)]
  show ?case
  proof (cases "tot < n")
    case False
    have "wrote i off 0 (\<lambda>k. src (tot + k)) s s"
      using grew_refl [OF "1.prems"(1)] by (auto simp: wrote_def grew_def)
    then have "Q () s" using False "1.prems"(3,5) by (intro Q) simp_all
    then show ?thesis using False by (subst writei_loop.simps) simp
  next
    case True
    define m where "m = min (n - tot) (BSIZE - off mod BSIZE)"
    have m: "0 < m" "tot + m \<le> n" "off mod BSIZE + m \<le> BSIZE" using True mod_less_divisor [of BSIZE off] by (auto simp: m_def)
    have nb: "nblks (off + m) (n - tot - m) + 1 \<le> nblks off (n - tot)" by (rule nblks_step) (use True m_def in auto)
    have "wp (bind (bmap i (off div BSIZE)) (\<lambda>b. bind (bread ROOTDEV b) (\<lambda>bp. seq (set_data bp (\<lambda>dat. splice dat (off mod BSIZE) src tot m))
      (seq (log_write bp) (seq (brelse bp) (writei_loop i (off + m) n (tot + m) src)))))) Q s"
    proof (rule wp_write_one [OF "1.prems"(1,2) m(3) _ m(1)])
      show "off + m \<le> MAXFILE * BSIZE" using "1.prems"(4) m(2) by simp
      show "int (cost s (icache s i)) + 1 < lsize (log s) - 1" "indn (icache s i) + 1 \<le> card (frees s)" using "1.prems"(5,6) nb by simp_all
      fix s1 :: "'a fs_st_scheme"
      assume 1: "wrote i off m (\<lambda>k. src (tot + k)) s s1" "cost s1 (icache s1 i) \<le> cost s (icache s i) + 1"
        "card (frees s) + indn (icache s1 i) \<le> card (frees s1) + indn (icache s i) + 1"
      note W = wroteD [OF 1(1)]
      note F = fs_stepD [OF W(2)]
      show "wp (writei_loop i (off + m) n (tot + m) src) Q s1"
        unfolding m_def
      proof (rule "1.IH" [OF True refl], unfold m_def [symmetric])
        have e: "n - (tot + m) = n - tot - m" by simp
        show "ino_ok i s1" "0 < outstanding (log s1)" "tot + m \<le> n" "off + m + (n - (tot + m)) \<le> MAXFILE * BSIZE"
          "int (cost s1 (icache s1 i) + nblks (off + m) (n - (tot + m))) < lsize (log s1) - 1"
          "indn (icache s1 i) + nblks (off + m) (n - (tot + m)) \<le> card (frees s1)"
          using W(1) F "1.prems" m(2) 1(2,3) nb unfolding e by simp_all
        fix s2 :: "'a fs_st_scheme"
        assume 2: "wrote i (off + m) (n - (tot + m)) (\<lambda>k. src (tot + m + k)) s1 s2" "int (cost s2 (icache s2 i)) < lsize (log s1) - 1"
        have "wrote i off (m + (n - (tot + m))) (\<lambda>k. src (tot + k)) s s2"
          by (rule wrote_trans [OF 1(1)]) (use 2(1) "1.prems"(4) m(2) in \<open>simp_all add: add.assoc\<close>)
        then show "Q () s2" using 2(2) F(2) m(2) by (intro Q) simp_all
      qed
    qed
    then show ?thesis using True D(4) by (subst writei_loop.simps) (simp add: m_def Let_def)
  qed
qed

section \<open>The inode on disk\<close>

lemma get_put_addrs:
  assumes "\<And>j. j < n \<Longrightarrow> f j < 2 ^ 32"
  shows "j < n \<Longrightarrow> unat (get32 (put_addrs p f n d) (p + 4 * j)) = f j" "k < p \<or> p + 4 * n \<le> k \<Longrightarrow> put_addrs p f n d k = d k"
proof -
  show "unat (get32 (put_addrs p f n d) (p + 4 * j)) = f j" if "j < n"
    using that assms
  proof (induction n)
    case (Suc n)
    then show ?case by (cases "j = n") auto
  qed simp
  show "put_addrs p f n d k = d k" if "k < p \<or> p + 4 * n \<le> k" using that by (induction n) auto
qed

text \<open>The \<open>struct dinode\<close> that an inode in the cache is written to.\<close>

definition dino :: "inode \<Rightarrow> dinode" where
  "dino ip = \<lparr>d_type = itype ip, d_major = imajor ip, d_minor = iminor ip, d_nlink = nlink ip, d_size = isize ip,
     d_addrs = (\<lambda>j. if j \<le> NDIRECT then addrs ip j else 0)\<rparr>"

definition synced :: "nat \<Rightarrow> 'a fs_st_scheme \<Rightarrow> bool" where
  "synced i s \<longleftrightarrow> get_dinode (blks s (IBLOCK (inum (icache s i)) (sb s))) (64 * (inum (icache s i) mod IPB)) = dino (icache s i)"

lemma get_put_inode:
  assumes "isize ip < 2 ^ 32" "\<And>j. j \<le> NDIRECT \<Longrightarrow> addrs ip j < 2 ^ 32"
  shows "get_dinode (put_inode p ip d) p = dino ip" "k < p \<or> p + 64 \<le> k \<Longrightarrow> put_inode p ip d k = d k"
proof -
  have b: "addrs ip j < 2 ^ 32" if "j < NDIRECT + 1" for j using assms(2) that by simp
  note P = get_put_addrs [where n = "NDIRECT + 1" and f = "addrs ip", OF b]
  let ?d = "put32 (p + 8) (of_nat (isize ip)) (put16 (p + 6) (nlink ip) (put16 (p + 4) (iminor ip) (put16 (p + 2) (imajor ip) (put16 p (itype ip) d))))"
  have o: "put_inode p ip d k = ?d k" if "k < p + 12 \<or> p + 64 \<le> k" for k unfolding put_inode_def by (rule P(2)) (use that in auto)
  have a: "unat (get32 (put_inode p ip d) (p + 12 + 4 * j)) = addrs ip j" if "j \<le> NDIRECT" for j
    using P(1) [where j = j and p = "p + 12" and d = ?d] that by (simp add: put_inode_def)
  have "get32 (put_inode p ip d) (p + 8) = get32 ?d (p + 8)" by (rule get32_cong) (simp add: o)
  then have z: "unat (get32 (put_inode p ip d) (p + 8)) = isize ip" using assms(1) by simp
  have h: "get16 (put_inode p ip d) (p + j) = get16 ?d (p + j)" if "j \<le> 10" for j by (rule get16_cong) (use that in \<open>simp_all add: o\<close>)
  show "get_dinode (put_inode p ip d) p = dino ip"
    using h [of 0] h [of 2] h [of 4] h [of 6] by (simp add: get_dinode_def dino_def z a fun_eq_iff)
  show "put_inode p ip d k = d k" if "k < p \<or> p + 64 \<le> k" using o [of k] that by auto
qed

lemma seq_skip: "seq m skip = m"
  by (rule ext) (auto simp: seq_def bind_def split: outcome.splits)

lemma wp_iupdate:
  fixes s :: "'a fs_st_scheme"
  assumes s: "ino_ok i s" "inum (icache s i) < sb_ninodes (sb s)" "0 < outstanding (log s)" and l: "int (card (lgd s)) < lsize (log s) - 1"
    and Q: "\<And>s'. \<lbrakk>log_ok s'; txn_step s s'; cache_of s' = (cache_of s)\<lparr>
      c_blk := (blks s)(IBLOCK (inum (icache s i)) (sb s) := put_inode (64 * (inum (icache s i) mod IPB)) (icache s i) (blks s (IBLOCK (inum (icache s i)) (sb s)))),
      c_dirty := insert (IBLOCK (inum (icache s i)) (sb s)) (lgd s)\<rparr>\<rbrakk> \<Longrightarrow> Q () s'"
  shows "wp (iupdate i) Q s"
proof -
  let ?ip = "icache s i"
  let ?b = "IBLOCK (inum ?ip) (sb s)"
  note D = ino_okD [OF s(1)] and b = layoutD(8) [OF ino_okD(3) [OF s(1)] s(2)]
  have lz: "lsize (log s) \<le> int LOGSIZE" using D(1) by (simp add: log_ok_def)
  have "wp (bind (bread ROOTDEV ?b) (\<lambda>bp. bind (gets (\<lambda>s. icache s i)) (\<lambda>ip.
    seq (set_data bp (put_inode (64 * (inum ip mod IPB)) ip)) (seq (log_write bp) (brelse bp))))) Q s"
  proof (rule wp_bindI, rule wp_bread_txn)
    show "log_ok s" "?b \<notin> ran (lkd s)" "?b < FSSIZE" "room (cache_of s) \<or> ?b \<in> lgd s"
      using D b layoutD(1) [OF D(3)] l lz by (simp_all add: room_def)
    fix bp and s1 :: "'a fs_st_scheme"
    assume 1: "log_ok s1" "txn_step s s1" "lkd s bp = None" "cache_of s1 = (cache_of s)\<lparr>c_lock := (lkd s)(bp \<mapsto> ?b)\<rparr>"
    note M = fs_more [OF txn_stepD(6) [OF 1(2)]] and T = txn_stepD [OF 1(2)]
    have "wp (seq (set_data bp (put_inode (64 * (inum ?ip mod IPB)) ?ip)) (seq (log_write bp) (seq (brelse bp) skip))) Q s1"
    proof (rule wp_put_txn [OF 1(1), where b = ?b])
      show "lkd s1 bp = Some ?b" "home (log s1) ?b" "int (card (lgd s1)) < lsize (log s1) - 1" "0 < outstanding (log s1)"
        using b l s(3) T by (simp_all add: 1(4))
      fix s2 :: "'a fs_st_scheme"
      assume 2: "log_ok s2" "txn_step s1 s2" "cache_of s2 = (cache_of s1)\<lparr>c_blk := (blks s1)(?b := put_inode (64 * (inum ?ip mod IPB)) ?ip (blks s1 ?b)),
        c_lock := (lkd s1)(bp := None), c_dirty := insert ?b (lgd s1)\<rparr>"
      have "Q () s2"
        by (rule Q [OF 2(1) txn_step_trans [OF 1(2) 2(2)]]) (use 1(3) in \<open>simp add: 2(3) 1(4) fun_upd_idem\<close>)
      then show "wp skip Q s2" by simp
    qed
    then show "wp (bind (gets (\<lambda>s. icache s i)) (\<lambda>ip. seq (set_data bp (put_inode (64 * (inum ip mod IPB)) ip)) (seq (log_write bp) (brelse bp)))) Q s1"
      by (simp add: M seq_skip)
  qed
  then show ?thesis by (simp add: iupdate_def D(4))
qed

lemma good_file_grow:
  assumes "good_file sp B ip" "isize ip \<le> z" "z \<le> MAXFILE * BSIZE" "\<And>k. isize ip \<le> k \<Longrightarrow> k < z \<Longrightarrow> baddr B ip (k div BSIZE) \<noteq> 0"
  shows "good_file sp B (ip\<lparr>isize := z\<rparr>)"
proof -
  have b: "baddr B (ip\<lparr>isize := z\<rparr>) = baddr B ip" "fblocks B (ip\<lparr>isize := z\<rparr>) = fblocks B ip" by (auto simp: baddr_def fblocks_def fun_eq_iff)
  have "baddr B ip bn \<noteq> 0" if "bn * BSIZE < z" for bn
    using assms(1) assms(4) [of "bn * BSIZE"] that by (cases "bn * BSIZE < isize ip") (auto simp: good_file_def)
  then show ?thesis using assms(1,3) unfolding good_file_def b by simp
qed

text \<open>A block before the bitmap, such as that of an inode, is not part of any file.\<close>

lemma low_block:
  assumes "good_file sp B ip" "b < sb_bmapstart sp" "B' = B(b := x)"
  shows "good_file sp B' ip" "fblocks B' ip = fblocks B ip" "k < MAXFILE * BSIZE \<Longrightarrow> fbyte B' ip k = fbyte B ip k"
    "taken B' (sb_bmapstart sp) = taken B (sb_bmapstart sp)" "fdata B' ip = fdata B ip"
proof -
  have "\<forall>a \<in> fblocks B ip. B' a = B a" using assms by (auto simp: good_file_def)
  note C = fblocks_cong [OF this]
  show "fblocks B' ip = fblocks B ip" "k < MAXFILE * BSIZE \<Longrightarrow> fbyte B' ip k = fbyte B ip k" by (rule C, rule C)
  show t: "taken B' (sb_bmapstart sp) = taken B (sb_bmapstart sp)" using assms(2) by (simp add: assms(3) fun_eq_iff)
  show "good_file sp B' ip" using assms(1) unfolding good_file_def C(1,2) t .
  show "fdata B' ip = fdata B ip" using assms(1) C(3) by (simp add: fdata_def good_file_def)
qed

text \<open>The new size is recorded in the inode and on disk.\<close>

lemma wp_set_size:
  fixes s :: "'a fs_st_scheme"
  assumes s: "ino_ok i s" "inum (icache s i) < sb_ninodes (sb s)" "0 < outstanding (log s)" "int (card (lgd s)) < lsize (log s) - 1"
    and z: "isize (icache s i) \<le> z" "z \<le> MAXFILE * BSIZE" "\<And>k. isize (icache s i) \<le> k \<Longrightarrow> k < z \<Longrightarrow> baddr (blks s) (icache s i) (k div BSIZE) \<noteq> 0"
    and Q: "\<And>s'. \<lbrakk>ino_ok i s'; synced i s'; fs_step i s s'; icache s' i = (icache s i)\<lparr>isize := z\<rparr>;
      blks s' = (blks s)(IBLOCK (inum (icache s i)) (sb s) := blks s' (IBLOCK (inum (icache s i)) (sb s)))\<rbrakk> \<Longrightarrow> Q () s'"
  shows "wp (seq (modify (upd_ino i (\<lambda>x. x\<lparr>isize := z\<rparr>))) (iupdate i)) Q s"
proof -
  let ?s = "upd_ino i (\<lambda>x. x\<lparr>isize := z\<rparr>) s" and ?ip = "(icache s i)\<lparr>isize := z\<rparr>"
  note D = ino_okD [OF s(1)]
  note U = upd_ino_step [OF D(1), of i "\<lambda>x. x\<lparr>isize := z\<rparr>"]
  note F = fs_stepD [OF U(3)] and L = layoutD(8) [OF D(3) s(2)]
  have l: "layout ?s" by (rule layout_step [OF D(3) U(3)]) (simp add: U(2))
  have g: "good_file (sb s) (blks s) ?ip" by (rule good_file_grow [OF D(5) z])
  have ok: "ino_ok i ?s" using U l g D(2,4) by (simp add: ino_ok_def unlocked_def)
  have "wp (iupdate i) Q ?s"
  proof (rule wp_iupdate [OF ok])
    show "inum (icache ?s i) < sb_ninodes (sb ?s)" "0 < outstanding (log ?s)" "int (card (lgd ?s)) < lsize (log ?s) - 1" using s U by simp_all
    let ?b = "IBLOCK (inum (icache s i)) (sb s)" and ?p = "64 * (inum (icache s i) mod IPB)"
    fix s' :: "'a fs_st_scheme"
    assume a: "log_ok s'" "txn_step ?s s'" "cache_of s' = (cache_of ?s)\<lparr>
      c_blk := (blks ?s)(IBLOCK (inum (icache ?s i)) (sb ?s) := put_inode (64 * (inum (icache ?s i) mod IPB)) (icache ?s i) (blks ?s (IBLOCK (inum (icache ?s i)) (sb ?s)))),
      c_dirty := insert (IBLOCK (inum (icache ?s i)) (sb ?s)) (lgd ?s)\<rparr>"
    have B: "blks s' = (blks s)(?b := put_inode ?p ?ip (blks s ?b))" "lkd s' = lkd s" by (simp_all add: a(3) U)
    note M = fs_more [OF txn_stepD(6) [OF a(2)]]
    have f: "fs_step i s s'" by (rule fs_step_trans [OF U(3) txn_fs_step [OF a(2)]])
    have ic: "icache s' i = ?ip" "sb s' = sb s" by (simp_all add: M U)
    note W = low_block [OF g conjunct1 [OF L] B(1)]
    have "layout s'" by (rule layout_step [OF D(3) f]) (simp add: W(4))
    then have k: "ino_ok i s'" using a(1) W(1) D(2,4) by (simp add: ino_ok_def unlocked_def B(2) ic)
    have "addrs ?ip j < 2 ^ 32" if "j \<le> NDIRECT" for j
    proof (cases "addrs ?ip j = 0")
      case False
      have "addrs ?ip j \<in> fblocks (blks s) ?ip" using False that baddr_fblocks [of j "blks s" ?ip] by (cases "j = NDIRECT") (auto simp: fblocks_def baddr_def)
      then have "addrs ?ip j < FSSIZE" using g layoutD(4) [OF D(3)] by (auto simp: good_file_def)
      then show ?thesis by simp
    qed simp
    then have "get_dinode (put_inode ?p ?ip (blks s ?b)) ?p = dino ?ip" using z(2) by (intro get_put_inode) simp_all
    then have "synced i s'" by (simp add: synced_def ic B(1))
    then show "Q () s'" using k f ic(1) B(1) by (intro Q) simp_all
  qed
  then show ?thesis by simp
qed

lemma fdata_eqI:
  assumes "length xs = isize ip" "\<And>k. k < isize ip \<Longrightarrow> fbyte B ip k = xs ! k"
  shows "fdata B ip = xs"
  using assms by (auto simp: fdata_def intro!: nth_equalityI)

lemma fdata_nth: "k < isize ip \<Longrightarrow> fdata B ip ! k = fbyte B ip k" "length (fdata B ip) = isize ip"
  by (simp_all add: fdata_def)

text \<open>
  After \<open>writei\<close>: the bytes are in the blocks, the size is the larger of the old size and the end of the bytes, and of the blocks
  before the bitmap only that of the inode may have changed.
\<close>

definition written :: "nat \<Rightarrow> nat \<Rightarrow> nat \<Rightarrow> bytes \<Rightarrow> 'a fs_st_scheme \<Rightarrow> 'a fs_st_scheme \<Rightarrow> bool" where
  "written i off n src s s' \<longleftrightarrow> ino_ok i s' \<and> synced i s' \<and> fs_step i s s' \<and> (\<exists>s1 x. wrote i off n src s s1
     \<and> icache s' i = (icache s1 i)\<lparr>isize := max (isize (icache s i)) (off + n)\<rparr>
     \<and> blks s' = (blks s1)(IBLOCK (inum (icache s i)) (sb s) := x))"

lemma written_shorter:
  assumes s: "ino_ok i s" "synced i s" "inum (icache s i) < sb_ninodes (sb s)" and w: "wrote i off n src s s1"
    and le: "n = 0 \<or> off + n \<le> isize (icache s i)" "off \<le> isize (icache s i)"
  shows "written i off n src s s1"
proof -
  let ?ip = "icache s i"
  let ?b = "IBLOCK (inum ?ip) (sb s)"
  note D = ino_okD [OF s(1)] and W = wroteD [OF w]
  note F = fs_stepD [OF W(2)] and L = layoutD(8) [OF D(3) s(3)]
  have ic: "icache s1 i = ?ip"
  proof (rule W(8))
    fix k
    assume k: "off \<le> k" "k < off + n"
    have "k div BSIZE * BSIZE \<le> k" by simp
    then have "k div BSIZE * BSIZE < isize ?ip" using k le by linarith
    then show "baddr (blks s) ?ip (k div BSIZE) \<noteq> 0" using D(5) by (simp add: good_file_def)
  qed
  have "blks s1 ?b = blks s ?b"
  proof (rule only_fileD(1) [OF W(3)])
    show "?b \<noteq> bm s" "taken (blks s) (bm s) ?b" using L D(3) by (auto simp: layout_def)
    show "?b \<notin> fblocks (blks s) ?ip" using D(5) L by (auto simp: good_file_def)
  qed
  then have "synced i s1" using s(2) ic F by (simp add: synced_def)
  moreover have "max (isize ?ip) (off + n) = isize ?ip" using le by auto
  ultimately show ?thesis using w W(1,2) ic unfolding written_def
    by (auto intro!: exI [of _ s1] exI [of _ "blks s1 ?b"])
qed

lemma wp_writei:
  fixes s :: "'a fs_st_scheme"
  assumes s: "ino_ok i s" "synced i s" "inum (icache s i) < sb_ninodes (sb s)" "itype (icache s i) \<noteq> T_DEV" "0 < outstanding (log s)"
    and n: "off \<le> isize (icache s i)" "off + n \<le> MAXFILE * BSIZE"
    and r: "int (cost s (icache s i) + nblks off n) < lsize (log s) - 1" "indn (icache s i) + nblks off n \<le> card (frees s)"
  shows "wp (writei devsw i src off n) (\<lambda>r s'. r = int n \<and> written i off n src s s') s"
proof -
  let ?ip = "icache s i"
  have u: "u32wrap (off + n) = off + n" using n(2) by (simp add: u32wrap_def)
  have "wp (seq (writei_loop i off n 0 src) (bind (gets (\<lambda>s. isize (icache s i))) (\<lambda>sz.
       seq (if n > 0 \<and> off + n > sz then seq (modify (upd_ino i (\<lambda>x. x\<lparr>isize := off + n\<rparr>))) (iupdate i) else skip)
       (ret (int n))))) (\<lambda>r s'. r = int n \<and> written i off n src s s') s"
  proof (rule wp_seqI, rule wp_writei_loop [OF s(1,5)])
    show "0 \<le> n" "off + (n - 0) \<le> MAXFILE * BSIZE" "int (cost s ?ip + nblks off (n - 0)) < lsize (log s) - 1" "indn ?ip + nblks off (n - 0) \<le> card (frees s)"
      using n r by simp_all
    fix s1 :: "'a fs_st_scheme"
    assume "wrote i off (n - 0) (\<lambda>k. src (0 + k)) s s1" and c: "int (cost s1 (icache s1 i)) < lsize (log s) - 1"
    then have w: "wrote i off n src s s1" by simp
    note W = wroteD [OF w]
    note F = fs_stepD [OF W(2)]
    have in1: "inum (icache s1 i) = inum ?ip" using W(7) by auto
    show "wp (bind (gets (\<lambda>s. isize (icache s i))) (\<lambda>sz.
       seq (if n > 0 \<and> off + n > sz then seq (modify (upd_ino i (\<lambda>x. x\<lparr>isize := off + n\<rparr>))) (iupdate i) else skip)
       (ret (int n)))) (\<lambda>r s'. r = int n \<and> written i off n src s s') s1"
    proof (cases "n > 0 \<and> off + n > isize ?ip")
      case True
      have "wp (seq (modify (upd_ino i (\<lambda>x. x\<lparr>isize := off + n\<rparr>))) (iupdate i)) (\<lambda>_ s'. written i off n src s s') s1"
      proof (rule wp_set_size [OF W(1)])
        show "inum (icache s1 i) < sb_ninodes (sb s1)" "0 < outstanding (log s1)" using s(3,5) in1 F by simp_all
        show "int (card (lgd s1)) < lsize (log s1) - 1" using cost_ge(2) [OF ino_okD(6) [OF W(1)], of "icache s1 i"] c F by simp
        show "isize (icache s1 i) \<le> off + n" "off + n \<le> MAXFILE * BSIZE" using True W(4) n(2) by simp_all
        show "baddr (blks s1) (icache s1 i) (k div BSIZE) \<noteq> 0" if "isize (icache s1 i) \<le> k" "k < off + n" for k
          using W(6) [of k] that n(1) W(4) by simp
        fix s' :: "'a fs_st_scheme"
        assume a: "ino_ok i s'" "synced i s'" "fs_step i s1 s'" "icache s' i = (icache s1 i)\<lparr>isize := off + n\<rparr>"
          "blks s' = (blks s1)(IBLOCK (inum (icache s1 i)) (sb s1) := blks s' (IBLOCK (inum (icache s1 i)) (sb s1)))"
        have "max (isize ?ip) (off + n) = off + n" using True by simp
        then show "written i off n src s s'"
          unfolding written_def using a(1,2,4) a(5) [unfolded in1 F(5)] fs_step_trans [OF W(2) a(3)] w by auto
      qed
      then have "wp (seq (seq (modify (upd_ino i (\<lambda>x. x\<lparr>isize := off + n\<rparr>))) (iupdate i)) (ret (int n))) (\<lambda>r s'. r = int n \<and> written i off n src s s') s1"
        by simp
      then show ?thesis using True W(4) by simp
    next
      case False
      then have "n = 0 \<or> off + n \<le> isize ?ip" by auto
      then have "written i off n src s s1" by (rule written_shorter [OF s(1-3) w _ n(1)])
      then show ?thesis using False W(4) by auto
    qed
  qed
  then show ?thesis using s(4) n by (simp add: writei_def u)
qed

lemma written_effect:
  assumes s: "ino_ok i s" "inum (icache s i) < sb_ninodes (sb s)" and w: "written i off n src s s'" and n: "off \<le> isize (icache s i)" "off + n \<le> MAXFILE * BSIZE"
  shows "fdata (blks s') (icache s' i) = take off (fdata (blks s) (icache s i)) @ map src [0..<n] @ drop (off + n) (fdata (blks s) (icache s i))"
    "good_file (sb s) (blks s) jp \<Longrightarrow> fblocks (blks s) jp \<inter> fblocks (blks s) (icache s i) = {}
       \<Longrightarrow> good_file (sb s) (blks s') jp \<and> fdata (blks s') jp = fdata (blks s) jp \<and> fblocks (blks s') jp \<inter> fblocks (blks s') (icache s' i) = {}"
proof -
  let ?ip = "icache s i"
  obtain s1 x where w1: "wrote i off n src s s1" and ic: "icache s' i = (icache s1 i)\<lparr>isize := max (isize ?ip) (off + n)\<rparr>"
    and B: "blks s' = (blks s1)(IBLOCK (inum ?ip) (sb s) := x)" using w by (auto simp: written_def)
  note D = ino_okD [OF s(1)] and W = wroteD [OF w1]
  have L: "IBLOCK (inum ?ip) (sb s) < sb_bmapstart (sb s)" using layoutD(8) [OF D(3) s(2)] by simp
  have g1: "good_file (sb s) (blks s1) (icache s1 i)" using ino_okD(5) [OF W(1)] fs_stepD(5) [OF W(2)] by simp
  note L1 = low_block [OF g1 L B]
  have same: "baddr C (icache s' i) = baddr C (icache s1 i)" "fblocks C (icache s' i) = fblocks C (icache s1 i)" for C
    by (auto simp: ic baddr_def fblocks_def fun_eq_iff)
  have fb: "fbyte (blks s') (icache s' i) k = (if off \<le> k \<and> k < off + n then src (k - off) else fbyte (blks s) ?ip k)" if "k < MAXFILE * BSIZE" for k
    using W(5) [OF that] L1(3) [OF that] by (simp add: fbyte_def same)
  have sz: "isize (icache s' i) = max (isize ?ip) (off + n)" "isize ?ip \<le> MAXFILE * BSIZE" using D(5) by (simp_all add: ic good_file_def)
  show "fdata (blks s') (icache s' i) = take off (fdata (blks s) ?ip) @ map src [0..<n] @ drop (off + n) (fdata (blks s) ?ip)"
  proof (rule fdata_eqI)
    show "length (take off (fdata (blks s) ?ip) @ map src [0..<n] @ drop (off + n) (fdata (blks s) ?ip)) = isize (icache s' i)"
      using n(1) by (auto simp: sz fdata_nth)
    fix k
    assume k: "k < isize (icache s' i)"
    then have "k < MAXFILE * BSIZE" using sz n(2) by simp
    then show "fbyte (blks s') (icache s' i) k = (take off (fdata (blks s) ?ip) @ map src [0..<n] @ drop (off + n) (fdata (blks s) ?ip)) ! k"
      using k n(1) fb [of k] by (auto simp: sz nth_append fdata_nth)
  qed
  assume j: "good_file (sb s) (blks s) jp" "fblocks (blks s) jp \<inter> fblocks (blks s) ?ip = {}"
  note O = only_file_other [OF W(3) j]
  note L2 = low_block [OF O(1) L B]
  show "good_file (sb s) (blks s') jp \<and> fdata (blks s') jp = fdata (blks s) jp \<and> fblocks (blks s') jp \<inter> fblocks (blks s') (icache s' i) = {}"
    using L2(1,2,5) O(2,3) L1(2) by (simp add: same)
qed

lemma wp_readi:
  fixes s :: "'a fs_st_scheme"
  assumes "ino_ok i s" "room (cache_of s)" "itype (icache s i) \<noteq> T_DEV" "off \<le> isize (icache s i)" "off + n < 2 ^ 32"
    and xs: "xs = take n (drop off (fdata (blks s) (icache s i)))"
    and Q: "\<And>dst' s'. \<lbrakk>map dst' [0..<length xs] = xs; \<forall>k \<ge> length xs. dst' k = dst k; ino_ok i s'; txn_step s s'; cache_of s' = cache_of s;
      icache s' = icache s\<rbrakk> \<Longrightarrow> Q (int (length xs), dst') s'"
  shows "wp (readi devsw i dst off n) Q s"
proof -
  let ?ip = "icache s i" and ?m = "length xs"
  have m: "?m = (if off + n > isize ?ip then isize ?ip - off else n)" "off + ?m \<le> isize ?ip" using assms(4) by (auto simp: xs fdata_nth)
  let ?dst = "splice dst 0 (\<lambda>k. fbyte (blks s) ?ip (off + k)) 0 ?m"
  have "wp (readi_loop i off ?m 0 dst) (\<lambda>d s'. Q (int ?m, d) s') s"
  proof (rule wp_readi_loop [OF assms(1,2)])
    fix s' :: "'a fs_st_scheme"
    assume a: "log_ok s'" "txn_step s s'" "cache_of s' = cache_of s"
    have "map ?dst [0..<?m] = xs"
      by (rule nth_equalityI) (use m in \<open>auto simp: splice_def xs fdata_nth\<close>)
    moreover have "\<forall>k \<ge> ?m. ?dst k = dst k" by (simp add: splice_def)
    ultimately show "Q (int ?m, splice dst 0 (\<lambda>k. fbyte (blks s) ?ip (off + k)) 0 (?m - 0)) s'"
      using ino_ok_same [OF assms(1) a] a by (intro Q) simp_all
  qed (use m(2) in simp_all)
  moreover have "readi devsw i dst off n s = bind (readi_loop i off ?m 0 dst) (\<lambda>dst. ret (int ?m, dst)) s"
    using assms(3,4,5) m(1) by (simp add: readi_def u32wrap_def Let_def)
  ultimately have "wp (bind (readi_loop i off ?m 0 dst) (\<lambda>dst. ret (int ?m, dst))) Q s" "readi devsw i dst off n s = bind (readi_loop i off ?m 0 dst) (\<lambda>dst. ret (int ?m, dst)) s"
    by simp_all
  then show ?thesis by (simp only: wp_def)
qed

section \<open>Properties\<close>

text \<open>
  C18 Reading a file gives its bytes: \<open>readi\<close> at an offset within the file returns the bytes from there to the end of
  the file, at most \<open>n\<close> of them, stores them at the front of the buffer and nothing beyond. No block, no inode and no other
  part of the kernel's state changes, and nothing is logged, so it may run outside a transaction.
\<close>

theorem readi_refines:
  fixes s :: "'a fs_st_scheme"
  assumes "ino_ok i s" "room (cache_of s)" "itype (icache s i) \<noteq> T_DEV" "off \<le> isize (icache s i)" "off + n < 2 ^ 32"
  defines "xs \<equiv> take n (drop off (fdata (blks s) (icache s i)))"
  shows "\<exists>dst' s'. readi devsw i dst off n s = Ok (int (length xs), dst') s' \<and> map dst' [0..<length xs] = xs
    \<and> (\<forall>k \<ge> length xs. dst' k = dst k) \<and> ino_ok i s' \<and> fs_step i s s' \<and> cache_of s' = cache_of s \<and> icache s' = icache s"
proof -
  have "wp (readi devsw i dst off n) (\<lambda>(r, dst') s'. r = int (length xs) \<and> map dst' [0..<length xs] = xs
    \<and> (\<forall>k \<ge> length xs. dst' k = dst k) \<and> ino_ok i s' \<and> fs_step i s s' \<and> cache_of s' = cache_of s \<and> icache s' = icache s) s"
    by (rule wp_readi [OF assms(1-5) meta_eq_to_obj_eq [OF xs_def]]) (auto intro: txn_fs_step)
  then show ?thesis by (auto simp: wp_Ok)
qed

text \<open>
  C5 Writing replaces bytes of the file: inside a transaction with room in the log, \<open>writei\<close> of \<open>n\<close> bytes at an offset within
  the file overwrites them there and extends the file if they reach beyond its end, up to the largest file there may be. The inode
  on disk is that in the cache again. Every other file keeps its bytes and shares no block with this one, whichever
  blocks were allocated.
\<close>

theorem writei_refines:
  fixes s :: "'a fs_st_scheme"
  assumes "ino_ok i s" "synced i s" "inum (icache s i) < sb_ninodes (sb s)" "itype (icache s i) \<noteq> T_DEV" "0 < outstanding (log s)"
    and "off \<le> isize (icache s i)" "off + n \<le> MAXFILE * BSIZE"
    and "int (cost s (icache s i) + nblks off n) < lsize (log s) - 1" "indn (icache s i) + nblks off n \<le> card (frees s)"
  defines "xs \<equiv> fdata (blks s) (icache s i)"
  shows "\<exists>s'. writei devsw i src off n s = Ok (int n) s' \<and> ino_ok i s' \<and> synced i s' \<and> fs_step i s s'
    \<and> fdata (blks s') (icache s' i) = take off xs @ map src [0..<n] @ drop (off + n) xs
    \<and> (\<forall>jp. good_file (sb s) (blks s) jp \<and> fblocks (blks s) jp \<inter> fblocks (blks s) (icache s i) = {}
         \<longrightarrow> good_file (sb s) (blks s') jp \<and> fdata (blks s') jp = fdata (blks s) jp
           \<and> fblocks (blks s') jp \<inter> fblocks (blks s') (icache s' i) = {})"
proof -
  obtain s' where r: "writei devsw i src off n s = Ok (int n) s'" "written i off n src s s'"
    using wp_writei [OF assms(1-9), of devsw src] by (auto simp: wp_Ok)
  note E = written_effect [OF assms(1,3) r(2) assms(6,7)]
  have "ino_ok i s' \<and> synced i s' \<and> fs_step i s s'" using r(2) by (simp add: written_def)
  then show ?thesis using r(1) E unfolding xs_def by blast
qed

section \<open>A small file system\<close>

text \<open>Laid out as by mkfs: the blocks up to 63 are in use, and inode 1 is a file of three bytes in block 60.\<close>

definition ex_ino :: inode where
  "ex_ino = \<lparr>idev = 1, inum = 1, iref = 1, ivalid = True, itype = 2, imajor = 0, iminor = 0, nlink = 1, isize = 3, addrs = (\<lambda>_. 0)(0 := 60)\<rparr>"

definition ex_sb :: superblock where
  "ex_sb = \<lparr>sb_size = 1000, sb_nblocks = 941, sb_ninodes = 200, sb_nlog = 30, sb_logstart = 2, sb_inodestart = 32, sb_bmapstart = 58\<rparr>"

definition ex_fsdisk :: "nat \<Rightarrow> bytes" where
  "ex_fsdisk b = (if b = 58 then (\<lambda>k. if k < 8 then -1 else 0) else if b = 60 then (\<lambda>k. if k = 0 then 104 else if k = 1 then 105 else 33)
     else if b = 32 then put_inode 64 ex_ino (\<lambda>_. 0) else (\<lambda>_. 0))"

lemma ex_taken: "taken ex_fsdisk 58 b \<longleftrightarrow> b < 64"
proof -
  have "b div 8 < 8 \<longleftrightarrow> b < 64" by auto
  then show ?thesis by (simp add: taken_def ex_fsdisk_def)
qed

lemma ex_baddr: "baddr ex_fsdisk ex_ino bn = (if bn = 0 then 60 else 0)"
  by (simp add: baddr_def ex_ino_def)

lemma ex_fblocks: "fblocks ex_fsdisk ex_ino = {60}"
proof -
  have "addrs ex_ino NDIRECT = 0" by (simp add: ex_ino_def)
  moreover have "baddr ex_fsdisk ex_ino ` {..<MAXFILE} \<subseteq> {60, 0}" by (auto simp: ex_baddr)
  moreover have "60 \<in> baddr ex_fsdisk ex_ino ` {..<MAXFILE}" by (rule image_eqI [of _ _ 0]) (simp_all add: ex_baddr)
  ultimately show ?thesis by (auto simp: fblocks_def)
qed

lemma ex_good: "good_file ex_sb ex_fsdisk ex_ino"
  by (auto simp: good_file_def ex_fblocks ex_baddr ex_taken ex_sb_def inj_on_def) (auto simp: ex_ino_def)

lemma ex_data: "fdata ex_fsdisk ex_ino = [104, 105, 33]"
proof -
  have "isize ex_ino = 3" by (simp add: ex_ino_def)
  moreover have "fbyte ex_fsdisk ex_ino k = (if k = 0 then 104 else if k = 1 then 105 else 33)" if "k < 3" for k
    using that by (simp add: fbyte_def ex_baddr) (simp add: ex_fsdisk_def)
  ultimately show ?thesis by (simp add: fdata_def upt_rec)
qed

lemma ex_fs:
  obtains s :: fs_st where "ino_ok 0 s" "synced 0 s" "icache s 0 = ex_ino" "sb s = ex_sb" "blks s = ex_fsdisk" "lgd s = {}" "lkd s = (\<lambda>_. None)"
    "lsize (log s) = 30" "outstanding (log s) = 1" "frees s = {64..<1000}"
proof -
  let ?lg = "\<lparr>start = 2, lsize = 30, outstanding = 1, committing = False, ldev = 1, lh_n = 0, lh_block = (\<lambda>_. 0)\<rparr>"
  obtain s :: fs_st where s: "bio_inv s" "bio_st.more s = \<lparr>log = ?lg, sb = ex_sb, icache = (\<lambda>_. ex_ino)\<rparr>"
    "cache_of s = \<lparr>c_blk = ex_fsdisk, c_lock = (\<lambda>_. None), c_dirty = {}, c_disk = ex_fsdisk, c_trace = []\<rparr>" by (rule boot_cache)
  have f: "log s = ?lg" "sb s = ex_sb" "icache s = (\<lambda>_. ex_ino)" using s(2) by (cases s; simp)+
  have "log_ok s"
    using s(1) by (simp add: log_ok_def txn_inv_def good_log_def f s(3) head_n_def ex_fsdisk_def get32_def)
  moreover have l: "layout s" by (simp add: layout_def f s(3) ex_taken) (simp add: ex_sb_def ex_taken)
  ultimately have "ino_ok 0 s" using ex_good by (simp add: ino_ok_def unlocked_def f s(3) ex_ino_def)
  moreover have "get_dinode (put_inode 64 ex_ino (\<lambda>_. 0)) 64 = dino ex_ino" by (rule get_put_inode) (simp_all add: ex_ino_def)
  then have "synced 0 s" by (simp add: synced_def f s(3)) (simp add: ex_ino_def ex_sb_def IBLOCK_def ex_fsdisk_def)
  moreover have "frees s = {64..<1000}" by (auto simp: frees_def f s(3) ex_sb_def ex_taken)
  ultimately show thesis by (intro that [of s]) (simp_all add: f s(3))
qed

theorem readi_refines_witness:
  "\<exists>(s :: fs_st) dst' s'. fdata (blks s) (icache s 0) = [104, 105, 33] \<and> readi (\<lambda>_. None) 0 (\<lambda>_. 0) 1 10 s = Ok (2, dst') s'
     \<and> dst' 0 = 105 \<and> dst' 1 = 33 \<and> dst' 2 = 0"
proof -
  obtain s :: fs_st where s: "ino_ok 0 s" "icache s 0 = ex_ino" "blks s = ex_fsdisk" "lgd s = {}" "lkd s = (\<lambda>_. None)" by (rule ex_fs) (rule that)
  have p: "room (cache_of s)" "itype (icache s 0) \<noteq> T_DEV" "1 \<le> isize (icache s 0)" "(1::nat) + 10 < 2 ^ 32"
    by (simp_all add: room_def s ex_ino_def)
  have x: "take 10 (drop 1 (fdata (blks s) (icache s 0))) = [105, 33]" by (simp add: s ex_data)
  obtain dst' s' where r: "readi (\<lambda>_. None) 0 (\<lambda>_. 0) 1 10 s = Ok (int (length [105, 33 :: u8]), dst') s'"
    "map dst' [0..<length [105, 33 :: u8]] = [105, 33]" "\<forall>k \<ge> length [105, 33 :: u8]. dst' k = 0"
    using readi_refines [OF s(1) p, of "\<lambda>_. None" "\<lambda>_. 0"] unfolding x by (elim exE conjE) (rule that)
  then have "dst' 0 = 105" "dst' 1 = 33" "dst' 2 = 0" by (simp_all add: upt_rec)
  moreover have "fdata (blks s) (icache s 0) = [104, 105, 33]" by (simp add: s ex_data)
  ultimately show ?thesis using r(1) by auto
qed

theorem writei_refines_witness:
  "\<exists>(s :: fs_st) s'. fdata (blks s) (icache s 0) = [104, 105, 33] \<and> writei (\<lambda>_. None) 0 (\<lambda>_. 7) 2 600 s = Ok 600 s'
     \<and> fdata (blks s') (icache s' 0) = [104, 105] @ replicate 600 7 \<and> synced 0 s'"
proof -
  obtain s :: fs_st where s: "ino_ok 0 s" "synced 0 s" "icache s 0 = ex_ino" "sb s = ex_sb" "blks s = ex_fsdisk" "lgd s = {}"
    "lsize (log s) = 30" "outstanding (log s) = 1" "frees s = {64..<1000}" by (rule ex_fs) (rule that)
  have p: "inum (icache s 0) < sb_ninodes (sb s)" "itype (icache s 0) \<noteq> T_DEV" "0 < outstanding (log s)" "2 \<le> isize (icache s 0)"
    "2 + 600 \<le> MAXFILE * BSIZE" by (simp_all add: s ex_ino_def ex_sb_def)
  have c: "cost s (icache s 0) = 2" "nblks 2 600 = 2" "indn (icache s 0) = 1" by (simp_all add: cost_def indn_def nblks_def s ex_ino_def ex_sb_def)
  have q: "int (cost s (icache s 0) + nblks 2 600) < lsize (log s) - 1" "indn (icache s 0) + nblks 2 600 \<le> card (frees s)" using c by (simp_all add: s)
  obtain s' where r: "writei (\<lambda>_. None) 0 (\<lambda>_. 7) 2 600 s = Ok (int 600) s'" "synced 0 s'"
    "fdata (blks s') (icache s' 0) = take 2 (fdata (blks s) (icache s 0)) @ map (\<lambda>_. 7) [0..<600] @ drop (2 + 600) (fdata (blks s) (icache s 0))"
    using writei_refines [OF s(1,2) p q, of "\<lambda>_. None" "\<lambda>_. 7"] by blast
  have "map (\<lambda>_. 7 :: u8) [0..<600] = replicate 600 7" by (simp add: map_replicate_const)
  then have "fdata (blks s') (icache s' 0) = [104, 105] @ replicate 600 7" using r(3) by (simp add: s ex_data)
  moreover have "fdata (blks s) (icache s 0) = [104, 105, 33]" by (simp add: s ex_data)
  ultimately show ?thesis using r(1,2) by auto
qed

end
