(* ===== verification/Mkfs.thy ===== *)
theory Mkfs
  imports Fdata
begin

text \<open>
  The program that makes the initial file system (src/mkfs.c), which runs on the host. Its state is the
  image it writes, as an array of sectors, with its global variables; leaving with an error message and
  a failed assertion are panics. A file to be put into the image is its name and the pieces that
  \<open>read\<close> returns. Functions that have the name of one of the kernel are prefixed by \<open>mk_\<close>.
\<close>

section \<open>Sectors and inodes\<close>

abbreviation (input) NINODES :: nat where "NINODES \<equiv> 200"

record mk_st =
  img :: "nat \<Rightarrow> bytes"
  nsect :: nat
  mk_sb :: superblock
  freeinode :: nat
  freeblock :: nat

definition mk_init :: mk_st where
  "mk_init = \<lparr>img = (\<lambda>_ _. 0), nsect = 0, mk_sb = \<lparr>sb_size = 0, sb_nblocks = 0, sb_ninodes = 0, sb_nlog = 0, sb_logstart = 0, sb_inodestart = 0, sb_bmapstart = 0\<rparr>,
     freeinode = 1, freeblock = 0\<rparr>"

text \<open>Storing a number byte by byte in the order of the 386; reading it back as the host does, which has the same order.\<close>

definition xshort :: "u16 \<Rightarrow> u16" where
  "xshort x = get16 ((\<lambda>_. 0)(0 := ucast x, 1 := ucast (drop_bit 8 x))) 0"

definition xint :: "u32 \<Rightarrow> u32" where
  "xint x = get32 ((\<lambda>_. 0)(0 := ucast x, 1 := ucast (drop_bit 8 x), 2 := ucast (drop_bit 16 x), 3 := ucast (drop_bit 24 x))) 0"

text \<open>
  The image is a file of the host that is \<open>nsect\<close> sectors long: writing a sector beyond its end makes it longer, reading one fails. The host's
  calls \<open>lseek\<close> and \<open>write\<close> succeed.
\<close>

definition wsect :: "nat \<Rightarrow> bytes \<Rightarrow> (unit, mk_st) kop" where
  "wsect sec buf =
     (if sec > FSSIZE then panic ''failed: trying to write sector > FSSIZE''
      else modify (\<lambda>s. s\<lparr>img := (img s)(sec := buf), nsect := max (nsect s) (sec + 1)\<rparr>))"

definition rsect :: "nat \<Rightarrow> (bytes, mk_st) kop" where
  "rsect sec =
     (if sec > FSSIZE then panic ''failed: trying to read sector > FSSIZE''
      else bind (gets nsect) (\<lambda>n. if n \<le> sec then panic ''read'' else gets (\<lambda>s. img s sec)))"

definition put_dinode :: "nat \<Rightarrow> dinode \<Rightarrow> bytes \<Rightarrow> bytes" where
  "put_dinode p din d =
     put_addrs (p + 12) (d_addrs din) (NDIRECT + 1)
     (put32 (p + 8) (of_nat (d_size din))
     (put16 (p + 6) (d_nlink din)
     (put16 (p + 4) (d_minor din)
     (put16 (p + 2) (d_major din)
     (put16 p (d_type din) d)))))"

definition winode :: "nat \<Rightarrow> dinode \<Rightarrow> (unit, mk_st) kop" where
  "winode n din =
     bind (gets (\<lambda>s. IBLOCK n (mk_sb s))) (\<lambda>bn.
     bind (rsect bn) (\<lambda>buf.
     wsect bn (put_dinode (64 * (n mod IPB)) din buf)))"

definition rinode :: "nat \<Rightarrow> (dinode, mk_st) kop" where
  "rinode n =
     bind (gets (\<lambda>s. IBLOCK n (mk_sb s))) (\<lambda>bn.
     bind (rsect bn) (\<lambda>buf.
     ret (get_dinode buf (64 * (n mod IPB)))))"

definition mk_ialloc :: "u16 \<Rightarrow> (nat, mk_st) kop" where
  "mk_ialloc ty =
     bind (gets freeinode) (\<lambda>n.
     seq (modify (\<lambda>s. s\<lparr>freeinode := freeinode s + 1\<rparr>))
     (seq (winode n \<lparr>d_type = xshort ty, d_major = 0, d_minor = 0, d_nlink = xshort 1, d_size = 0, d_addrs = (\<lambda>_. 0)\<rparr>)
     (ret n)))"

text \<open>The bitmap with the bits of the first \<open>used\<close> blocks set.\<close>

primrec mk_bitmap :: "nat \<Rightarrow> bytes" where
  "mk_bitmap 0 = (\<lambda>_. 0)"
| "mk_bitmap (Suc i) = (mk_bitmap i)(i div 8 := mk_bitmap i (i div 8) OR push_bit (i mod 8) 1)"

definition mk_balloc :: "nat \<Rightarrow> (unit, mk_st) kop" where
  "mk_balloc used =
     (if \<not> used < BSIZE * 8 then panic ''assert''
      else bind (gets (\<lambda>s. sb_bmapstart (mk_sb s))) (\<lambda>b. wsect b (mk_bitmap used)))"

section \<open>Appending to a file\<close>

definition newblock :: "(nat, mk_st) kop" where
  "newblock = bind (gets freeblock) (\<lambda>b. seq (modify (\<lambda>s. s\<lparr>freeblock := freeblock s + 1\<rparr>)) (ret b))"

text \<open>The sector of block \<open>fbn\<close>, allocated if need be, and the inode with its address.\<close>

definition iappend_block :: "nat \<Rightarrow> dinode \<Rightarrow> (nat \<times> dinode, mk_st) kop" where
  "iappend_block fbn din =
     (if fbn < NDIRECT then
        (if d_addrs din fbn = 0 then
           bind newblock (\<lambda>b. ret (b, din\<lparr>d_addrs := (d_addrs din)(fbn := b)\<rparr>))
         else ret (d_addrs din fbn, din))
      else
        bind (if d_addrs din NDIRECT = 0 then
                bind newblock (\<lambda>b. ret (din\<lparr>d_addrs := (d_addrs din)(NDIRECT := b)\<rparr>))
              else ret din) (\<lambda>din.
        bind (rsect (d_addrs din NDIRECT)) (\<lambda>indirect.
        if get32 indirect (4 * (fbn - NDIRECT)) = 0 then
          bind newblock (\<lambda>b.
          seq (wsect (d_addrs din NDIRECT) (put32 (4 * (fbn - NDIRECT)) (xint (of_nat b)) indirect))
          (ret (b, din)))
        else ret (unat (xint (get32 indirect (4 * (fbn - NDIRECT)))), din))))"

function iappend_loop :: "dinode \<Rightarrow> nat \<Rightarrow> u8 list \<Rightarrow> (dinode \<times> nat, mk_st) kop" where
  "iappend_loop din off p =
     (if p \<noteq> [] then
        (let fbn = off div BSIZE; n1 = min (length p) ((fbn + 1) * BSIZE - off) in
         if \<not> fbn < MAXFILE then panic ''assert''
         else
           bind (iappend_block fbn din) (\<lambda>(x, din).
           bind (rsect x) (\<lambda>buf.
           seq (wsect x (splice buf (off - fbn * BSIZE) ((!) p) 0 n1))
           (iappend_loop din (off + n1) (drop n1 p)))))
      else ret (din, off))"
  by pat_completeness auto
termination
proof (relation "measure (\<lambda>(din, off, p). length p)", simp, goal_cases)
  case (1 din off p fbn n1)
  have "off < (off div BSIZE + 1) * BSIZE" using dividend_less_div_times [of BSIZE off] by simp
  then show ?case using 1 by auto
qed

declare iappend_loop.simps [simp del]

definition iappend :: "nat \<Rightarrow> u8 list \<Rightarrow> (unit, mk_st) kop" where
  "iappend n xp =
     bind (rinode n) (\<lambda>din.
     bind (iappend_loop din (d_size din) xp) (\<lambda>(din, off).
     winode n (din\<lparr>d_size := off\<rparr>)))"

section \<open>The program\<close>

definition nbitmap :: nat where "nbitmap = FSSIZE div (BSIZE * 8) + 1"
definition ninodeblocks :: nat where "ninodeblocks = NINODES div IPB + 1"
definition nlog :: nat where "nlog = LOGSIZE"
definition nmeta :: nat where "nmeta = 2 + nlog + ninodeblocks + nbitmap"
definition nblocks :: nat where "nblocks = FSSIZE - nmeta"

definition mkfs_sb :: superblock where
  "mkfs_sb = \<lparr>sb_size = unat (xint (of_nat FSSIZE)), sb_nblocks = unat (xint (of_nat nblocks)), sb_ninodes = unat (xint (of_nat NINODES)),
     sb_nlog = unat (xint (of_nat nlog)), sb_logstart = unat (xint 2), sb_inodestart = unat (xint (of_nat (2 + nlog))),
     sb_bmapstart = unat (xint (of_nat (2 + nlog + ninodeblocks)))\<rparr>"

text \<open>The bytes of the superblock, in the order of its fields.\<close>

definition put_sb :: "superblock \<Rightarrow> bytes \<Rightarrow> bytes" where
  "put_sb sp d =
     put32 24 (of_nat (sb_bmapstart sp))
     (put32 20 (of_nat (sb_inodestart sp))
     (put32 16 (of_nat (sb_logstart sp))
     (put32 12 (of_nat (sb_nlog sp))
     (put32 8 (of_nat (sb_ninodes sp))
     (put32 4 (of_nat (sb_nblocks sp))
     (put32 0 (of_nat (sb_size sp)) d))))))"

text \<open>A directory entry: the inode number and the name, cut to or padded to its \<open>DIRSIZ\<close> bytes.\<close>

definition dirent :: "nat \<Rightarrow> u8 list \<Rightarrow> u8 list" where
  "dirent n name = (let de = put16 0 (xshort (of_nat n)) (\<lambda>_. 0) in [de 0, de 1] @ take DIRSIZ (name @ replicate DIRSIZ 0))"

text \<open>One file: \<open>None\<close> if it cannot be opened.\<close>

definition add_file :: "nat \<Rightarrow> u8 list \<times> u8 list list option \<Rightarrow> (unit, mk_st) kop" where
  "add_file rootino = (\<lambda>(name, f).
     if 47 \<in> set name then panic ''assert''
     else
       case f of
         None \<Rightarrow> panic ''open''
       | Some pieces \<Rightarrow>
           let name = (if name \<noteq> [] \<and> hd name = 95 then tl name else name) in
           bind (mk_ialloc T_FILE) (\<lambda>n.
           seq (iappend rootino (dirent n name))
           (foreach pieces (iappend n))))"

definition mkfs :: "(u8 list \<times> u8 list list option) list \<Rightarrow> (unit, mk_st) kop" where
  "mkfs files =
     seq (modify (\<lambda>s. s\<lparr>mk_sb := mkfs_sb, freeblock := nmeta\<rparr>))
     (seq (foreach [0..<FSSIZE] (\<lambda>i. wsect i (\<lambda>_. 0)))
     (seq (bind (gets mk_sb) (\<lambda>sp. wsect 1 (put_sb sp (\<lambda>_. 0))))
     (bind (mk_ialloc T_DIR) (\<lambda>rootino.
     if rootino \<noteq> ROOTINO then panic ''assert''
     else
       seq (iappend rootino (dirent rootino [46]))
       (seq (iappend rootino (dirent rootino [46, 46]))
       (seq (foreach files (add_file rootino))
       (bind (rinode rootino) (\<lambda>din.
       seq (winode rootino (din\<lparr>d_size := (d_size din div BSIZE + 1) * BSIZE\<rparr>))
       (bind (gets freeblock) mk_balloc)))))))))"

text \<open>The command line: the name of the image, if there is one, which may be impossible to open, and the files.\<close>

definition mkfs_main :: "bool option \<Rightarrow> (u8 list \<times> u8 list list option) list \<Rightarrow> (unit, mk_st) kop" where
  "mkfs_main im files =
     (case im of
        None \<Rightarrow> panic ''Usage: mkfs fs.img files...''
      | Some opens \<Rightarrow> if \<not> opens then panic ''open'' else mkfs files)"

section \<open>The image\<close>

lemma xshort_id [simp]: "xshort x = x"
proof -
  have "put16 0 x (\<lambda>_. 0) = (\<lambda>_. 0)(0 := ucast x, 1 := ucast (drop_bit 8 x))" by (simp add: put16_def)
  then show ?thesis using get16_put16 [of 0 x "\<lambda>_. 0"] by (simp add: xshort_def)
qed

lemma xint_id [simp]: "xint x = x"
proof -
  have "put32 0 x (\<lambda>_. 0) = (\<lambda>_. 0)(0 := ucast x, 1 := ucast (drop_bit 8 x), 2 := ucast (drop_bit 16 x), 3 := ucast (drop_bit 24 x))"
    by (simp add: put32_def numeral_2_eq_2)
  then show ?thesis using get32_put32 [of 0 x "\<lambda>_. 0"] by (simp add: xint_def)
qed

lemma mkfs_sb_eq:
  "mkfs_sb = \<lparr>sb_size = 2000, sb_nblocks = 1941, sb_ninodes = 200, sb_nlog = 30, sb_logstart = 2, sb_inodestart = 32, sb_bmapstart = 58\<rparr>" "nmeta = 59"
  by (simp_all add: mkfs_sb_def nblocks_def nmeta_def nlog_def ninodeblocks_def nbitmap_def)

lemma mkfs_sb_simps [simp]:
  "sb_size mkfs_sb = 2000" "sb_ninodes mkfs_sb = 200" "sb_logstart mkfs_sb = 2" "sb_inodestart mkfs_sb = 32" "sb_bmapstart mkfs_sb = 58"
  by (simp_all add: mkfs_sb_eq)

lemma mk_bitmap_Suc: "mk_bitmap (Suc i) = set_taken i (mk_bitmap i)"
  by (simp add: set_taken_def bbit_def)

lemma mk_bitmap_taken: "taken (B(m := mk_bitmap n)) m a \<longleftrightarrow> a < n"
proof (induction n)
  case 0
  then show ?case by (simp add: taken_def)
next
  case (Suc n)
  have "taken (B(m := set_taken n (mk_bitmap n))) m a \<longleftrightarrow> a = n \<or> taken (B(m := mk_bitmap n)) m a"
    using taken_set [of "B(m := mk_bitmap n)" m n a] by simp
  then show ?case unfolding mk_bitmap_Suc Suc by linarith
qed

text \<open>The image with the bitmap it will have if nothing more is allocated, and an inode of the image.\<close>

definition fsimg :: "mk_st \<Rightarrow> nat \<Rightarrow> bytes" where
  "fsimg s = (img s)(58 := mk_bitmap (freeblock s))"

definition ino0 :: inode where
  "ino0 = \<lparr>idev = 1, inum = 0, iref = 0, ivalid = True, itype = 0, imajor = 0, iminor = 0, nlink = 0, isize = 0, addrs = (\<lambda>_. 0)\<rparr>"

abbreviation ino :: "dinode \<Rightarrow> inode" where "ino di \<equiv> load_inode di ino0"

lemma ino_simps [simp]: "addrs (ino di) = d_addrs di" "isize (ino di) = d_size di"
  "ino (di\<lparr>d_addrs := f\<rparr>) = (ino di)\<lparr>addrs := f\<rparr>" "ino (di\<lparr>d_size := z\<rparr>) = (ino di)\<lparr>isize := z\<rparr>"
  by (simp_all add: load_inode_def)

definition mk_ok :: "mk_st \<Rightarrow> bool" where
  "mk_ok s \<longleftrightarrow> mk_sb s = mkfs_sb \<and> nmeta \<le> freeblock s \<and> freeblock s \<le> FSSIZE \<and> nsect s = FSSIZE \<and> (\<forall>b \<ge> freeblock s. img s b = (\<lambda>_. 0))"

lemma fsimg_new:
  assumes "mk_ok s"
  shows "fsimg (s\<lparr>freeblock := freeblock s + 1\<rparr>) = (fsimg s)(58 := set_taken (freeblock s) (fsimg s 58), freeblock s := \<lambda>_. 0)"
    "\<not> taken (fsimg s) 58 (freeblock s)" "58 < freeblock s"
proof -
  show "58 < freeblock s" using assms by (simp add: mk_ok_def mkfs_sb_eq)
  then show "fsimg (s\<lparr>freeblock := freeblock s + 1\<rparr>) = (fsimg s)(58 := set_taken (freeblock s) (fsimg s 58), freeblock s := \<lambda>_. 0)"
    using assms by (auto simp: fsimg_def mk_bitmap_Suc mk_ok_def simp del: mk_bitmap.simps)
  show "\<not> taken (fsimg s) 58 (freeblock s)" by (simp add: fsimg_def mk_bitmap_taken)
qed

text \<open>
  The block \<open>fbn\<close> of a file after \<open>iappend_block\<close>: it is there, and what was allocated for it, if anything, holds zeroes and belonged
  to no file.
\<close>

definition block_post :: "nat \<Rightarrow> dinode \<Rightarrow> mk_st \<Rightarrow> nat \<Rightarrow> dinode \<Rightarrow> mk_st \<Rightarrow> bool" where
  "block_post fbn din s x din' s' \<longleftrightarrow> mk_ok s' \<and> freeinode s' = freeinode s \<and> x \<noteq> 0 \<and> baddr (fsimg s') (ino din') fbn = x
     \<and> (\<exists>f. din' = din\<lparr>d_addrs := f\<rparr>) \<and> good_file mkfs_sb (fsimg s') (ino din') \<and> only_file mkfs_sb (fsimg s) (ino din) (fsimg s') (ino din')
     \<and> (\<forall>k < MAXFILE * BSIZE. fbyte (fsimg s') (ino din') k = fbyte (fsimg s) (ino din) k)
     \<and> (\<forall>bn < MAXFILE. bn \<noteq> fbn \<longrightarrow> baddr (fsimg s') (ino din') bn = baddr (fsimg s) (ino din) bn)
     \<and> (d_addrs din' NDIRECT \<noteq> 0 \<longleftrightarrow> d_addrs din NDIRECT \<noteq> 0 \<or> NDIRECT \<le> fbn)
     \<and> freeblock s' = freeblock s + (if baddr (fsimg s) (ino din) fbn = 0 then 1 else 0)
         + (if NDIRECT \<le> fbn \<and> d_addrs din NDIRECT = 0 then 1 else 0)"

lemma mk_ok_new: "mk_ok s \<Longrightarrow> freeblock s < FSSIZE \<Longrightarrow> mk_ok (s\<lparr>freeblock := freeblock s + 1\<rparr>)"
  by (simp add: mk_ok_def)

lemma wp_newblock [simp]: "wp newblock Q s = Q (freeblock s) (s\<lparr>freeblock := freeblock s + 1\<rparr>)"
  by (simp add: newblock_def)

lemma block_direct:
  assumes "mk_ok s" "good_file mkfs_sb (fsimg s) (ino din)" "d_addrs din fbn = 0 \<Longrightarrow> freeblock s < FSSIZE" "fbn < NDIRECT"
  shows "wp (iappend_block fbn din) (\<lambda>(x, din'). block_post fbn din s x din') s"
proof (cases "d_addrs din fbn = 0")
  case True
  let ?s = "s\<lparr>freeblock := freeblock s + 1\<rparr>" and ?d = "din\<lparr>d_addrs := (d_addrs din)(fbn := freeblock s)\<rparr>"
  note N = fsimg_new [OF assms(1)]
  note G = grow_direct [OF assms(2), unfolded mkfs_sb_simps, OF N(2,3) _ assms(4), folded N(1)]
  have "block_post fbn din s (freeblock s) ?d ?s"
    unfolding block_post_def ino_simps using G True assms N(3) mk_ok_new [OF assms(1) assms(3) [OF True]] by (auto simp: baddr_def)
  then show ?thesis using True assms(4) by (simp add: iappend_block_def)
next
  case False
  then have "block_post fbn din s (d_addrs din fbn) din s"
    using assms by (auto simp: block_post_def baddr_def intro!: exI [of _ "d_addrs din"])
  then show ?thesis using False assms(4) by (simp add: iappend_block_def)
qed

lemma fsimg_other [simp]: "a \<noteq> 58 \<Longrightarrow> fsimg s a = img s a"
  by (simp add: fsimg_def)

lemma taken_fsimg [simp]: "taken (fsimg s) 58 a \<longleftrightarrow> a < freeblock s"
  by (simp add: fsimg_def mk_bitmap_taken)

lemma mk_fileD:
  assumes "mk_ok s" "good_file mkfs_sb (fsimg s) ip" "a \<in> fblocks (fsimg s) ip"
  shows "58 < a" "a < freeblock s" "a \<noteq> 58" "a < FSSIZE" "nsect s = FSSIZE"
  using assms by (auto simp: good_file_def mk_ok_def)

lemma mk_ok_wsect: "mk_ok s \<Longrightarrow> a < freeblock s \<Longrightarrow> mk_ok (s\<lparr>img := (img s)(a := d)\<rparr>)"
  by (auto simp: mk_ok_def)

lemma fsimg_wsect: "a \<noteq> 58 \<Longrightarrow> fsimg (s\<lparr>img := (img s)(a := d)\<rparr>) = (fsimg s)(a := d)"
  by (auto simp: fsimg_def)

lemma wp_rsect [simp]: "a < FSSIZE \<Longrightarrow> nsect s = FSSIZE \<Longrightarrow> wp (rsect a) Q s = Q (img s a) s"
  by (simp add: rsect_def)

lemma wp_wsect [simp]: "a < FSSIZE \<Longrightarrow> nsect s = FSSIZE \<Longrightarrow> wp (wsect a d) Q s = Q () (s\<lparr>img := (img s)(a := d)\<rparr>)"
  by (cases s) (simp add: wsect_def max_absorb1)

lemma block_entry:
  fixes s :: mk_st
  assumes s: "mk_ok s" "good_file mkfs_sb (fsimg s) (ino din)" "baddr (fsimg s) (ino din) (NDIRECT + j) = 0 \<Longrightarrow> freeblock s < FSSIZE"
    and j: "j < NINDIRECT" and i: "d_addrs din NDIRECT \<noteq> 0"
  shows "wp (bind (rsect (d_addrs din NDIRECT)) (\<lambda>indirect.
        if get32 indirect (4 * j) = 0 then
          bind newblock (\<lambda>b. seq (wsect (d_addrs din NDIRECT) (put32 (4 * j) (xint (of_nat b)) indirect)) (ret (b, din)))
        else ret (unat (xint (get32 indirect (4 * j))), din))) (\<lambda>(x, din'). block_post (NDIRECT + j) din s x din') s"
proof -
  let ?a = "d_addrs din NDIRECT" and ?b = "freeblock s"
  have "?a \<in> fblocks (fsimg s) (ino din)" using i by (simp add: fblocks_def)
  note A = mk_fileD [OF s(1,2) this]
  have z: "baddr (fsimg s) (ino din) (NDIRECT + j) = 0 \<longleftrightarrow> get32 (img s ?a) (4 * j) = 0" using i A by (simp add: baddr_def unat_eq_0)
  have "block_post (NDIRECT + j) din s ?b din (s\<lparr>freeblock := freeblock s + 1, img := (img s)(?a := put32 (4 * j) (of_nat ?b) (img s ?a))\<rparr>)"
    (is "block_post _ _ _ _ _ ?s") if z0: "get32 (img s ?a) (4 * j) = 0"
  proof -
    let ?s1 = "s\<lparr>freeblock := freeblock s + 1\<rparr>"
    have f: "freeblock s < FSSIZE" by (rule s(3) [OF iffD2 [OF z z0]])
    note N = fsimg_new [OF s(1)]
    have "fsimg ?s = (fsimg ?s1)(?a := put32 (4 * j) (of_nat ?b) (img s ?a))" using fsimg_wsect [of ?a ?s1] A(3) by simp
    then have e: "fsimg ?s = (fsimg s)(58 := set_taken ?b (fsimg s 58), ?b := \<lambda>_. 0, ?a := put32 (4 * j) (of_nat ?b) (img s ?a))" by (simp only: N(1))
    have "mk_ok ?s" using mk_ok_wsect [OF mk_ok_new [OF s(1) f], of ?a "put32 (4 * j) (of_nat ?b) (img s ?a)"] A(2) by simp
    note G = grow_entry [OF s(2), unfolded mkfs_sb_simps ino_simps, OF N(2,3) _ _ j i, unfolded fsimg_other [OF A(3)], folded e]
    then show ?thesis
      unfolding block_post_def using z0 z f N(3) i j G(5) [of "NDIRECT + j"] \<open>mk_ok ?s\<close> by (auto intro!: exI [of _ "d_addrs din"])
  qed
  moreover have "block_post (NDIRECT + j) din s (unat (get32 (img s ?a) (4 * j))) din s" if "get32 (img s ?a) (4 * j) \<noteq> 0"
    using that z s i A by (auto simp: block_post_def baddr_def unat_eq_0 intro!: exI [of _ "d_addrs din"])
  ultimately show ?thesis using A(4,5) by simp
qed

lemma block_ind:
  assumes "mk_ok s" "good_file mkfs_sb (fsimg s) (ino din)" "freeblock s < FSSIZE" "d_addrs din NDIRECT = 0"
    and s1: "s1 = s\<lparr>freeblock := freeblock s + 1\<rparr>" and d1: "din1 = din\<lparr>d_addrs := (d_addrs din)(NDIRECT := freeblock s)\<rparr>"
  shows "mk_ok s1" "good_file mkfs_sb (fsimg s1) (ino din1)" "d_addrs din1 NDIRECT \<noteq> 0"
    and "NDIRECT \<le> fbn \<Longrightarrow> fbn < MAXFILE \<Longrightarrow> block_post fbn din1 s1 x din' s' \<Longrightarrow> block_post fbn din s x din' s'"
proof -
  note N = fsimg_new [OF assms(1), folded s1]
  have e: "ino din1 = (ino din)\<lparr>addrs := (d_addrs din)(NDIRECT := freeblock s)\<rparr>" by (simp add: d1)
  note G = grow_ind [OF assms(2), unfolded mkfs_sb_simps ino_simps, OF N(2,3) assms(3,4), folded N(1) e]
  show "mk_ok s1" using mk_ok_new [OF assms(1,3)] by (simp add: s1)
  show "good_file mkfs_sb (fsimg s1) (ino din1)" by (rule G)
  show "d_addrs din1 NDIRECT \<noteq> 0" using N(3) by (simp add: d1)
  assume n: "NDIRECT \<le> fbn" "fbn < MAXFILE" and "block_post fbn din1 s1 x din' s'"
  note P = this(3) [unfolded block_post_def]
  have "only_file mkfs_sb (fsimg s1) (ino din1) (fsimg s') (ino din')" using P by blast
  then have "only_file mkfs_sb (fsimg s) (ino din) (fsimg s') (ino din')" by (rule only_file_trans [OF G(3)])
  moreover have "baddr (fsimg s) (ino din) fbn = 0" using n(1) assms(4) by (simp add: baddr_def)
  ultimately show "block_post fbn din s x din' s'"
    unfolding block_post_def using P G(2,5) n assms(4) N(3) by (auto simp: s1 d1)
qed

lemma wp_iappend_block:
  assumes "mk_ok s" "good_file mkfs_sb (fsimg s) (ino din)" "fbn < MAXFILE"
    and "freeblock s + (if baddr (fsimg s) (ino din) fbn = 0 then 1 else 0) + (if NDIRECT \<le> fbn \<and> d_addrs din NDIRECT = 0 then 1 else 0) \<le> FSSIZE"
  shows "wp (iappend_block fbn din) (\<lambda>(x, din'). block_post fbn din s x din') s"
proof (cases "fbn < NDIRECT")
  case True
  then show ?thesis using assms(4) by (intro block_direct [OF assms(1,2)]) (auto simp: baddr_def)
next
  case False
  then have j: "NDIRECT + (fbn - NDIRECT) = fbn" "fbn - NDIRECT < NINDIRECT" using assms(3) by simp_all
  show ?thesis
  proof (cases "d_addrs din NDIRECT = 0")
    case True
    let ?s = "s\<lparr>freeblock := freeblock s + 1\<rparr>" and ?d = "din\<lparr>d_addrs := (d_addrs din)(NDIRECT := freeblock s)\<rparr>"
    have f: "freeblock s < FSSIZE" "freeblock ?s < FSSIZE" using assms(4) False True by (simp_all add: baddr_def)
    note I = block_ind [OF assms(1,2) f(1) True refl refl]
    have "wp (iappend_block fbn din) (\<lambda>(x, din'). block_post fbn ?d ?s x din') s"
      using block_entry [OF I(1,2) f(2) j(2) I(3)] False True by (simp add: iappend_block_def j(1))
    then show ?thesis by (rule wp_mono) (use I(4) False assms(3) in auto)
  next
    case nz: False
    have "wp (iappend_block fbn din) (\<lambda>(x, din'). block_post (NDIRECT + (fbn - NDIRECT)) din s x din') s"
      using block_entry [OF assms(1,2) _ j(2) nz] False nz assms(4) unfolding j(1) by (auto simp: iappend_block_def split: if_splits)
    then show ?thesis unfolding j(1) .
  qed
qed

text \<open>A file whose blocks hold its first \<open>off\<close> bytes and no more, and the number of blocks it has, the indirect block included.\<close>

definition sized :: "(nat \<Rightarrow> bytes) \<Rightarrow> inode \<Rightarrow> nat \<Rightarrow> bool" where
  "sized B ip off \<longleftrightarrow> (\<forall>bn < MAXFILE. baddr B ip bn \<noteq> 0 \<longleftrightarrow> bn * BSIZE < off) \<and> (addrs ip NDIRECT \<noteq> 0 \<longleftrightarrow> NDIRECT * BSIZE < off)"

definition nb :: "nat \<Rightarrow> nat" where
  "nb z = (z + BSIZE - 1) div BSIZE + (if NDIRECT * BSIZE < z then 1 else 0)"

lemma append_arith:
  assumes "0 < n" "off mod BSIZE + n \<le> BSIZE"
  shows "bn * BSIZE < off + n \<longleftrightarrow> bn * BSIZE < off \<or> bn = off div BSIZE" "NDIRECT * BSIZE < off + n \<longleftrightarrow> NDIRECT * BSIZE < off \<or> NDIRECT \<le> off div BSIZE"
    "nb (off + n) = nb off + (if off mod BSIZE = 0 then 1 else 0) + (if off = NDIRECT * BSIZE then 1 else 0)"
    "off div BSIZE * BSIZE < off \<longleftrightarrow> off mod BSIZE \<noteq> 0" "NDIRECT \<le> off div BSIZE \<and> \<not> NDIRECT * BSIZE < off \<longleftrightarrow> off = NDIRECT * BSIZE"
proof -
  define q r where "q = off div BSIZE" and "r = off mod BSIZE"
  have o: "off = BSIZE * q + r" "r < BSIZE" "r + n \<le> BSIZE" "off div BSIZE = q" "off mod BSIZE = r" using assms by (auto simp: q_def r_def)
  show A: "bn * BSIZE < off + n \<longleftrightarrow> bn * BSIZE < off \<or> bn = off div BSIZE" "NDIRECT * BSIZE < off + n \<longleftrightarrow> NDIRECT * BSIZE < off \<or> NDIRECT \<le> off div BSIZE"
    "off div BSIZE * BSIZE < off \<longleftrightarrow> off mod BSIZE \<noteq> 0" "NDIRECT \<le> off div BSIZE \<and> \<not> NDIRECT * BSIZE < off \<longleftrightarrow> off = NDIRECT * BSIZE"
    unfolding o(4,5) using o(1-3) assms(1) by linarith+
  have "(off + n + BSIZE - 1) div BSIZE = q + 1" "(off + BSIZE - 1) div BSIZE = (if r = 0 then q else q + 1)"
    using o(1-3) assms(1) by (auto intro!: div_nat_eqI)
  moreover have "NDIRECT * BSIZE < off + n \<longleftrightarrow> NDIRECT * BSIZE < off \<or> off = NDIRECT * BSIZE" using A(2,4) by blast
  ultimately show "nb (off + n) = nb off + (if off mod BSIZE = 0 then 1 else 0) + (if off = NDIRECT * BSIZE then 1 else 0)"
    by (simp add: nb_def o(5))
qed

definition appended :: "nat \<Rightarrow> u8 list \<Rightarrow> dinode \<Rightarrow> mk_st \<Rightarrow> dinode \<Rightarrow> mk_st \<Rightarrow> bool" where
  "appended off p din s din' s' \<longleftrightarrow> mk_ok s' \<and> freeinode s' = freeinode s \<and> freeblock s' + nb off = freeblock s + nb (off + length p)
     \<and> (\<exists>f. din' = din\<lparr>d_addrs := f\<rparr>) \<and> good_file mkfs_sb (fsimg s') (ino din') \<and> only_file mkfs_sb (fsimg s) (ino din) (fsimg s') (ino din')
     \<and> sized (fsimg s') (ino din') (off + length p)
     \<and> (\<forall>k < MAXFILE * BSIZE. fbyte (fsimg s') (ino din') k = (if off \<le> k \<and> k < off + length p then p ! (k - off) else fbyte (fsimg s) (ino din) k))"

lemma appended_trans:
  assumes "appended off p din s din1 s1" "appended (off + length p) q din1 s1 din' s'"
  shows "appended off (p @ q) din s din' s'"
proof -
  note 1 = assms(1) [unfolded appended_def] and 2 = assms(2) [unfolded appended_def]
  have "only_file mkfs_sb (fsimg s) (ino din) (fsimg s1) (ino din1)" "only_file mkfs_sb (fsimg s1) (ino din1) (fsimg s') (ino din')" using 1 2 by blast+
  then have "only_file mkfs_sb (fsimg s) (ino din) (fsimg s') (ino din')" by (rule only_file_trans)
  moreover have "\<exists>f. din' = din\<lparr>d_addrs := f\<rparr>" using 1 2 by auto
  moreover have "fbyte (fsimg s') (ino din') k = (if off \<le> k \<and> k < off + length (p @ q) then (p @ q) ! (k - off) else fbyte (fsimg s) (ino din) k)"
    if "k < MAXFILE * BSIZE" for k
  proof -
    have "fbyte (fsimg s1) (ino din1) k = (if off \<le> k \<and> k < off + length p then p ! (k - off) else fbyte (fsimg s) (ino din) k)"
      "fbyte (fsimg s') (ino din') k = (if off + length p \<le> k \<and> k < off + length p + length q then q ! (k - (off + length p)) else fbyte (fsimg s1) (ino din1) k)"
      using 1 2 that by blast+
    then show ?thesis by (auto simp: nth_append)
  qed
  ultimately show ?thesis using 1 2 by (simp add: appended_def add.assoc)
qed

lemma wp_append_one:
  assumes s: "mk_ok s" "good_file mkfs_sb (fsimg s) (ino din)" "sized (fsimg s) (ino din) off"
    and p: "p \<noteq> []" "off mod BSIZE + length p \<le> BSIZE" "off + length p \<le> MAXFILE * BSIZE" "freeblock s + nb (off + length p) \<le> FSSIZE + nb off"
    and Q: "\<And>din' s'. appended off p din s din' s' \<Longrightarrow> wp (k din') Q s'" and buf: "\<And>x. F x = splice x (off mod BSIZE) ((!) p) 0 (length p)"
  shows "wp (bind (iappend_block (off div BSIZE) din) (\<lambda>(x, din). bind (rsect x) (\<lambda>buf. seq (wsect x (F buf)) (k din)))) Q s"
proof -
  have "off < MAXFILE * BSIZE" using p(1,3) by (cases p) simp_all
  then have n: "0 < length p" "off div BSIZE < MAXFILE" using p(1) by (simp_all add: less_mult_imp_div_less)
  note A = append_arith [OF n(1) p(2)]
  have z: "baddr (fsimg s) (ino din) bn = 0 \<longleftrightarrow> \<not> bn * BSIZE < off" if "bn < MAXFILE" for bn using s(3) that by (auto simp: sized_def)
  have i: "d_addrs din NDIRECT = 0 \<longleftrightarrow> \<not> NDIRECT * BSIZE < off" using s(3) unfolding sized_def ino_simps by blast
  have y: "(if baddr (fsimg s) (ino din) (off div BSIZE) = 0 then 1 else 0) + (if NDIRECT \<le> off div BSIZE \<and> d_addrs din NDIRECT = 0 then 1 else 0) + nb off
      = nb (off + length p)"
    unfolding z [OF n(2)] i A(3,4,5) by simp
  then have f: "freeblock s + (if baddr (fsimg s) (ino din) (off div BSIZE) = 0 then 1 else 0)
      + (if NDIRECT \<le> off div BSIZE \<and> d_addrs din NDIRECT = 0 then 1 else 0) \<le> FSSIZE"
    using p(4) by linarith
  have "wp (bind (rsect x) (\<lambda>buf. seq (wsect x (F buf)) (k din'))) Q s1" if P: "block_post (off div BSIZE) din s x din' s1" for x din' s1
  proof -
    have b: "mk_ok s1" "freeinode s1 = freeinode s" "x \<noteq> 0" "baddr (fsimg s1) (ino din') (off div BSIZE) = x" "\<exists>f. din' = din\<lparr>d_addrs := f\<rparr>"
      "good_file mkfs_sb (fsimg s1) (ino din')" "only_file mkfs_sb (fsimg s) (ino din) (fsimg s1) (ino din')"
      and c: "\<And>k. k < MAXFILE * BSIZE \<Longrightarrow> fbyte (fsimg s1) (ino din') k = fbyte (fsimg s) (ino din) k"
      "\<And>bn. bn < MAXFILE \<Longrightarrow> bn \<noteq> off div BSIZE \<Longrightarrow> baddr (fsimg s1) (ino din') bn = baddr (fsimg s) (ino din) bn"
      "d_addrs din' NDIRECT \<noteq> 0 \<longleftrightarrow> d_addrs din NDIRECT \<noteq> 0 \<or> NDIRECT \<le> off div BSIZE"
      and fb: "freeblock s1 = freeblock s + (if baddr (fsimg s) (ino din) (off div BSIZE) = 0 then 1 else 0)
         + (if NDIRECT \<le> off div BSIZE \<and> d_addrs din NDIRECT = 0 then 1 else 0)"
      using P unfolding block_post_def by blast+
    let ?s = "s1\<lparr>img := (img s1)(x := F (img s1 x))\<rparr>"
    have "x \<in> fblocks (fsimg s1) (ino din')" using baddr_fblocks [OF n(2)] b(3,4) by blast
    note X = mk_fileD [OF b(1,6) this]
    have e: "fsimg ?s = (fsimg s1)(x := F (fsimg s1 x))" using X(3) by (simp add: fsimg_wsect)
    note W = write_block [OF b(6) n(2), unfolded b(4), OF b(3) e]
    have "appended off p din s din' ?s"
      unfolding appended_def
    proof (intro conjI allI impI)
      show "mk_ok ?s" by (rule mk_ok_wsect [OF b(1) X(2)])
      show "only_file mkfs_sb (fsimg s) (ino din) (fsimg ?s) (ino din')" by (rule only_file_trans [OF b(7) W(3)])
      show "freeblock ?s + nb off = freeblock s + nb (off + length p)" unfolding y [symmetric] using fb by simp
      have "baddr (fsimg s1) (ino din') bn \<noteq> 0 \<longleftrightarrow> bn * BSIZE < off + length p" if "bn < MAXFILE" for bn
        unfolding A(1) using c(2) [OF that] z [OF that] b(3,4) by (cases "bn = off div BSIZE") simp_all
      then show "sized (fsimg ?s) (ino din') (off + length p)" unfolding sized_def W(1) A(2) ino_simps c(3) i by blast
      show "fbyte (fsimg ?s) (ino din') k = (if off \<le> k \<and> k < off + length p then p ! (k - off) else fbyte (fsimg s) (ino din) k)"
        if "k < MAXFILE * BSIZE" for k
        using write_bytes [OF b(6) n(2) b(4,3) p(2) that, of "(!) p" 0] c(1) [OF that] unfolding e by (simp add: buf)
    qed (use b W(2) in simp_all)
    then show ?thesis using X(4,5) Q by simp
  qed
  then show ?thesis using wp_mono [OF wp_iappend_block [OF s(1,2) n(2) f]] by auto
qed

lemma nb_mono: "m \<le> n \<Longrightarrow> nb m \<le> nb n"
  using div_le_mono [of "m + BSIZE - 1" "n + BSIZE - 1" BSIZE] by (simp add: nb_def)

lemma wp_iappend_loop:
  assumes "mk_ok s" "good_file mkfs_sb (fsimg s) (ino din)" "sized (fsimg s) (ino din) off"
    and "off + length p \<le> MAXFILE * BSIZE" "freeblock s + nb (off + length p) \<le> FSSIZE + nb off"
  shows "wp (iappend_loop din off p) (\<lambda>(din', off'). \<lambda>s'. off' = off + length p \<and> appended off p din s din' s') s"
  using assms
proof (induction "length p" arbitrary: s din off p rule: less_induct)
  case less
  show ?case
  proof (cases "p = []")
    case True
    then show ?thesis using less.prems by (subst iappend_loop.simps) (auto simp: appended_def intro!: exI [of _ "d_addrs din"])
  next
    case False
    let ?Q = "\<lambda>(din', off'). \<lambda>s'. off' = off + length p \<and> appended off p din s din' s'"
    define n where "n = min (length p) ((off div BSIZE + 1) * BSIZE - off)"
    have o: "BSIZE * (off div BSIZE) + off mod BSIZE = off" "off mod BSIZE < BSIZE" by simp_all
    have "(q + 1) * BSIZE - (BSIZE * q + r) = BSIZE - r" for q r :: nat by simp
    from this [of "off div BSIZE" "off mod BSIZE"] have n: "n = min (length p) (BSIZE - off mod BSIZE)" unfolding o(1) n_def by simp
    have l: "take n p \<noteq> []" "length (take n p) = n" "length (drop n p) < length p" "off + n + length (drop n p) = off + length p"
      "off mod BSIZE + n \<le> BSIZE" "off + n \<le> off + length p"
      using False o(2) by (auto simp: n)
    have k: "wp (iappend_loop din' (off + n) (drop n p)) ?Q s'" if A: "appended off (take n p) din s din' s'" for din' s'
    proof -
      have a: "mk_ok s'" "good_file mkfs_sb (fsimg s') (ino din')" "sized (fsimg s') (ino din') (off + n)"
        and f: "freeblock s' + nb off = freeblock s + nb (off + n)"
        using A unfolding appended_def l(2) by blast+
      have "wp (iappend_loop din' (off + n) (drop n p))
        (\<lambda>(d, off'). \<lambda>s2. off' = off + n + length (drop n p) \<and> appended (off + n) (drop n p) din' s' d s2) s'"
        by (rule less.hyps [OF l(3) a]) (use f less.prems(4,5) in \<open>unfold l(4), simp_all\<close>)
      then show ?thesis
        unfolding l(4) by (rule wp_mono) (use appended_trans [OF A, unfolded l(2)] in fastforce)
    qed
    have "off < MAXFILE * BSIZE" using less.prems(4) False by (cases p) simp_all
    then have bn: "off div BSIZE < MAXFILE" by (simp add: less_mult_imp_div_less)
    have "iappend_loop din off p = bind (iappend_block (off div BSIZE) din) (\<lambda>(x, din). bind (rsect x) (\<lambda>buf.
      seq (wsect x (splice buf (off - off div BSIZE * BSIZE) ((!) p) 0 n)) (iappend_loop din (off + n) (drop n p))))"
      using False bn by (subst iappend_loop.simps) (simp only: Let_def n_def [symmetric] if_True not_not if_False simp_thms)
    moreover have "splice x (off - off div BSIZE * BSIZE) ((!) p) 0 n = splice x (off mod BSIZE) ((!) (take n p)) 0 (length (take n p))" for x
      unfolding l(2) by (auto simp: splice_def fun_eq_iff minus_div_mult_eq_mod)
    ultimately show ?thesis
      using wp_append_one [OF less.prems(1-3) l(1), unfolded l(2), OF l(5), where k = "\<lambda>din. iappend_loop din (off + n) (drop n p)" and Q = ?Q, OF _ _ k]
        less.prems(4,5) nb_mono [OF l(6)] l(6) by simp
  qed
qed

section \<open>Files of the image\<close>

definition inode_of :: "(nat \<Rightarrow> bytes) \<Rightarrow> nat \<Rightarrow> inode" where
  "inode_of B n = ino (get_dinode (B (IBLOCK n mkfs_sb)) (64 * (n mod IPB)))"

definition inode_at :: "mk_st \<Rightarrow> nat \<Rightarrow> inode" where
  "inode_at s = inode_of (fsimg s)"

definition file_at :: "mk_st \<Rightarrow> nat \<Rightarrow> u16 \<times> u8 list \<Rightarrow> bool" where
  "file_at s n f \<longleftrightarrow> (let ip = inode_at s n in itype ip = fst f \<and> nlink ip = 1 \<and> fdata (fsimg s) ip = snd f
     \<and> good_file mkfs_sb (fsimg s) ip \<and> sized (fsimg s) ip (isize ip) \<and> (\<forall>k < MAXFILE * BSIZE. isize ip \<le> k \<longrightarrow> fbyte (fsimg s) ip k = 0))"

text \<open>The number of blocks in use, and whether there is room for files like these.\<close>

definition used :: "(u16 \<times> u8 list) list \<Rightarrow> nat" where
  "used fl = nmeta + sum_list (map (\<lambda>f. nb (length (snd f))) fl)"

definition fits :: "(u16 \<times> u8 list) list \<Rightarrow> bool" where
  "fits fl \<longleftrightarrow> length fl < NINODES \<and> (\<forall>f \<in> set fl. length (snd f) \<le> MAXFILE * BSIZE) \<and> used fl \<le> FSSIZE"

text \<open>The image holds the list of files: the inodes from 1 on, each with its type and bytes, no two with a block in common.\<close>

definition holds :: "mk_st \<Rightarrow> (u16 \<times> u8 list) list \<Rightarrow> bool" where
  "holds s fl \<longleftrightarrow> mk_ok s \<and> freeinode s = 1 + length fl \<and> length fl < NINODES \<and> freeblock s = used fl
     \<and> img s 1 = put_sb mkfs_sb (\<lambda>_. 0) \<and> (\<forall>b. 2 \<le> b \<and> b < sb_inodestart mkfs_sb \<longrightarrow> img s b = (\<lambda>_. 0))
     \<and> (\<forall>i < length fl. file_at s (1 + i) (fl ! i))
     \<and> (\<forall>i < length fl. \<forall>j < length fl. i \<noteq> j \<longrightarrow> fblocks (fsimg s) (inode_at s (1 + i)) \<inter> fblocks (fsimg s) (inode_at s (1 + j)) = {})"

lemma IBLOCK_mkfs: "n < NINODES \<Longrightarrow> IBLOCK n mkfs_sb < 58" "32 \<le> IBLOCK n mkfs_sb"
  by (simp_all add: IBLOCK_def)

lemma put_dinode_ino: "put_dinode p din d = put_inode p (ino din) d"
  by (simp add: put_dinode_def put_inode_def load_inode_def)

lemma slot_other:
  assumes "n \<noteq> m" "IBLOCK n mkfs_sb = IBLOCK m mkfs_sb" "j < 64"
  shows "64 * (n mod IPB) + j < 64 * (m mod IPB) \<or> 64 * (m mod IPB) + 64 \<le> 64 * (n mod IPB) + j"
proof -
  have "n mod IPB \<noteq> m mod IPB" using assms(1,2) div_mult_mod_eq [of n IPB] div_mult_mod_eq [of m IPB] by (auto simp: IBLOCK_def)
  then show ?thesis using assms(3) by auto
qed

lemma get_dinode_cong: "(\<And>k. p \<le> k \<Longrightarrow> k < p + 64 \<Longrightarrow> d k = e k) \<Longrightarrow> get_dinode d p = get_dinode e p"
  by (simp add: get_dinode_def get16_def get32_def fun_eq_iff)

text \<open>Writing an inode changes no other one.\<close>

lemma inode_at_winode:
  fixes s :: mk_st and din :: dinode and n :: nat
  assumes "n < NINODES" "d_size din < 2 ^ 32" "\<And>j. j \<le> NDIRECT \<Longrightarrow> d_addrs din j < 2 ^ 32"
  defines "b \<equiv> IBLOCK n mkfs_sb"
  defines "s' \<equiv> s\<lparr>img := (img s)(b := put_dinode (64 * (n mod IPB)) din (img s b))\<rparr>"
  shows "inode_at s' n = ino (dino (ino din))" "m \<noteq> n \<Longrightarrow> inode_at s' m = inode_at s m"
proof -
  have b: "b \<noteq> 58" "img s b = fsimg s b" using IBLOCK_mkfs(1) [OF assms(1)] by (simp_all add: b_def)
  have e: "fsimg s' = (fsimg s)(b := put_inode (64 * (n mod IPB)) (ino din) (fsimg s b))"
    unfolding s'_def by (simp only: fsimg_wsect [OF b(1)] put_dinode_ino b(2))
  note P = get_put_inode [where ip = "ino din" and p = "64 * (n mod IPB)" and d = "fsimg s b", unfolded ino_simps, OF assms(2,3)]
  show "inode_at s' n = ino (dino (ino din))" using P(1) by (simp add: inode_at_def inode_of_def e b_def)
  assume "m \<noteq> n"
  have "get_dinode (put_inode (64 * (n mod IPB)) (ino din) (fsimg s b)) (64 * (m mod IPB)) = get_dinode (fsimg s b) (64 * (m mod IPB))" if "IBLOCK m mkfs_sb = b"
  proof (rule get_dinode_cong)
    fix k
    assume "64 * (m mod IPB) \<le> k" "k < 64 * (m mod IPB) + 64"
    then obtain j where "k = 64 * (m mod IPB) + j" "j < 64" by (metis le_Suc_ex nat_add_left_cancel_less)
    then show "put_inode (64 * (n mod IPB)) (ino din) (fsimg s b) k = fsimg s b k"
      using slot_other [OF \<open>m \<noteq> n\<close> _ \<open>j < 64\<close>] that by (intro P(2)) (simp_all add: b_def)
  qed
  then show "inode_at s' m = inode_at s m" by (simp add: inode_at_def inode_of_def e)
qed

text \<open>What a file is depends on its first addresses and its size only, and on the blocks it has.\<close>

lemma file_cong:
  assumes "\<forall>j \<le> NDIRECT. addrs jp j = addrs ip j"
  shows "baddr B jp = baddr B ip" "fblocks B jp = fblocks B ip" "sized B jp z = sized B ip z" "fbyte B jp k = fbyte B ip k"
    "isize jp = isize ip \<Longrightarrow> good_file sp B jp = good_file sp B ip" "isize jp = isize ip \<Longrightarrow> fdata B jp = fdata B ip"
proof -
  show b: "baddr B jp = baddr B ip" using assms by (intro ext) (simp add: baddr_def)
  have f: "fbyte B jp = fbyte B ip" by (intro ext) (simp add: fbyte_def b)
  then show "fbyte B jp k = fbyte B ip k" by simp
  show c: "fblocks B jp = fblocks B ip" using assms by (simp add: fblocks_def b)
  show "sized B jp z = sized B ip z" using assms by (simp add: sized_def b)
  show "isize jp = isize ip \<Longrightarrow> good_file sp B jp = good_file sp B ip" using assms by (simp add: good_file_def b c)
  show "isize jp = isize ip \<Longrightarrow> fdata B jp = fdata B ip" by (simp add: fdata_def f)
qed

lemma blocks_cong:
  assumes "\<forall>a \<in> fblocks B ip. B' a = B a" "\<forall>a \<in> fblocks B ip. taken B' (sb_bmapstart sp) a" "good_file sp B ip"
  shows "good_file sp B' ip" "fblocks B' ip = fblocks B ip" "fdata B' ip = fdata B ip" "sized B' ip z = sized B ip z"
    "k < MAXFILE * BSIZE \<Longrightarrow> fbyte B' ip k = fbyte B ip k"
proof -
  note C = fblocks_cong [OF assms(1)]
  show "fblocks B' ip = fblocks B ip" "k < MAXFILE * BSIZE \<Longrightarrow> fbyte B' ip k = fbyte B ip k" by (rule C, rule C)
  show "good_file sp B' ip" using assms(2,3) unfolding good_file_def C(1,2) by blast
  have "isize ip \<le> MAXFILE * BSIZE" using assms(3) by (simp add: good_file_def)
  then show "fdata B' ip = fdata B ip" by (simp add: fdata_def C(3))
  show "sized B' ip z = sized B ip z" by (simp add: sized_def C(1))
qed

lemma file_at_cong:
  assumes "file_at s n f" "inode_at s' n = inode_at s n" "\<forall>a \<in> fblocks (fsimg s) (inode_at s n). fsimg s' a = fsimg s a" "freeblock s \<le> freeblock s'"
  shows "file_at s' n f" "fblocks (fsimg s') (inode_at s' n) = fblocks (fsimg s) (inode_at s n)"
proof -
  have g: "good_file mkfs_sb (fsimg s) (inode_at s n)" using assms(1) by (simp add: file_at_def Let_def)
  have "taken (fsimg s') (sb_bmapstart mkfs_sb) a" if "a \<in> fblocks (fsimg s) (inode_at s n)" for a
    using g that assms(4) by (fastforce simp: good_file_def)
  note B = blocks_cong [OF assms(3) ballI [OF this] g]
  show "file_at s' n f" using assms(1) B by (simp add: file_at_def Let_def assms(2))
  show "fblocks (fsimg s') (inode_at s' n) = fblocks (fsimg s) (inode_at s n)" by (simp add: assms(2) B(2))
qed

lemma file_resize:
  assumes "good_file sp B ip" "sized B ip z" "z \<le> MAXFILE * BSIZE"
  shows "good_file sp B (ip\<lparr>isize := z\<rparr>)"
proof -
  note C = file_cong(1,2) [of "ip\<lparr>isize := z\<rparr>" ip]
  have "baddr B ip bn \<noteq> 0" if "bn * BSIZE < z" for bn
  proof -
    have "bn < MAXFILE" using that assms(3) by linarith
    then show ?thesis using that assms(2) by (simp add: sized_def)
  qed
  then show ?thesis using assms(1,3) by (simp add: good_file_def C)
qed

lemma used_update: "i < length fl \<Longrightarrow> used (fl[i := f]) + nb (length (snd (fl ! i))) = used fl + nb (length (snd f))"
  by (induction fl arbitrary: i) (auto simp: used_def split: nat.splits)

lemma file_addr:
  assumes "good_file mkfs_sb B ip" "j \<le> NDIRECT"
  shows "addrs ip j < FSSIZE"
proof (cases "addrs ip j = 0")
  case False
  have "addrs ip j = baddr B ip j \<or> j = NDIRECT" using assms(2) by (auto simp: baddr_def)
  then have "addrs ip j \<in> fblocks B ip" using False assms(2) by (auto simp: fblocks_def)
  then show ?thesis using assms(1) by (auto simp: good_file_def)
qed simp

text \<open>The inode is written back after its blocks.\<close>

lemma append_file:
  fixes s1 :: mk_st
  assumes n: "n < NINODES" and f: "file_at s n f" "ino din = inode_at s n" and a: "appended (d_size din) xs din s din1 s1"
    and z: "d_size din + length xs \<le> MAXFILE * BSIZE"
  defines "s2 \<equiv> s1\<lparr>img := (img s1)(IBLOCK n mkfs_sb := put_dinode (64 * (n mod IPB)) (din1\<lparr>d_size := d_size din + length xs\<rparr>) (img s1 (IBLOCK n mkfs_sb)))\<rparr>"
  shows "file_at s2 n (fst f, snd f @ xs)" "fblocks (fsimg s2) (inode_at s2 n) = fblocks (fsimg s1) (ino din1)"
    "m \<noteq> n \<Longrightarrow> inode_at s2 m = inode_at s1 m" "a \<noteq> IBLOCK n mkfs_sb \<Longrightarrow> fsimg s2 a = fsimg s1 a"
proof -
  let ?z = "d_size din + length xs" and ?b = "IBLOCK n mkfs_sb" and ?d = "din1\<lparr>d_size := d_size din + length xs\<rparr>"
  have g: "mk_ok s1" "good_file mkfs_sb (fsimg s1) (ino din1)" "sized (fsimg s1) (ino din1) ?z" "\<exists>f. din1 = din\<lparr>d_addrs := f\<rparr>"
    and fb: "\<And>k. k < MAXFILE * BSIZE \<Longrightarrow> fbyte (fsimg s1) (ino din1) k = (if d_size din \<le> k \<and> k < ?z then xs ! (k - d_size din) else fbyte (fsimg s) (ino din) k)"
    using a unfolding appended_def by blast+
  have b: "?b < 58" by (rule IBLOCK_mkfs(1) [OF n])
  have e: "fsimg s2 a = fsimg s1 a" if "a \<noteq> ?b" for a using that b by (simp add: s2_def fsimg_wsect)
  then show "a \<noteq> ?b \<Longrightarrow> fsimg s2 a = fsimg s1 a" .
  have "addrs (ino din1) j < 2 ^ 32" if "j \<le> NDIRECT" for j using file_addr [OF g(2) that] by simp
  then have "d_size ?d < 2 ^ 32" "\<And>j. j \<le> NDIRECT \<Longrightarrow> d_addrs ?d j < 2 ^ 32" using z by simp_all
  note W = inode_at_winode [OF n this, where s = s1, folded s2_def]
  show "m \<noteq> n \<Longrightarrow> inode_at s2 m = inode_at s1 m" by (rule W(2))
  have ip: "\<forall>j \<le> NDIRECT. addrs (inode_at s2 n) j = addrs (ino din1) j" "isize (inode_at s2 n) = ?z"
    "itype (inode_at s2 n) = itype (ino din1)" "nlink (inode_at s2 n) = nlink (ino din1)"
    by (simp_all add: W(1) dino_def load_inode_def)
  have r: "good_file mkfs_sb (fsimg s1) (inode_at s2 n)"
    using file_resize [OF g(2,3) z] file_cong(5) [of "inode_at s2 n" "(ino din1)\<lparr>isize := ?z\<rparr>"] ip(1,2) by simp
  note C = file_cong [OF ip(1)]
  have fr: "freeblock s2 = freeblock s1" by (simp add: s2_def)
  have x: "fsimg s2 a = fsimg s1 a" "taken (fsimg s2) (sb_bmapstart mkfs_sb) a" if "a \<in> fblocks (fsimg s1) (inode_at s2 n)" for a
  proof -
    show "fsimg s2 a = fsimg s1 a" using mk_fileD(1) [OF g(1) r that] b by (intro e) auto
    show "taken (fsimg s2) (sb_bmapstart mkfs_sb) a" using mk_fileD(2) [OF g(1) r that] fr by simp
  qed
  then have "\<forall>a \<in> fblocks (fsimg s1) (inode_at s2 n). fsimg s2 a = fsimg s1 a" "\<forall>a \<in> fblocks (fsimg s1) (inode_at s2 n). taken (fsimg s2) (sb_bmapstart mkfs_sb) a"
    by blast+
  note B = blocks_cong [OF this r]
  show "fblocks (fsimg s2) (inode_at s2 n) = fblocks (fsimg s1) (ino din1)" by (rule trans [OF B(2) C(2)])
  have F: "itype (ino din) = fst f" "nlink (ino din) = 1" "fdata (fsimg s) (ino din) = snd f" "\<And>k. k < MAXFILE * BSIZE \<Longrightarrow> d_size din \<le> k \<Longrightarrow> fbyte (fsimg s) (ino din) k = 0"
    using f(1) unfolding file_at_def Let_def f(2) [symmetric] ino_simps by blast+
  have l: "length (snd f) = d_size din" using fdata_nth(2) [of "fsimg s" "ino din"] by (simp add: F(3))
  have "fdata (fsimg s1) (inode_at s2 n) = snd f @ xs"
  proof (rule fdata_eqI)
    show "length (snd f @ xs) = isize (inode_at s2 n)" by (simp add: l ip(2))
    fix k
    assume k: "k < isize (inode_at s2 n)"
    show "fbyte (fsimg s1) (inode_at s2 n) k = (snd f @ xs) ! k"
      using k z fb [of k] fdata_nth(1) [of k "ino din" "fsimg s"] unfolding C(4) by (simp add: ip(2) F(3) l nth_append)
  qed
  moreover have "sized (fsimg s2) (inode_at s2 n) ?z" using g(3) trans [OF B(4) C(3)] by blast
  moreover have "itype (ino din1) = itype (ino din)" "nlink (ino din1) = nlink (ino din)" using g(4) by (auto simp: load_inode_def)
  moreover have "fbyte (fsimg s2) (inode_at s2 n) k = 0" if "k < MAXFILE * BSIZE" "?z \<le> k" for k
    using trans [OF B(5) [OF that(1)] C(4)] fb [OF that(1)] F(4) [OF that(1)] that(2) by simp
  ultimately show "file_at s2 n (fst f, snd f @ xs)" using B(1,3) F(1,2) by (simp add: file_at_def Let_def ip)
qed

lemma holdsD:
  assumes "holds s fl"
  shows "mk_ok s" "freeinode s = 1 + length fl" "length fl < NINODES" "freeblock s = used fl" "mk_sb s = mkfs_sb"
    "i < length fl \<Longrightarrow> file_at s (1 + i) (fl ! i)" "i < length fl \<Longrightarrow> good_file mkfs_sb (fsimg s) (inode_at s (1 + i))"
    "i < length fl \<Longrightarrow> j < length fl \<Longrightarrow> i \<noteq> j \<Longrightarrow> fblocks (fsimg s) (inode_at s (1 + i)) \<inter> fblocks (fsimg s) (inode_at s (1 + j)) = {}"
  using assms unfolding holds_def mk_ok_def file_at_def Let_def by blast+

text \<open>One file changes, and takes what blocks it needs from the free ones.\<close>

lemma holds_change:
  assumes H: "holds s fl" and i: "i < length fl" and s': "mk_ok s'" "freeinode s' = freeinode s" "freeblock s' = used (fl[i := f])" "freeblock s \<le> freeblock s'"
    and low: "\<And>a. a < sb_inodestart mkfs_sb \<Longrightarrow> img s' a = img s a" and f: "file_at s' (1 + i) f"
    and other: "\<And>m. m < NINODES \<Longrightarrow> m \<noteq> 1 + i \<Longrightarrow> inode_at s' m = inode_at s m"
    and data: "\<And>a. 58 < a \<Longrightarrow> a < freeblock s \<Longrightarrow> a \<notin> fblocks (fsimg s) (inode_at s (1 + i)) \<Longrightarrow> fsimg s' a = fsimg s a"
    and new: "fblocks (fsimg s') (inode_at s' (1 + i)) \<subseteq> fblocks (fsimg s) (inode_at s (1 + i)) \<union> {b. \<not> b < freeblock s}"
  shows "holds s' (fl[i := f])"
proof -
  note D = holdsD [OF H]
  have b: "58 < a" "a < freeblock s" if "a \<in> fblocks (fsimg s) (inode_at s (1 + j))" "j < length fl" for a j
    by (rule mk_fileD [OF D(1) D(7) [OF that(2)] that(1)])+
  have o: "file_at s' (1 + j) (fl ! j)" "fblocks (fsimg s') (inode_at s' (1 + j)) = fblocks (fsimg s) (inode_at s (1 + j))" if "j < length fl" "j \<noteq> i" for j
  proof -
    have "\<forall>a \<in> fblocks (fsimg s) (inode_at s (1 + j)). fsimg s' a = fsimg s a" using b that D(8) [OF that(1) i that(2)] by (blast intro: data)
    note C = file_at_cong [OF D(6) [OF that(1)] other this s'(4)]
    show "file_at s' (1 + j) (fl ! j)" "fblocks (fsimg s') (inode_at s' (1 + j)) = fblocks (fsimg s) (inode_at s (1 + j))"
      using D(3) that by (intro C; simp)+
  qed
  have d: "fblocks (fsimg s') (inode_at s' (1 + i)) \<inter> fblocks (fsimg s') (inode_at s' (1 + j)) = {}" if "j < length fl" "j \<noteq> i" for j
    unfolding o(2) [OF that] using new D(8) [OF i that(1) that(2) [symmetric]] b(2) that(1) by blast
  show ?thesis
    unfolding holds_def length_list_update
  proof (intro conjI allI impI)
    show "file_at s' (1 + j) (fl[i := f] ! j)" if "j < length fl" for j using o(1) [OF that] f i by (cases "j = i") simp_all
    show "fblocks (fsimg s') (inode_at s' (1 + j)) \<inter> fblocks (fsimg s') (inode_at s' (1 + k)) = {}" if "j < length fl" "k < length fl" "j \<noteq> k" for j k
      using that d [of j] d [of k] D(8) [OF that] o(2) [of j] o(2) [of k] by (cases "j = i"; cases "k = i") (auto simp del: plus_1_eq_Suc)
    show "img s' 1 = put_sb mkfs_sb (\<lambda>_. 0)" using H low [of 1] by (simp add: holds_def)
    show "img s' b = (\<lambda>_. 0)" if "2 \<le> b \<and> b < sb_inodestart mkfs_sb" for b using H low [of b] that by (simp add: holds_def)
  qed (use s' D in simp_all)
qed

lemma wp_winode [simp]:
  assumes "mk_sb s = mkfs_sb" "nsect s = FSSIZE" "n < NINODES"
  shows "wp (winode n din) Q s = Q () (s\<lparr>img := (img s)(IBLOCK n mkfs_sb := put_dinode (64 * (n mod IPB)) din (img s (IBLOCK n mkfs_sb)))\<rparr>)"
  using IBLOCK_mkfs(1) [OF assms(3)] by (simp add: winode_def assms(1,2))

lemma wp_rinode [simp]:
  assumes "mk_sb s = mkfs_sb" "nsect s = FSSIZE" "n < NINODES"
  shows "wp (rinode n) Q s = Q (get_dinode (img s (IBLOCK n mkfs_sb)) (64 * (n mod IPB))) s"
  using IBLOCK_mkfs(1) [OF assms(3)] by (simp add: rinode_def assms(1,2))

lemma wp_iappend:
  assumes H: "holds s fl" and i: "i < length fl" and fit: "fits (fl[i := (fst (fl ! i), snd (fl ! i) @ xs)])"
  shows "wp (iappend (1 + i) xs) (\<lambda>_ s'. holds s' (fl[i := (fst (fl ! i), snd (fl ! i) @ xs)])) s"
proof -
  let ?n = "1 + i" and ?f = "(fst (fl ! i), snd (fl ! i) @ xs)"
  note D = holdsD [OF H]
  have n: "?n < NINODES" using D(3) i by simp
  define din where "din = get_dinode (img s (IBLOCK ?n mkfs_sb)) (64 * (?n mod IPB))"
  have e: "ino din = inode_at s ?n" using IBLOCK_mkfs(1) [OF n] by (simp add: din_def inode_at_def inode_of_def)
  have F: "fdata (fsimg s) (ino din) = snd (fl ! i)" "good_file mkfs_sb (fsimg s) (ino din)" "sized (fsimg s) (ino din) (d_size din)"
    using D(6) [OF i] unfolding file_at_def Let_def e [symmetric] ino_simps by blast+
  have l: "length (snd (fl ! i)) = d_size din" using fdata_nth(2) [of "fsimg s" "ino din"] by (simp add: F(1))
  have u: "used (fl[i := ?f]) + nb (d_size din) = used fl + nb (d_size din + length xs)" using used_update [OF i, of ?f] by (simp add: l)
  have "?f \<in> set (fl[i := ?f])" using i by (rule set_update_memI)
  then have z: "d_size din + length xs \<le> MAXFILE * BSIZE" using fit by (force simp: fits_def l)
  have "freeblock s + nb (d_size din + length xs) \<le> FSSIZE + nb (d_size din)" using u fit D(4) by (simp add: fits_def)
  note L = wp_iappend_loop [OF D(1) F(2,3) z this]
  have "holds (s1\<lparr>img := (img s1)(IBLOCK ?n mkfs_sb := put_dinode (64 * (?n mod IPB)) (din1\<lparr>d_size := d_size din + length xs\<rparr>) (img s1 (IBLOCK ?n mkfs_sb)))\<rparr>)
      (fl[i := ?f])" (is "holds ?s _")
    if A: "appended (d_size din) xs din s din1 s1" for din1 s1
  proof -
    have a: "mk_ok s1" "freeinode s1 = freeinode s" "freeblock s1 + nb (d_size din) = freeblock s + nb (d_size din + length xs)"
      "only_file mkfs_sb (fsimg s) (ino din) (fsimg s1) (ino din1)"
      using A unfolding appended_def by blast+
    note O = only_fileD [OF a(4), unfolded e mkfs_sb_simps taken_fsimg] and P = append_file [OF n D(6) [OF i] e A z]
    have low: "fsimg s1 a = fsimg s a" if "a < 58" for a
      using that mk_fileD(1) [OF D(1) D(7) [OF i], of a] fsimg_new(3) [OF D(1)] by (intro O(1)) auto
    have sz: "freeblock ?s = used (fl[i := ?f])" "freeblock s \<le> freeblock s1" using a(3) u D(4) nb_mono [of "d_size din" "d_size din + length xs"] by simp_all
    show ?thesis
    proof (rule holds_change [OF H i _ _ sz(1)])
      show "mk_ok ?s" using IBLOCK_mkfs(1) [OF n] fsimg_new(3) [OF a(1)] by (intro mk_ok_wsect [OF a(1)]) simp
      show "freeinode ?s = freeinode s" "freeblock s \<le> freeblock ?s" using a(2) sz(2) by simp_all
      show "img ?s a = img s a" if "a < sb_inodestart mkfs_sb" for a using that low [of a] IBLOCK_mkfs(2) [of ?n] by simp
      show "file_at ?s ?n ?f" by (rule P(1))
      show "inode_at ?s m = inode_at s m" if "m < NINODES" "m \<noteq> ?n" for m
        using P(3) [OF that(2)] low [OF IBLOCK_mkfs(1) [OF that(1)]] by (simp add: inode_at_def inode_of_def)
      show "fsimg ?s a = fsimg s a" if "58 < a" "a < freeblock s" "a \<notin> fblocks (fsimg s) (inode_at s ?n)" for a
        using P(4) [of a] O(1) [of a] that IBLOCK_mkfs(1) [OF n] by simp
      show "fblocks (fsimg ?s) (inode_at ?s ?n) \<subseteq> fblocks (fsimg s) (inode_at s ?n) \<union> {b. \<not> b < freeblock s}" unfolding P(2) using O(4) by blast
    qed
  qed
  moreover have "mk_sb s1 = mkfs_sb" "nsect s1 = FSSIZE" if "appended (d_size din) xs din s din1 s1" for din1 s1 using that by (simp_all add: appended_def mk_ok_def)
  ultimately have "wp (iappend_loop din (d_size din) xs) (\<lambda>(d, off). wp (winode ?n (d\<lparr>d_size := off\<rparr>)) (\<lambda>_ s'. holds s' (fl[i := ?f]))) s"
    using n by (intro wp_mono [OF L]) auto
  moreover have "nsect s = FSSIZE" using D(1) by (simp add: mk_ok_def)
  ultimately show ?thesis using D(5) n by (simp add: iappend_def din_def case_prod_unfold)
qed

lemma wp_mk_ialloc:
  assumes H: "holds s fl" and l: "1 + length fl < NINODES"
  shows "wp (mk_ialloc ty) (\<lambda>n s'. n = 1 + length fl \<and> holds s' (fl @ [(ty, [])])) s"
proof -
  let ?n = "1 + length fl" and ?d = "\<lparr>d_type = ty, d_major = 0, d_minor = 0, d_nlink = 1, d_size = 0, d_addrs = (\<lambda>_. 0)\<rparr> :: dinode" and ?s1 = "s\<lparr>freeinode := freeinode s + 1\<rparr>"
  define s' where "s' = ?s1\<lparr>img := (img s)(IBLOCK ?n mkfs_sb := put_dinode (64 * (?n mod IPB)) ?d (img s (IBLOCK ?n mkfs_sb)))\<rparr>"
  note D = holdsD [OF H] and b = IBLOCK_mkfs(1) [OF l]
  have s': "s' = ?s1\<lparr>img := (img ?s1)(IBLOCK ?n mkfs_sb := put_dinode (64 * (?n mod IPB)) ?d (img ?s1 (IBLOCK ?n mkfs_sb)))\<rparr>" by (simp add: s'_def)
  have W: "inode_at s' ?n = ino (dino (ino ?d))" "m \<noteq> ?n \<Longrightarrow> inode_at s' m = inode_at ?s1 m" for m
    unfolding s' by (rule inode_at_winode [OF l]; simp)+
  have e: "fsimg s' a = fsimg s a" if "a \<noteq> IBLOCK ?n mkfs_sb" for a using that by (simp add: s'_def fsimg_def)
  have "addrs (inode_at s' ?n) j = 0" "isize (inode_at s' ?n) = 0" "itype (inode_at s' ?n) = ty" "nlink (inode_at s' ?n) = 1" for j
    unfolding W(1) by (simp_all add: dino_def load_inode_def)
  then have n: "file_at s' ?n (ty, [])" "fblocks (fsimg s') (inode_at s' ?n) = {}"
    by (simp_all add: file_at_def fdata_def good_file_def sized_def fblocks_def fbyte_def baddr_def Let_def image_constant_conv)
  have o: "file_at s' (1 + j) (fl ! j)" "fblocks (fsimg s') (inode_at s' (1 + j)) = fblocks (fsimg s) (inode_at s (1 + j))" if "j < length fl" for j
  proof -
    have "\<forall>a \<in> fblocks (fsimg s) (inode_at s (1 + j)). fsimg s' a = fsimg s a" using mk_fileD(1) [OF D(1) D(7) [OF that]] b by (intro ballI e) force
    moreover have "inode_at s' (1 + j) = inode_at s (1 + j)" using W(2) [of "1 + j"] that by (simp add: inode_at_def inode_of_def fsimg_def)
    moreover have "freeblock s \<le> freeblock s'" by (simp add: s'_def)
    ultimately show "file_at s' (1 + j) (fl ! j)" "fblocks (fsimg s') (inode_at s' (1 + j)) = fblocks (fsimg s) (inode_at s (1 + j))"
      using file_at_cong [OF D(6) [OF that]] by blast+
  qed
  have "holds s' (fl @ [(ty, [])])"
    unfolding holds_def length_append list.size
  proof (intro conjI allI impI)
    show "mk_ok s'" using D(1) b fsimg_new(3) [OF D(1)] by (auto simp: s'_def mk_ok_def)
    show "freeblock s' = used (fl @ [(ty, [])])" using D(4) by (simp add: s'_def used_def nb_def)
    show "file_at s' (1 + j) ((fl @ [(ty, [])]) ! j)" if "j < length fl + (0 + Suc 0)" for j
      using that o(1) [of j] n(1) by (cases "j = length fl") (simp_all add: nth_append)
    show "fblocks (fsimg s') (inode_at s' (1 + j)) \<inter> fblocks (fsimg s') (inode_at s' (1 + k)) = {}"
      if "j < length fl + (0 + Suc 0)" "k < length fl + (0 + Suc 0)" "j \<noteq> k" for j k
      using that n(2) o(2) [of j] o(2) [of k] D(8) [of j k] by (cases "j = length fl"; cases "k = length fl") simp_all
    show "img s' 1 = put_sb mkfs_sb (\<lambda>_. 0)" using H IBLOCK_mkfs(2) [of ?n] by (auto simp: holds_def s'_def)
    show "img s' a = (\<lambda>_. 0)" if "2 \<le> a \<and> a < sb_inodestart mkfs_sb" for a using H IBLOCK_mkfs(2) [of ?n] that by (auto simp: holds_def s'_def)
  qed (use D(2) l in \<open>simp_all add: s'_def\<close>)
  moreover have "nsect s = FSSIZE" using D(1) by (simp add: mk_ok_def)
  ultimately show ?thesis using D(2,5) l by (simp add: mk_ialloc_def s'_def)
qed

section \<open>The file system that is made\<close>

definition stored :: "u8 list \<Rightarrow> u8 list" where
  "stored name = (if name \<noteq> [] \<and> hd name = 95 then tl name else name)"

text \<open>The files of the image: the directory with an entry for each of the others, and those.\<close>

definition mk_root :: "(u8 list \<times> u8 list list option) list \<Rightarrow> u8 list" where
  "mk_root files = dirent 1 [46] @ dirent 1 [46, 46] @ concat (map (\<lambda>i. dirent (i + 2) (stored (fst (files ! i)))) [0..<length files])"

definition mk_files :: "(u8 list \<times> u8 list list option) list \<Rightarrow> (u16 \<times> u8 list) list" where
  "mk_files files = (T_DIR, mk_root files) # map (\<lambda>f. (T_FILE, concat (the (snd f)))) files"

definition below :: "(u16 \<times> u8 list) list \<Rightarrow> (u16 \<times> u8 list) list \<Rightarrow> bool" where
  "below fl fl' \<longleftrightarrow> length fl \<le> length fl' \<and> (\<forall>i < length fl. length (snd (fl ! i)) \<le> length (snd (fl' ! i)))"

lemma used_nth: "used fl = nmeta + (\<Sum>i < length fl. nb (length (snd (fl ! i))))"
  by (simp add: used_def sum_list_sum_nth atLeast0LessThan)

lemma fits_below:
  assumes "fits fl'" "below fl fl'"
  shows "fits fl"
proof -
  have "(\<Sum>i < length fl. nb (length (snd (fl ! i)))) \<le> (\<Sum>i < length fl. nb (length (snd (fl' ! i))))"
    using assms(2) by (intro sum_mono nb_mono) (simp add: below_def)
  also have "\<dots> \<le> (\<Sum>i < length fl'. nb (length (snd (fl' ! i))))" using assms(2) by (intro sum_mono2) (auto simp: below_def)
  finally have "used fl \<le> used fl'" by (simp add: used_nth)
  moreover have "length (snd f) \<le> MAXFILE * BSIZE" if mem: "f \<in> set fl" for f
  proof -
    obtain i where "i < length fl" "f = fl ! i" using mem by (auto simp: in_set_conv_nth)
    then have "length (snd f) \<le> length (snd (fl' ! i))" "fl' ! i \<in> set fl'" using assms(2) by (auto simp: below_def)
    then show ?thesis using assms(1) by (force simp: fits_def)
  qed
  ultimately show ?thesis using assms by (force simp: fits_def below_def)
qed

lemma dirent_length [simp]: "length (dirent n name) = 16"
  by (simp add: dirent_def Let_def)

lemma mk_root_snoc: "mk_root (ys @ [x]) = mk_root ys @ dirent (length ys + 2) (stored (fst x))"
proof -
  have "map (\<lambda>i. dirent (i + 2) (stored (fst ((ys @ [x]) ! i)))) [0..<length ys] = map (\<lambda>i. dirent (i + 2) (stored (fst (ys ! i)))) [0..<length ys]"
    by (simp add: nth_append)
  then show ?thesis unfolding mk_root_def by (simp only: length_append_singleton upt_Suc_append map_append concat_append) simp
qed

lemma mk_root_length: "length (mk_root ys) = 16 * (length ys + 2)"
  by (induction ys rule: rev_induct) (simp_all add: mk_root_snoc, simp add: mk_root_def)

lemma mk_files_snoc:
  "mk_files (ys @ [x]) = (mk_files ys @ [(T_FILE, [])])[0 := (T_DIR, mk_root ys @ dirent (2 + length ys) (stored (fst x))), 1 + length ys := (T_FILE, concat (the (snd x)))]"
  by (simp add: mk_files_def mk_root_snoc list_update_append)

lemma wp_pieces:
  assumes "holds s fl" "k < length fl" "fl ! k = (ty, [])" "fits (fl[k := (ty, concat pieces)])"
  shows "wp (foreach pieces (iappend (1 + k))) (\<lambda>_ s'. holds s' (fl[k := (ty, concat pieces)])) s"
proof (rule wp_foreach [where I = "\<lambda>ps s'. holds s' (fl[k := (ty, concat ps)])"])
  show "holds s (fl[k := (ty, concat [])])" using assms(1,3) by (simp add: list_update_id flip: assms(3))
  fix ps p qs s'
  assume p: "pieces = ps @ p # qs" "holds s' (fl[k := (ty, concat ps)])"
  have "below (fl[k := (ty, concat (ps @ [p]))]) (fl[k := (ty, concat pieces)])" using assms(2) by (auto simp: below_def p(1) nth_list_update)
  note F = fits_below [OF assms(4) this]
  show "wp (iappend (1 + k) p) (\<lambda>_ s'. holds s' (fl[k := (ty, concat (ps @ [p]))])) s'"
    using wp_iappend [OF p(2), of k p] assms(2) F by simp
qed

lemma wp_add_file:
  assumes H: "holds s (mk_files ys)" and x: "47 \<notin> set (fst x)" "snd x \<noteq> None" and F: "fits (mk_files (ys @ [x]))"
  shows "wp (add_file ROOTINO x) (\<lambda>_ s'. holds s' (mk_files (ys @ [x]))) s"
proof -
  obtain name pieces where xe: "x = (name, Some pieces)" using x(2) by (cases x) auto
  let ?fl = "mk_files ys @ [(T_FILE, [])]"
  let ?r = "(T_DIR, mk_root ys @ dirent (2 + length ys) (stored name))"
  have l: "length (mk_files ys) = 1 + length ys" by (simp add: mk_files_def)
  have e: "mk_files (ys @ [x]) = ?fl[0 := ?r, 1 + length ys := (T_FILE, concat pieces)]" by (simp only: mk_files_snoc xe fst_conv snd_conv option.sel)
  have r: "?fl ! 0 = (T_DIR, mk_root ys)" by (simp add: mk_files_def)
  have b: "fits (?fl[0 := ?r])"
    by (rule fits_below [OF F [unfolded e]]) (auto simp: below_def l nth_list_update nth_append)
  have "1 + length (mk_files ys) < NINODES" using F l by (simp add: fits_def mk_files_def)
  note A = wp_mk_ialloc [OF H this, of T_FILE]
  have 1: "wp (iappend ROOTINO (dirent (2 + length ys) (stored name))) (\<lambda>_ s'. holds s' (?fl[0 := ?r])) s1" if "holds s1 ?fl" for s1
    using wp_iappend [OF that, of 0 "dirent (2 + length ys) (stored name)"] b unfolding r by simp
  have 2: "wp (foreach pieces (iappend (1 + (1 + length ys)))) (\<lambda>_ s'. holds s' (mk_files (ys @ [x]))) s2" if "holds s2 (?fl[0 := ?r])" for s2
    unfolding e by (rule wp_pieces [OF that]) (use F in \<open>simp_all add: l nth_list_update nth_append e\<close>)
  have "wp (bind (mk_ialloc T_FILE) (\<lambda>n. seq (iappend ROOTINO (dirent n (stored name))) (foreach pieces (iappend n))))
    (\<lambda>_ s'. holds s' (mk_files (ys @ [x]))) s"
    by (rule wp_bindI, rule wp_mono [OF A]) (use wp_mono [OF 1 2] in \<open>auto simp: l\<close>)
  then show ?thesis using x(1) by (simp add: add_file_def xe stored_def)
qed

lemma wp_add_files:
  assumes H: "holds s (mk_files [])" and x: "\<forall>x \<in> set files. 47 \<notin> set (fst x) \<and> snd x \<noteq> None" and F: "fits (mk_files files)"
  shows "wp (foreach files (add_file ROOTINO)) (\<lambda>_ s'. holds s' (mk_files files)) s"
proof (rule wp_foreach [where I = "\<lambda>ys s'. holds s' (mk_files ys)", OF H])
  fix ys x zs s
  assume a: "files = ys @ x # zs" "holds s (mk_files ys)"
  have "fits (mk_files (ys @ [x]))"
  proof (rule fits_below [OF F])
    show "below (mk_files (ys @ [x])) (mk_files files)" by (auto simp: below_def a(1) mk_root_length mk_files_def nth_Cons nth_append split: nat.split)
  qed
  then show "wp (add_file ROOTINO x) (\<lambda>_ s'. holds s' (mk_files (ys @ [x]))) s" using x a by (intro wp_add_file) auto
qed

text \<open>The disk before the first inode is taken.\<close>

lemma zero_loop: "wp (foreach [0..<FSSIZE] (\<lambda>i. wsect i (\<lambda>_. 0))) (\<lambda>_ s'. s' = s\<lparr>nsect := FSSIZE\<rparr>) s" if "img s = (\<lambda>_ _. 0)" "nsect s = 0" for s
  by (rule wp_foreach_upt [where I = "\<lambda>i s'. s' = s\<lparr>nsect := i\<rparr>"]) (use that in \<open>auto simp: wsect_def fun_upd_idem\<close>)

lemma holds_init: "holds (mk_init\<lparr>mk_sb := mkfs_sb, freeblock := nmeta, nsect := FSSIZE, img := (img mk_init)(1 := put_sb mkfs_sb (\<lambda>_. 0))\<rparr>) []"
  by (simp add: holds_def mk_ok_def mk_init_def used_def mkfs_sb_eq)

lemma wp_root:
  assumes H: "holds s []" and F: "fits (mk_files [])" and Q: "\<And>s'. holds s' (mk_files []) \<Longrightarrow> wp (k ROOTINO) Q s'"
  shows "wp (bind (mk_ialloc T_DIR) (\<lambda>n. if n \<noteq> ROOTINO then panic ''assert''
    else seq (iappend n (dirent n [46])) (seq (iappend n (dirent n [46, 46])) (k n)))) Q s"
proof -
  let ?f = "\<lambda>xs. [(T_DIR, xs)]" and ?a = "dirent 1 [46]" and ?b = "dirent 1 [46, 46]"
  have "mk_files [] = ?f (?a @ ?b)" by (simp add: mk_files_def mk_root_def)
  note F = F [unfolded this] and Q = Q [unfolded this]
  have "fits (?f ?a)" by (rule fits_below [OF F]) (simp add: below_def)
  then have 1: "wp (iappend ROOTINO ?a) (\<lambda>_ s'. holds s' (?f ?a)) s1" if "holds s1 (?f [])" for s1
    using wp_iappend [OF that, of 0 ?a] by simp
  have 2: "wp (iappend ROOTINO ?b) (\<lambda>_. wp (k ROOTINO) Q) s2" if "holds s2 (?f ?a)" for s2
    using wp_iappend [OF that, of 0 ?b] F Q by (auto elim!: wp_mono)
  have "wp (seq (iappend ROOTINO ?a) (seq (iappend ROOTINO ?b) (k ROOTINO))) Q s1" if "holds s1 (?f [])" for s1
    by (rule wp_seqI, rule wp_mono [OF 1 [OF that]]) (use 2 in simp)
  then show ?thesis by (intro wp_bindI, intro wp_mono [OF wp_mk_ialloc [OF H, of T_DIR]]) auto
qed

text \<open>The last steps of the program: the size of the directory, and the bitmap.\<close>

definition made :: "(u8 list \<times> u8 list list option) list \<Rightarrow> (nat \<Rightarrow> bytes) \<Rightarrow> bool" where
  "made files d \<longleftrightarrow> get_sb (d 1) = mkfs_sb \<and> (\<forall>b. 2 \<le> b \<and> b < sb_inodestart mkfs_sb \<longrightarrow> d b = (\<lambda>_. 0))
     \<and> (\<forall>b. taken d (sb_bmapstart mkfs_sb) b \<longleftrightarrow> b < used (mk_files files))
     \<and> (let ip = inode_of d ROOTINO in itype ip = T_DIR \<and> nlink ip = 1
          \<and> fdata d ip = mk_root files @ replicate (BSIZE - length (mk_root files) mod BSIZE) 0)
     \<and> (\<forall>i < length files. let ip = inode_of d (2 + i) in itype ip = T_FILE \<and> nlink ip = 1 \<and> good_file mkfs_sb d ip
          \<and> fdata d ip = concat (the (snd (files ! i))))
     \<and> (\<forall>i \<le> length files. \<forall>j \<le> length files. i \<noteq> j \<longrightarrow> fblocks d (inode_of d (1 + i)) \<inter> fblocks d (inode_of d (1 + j)) = {})"

lemma get_put_sb: "get_sb (put_sb mkfs_sb (\<lambda>_. 0)) = mkfs_sb"
  by (simp add: get_sb_def put_sb_def mkfs_sb_eq)

lemma padded:
  assumes "length xs = z" "isize ip = (z div BSIZE + 1) * BSIZE" "isize ip \<le> MAXFILE * BSIZE"
    and "\<And>k. k < MAXFILE * BSIZE \<Longrightarrow> fbyte B ip k = (if k < z then xs ! k else 0)"
  shows "fdata B ip = xs @ replicate (BSIZE - z mod BSIZE) 0"
proof (rule fdata_eqI)
  have "(q + 1) * BSIZE = BSIZE * q + r + (BSIZE - r)" if "r < BSIZE" for q r :: nat using that by simp
  from this [of "z mod BSIZE" "z div BSIZE"] have l: "isize ip = z + (BSIZE - z mod BSIZE)" by (simp add: assms(2))
  then show "length (xs @ replicate (BSIZE - z mod BSIZE) 0) = isize ip" using assms(1) by simp
  show "fbyte B ip k = (xs @ replicate (BSIZE - z mod BSIZE) 0) ! k" if "k < isize ip" for k
    using that assms(1,3) assms(4) [of k] l by (simp add: nth_append)
qed

lemma made_root:
  fixes s :: mk_st and files :: "(u8 list \<times> u8 list list option) list"
  defines "din \<equiv> get_dinode (img s (IBLOCK ROOTINO mkfs_sb)) (64 * (ROOTINO mod IPB))"
  defines "s' \<equiv> s\<lparr>img := (img s)(IBLOCK ROOTINO mkfs_sb := put_dinode (64 * (ROOTINO mod IPB)) (din\<lparr>d_size := (d_size din div BSIZE + 1) * BSIZE\<rparr>) (img s (IBLOCK ROOTINO mkfs_sb)))\<rparr>"
  assumes H: "holds s (mk_files files)"
  shows "made files (fsimg s')"
proof -
  note D = holdsD [OF H]
  let ?z = "d_size din" and ?d = "din\<lparr>d_size := (d_size din div BSIZE + 1) * BSIZE\<rparr>"
  have l: "length (mk_files files) = 1 + length files" by (simp add: mk_files_def)
  have e: "ino din = inode_at s 1" by (simp add: din_def inode_at_def inode_of_def IBLOCK_def)
  have R: "file_at s 1 (T_DIR, mk_root files)" using D(6) [of 0] by (simp add: mk_files_def)
  have r: "itype (ino din) = T_DIR" "nlink (ino din) = 1" "fdata (fsimg s) (ino din) = mk_root files" "good_file mkfs_sb (fsimg s) (ino din)"
    "\<And>k. k < MAXFILE * BSIZE \<Longrightarrow> ?z \<le> k \<Longrightarrow> fbyte (fsimg s) (ino din) k = 0"
    using R unfolding file_at_def Let_def e [symmetric] ino_simps fst_conv snd_conv by blast+
  have z: "length (mk_root files) = ?z" "?z < 16 * 202" using fdata_nth(2) [of "fsimg s" "ino din"] D(3) l by (simp_all add: r(3) mk_root_length)
  then have sz: "(?z div BSIZE + 1) * BSIZE \<le> MAXFILE * BSIZE" by simp
  have "addrs (ino din) j < 2 ^ 32" if "j \<le> NDIRECT" for j using file_addr [OF r(4) that] by simp
  then have "d_size ?d < 2 ^ 32" "\<And>j. j \<le> NDIRECT \<Longrightarrow> d_addrs ?d j < 2 ^ 32" using sz by simp_all
  note I = inode_at_winode [OF _ this, where n = ROOTINO and s = s, folded s'_def]
  have W: "inode_at s' 1 = ino (dino (ino ?d))" "\<And>m. m \<noteq> 1 \<Longrightarrow> inode_at s' m = inode_at s m" by (rule I; simp)+
  have ip: "\<forall>j \<le> NDIRECT. addrs (inode_at s' 1) j = addrs (ino din) j" "isize (inode_at s' 1) = (?z div BSIZE + 1) * BSIZE"
    "itype (inode_at s' 1) = itype (ino din)" "nlink (inode_at s' 1) = nlink (ino din)"
    unfolding W(1) by (simp_all add: dino_def load_inode_def)
  have x: "fsimg s' a = fsimg s a" if "a \<noteq> 32" for a using that by (simp add: s'_def IBLOCK_def fsimg_def)
  have b: "\<forall>a \<in> fblocks (fsimg s) (inode_at s (1 + i)). fsimg s' a = fsimg s a" if "i \<le> length files" for i
    using mk_fileD(1) [OF D(1) D(7) [of i]] that l by (intro ballI x) fastforce
  have fr: "freeblock s' = freeblock s" by (simp add: s'_def)
  have t: "\<forall>a \<in> fblocks (fsimg s) (ino din). taken (fsimg s') (sb_bmapstart mkfs_sb) a" using r(4) by (auto simp: good_file_def fr)
  note B = blocks_cong [OF b [of 0, simplified, folded e [simplified]] t r(4)] and C = file_cong [OF ip(1)]
  have o: "file_at s' (1 + i) (mk_files files ! i)" if "0 < i" "i \<le> length files" for i
    by (rule file_at_cong(1) [OF D(6)]) (use that b W(2) fr in \<open>auto simp: l\<close>)
  have f: "fblocks (fsimg s') (inode_at s' (1 + i)) = fblocks (fsimg s) (inode_at s (1 + i))" if "i \<le> length files" for i
  proof (cases "i = 0")
    case False
    then show ?thesis by (intro file_at_cong(2) [OF D(6)]) (use that b W(2) fr in \<open>auto simp: l\<close>)
  qed (use trans [OF C(2) B(2)] e in simp)
  have "fdata (fsimg s') (inode_at s' 1) = mk_root files @ replicate (BSIZE - ?z mod BSIZE) 0"
  proof (rule padded [OF z(1) ip(2)])
    show "fbyte (fsimg s') (inode_at s' 1) k = (if k < ?z then mk_root files ! k else 0)" if "k < MAXFILE * BSIZE" for k
      using trans [OF C(4) B(5) [OF that]] r(5) [OF that] fdata_nth(1) [of k "ino din" "fsimg s"] by (simp add: r(3))
  qed (use sz ip(2) in simp)
  then have root: "fdata (fsimg s') (inode_at s' ROOTINO) = mk_root files @ replicate (BSIZE - length (mk_root files) mod BSIZE) 0" by (simp add: z(1))
  show ?thesis
    unfolding made_def Let_def inode_at_def [symmetric]
  proof (intro conjI allI impI)
    show "get_sb (fsimg s' 1) = mkfs_sb" using H x [of 1] get_put_sb by (simp add: holds_def)
    show "fsimg s' a = (\<lambda>_. 0)" if "2 \<le> a \<and> a < sb_inodestart mkfs_sb" for a using H x [of a] that by (simp add: holds_def)
    show "taken (fsimg s') (sb_bmapstart mkfs_sb) a \<longleftrightarrow> a < used (mk_files files)" for a using D(4) fr by simp
    show "fblocks (fsimg s') (inode_at s' (1 + i)) \<inter> fblocks (fsimg s') (inode_at s' (1 + j)) = {}" if "i \<le> length files" "j \<le> length files" "i \<noteq> j" for i j
      unfolding f [OF that(1)] f [OF that(2)] by (rule D(8)) (use that l in simp_all)
    have "file_at s' (2 + i) (T_FILE, concat (the (snd (files ! i))))" if "i < length files" for i
      using o [of "1 + i"] that by (simp add: mk_files_def)
    then show "itype (inode_at s' (2 + i)) = T_FILE" "nlink (inode_at s' (2 + i)) = 1" "good_file mkfs_sb (fsimg s') (inode_at s' (2 + i))"
      "fdata (fsimg s') (inode_at s' (2 + i)) = concat (the (snd (files ! i)))" if "i < length files" for i
      using that by (simp_all add: file_at_def Let_def)
  qed (use root ip r in simp_all)
qed

lemma mkfs_made:
  assumes "\<forall>x \<in> set files. 47 \<notin> set (fst x) \<and> snd x \<noteq> None" "fits (mk_files files)"
  shows "wp (mkfs files) (\<lambda>_ s'. made files (img s')) mk_init"
proof -
  have f0: "fits (mk_files [])" by (rule fits_below [OF assms(2)]) (simp add: below_def mk_files_def mk_root_length)
  let ?k = "\<lambda>n. seq (foreach files (add_file n)) (bind (rinode n) (\<lambda>din.
       seq (winode n (din\<lparr>d_size := (d_size din div BSIZE + 1) * BSIZE\<rparr>)) (bind (gets freeblock) mk_balloc)))"
  have fin: "wp (bind (rinode ROOTINO) (\<lambda>din. seq (winode ROOTINO (din\<lparr>d_size := (d_size din div BSIZE + 1) * BSIZE\<rparr>)) (bind (gets freeblock) mk_balloc)))
    (\<lambda>_ s'. made files (img s')) s" if H: "holds s (mk_files files)" for s
  proof -
    have "\<not> BSIZE * 8 \<le> freeblock s" "mk_sb s = mkfs_sb" "nsect s = FSSIZE" using holdsD [OF H] by (simp_all add: mk_ok_def)
    then show ?thesis using made_root [OF H] by (simp add: mk_balloc_def fsimg_def)
  qed
  have "wp (?k ROOTINO) (\<lambda>_ s'. made files (img s')) s" if "holds s (mk_files [])" for s
    by (rule wp_seqI, rule wp_mono [OF wp_add_files [OF that assms]]) (rule fin)
  note R = wp_root [where k = ?k, OF holds_init f0 this]
  show ?thesis
    unfolding mkfs_def
  proof (rule wp_seqI, simp only: wp_prims, rule wp_seqI, rule wp_mono [OF zero_loop])
    fix x s'
    assume "s' = mk_init\<lparr>mk_sb := mkfs_sb, freeblock := nmeta, nsect := FSSIZE\<rparr>"
    then show "wp (seq (bind (gets mk_sb) (\<lambda>sp. wsect 1 (put_sb sp (\<lambda>_. 0)))) (bind (mk_ialloc T_DIR) (\<lambda>n. if n \<noteq> ROOTINO then panic ''assert''
      else seq (iappend n (dirent n [46])) (seq (iappend n (dirent n [46, 46])) (?k n))))) (\<lambda>_ s'. made files (img s')) s'"
      using R by simp
  qed (simp_all add: mk_init_def)
qed

text \<open>
  C16 mkfs makes the file system it is given: if no name has a slash, every file can be opened, and there is room, it ends
  without an error, and in the image the superblock is that of the layout, the log is empty, the bitmap has the bits of the blocks in use
  and no others, the root directory has an entry for itself, its parent and each file in turn, followed by zeroes, each file has the
  bytes that were read, in an inode with one link, and no two files have a block in common.
\<close>

theorem mkfs_image:
  assumes "\<forall>x \<in> set files. 47 \<notin> set (fst x) \<and> snd x \<noteq> None" "fits (mk_files files)"
  shows "\<exists>s'. mkfs files mk_init = Ok () s' \<and> made files (img s')"
  using mkfs_made [OF assms] by (simp add: wp_Ok)

theorem mkfs_image_witness:
  "\<exists>s'. mkfs [([95, 97], Some [[104, 105], [33]])] mk_init = Ok () s' \<and> fdata (img s') (inode_of (img s') 2) = [104, 105, 33]
     \<and> take 48 (fdata (img s') (inode_of (img s') ROOTINO)) = dirent 1 [46] @ dirent 1 [46, 46] @ dirent 2 [97]
     \<and> taken (img s') 58 60 \<and> \<not> taken (img s') 58 61"
proof -
  let ?fs = "[([95, 97], Some [[104, 105], [33]])] :: (u8 list \<times> u8 list list option) list"
  have u: "used (mk_files ?fs) = 61" by (simp add: used_def mk_files_def mk_root_length nb_def mkfs_sb_eq)
  then have "fits (mk_files ?fs)" unfolding fits_def u by (simp add: mk_files_def mk_root_length)
  then obtain s' where s': "mkfs ?fs mk_init = Ok () s'" "made ?fs (img s')" using mkfs_image [of ?fs] by auto
  have r: "mk_root ?fs = dirent 1 [46] @ dirent 1 [46, 46] @ dirent 2 [97]" by (simp add: mk_root_def stored_def numeral_2_eq_2)
  show ?thesis using s' unfolding made_def u r by (intro exI [of _ s']) (simp add: Let_def numeral_2_eq_2)
qed

end
