(* ===== verification/Image.thy ===== *)
theory Image
  imports Mkfs
begin

text \<open>
  The kernel on the file system that mkfs makes: \<open>ilock\<close> (src/fs.c) brings the inode of a file from the disk into the
  inode cache, and \<open>readi\<close> then returns the bytes mkfs was given.
\<close>

section \<open>Locking an inode\<close>

definition disk_ino :: "nat \<Rightarrow> 'a fs_st_scheme \<Rightarrow> dinode" where
  "disk_ino n s = get_dinode (blks s (IBLOCK n (sb s))) (64 * (n mod IPB))"

lemma acquiresleep_step:
  fixes s :: "'a fs_st_scheme"
  assumes "log_ok s" "\<not> slocked (slocks s (SL_ino i))"
    and Q: "\<And>s'. \<lbrakk>log_ok s'; cache_of s' = cache_of s; log s' = log s; sb s' = sb s; icache s' = icache s\<rbrakk> \<Longrightarrow> Q () s'"
  shows "wp (acquiresleep (SL_ino i)) Q s"
proof -
  note B = log_okD(1) [OF assms(1)]
  obtain p where p: "curproc s = Some p" "held s = []" using B by (auto simp: bio_inv_def running_def)
  let ?s = "s\<lparr>slocks := (slocks s)(SL_ino i := \<lparr>slocked = True, slpid = pid (ptable s p)\<rparr>)\<rparr>"
  have "same_bio s ?s" by (simp add: same_bio_def)
  note S = same_bio_inv [OF this B]
  have "log_ok ?s" using assms(1) S by (simp add: log_ok_def)
  then show ?thesis using assms(2) p S(2) Q [of ?s] by simp
qed

lemma wp_ilock:
  fixes s :: "'a fs_st_scheme"
  assumes s: "log_ok s" "lkd s = (\<lambda>_. None)" "room (cache_of s)" "\<not> slocked (slocks s (SL_ino i))"
    and i: "1 \<le> iref (icache s i)" "idev (icache s i) = ROOTDEV" "\<not> ivalid (icache s i)" "IBLOCK (inum (icache s i)) (sb s) < FSSIZE"
      "d_type (disk_ino (inum (icache s i)) s) \<noteq> 0"
    and Q: "\<And>s'. \<lbrakk>log_ok s'; cache_of s' = cache_of s; start (log s') = start (log s); sb s' = sb s;
      icache s' i = (load_inode (disk_ino (inum (icache s i)) s) (icache s i))\<lparr>ivalid := True\<rparr>\<rbrakk> \<Longrightarrow> Q () s'"
  shows "wp (ilock (Some i)) Q s"
proof -
  let ?ip = "icache s i" and ?b = "IBLOCK (inum (icache s i)) (sb s)" and ?di = "disk_ino (inum (icache s i)) s"
  let ?rest = "\<lambda>ip bp. bind (gets (\<lambda>s. data (bufs s bp))) (\<lambda>dat.
      seq (modify (upd_ino i (load_inode (get_dinode dat (64 * (inum ip mod IPB))))))
      (seq (brelse bp) (seq (modify (upd_ino i (\<lambda>x. x\<lparr>ivalid := True\<rparr>)))
      (bind (gets (\<lambda>s. itype (icache s i))) (\<lambda>ty. if ty = 0 then panic ''ilock: no type'' else skip)))))"
  have "wp (bind (bread ROOTDEV ?b) (?rest ?ip)) Q s1"
    if s1: "log_ok s1" "cache_of s1 = cache_of s" "log s1 = log s" "sb s1 = sb s" "icache s1 = icache s" for s1
  proof (rule wp_bindI, rule wp_bread_txn [OF s1(1)])
    show "?b \<notin> ran (lkd s1)" "?b < FSSIZE" "room (cache_of s1) \<or> ?b \<in> lgd s1" using s i by (simp_all add: s1)
    fix bp and s2 :: "'a fs_st_scheme"
    assume 2: "log_ok s2" "txn_step s1 s2" "lkd s1 bp = None" "data (bufs s2 bp) = blks s1 ?b" "cache_of s2 = (cache_of s1)\<lparr>c_lock := (lkd s1)(bp \<mapsto> ?b)\<rparr>"
    note M = fs_more [OF txn_stepD(6) [OF 2(2)]]
    let ?s3 = "upd_ino i (load_inode ?di) s2"
    note U = upd_ino_step [OF 2(1), of i "load_inode ?di"]
    have "?b \<in> lgd s \<or> blks s ?b = c_disk (cache_of s) ?b" using clean_or_logged [OF s(1), of ?b] s(2) by simp
    then have b: "lkd ?s3 bp = Some ?b" "?b \<in> lgd ?s3 \<or> blks ?s3 ?b = c_disk (cache_of ?s3) ?b" by (simp_all add: U(2) 2(5) s1)
    have "wp (brelse bp) (\<lambda>_ s4. Q () (upd_ino i (\<lambda>x. x\<lparr>ivalid := True\<rparr>) s4) \<and> itype (icache s4 i) \<noteq> 0) ?s3"
    proof (rule wp_brelse_txn [OF U(1) b])
      fix s4 :: "'a fs_st_scheme"
      assume 4: "log_ok s4" "txn_step ?s3 s4" "cache_of s4 = (cache_of ?s3)\<lparr>c_lock := (lkd ?s3)(bp := None)\<rparr>"
      note N = fs_more [OF txn_stepD(6) [OF 4(2)]] and V = upd_ino_step [OF 4(1), of i "\<lambda>x. x\<lparr>ivalid := True\<rparr>"]
      have e: "icache s4 i = load_inode ?di ?ip" by (simp add: N U(4) M s1)
      have c: "cache_of s4 = cache_of s" using 2(3) by (simp add: 4(3) U(2) 2(5) s1 fun_upd_idem)
      have "Q () (upd_ino i (\<lambda>x. x\<lparr>ivalid := True\<rparr>) s4)"
        by (rule Q) (simp_all add: V c e N M U s1 txn_stepD(1) [OF 4(2)] txn_stepD(1) [OF 2(2)])
      then show "Q () (upd_ino i (\<lambda>x. x\<lparr>ivalid := True\<rparr>) s4) \<and> itype (icache s4 i) \<noteq> 0" using i(5) by (simp add: e load_inode_def)
    qed
    then have "wp (brelse bp) (\<lambda>_. wp (seq (modify (upd_ino i (\<lambda>x. x\<lparr>ivalid := True\<rparr>)))
      (bind (gets (\<lambda>s. itype (icache s i))) (\<lambda>ty. if ty = 0 then panic ''ilock: no type'' else skip))) Q) ?s3"
      by (rule wp_mono) (simp add: upd_ino_def)
    then show "wp (?rest ?ip bp) Q s2" by (simp add: 2(4) s1 disk_ino_def)
  qed
  then have "wp (acquiresleep (SL_ino i)) (\<lambda>_ s1. icache s1 = icache s \<and> sb s1 = sb s \<and> wp (bind (bread ROOTDEV ?b) (?rest ?ip)) Q s1) s"
    by (intro acquiresleep_step [OF s(1,4)]) simp
  then have "wp (acquiresleep (SL_ino i)) (\<lambda>_. wp (bind (gets (\<lambda>s. icache s i)) (\<lambda>ip. if \<not> ivalid ip then
      bind (gets sb) (\<lambda>sb. bind (bread (idev ip) (IBLOCK (inum ip) sb)) (?rest ip)) else skip)) Q) s"
    by (rule wp_mono) (simp add: i)
  then show ?thesis using i(1) by (simp add: ilock_def del: wp_acquiresleep)
qed

section \<open>Reading a file that mkfs made\<close>

lemma used_meta: "58 < used fl" by (simp add: used_def mkfs_sb_eq)

text \<open>A kernel whose disk is the image sees its layout, and the file in the inode that \<open>ilock\<close> has read.\<close>

lemma made_layout:
  fixes s :: "'a fs_st_scheme"
  assumes "made files (blks s)" "sb s = mkfs_sb" "start (log s) = 2"
  shows "layout s"
  using assms used_meta [of "mk_files files"] by (auto simp: layout_def made_def)

lemma made_file:
  assumes "made files (blks s)" "sb s = mkfs_sb" "n < length files"
    and ip: "ip = (load_inode (disk_ino (2 + n) s) x)\<lparr>ivalid := True\<rparr>"
  shows "good_file mkfs_sb (blks s) ip" "fdata (blks s) ip = concat (the (snd (files ! n)))" "itype ip = T_FILE" "d_type (disk_ino (2 + n) s) = T_FILE"
proof -
  let ?jp = "inode_of (blks s) (2 + n)"
  have e: "\<forall>j \<le> NDIRECT. addrs ip j = addrs ?jp j" "isize ip = isize ?jp" "itype ip = itype ?jp" "d_type (disk_ino (2 + n) s) = itype ?jp"
    by (simp_all add: ip inode_of_def disk_ino_def load_inode_def assms(2))
  note C = file_cong [OF e(1)]
  have "itype ?jp = T_FILE" "good_file mkfs_sb (blks s) ?jp" "fdata (blks s) ?jp = concat (the (snd (files ! n)))"
    using assms(1,3) by (simp_all add: made_def Let_def)
  then show "good_file mkfs_sb (blks s) ip" "fdata (blks s) ip = concat (the (snd (files ! n)))" "itype ip = T_FILE" "d_type (disk_ino (2 + n) s) = T_FILE"
    using C(5,6) e by simp_all
qed

text \<open>
  C6 What mkfs is given is what the kernel reads. Let the blocks the kernel sees be those of the image that mkfs makes of some files. Then
  locking the inode of any of them, not yet read from the disk, and reading it from the start returns its bytes, as many as were asked for.
\<close>

theorem mkfs_read:
  fixes s :: "'a fs_st_scheme"
  assumes files: "\<forall>x \<in> set files. 47 \<notin> set (fst x) \<and> snd x \<noteq> None" "fits (mk_files files)" "n < length files"
    and image: "mkfs files mk_init = Ok () t" "blks s = img t"
    and kernel: "log_ok s" "lkd s = (\<lambda>_. None)" "room (cache_of s)" "sb s = get_sb (img t 1)" "start (log s) = sb_logstart (sb s)"
    and entry: "1 \<le> iref (icache s i)" "idev (icache s i) = ROOTDEV" "inum (icache s i) = 2 + n" "\<not> ivalid (icache s i)" "\<not> slocked (slocks s (SL_ino i))"
    and len: "m < 2 ^ 32"
  defines "xs \<equiv> take m (concat (the (snd (files ! n))))"
  shows "\<exists>dst' s'. seq (ilock (Some i)) (readi devsw i dst 0 m) s = Ok (int (length xs), dst') s' \<and> map dst' [0..<length xs] = xs \<and> (\<forall>k \<ge> length xs. dst' k = dst k)"
proof -
  have md: "made files (blks s)" using mkfs_made [OF files(1,2)] image by (auto simp: wp_Ok)
  then have sb: "sb s = mkfs_sb" using kernel(4) image(2) by (simp add: made_def)
  have n: "2 + n < NINODES" using files(2,3) by (simp add: fits_def mk_files_def)
  note F = made_file [OF md sb files(3)]
  have "wp (seq (ilock (Some i)) (readi devsw i dst 0 m)) (\<lambda>(r, dst') s'. r = int (length xs) \<and> map dst' [0..<length xs] = xs \<and> (\<forall>k \<ge> length xs. dst' k = dst k)) s"
  proof (rule wp_seqI, rule wp_ilock [OF kernel(1-3) entry(5,1,2,4)])
    show "IBLOCK (inum (icache s i)) (sb s) < FSSIZE" using IBLOCK_mkfs(1) [OF n] by (simp add: entry(3) sb)
    show "d_type (disk_ino (inum (icache s i)) s) \<noteq> 0" unfolding entry(3) F(4) [OF refl] by simp
    fix s' :: "'a fs_st_scheme"
    assume s': "log_ok s'" "cache_of s' = cache_of s" "start (log s') = start (log s)" "sb s' = sb s"
      "icache s' i = (load_inode (disk_ino (inum (icache s i)) s) (icache s i))\<lparr>ivalid := True\<rparr>"
    note G = F [OF s'(5) [unfolded entry(3)]]
    have "layout s'" by (rule made_layout) (use md sb kernel(5) s' in simp_all)
    then have ok: "ino_ok i s'" using s' G(1) kernel(2) entry(2) by (simp add: ino_ok_def unlocked_def sb load_inode_def)
    show "wp (readi devsw i dst 0 m) (\<lambda>(r, dst') s'. r = int (length xs) \<and> map dst' [0..<length xs] = xs \<and> (\<forall>k \<ge> length xs. dst' k = dst k)) s'"
      by (rule wp_readi [OF ok, where xs = xs]) (use kernel(3) s'(2) G(2,3) len in \<open>simp_all add: xs_def\<close>)
  qed
  then show ?thesis by (auto simp: wp_Ok)
qed

text \<open>A kernel with the image of one file, and an entry of the inode cache for it.\<close>

definition ex_files :: "(u8 list \<times> u8 list list option) list" where
  "ex_files = [([97], Some [[104, 105], [33]])]"

definition ex_entry :: inode where
  "ex_entry = \<lparr>idev = 1, inum = 2, iref = 1, ivalid = False, itype = 0, imajor = 0, iminor = 0, nlink = 0, isize = 0, addrs = (\<lambda>_. 0)\<rparr>"

lemma ex_files_fit: "fits (mk_files ex_files)" "\<forall>x \<in> set ex_files. 47 \<notin> set (fst x) \<and> snd x \<noteq> None"
  by (simp_all add: fits_def used_def mk_files_def mk_root_length nb_def mkfs_sb_eq ex_files_def)

lemma ex_image:
  assumes "made ex_files d"
  obtains s :: fs_st where "log_ok s" "lkd s = (\<lambda>_. None)" "lgd s = {}" "blks s = d" "sb s = mkfs_sb" "start (log s) = 2" "icache s 0 = ex_entry" "\<not> slocked (slocks s (SL_ino 0))"
proof -
  let ?lg = "\<lparr>start = 2, lsize = 30, outstanding = 0, committing = False, ldev = 1, lh_n = 0, lh_block = (\<lambda>_. 0)\<rparr>"
  obtain t :: fs_st where t: "bio_inv t" "bio_st.more t = \<lparr>log = ?lg, sb = mkfs_sb, icache = (\<lambda>_. ex_entry)\<rparr>"
    "cache_of t = \<lparr>c_blk = d, c_lock = (\<lambda>_. None), c_dirty = {}, c_disk = d, c_trace = []\<rparr>" by (rule boot_cache)
  have f: "log t = ?lg" "sb t = mkfs_sb" "icache t = (\<lambda>_. ex_entry)" using t(2) by (cases t; simp)+
  let ?s = "t\<lparr>slocks := (slocks t)(SL_ino 0 := \<lparr>slocked = False, slpid = 0\<rparr>)\<rparr>"
  have "same_bio t ?s" by (simp add: same_bio_def)
  note S = same_bio_inv [OF this t(1)]
  have "d 2 = (\<lambda>_. 0)" using assms by (simp add: made_def)
  then have "log_ok ?s" using S(1) by (simp add: log_ok_def txn_inv_def good_log_def f S(2) t(3) head_n_def get32_def)
  then show thesis by (intro that [of ?s]) (simp_all add: S(2) t(3) f)
qed

theorem mkfs_read_witness:
  "\<exists>(s :: fs_st) t dst' s'. mkfs ex_files mk_init = Ok () t \<and> blks s = img t
     \<and> seq (ilock (Some 0)) (readi (\<lambda>_. None) 0 (\<lambda>_. 0) 0 10) s = Ok (3, dst') s' \<and> dst' 0 = 104 \<and> dst' 1 = 105 \<and> dst' 2 = 33 \<and> dst' 3 = 0"
proof -
  obtain t where t: "mkfs ex_files mk_init = Ok () t" "made ex_files (img t)" using mkfs_made [OF ex_files_fit(2,1)] by (auto simp: wp_Ok)
  obtain s :: fs_st where s: "log_ok s" "lkd s = (\<lambda>_. None)" "lgd s = {}" "blks s = img t" "sb s = mkfs_sb" "start (log s) = 2" "icache s 0 = ex_entry"
    "\<not> slocked (slocks s (SL_ino 0))" by (rule ex_image [OF t(2)]) (rule that)
  have p: "0 < length ex_files" "room (cache_of s)" "sb s = get_sb (img t 1)" "start (log s) = sb_logstart (sb s)" "1 \<le> iref (icache s 0)"
    "idev (icache s 0) = ROOTDEV" "inum (icache s 0) = 2 + 0" "\<not> ivalid (icache s 0)" "(10::nat) < 2 ^ 32"
    using t(2) by (simp_all add: s room_def ex_entry_def ex_files_def made_def)
  have x: "take 10 (concat (the (snd (ex_files ! 0)))) = [104, 105, 33]" by (simp add: ex_files_def)
  obtain dst' s' where r: "seq (ilock (Some 0)) (readi (\<lambda>_. None) 0 (\<lambda>_. 0) 0 10) s = Ok (int (length [104, 105, 33 :: u8]), dst') s'"
    "map dst' [0..<length [104, 105, 33 :: u8]] = [104, 105, 33]" "\<forall>k \<ge> length [104, 105, 33 :: u8]. dst' k = 0"
    using mkfs_read [OF ex_files_fit(2,1) p(1) t(1) s(4,1,2) p(2-8) s(8) p(9), of "\<lambda>_. None" "\<lambda>_. 0"] unfolding x by (elim exE conjE) (rule that)
  then have "dst' 0 = 104" "dst' 1 = 105" "dst' 2 = 33" "dst' 3 = 0" by (simp_all add: upt_rec numeral_2_eq_2)
  moreover have "int (length [104, 105, 33 :: u8]) = 3" by simp
  ultimately show ?thesis using t(1) s(4) r(1) by metis
qed

end
