(* ===== verification/Pagemap.thy ===== *)
theory Pagemap
  imports Vm
begin

text \<open>
  What page tables mean: \<open>walkpgdir\<close> and \<open>mappages\<close> (src/vm.c) as changes of the translation of virtual addresses
  that the hardware makes.
\<close>

section \<open>Well-formed page directories\<close>

definition pde :: "bytes \<Rightarrow> nat \<Rightarrow> nat \<Rightarrow> u32" where
  "pde m pgd i = get32 m (pgd - KERNBASE + 4 * i)"

abbreviation present :: "bytes \<Rightarrow> nat \<Rightarrow> nat \<Rightarrow> bool" where
  "present m pgd i \<equiv> pde m pgd i AND PTE_P \<noteq> 0"

abbreviation tab :: "bytes \<Rightarrow> nat \<Rightarrow> nat \<Rightarrow> nat" where
  "tab m pgd i \<equiv> PTE_ADDR (pde m pgd i)"

text \<open>The entry for the virtual page \<open>v\<close>, zero if there is no table for it.\<close>

definition pte :: "bytes \<Rightarrow> nat \<Rightarrow> nat \<Rightarrow> u32" where
  "pte m pgd v = (if present m pgd (v div 1024) then get32 m (tab m pgd (v div 1024) + 4 * (v mod 1024)) else 0)"

text \<open>The directory and its tables are pages of their own, and none of them is free.\<close>

definition pd_ok :: "'a mem_st_scheme \<Rightarrow> nat \<Rightarrow> nat list \<Rightarrow> bool" where
  "pd_ok s pgd ps \<longleftrightarrow> kmem_ok s ps \<and> kpage s pgd \<and> pgd \<notin> set ps
     \<and> (\<forall>i < 1024. present (pmem s) pgd i \<longrightarrow> kpage s (tab (pmem s) pgd i + KERNBASE) \<and> tab (pmem s) pgd i + KERNBASE \<notin> set (pgd # ps))
     \<and> (\<forall>i < 1024. \<forall>j < 1024. present (pmem s) pgd i \<and> present (pmem s) pgd j \<and> i \<noteq> j \<longrightarrow> tab (pmem s) pgd i \<noteq> tab (pmem s) pgd j)"

lemma pd_okD:
  assumes "pd_ok s pgd ps"
  shows "kmem_ok s ps" "kpage s pgd" "pgd \<notin> set ps"
    "i < 1024 \<Longrightarrow> present (pmem s) pgd i \<Longrightarrow> kpage s (tab (pmem s) pgd i + KERNBASE)"
    "i < 1024 \<Longrightarrow> present (pmem s) pgd i \<Longrightarrow> tab (pmem s) pgd i + KERNBASE \<notin> set ps"
    "i < 1024 \<Longrightarrow> present (pmem s) pgd i \<Longrightarrow> tab (pmem s) pgd i + KERNBASE \<noteq> pgd"
    "i < 1024 \<Longrightarrow> j < 1024 \<Longrightarrow> present (pmem s) pgd i \<Longrightarrow> present (pmem s) pgd j \<Longrightarrow> i \<noteq> j \<Longrightarrow> tab (pmem s) pgd i \<noteq> tab (pmem s) pgd j"
  using assms unfolding pd_ok_def by auto

lemma va_index: "va < 2 ^ 32 \<Longrightarrow> PDX va = va div PGSIZE div 1024" "PTX va = va div PGSIZE mod 1024" "va < 2 ^ 32 \<Longrightarrow> va div PGSIZE div 1024 < 1024"
  by (simp_all add: PDX_def PTX_def div_mult2_eq [symmetric] less_mult_imp_div_less)

lemma va2pa_pte:
  assumes "va < 2 ^ 32"
  shows "va2pa m pgd va = (if pte m pgd (va div PGSIZE) AND PTE_P = 0 then None else Some (PTE_ADDR (pte m pgd (va div PGSIZE)) + va mod PGSIZE))"
  by (simp add: va2pa_def pte_def pde_def va_index(1) [OF assms] va_index(2) Let_def)

text \<open>Memory that differs in one page only, one which is no page of the tables.\<close>

lemma get32_page_cong:
  assumes "kpage s p" "kpage s q" "p \<noteq> q" "\<And>k. k < p - KERNBASE \<or> p - KERNBASE + PGSIZE \<le> k \<Longrightarrow> m' k = m k" "j < 1024"
  shows "get32 m' (q - KERNBASE + 4 * j) = get32 m (q - KERNBASE + 4 * j)"
proof (rule get32_cong)
  have a: "q + PGSIZE \<le> p \<or> p + PGSIZE \<le> q" "KERNBASE < p" "KERNBASE < q" using assms(1-3) pages_apart [of p q] by (auto simp: kpage_def)
  show "m' k = m k" if "q - KERNBASE + 4 * j \<le> k" "k < q - KERNBASE + 4 * j + 4" for k
    using a assms(5) that by (intro assms(4)) linarith
qed

lemma kmem_ok_page:
  assumes "kmem_ok s ps" "kpage s p" "p \<notin> set ps" "\<And>k. k < p - KERNBASE \<or> p - KERNBASE + PGSIZE \<le> k \<Longrightarrow> m' k = pmem s k"
  shows "kmem_ok (s\<lparr>pmem := m'\<rparr>) ps"
proof (rule kmem_ok_frame [OF assms(1)])
  fix q k
  assume q: "q \<in> set ps" "k < PGSIZE"
  then have "kpage s q" "q \<noteq> p" using assms by (auto simp: kmem_ok_def)
  from page_bytes_apart [OF this(1) assms(2) this(2) q(2)] show "pmem (s\<lparr>pmem := m'\<rparr>) (q - KERNBASE + k) = pmem s (q - KERNBASE + k)" by (auto intro: assms(4))
qed (use assms(1) in \<open>simp_all add: kmem_ok_def\<close>)

lemma put32_entry: "k < p - KERNBASE \<or> p - KERNBASE + PGSIZE \<le> k \<Longrightarrow> j < 1024 \<Longrightarrow> put32 (p - KERNBASE + 4 * j) x m k = m k"
  by (auto simp: put32_def)

text \<open>An entry of a table is set: the entry of one virtual page.\<close>

lemma pd_ok_store:
  fixes s :: "'a mem_st_scheme" and pgd v :: nat and x :: u32
  assumes P: "pd_ok s pgd ps" and v: "v < 2 ^ 20" "present (pmem s) pgd (v div 1024)"
  defines "m' \<equiv> put32 (tab (pmem s) pgd (v div 1024) + 4 * (v mod 1024)) x (pmem s)"
  shows "pd_ok (s\<lparr>pmem := m'\<rparr>) pgd ps" "\<And>w. w < 2 ^ 20 \<Longrightarrow> pte m' pgd w = (if w = v then x else pte (pmem s) pgd w)"
proof -
  let ?m = "pmem s" and ?i = "v div 1024"
  let ?t = "tab ?m pgd ?i + KERNBASE"
  note D = pd_okD [OF P]
  have i: "?i < 1024" using v(1) by (simp add: less_mult_imp_div_less)
  have t: "kpage s ?t" "?t \<notin> set ps" "?t \<noteq> pgd" using D(4-6) [OF i v(2)] by simp_all
  have f: "m' k = ?m k" if "k < ?t - KERNBASE \<or> ?t - KERNBASE + PGSIZE \<le> k" for k
    using put32_entry [OF that, of "v mod 1024" x ?m] by (simp add: m'_def)
  have d: "pde m' pgd j = pde ?m pgd j" if "j < 1024" for j
    unfolding pde_def by (rule get32_page_cong [OF t(1) D(2) t(3) f that])
  show "pd_ok (s\<lparr>pmem := m'\<rparr>) pgd ps"
    using P kmem_ok_page [OF D(1) t(1,2) f] by (simp add: pd_ok_def d kpage_def)
  fix w :: nat
  assume "w < 2 ^ 20"
  then have j: "w div 1024 < 1024" by (simp add: less_mult_imp_div_less)
  consider "w = v" | "w \<noteq> v" "w div 1024 = ?i" | "w div 1024 \<noteq> ?i" by blast
  then show "pte m' pgd w = (if w = v then x else pte ?m pgd w)"
  proof cases
    case 1
    then show ?thesis using v(2) d [OF i] by (simp add: pte_def) (simp add: m'_def)
  next
    case 2
    then have "w mod 1024 \<noteq> v mod 1024" by (metis div_mult_mod_eq)
    then have "get32 m' (tab ?m pgd ?i + 4 * (w mod 1024)) = get32 ?m (tab ?m pgd ?i + 4 * (w mod 1024))" unfolding m'_def by (intro get32_put32_other) linarith
    then show ?thesis using 2 d [OF i] by (simp add: pte_def)
  next
    case 3
    have "get32 m' (tab ?m pgd (w div 1024) + 4 * (w mod 1024)) = get32 ?m (tab ?m pgd (w div 1024) + 4 * (w mod 1024))" if p: "present ?m pgd (w div 1024)"
      using get32_page_cong [where j = "w mod 1024", OF t(1) D(4) [OF j p] _ f] D(7) [OF j i p v(2) 3] by simp
    then show ?thesis using 3 d [OF j] by (auto simp: pte_def)
  qed
qed

text \<open>A new table: no entry changes.\<close>

lemma mask_parts:
  fixes w p M :: u32
  assumes "w AND M = 0" "p AND M = p"
  shows "(w OR p) AND NOT M = w" "(w OR p) AND M = p"
proof -
  have n: "\<not> (bit w n \<and> bit M n)" "bit p n \<longrightarrow> bit M n" for n
    using arg_cong [OF assms(1), of "\<lambda>x. bit x n"] arg_cong [OF assms(2), of "\<lambda>x. bit x n"] by (auto simp: bit_and_iff)
  show "(w OR p) AND NOT M = w" "(w OR p) AND M = p"
    by (rule bit_word_eqI, use n in \<open>auto simp: bit_and_iff bit_or_iff bit_not_iff\<close>)+
qed

lemma pte_word:
  assumes "pa mod PGSIZE = 0" "pa < 2 ^ 32" "perm AND 0xFFF = perm"
  shows "PTE_ADDR (of_nat pa OR perm) = pa" "PTE_FLAGS (of_nat pa OR perm) = perm"
proof -
  have "take_bit 12 pa = (0 :: nat)" using assms(1) by (simp add: take_bit_eq_mod)
  then have "(of_nat pa :: u32) AND mask 12 = 0" by (simp add: take_bit_of_nat flip: take_bit_eq_mask)
  then have "(of_nat pa :: u32) AND 0xFFF = 0" by (simp add: mask_eq_exp_minus_1)
  note Z = mask_parts [OF this assms(3)]
  show "PTE_ADDR (of_nat pa OR perm) = pa" unfolding PTE_ADDR_def Z(1) using assms(2) by simp
  show "PTE_FLAGS (of_nat pa OR perm) = perm" unfolding PTE_FLAGS_def Z(2) ..
qed

lemma bit_P: "bit x 0 \<Longrightarrow> x AND PTE_P \<noteq> 0" for x :: u32
proof
  assume "bit x 0" "x AND PTE_P = 0"
  moreover have "bit (x AND PTE_P) 0 \<longleftrightarrow> bit x 0 \<and> bit (PTE_P :: u32) 0" by (rule bit_and_iff)
  ultimately show False by simp
qed

lemma pd_ok_newtab:
  fixes s :: "'a mem_st_scheme" and pgd i p :: nat
  assumes P: "pd_ok s pgd (p # ps)" and i: "i < 1024" "\<not> present (pmem s) pgd i"
  defines "x \<equiv> of_nat (p - KERNBASE) OR PTE_P OR PTE_W OR PTE_U"
  defines "m' \<equiv> put32 (pgd - KERNBASE + 4 * i) x (memset (pmem s) (p - KERNBASE) 0 PGSIZE)"
  shows "pd_ok (s\<lparr>freelist := unat (kload32 p s), pmem := m'\<rparr>) pgd ps" "tab m' pgd i = p - KERNBASE" "present m' pgd i"
    "\<And>w. w < 2 ^ 20 \<Longrightarrow> pte m' pgd w = pte (pmem s) pgd w"
proof -
  let ?m = "pmem s" and ?m1 = "memset (pmem s) (p - KERNBASE) 0 PGSIZE" and ?s = "s\<lparr>freelist := unat (kload32 p s)\<rparr>"
  note D = pd_okD [OF P]
  have k: "kpage s p" "p \<noteq> pgd" "kmem_ok ?s ps" "p \<notin> set ps" "pgd \<notin> set ps" using D(1,3) by (auto simp: kmem_ok_def kpage_def kload32_def)
  have "p - KERNBASE < 2 ^ 32" "(p - KERNBASE) mod PGSIZE = 0" using k(1) by (auto simp: kpage_def mod_nat_eqI)
  then have "PTE_ADDR x = p - KERNBASE" unfolding x_def by (intro pte_word) simp_all
  moreover have "x AND PTE_P \<noteq> 0" unfolding x_def by (rule bit_P) (simp add: bit_or_iff)
  ultimately have xa: "PTE_ADDR x = p - KERNBASE" "x AND PTE_P \<noteq> 0" by blast+
  have f1: "?m1 a = ?m a" if "a < p - KERNBASE \<or> p - KERNBASE + PGSIZE \<le> a" for a using that by (auto simp: memset_nth)
  have f2: "m' a = ?m1 a" if "a < pgd - KERNBASE \<or> pgd - KERNBASE + PGSIZE \<le> a" for a using put32_entry [OF that i(1)] by (simp add: m'_def)
  have d: "pde m' pgd j = (if j = i then x else pde ?m pgd j)" if "j < 1024" for j
  proof (cases "j = i")
    case False
    then have "pde m' pgd j = pde ?m1 pgd j" unfolding pde_def m'_def by (intro get32_put32_other) linarith
    then show ?thesis using False get32_page_cong [OF k(1) D(2) k(2) f1 that] by (simp add: pde_def)
  qed (simp add: pde_def m'_def)
  show "tab m' pgd i = p - KERNBASE" "present m' pgd i" using d [OF i(1)] xa by simp_all
  have z: "get32 m' (p - KERNBASE + 4 * j) = 0" if "j < 1024" for j
  proof -
    have "get32 m' (p - KERNBASE + 4 * j) = get32 ?m1 (p - KERNBASE + 4 * j)" by (rule get32_page_cong [OF D(2) k(1) k(2) [symmetric] f2 that])
    then show ?thesis using that by (simp add: get32_def memset_nth)
  qed
  have o: "get32 m' (tab ?m pgd j + 4 * l) = get32 ?m (tab ?m pgd j + 4 * l)" if j: "j < 1024" "present ?m pgd j" "l < 1024" for j l
  proof -
    have t: "kpage s (tab ?m pgd j + KERNBASE)" "pgd \<noteq> tab ?m pgd j + KERNBASE" "p \<noteq> tab ?m pgd j + KERNBASE" using D(4-6) [OF j(1,2)] by auto
    show ?thesis using get32_page_cong [OF D(2) t(1,2) f2 j(3)] get32_page_cong [OF k(1) t(1,3) f1 j(3)] by simp
  qed
  show "pte m' pgd w = pte ?m pgd w" if "w < 2 ^ 20" for w
  proof -
    have j: "w div 1024 < 1024" "w mod 1024 < 1024" using that by (simp_all add: less_mult_imp_div_less)
    show ?thesis using i(2) d [OF j(1)] xa z [OF j(2)] o [OF j(1) _ j(2)] by (auto simp: pte_def)
  qed
  have m1: "kmem_ok (?s\<lparr>pmem := ?m1\<rparr>) ps" by (rule kmem_ok_page [OF k(3) _ k(4)]) (use k(1) f1 in \<open>simp_all add: kpage_def\<close>)
  have "kmem_ok (?s\<lparr>pmem := ?m1\<rparr>\<lparr>pmem := m'\<rparr>) ps" by (rule kmem_ok_page [OF m1 _ k(5)]) (use D(2) f2 in \<open>simp_all add: kpage_def\<close>)
  moreover have "kpage (s\<lparr>freelist := unat (kload32 p s), pmem := m'\<rparr>) = kpage s" by (simp add: kpage_def fun_eq_iff)
  moreover have "p - KERNBASE + KERNBASE = p" using k(1) by (simp add: kpage_def)
  moreover have "tab ?m pgd j \<noteq> p - KERNBASE" if "j < 1024" "present ?m pgd j" for j using D(5) [OF that] \<open>p - KERNBASE + KERNBASE = p\<close> by auto
  ultimately show "pd_ok (s\<lparr>freelist := unat (kload32 p s), pmem := m'\<rparr>) pgd ps"
    unfolding pd_ok_def using D(2-7) k(4,5) xa i(1) d k(1,2) by auto
qed

section \<open>Walking and mapping\<close>

lemma kpage_phys: "kpage s (a + KERNBASE) \<Longrightarrow> a < PHYSTOP"
  by (simp add: kpage_def)

text \<open>\<open>walkpgdir\<close> finds the entry, making a table for it if there is memory; the translation stays the same.\<close>

lemma wp_walk:
  fixes s :: "'a mem_st_scheme"
  assumes P: "pd_ok s pgd ps" and va: "va < 2 ^ 32"
    and Q0: "ps = [] \<Longrightarrow> Q None s"
    and Q1: "\<And>s' ps'. \<lbrakk>pd_ok s' pgd ps'; present (pmem s') pgd (PDX va); \<And>w. w < 2 ^ 20 \<Longrightarrow> pte (pmem s') pgd w = pte (pmem s) pgd w\<rbrakk>
      \<Longrightarrow> Q (Some (tab (pmem s') pgd (PDX va) + KERNBASE + 4 * PTX va)) s'"
  shows "wp (walkpgdir pgd va True) Q s"
proof -
  note D = pd_okD [OF P]
  have i: "PDX va < 1024" by (simp add: PDX_def)
  have e: "kload32 (pgd + 4 * PDX va) s = pde (pmem s) pgd (PDX va)" using D(2) by (simp add: kload32_def pde_def kpage_def)
  show ?thesis
  proof (cases "present (pmem s) pgd (PDX va)")
    case True
    then have "tab (pmem s) pgd (PDX va) < PHYSTOP" using kpage_phys D(4) [OF i] by blast
    then show ?thesis using Q1 [OF P True] True by (simp add: walkpgdir_def Let_def e P2V_def)
  next
    case False
    show ?thesis
    proof (cases ps)
      case Nil
      then have "kalloc s = Ok 0 s" using kalloc_none D(1) by blast
      then have "wp kalloc R s = R 0 s" for R by (simp add: wp_def)
      then show ?thesis using False Q0 Nil by (simp add: walkpgdir_def Let_def e)
    next
      case (Cons p qs)
      let ?s = "s\<lparr>freelist := unat (kload32 p s)\<rparr>"
      have k: "kalloc s = Ok p ?s" "kpage s p" "p \<noteq> 0" using kalloc_some [of s p qs] D(1) Cons by (auto simp: kmem_ok_def kpage_def)
      note N = pd_ok_newtab [OF P [unfolded Cons] i False]
      have "\<not> p < KERNBASE" "p - KERNBASE + KERNBASE = p" "pgd + 4 * PDX va - KERNBASE = pgd - KERNBASE + 4 * PDX va" using k(2) D(2) by (simp_all add: kpage_def)
      moreover have "wp kalloc R s = R p ?s" for R by (simp add: wp_def k(1))
      ultimately show ?thesis
        using False k(3) Q1 [OF N(1)] N(2-4) by (simp add: walkpgdir_def Let_def e V2P_def kmemset_def kstore32_def)
    qed
  qed
qed

text \<open>One page is mapped.\<close>

lemma wp_map_one:
  fixes s :: "'a mem_st_scheme"
  assumes P: "pd_ok s pgd ps" and va: "va < 2 ^ 32" and z: "pte (pmem s) pgd (va div PGSIZE) AND PTE_P = 0"
    and Q0: "ps = [] \<Longrightarrow> Q (-1) s"
    and Q1: "\<And>s' ps'. \<lbrakk>pd_ok s' pgd ps'; \<And>w. w < 2 ^ 20 \<Longrightarrow> pte (pmem s') pgd w = (if w = va div PGSIZE then of_nat pa OR perm OR PTE_P else pte (pmem s) pgd w)\<rbrakk> \<Longrightarrow> Q 0 s'"
  shows "wp (map_one pgd va pa perm) Q s"
  unfolding map_one_def
proof (rule wp_bindI, rule wp_walk [OF P va])
  show "wp (case None of None \<Rightarrow> ret (-1) | Some r \<Rightarrow> bind (gets (kload32 r)) (\<lambda>e. if e AND PTE_P \<noteq> 0 then panic ''remap''
         else seq (modify (kstore32 r (of_nat pa OR perm OR PTE_P))) (ret 0))) Q s" if "ps = []" using Q0 [OF that] by simp
  fix s' :: "'a mem_st_scheme" and ps'
  assume a: "pd_ok s' pgd ps'" "present (pmem s') pgd (PDX va)" "\<And>w. w < 2 ^ 20 \<Longrightarrow> pte (pmem s') pgd w = pte (pmem s) pgd w"
  let ?v = "va div PGSIZE" and ?x = "of_nat pa OR perm OR PTE_P"
  have v: "?v < 2 ^ 20" "PDX va = ?v div 1024" "PTX va = ?v mod 1024" using va va_index by (simp_all add: less_mult_imp_div_less)
  let ?a = "tab (pmem s') pgd (?v div 1024) + KERNBASE + 4 * (?v mod 1024)"
  have o: "?a - KERNBASE = tab (pmem s') pgd (?v div 1024) + 4 * (?v mod 1024)" by simp
  have "kload32 ?a s' = pte (pmem s') pgd ?v" using a(2) v(2) unfolding kload32_def o by (simp add: pte_def)
  then have l: "kload32 ?a s' AND PTE_P = 0" using z a(3) [OF v(1)] by simp
  note S = pd_ok_store [OF a(1) v(1) a(2) [unfolded v(2)], where x = ?x]
  have "Q 0 (kstore32 ?a ?x s')" unfolding kstore32_def o by (rule Q1 [OF S(1)]) (use S(2) a(3) in simp)
  then show "wp (case Some (tab (pmem s') pgd (PDX va) + KERNBASE + 4 * PTX va) of None \<Rightarrow> ret (-1) | Some r \<Rightarrow> bind (gets (kload32 r)) (\<lambda>e. if e AND PTE_P \<noteq> 0 then panic ''remap''
         else seq (modify (kstore32 r (of_nat pa OR perm OR PTE_P))) (ret 0))) Q s'"
    unfolding v(2,3) using l by simp
qed

text \<open>The entries after the pages \<open>v\<close> to \<open>v + n\<close> were mapped, or some of them were and memory ran out.\<close>

definition map_post :: "nat \<Rightarrow> nat \<Rightarrow> nat \<Rightarrow> u32 \<Rightarrow> nat \<Rightarrow> bytes \<Rightarrow> int \<Rightarrow> 'a mem_st_scheme \<Rightarrow> bool" where
  "map_post v n pa perm pgd m r s' \<longleftrightarrow> (\<exists>ps'. pd_ok s' pgd ps'
     \<and> (r = 0 \<and> (\<forall>w < 2 ^ 20. pte (pmem s') pgd w = (if v \<le> w \<and> w \<le> v + n then of_nat (pa + (w - v) * PGSIZE) OR perm OR PTE_P else pte m pgd w))
        \<or> r = -1 \<and> ps' = [] \<and> (\<forall>w < 2 ^ 20. w < v \<or> v + n < w \<longrightarrow> pte (pmem s') pgd w = pte m pgd w)))"

lemma map_post_Suc:
  assumes "map_post (v + 1) n (pa + PGSIZE) perm pgd m1 r t" "\<And>w. w < 2 ^ 20 \<Longrightarrow> pte m1 pgd w = (if w = v then of_nat pa OR perm OR PTE_P else pte m pgd w)"
  shows "map_post v (Suc n) pa perm pgd m r t"
proof -
  have e: "pa + PGSIZE + (w - (v + 1)) * PGSIZE = pa + (w - v) * PGSIZE" if "v + 1 \<le> w" for w
    using that by (simp add: le_iff_add) (auto simp: algebra_simps)
  obtain ps' where p: "pd_ok t pgd ps'"
    "r = 0 \<and> (\<forall>w < 2 ^ 20. pte (pmem t) pgd w = (if v + 1 \<le> w \<and> w \<le> v + 1 + n then of_nat (pa + PGSIZE + (w - (v + 1)) * PGSIZE) OR perm OR PTE_P else pte m1 pgd w))
        \<or> r = -1 \<and> ps' = [] \<and> (\<forall>w < 2 ^ 20. w < v + 1 \<or> v + 1 + n < w \<longrightarrow> pte (pmem t) pgd w = pte m1 pgd w)"
    using assms(1) unfolding map_post_def by blast
  from p(2) show ?thesis
  proof
    assume r: "r = 0 \<and> (\<forall>w < 2 ^ 20. pte (pmem t) pgd w = (if v + 1 \<le> w \<and> w \<le> v + 1 + n then of_nat (pa + PGSIZE + (w - (v + 1)) * PGSIZE) OR perm OR PTE_P else pte m1 pgd w))"
    have "pte (pmem t) pgd w = (if v \<le> w \<and> w \<le> v + Suc n then of_nat (pa + (w - v) * PGSIZE) OR perm OR PTE_P else pte m pgd w)" if "w < 2 ^ 20" for w
    proof (cases "v + 1 \<le> w \<and> w \<le> v + 1 + n")
      case True
      have "pte (pmem t) pgd w = of_nat (pa + PGSIZE + (w - (v + 1)) * PGSIZE) OR perm OR PTE_P" using r that True by (simp only: simp_thms if_True)
      then show ?thesis using True e [of w] by simp
    next
      case False
      then have "pte (pmem t) pgd w = pte m1 pgd w" using r that by (simp only: if_False simp_thms)
      then show ?thesis using False assms(2) [OF that] by auto
    qed
    then show ?thesis using p(1) r unfolding map_post_def by blast
  next
    assume r: "r = -1 \<and> ps' = [] \<and> (\<forall>w < 2 ^ 20. w < v + 1 \<or> v + 1 + n < w \<longrightarrow> pte (pmem t) pgd w = pte m1 pgd w)"
    then have "\<forall>w < 2 ^ 20. w < v \<or> v + Suc n < w \<longrightarrow> pte (pmem t) pgd w = pte m pgd w" using assms(2) by auto
    then show ?thesis using p(1) r unfolding map_post_def by blast
  qed
qed

lemma wp_mappages_loop:
  fixes s :: "'a mem_st_scheme"
  assumes "pd_ok s pgd ps" "a = v * PGSIZE" "v + n < 2 ^ 20" "pa + n * PGSIZE < 2 ^ 32"
    "\<forall>w. v \<le> w \<and> w \<le> v + n \<longrightarrow> pte (pmem s) pgd w AND PTE_P = 0"
  shows "wp (mappages_loop n pgd a pa perm) (map_post v n pa perm pgd (pmem s)) s"
  using assms
proof (induction n arbitrary: s ps a v pa)
  case 0
  have "a < 2 ^ 32" "a div PGSIZE = v" using 0 by simp_all
  then show ?case using 0 unfolding mappages_loop.simps by (intro wp_map_one [OF 0(1)]) (auto simp: map_post_def)
next
  case (Suc n)
  have a: "a < 2 ^ 32" "a div PGSIZE = v" "u32wrap (a + PGSIZE) = (v + 1) * PGSIZE" "u32wrap (pa + PGSIZE) = pa + PGSIZE"
    using Suc.prems(2-4) by simp_all
  show ?case
    unfolding mappages_loop.simps
  proof (rule wp_bindI, rule wp_map_one [OF Suc.prems(1) a(1)])
    show "pte (pmem s) pgd (a div PGSIZE) AND PTE_P = 0" using Suc.prems(5) a(2) by simp
    show "wp (if (-1 :: int) < 0 then ret (-1) else mappages_loop n pgd (u32wrap (a + PGSIZE)) (u32wrap (pa + PGSIZE)) perm) (map_post v (Suc n) pa perm pgd (pmem s)) s" if "ps = []"
      using Suc.prems(1) that by (auto simp: map_post_def)
    fix s' :: "'a mem_st_scheme" and ps'
    assume s': "pd_ok s' pgd ps'" "\<And>w. w < 2 ^ 20 \<Longrightarrow> pte (pmem s') pgd w = (if w = a div PGSIZE then of_nat pa OR perm OR PTE_P else pte (pmem s) pgd w)"
    have "wp (mappages_loop n pgd ((v + 1) * PGSIZE) (pa + PGSIZE) perm) (map_post (v + 1) n (pa + PGSIZE) perm pgd (pmem s')) s'"
      by (rule Suc.IH [OF s'(1) refl]) (use Suc.prems s'(2) a(2) in auto)
    then have "wp (mappages_loop n pgd ((v + 1) * PGSIZE) (pa + PGSIZE) perm) (map_post v (Suc n) pa perm pgd (pmem s)) s'"
      by (rule wp_mono) (use map_post_Suc s'(2) a(2) in blast)
    then show "wp (if (0 :: int) < 0 then ret 0 else mappages_loop n pgd (u32wrap (a + PGSIZE)) (u32wrap (pa + PGSIZE)) perm) (map_post v (Suc n) pa perm pgd (pmem s)) s'"
      by (simp only: a less_irrefl if_False)
  qed
qed

text \<open>The number of rounds of the loop, and the pages of the range.\<close>

lemma mappages_rounds:
  assumes "0 < n" "va + n \<le> 2 ^ 32"
  defines "v \<equiv> va div PGSIZE" and "k \<equiv> (va + n - 1) div PGSIZE - va div PGSIZE"
  shows "mappages pgd va n pa perm = mappages_loop k pgd (v * PGSIZE) pa perm" "(va + n - 1) div PGSIZE = v + k" "v + k < 2 ^ 20"
    "v \<le> w \<Longrightarrow> w \<le> v + k \<Longrightarrow> \<exists>y. va \<le> y \<and> y < va + n \<and> y div PGSIZE = w"
proof -
  have "v \<le> (va + n - 1) div PGSIZE" unfolding v_def by (rule div_le_mono) (use assms(1) in simp)
  then show l: "(va + n - 1) div PGSIZE = v + k" by (simp add: k_def v_def)
  have x: "va + n - 1 < 2 ^ 32" using assms(1,2) by simp
  then show lt: "v + k < 2 ^ 20" unfolding l [symmetric] by (simp add: less_mult_imp_div_less)
  have "va + n + (2 ^ 32 - 1) = va + n - 1 + 2 ^ 32" using assms(1) by simp
  then have "u32wrap (va + n + (2 ^ 32 - 1)) = va + n - 1" using x by (simp only: u32wrap_def mod_add_self2 mod_less)
  moreover have "(v + k) * PGSIZE + 2 ^ 32 - v * PGSIZE = k * PGSIZE + 2 ^ 32" by (simp add: algebra_simps)
  then have "u32wrap ((v + k) * PGSIZE + 2 ^ 32 - v * PGSIZE) div PGSIZE = k" using lt by (simp add: u32wrap_def)
  ultimately show "mappages pgd va n pa perm = mappages_loop k pgd (v * PGSIZE) pa perm"
    unfolding mappages_def Let_def PGROUNDDOWN_def v_def [symmetric] by (simp only: l)
  assume w: "v \<le> w" "w \<le> v + k"
  then have u: "w * PGSIZE \<le> va + n - 1" unfolding l [symmetric] by (simp add: less_eq_div_iff_mult_less_eq)
  show "\<exists>y. va \<le> y \<and> y < va + n \<and> y div PGSIZE = w"
  proof (cases "w = v")
    case True
    then show ?thesis using assms(1) by (intro exI [of _ va]) (simp add: v_def)
  next
    case False
    then have "va < w * PGSIZE" using w(1) by (simp add: v_def flip: div_less_iff_less_mult)
    then show ?thesis using u assms(1) by (intro exI [of _ "w * PGSIZE"]) simp
  qed
qed

lemma mapped_page:
  fixes pa :: nat and perm :: u32
  assumes e: "pte m pgd (x div PGSIZE) = of_nat (pa + (x div PGSIZE - v) * PGSIZE) OR perm OR PTE_P" and w: "v \<le> x div PGSIZE" "x div PGSIZE \<le> v + k"
    and pa: "pa mod PGSIZE = 0" "pa + (k + 1) * PGSIZE \<le> 2 ^ 32" and perm: "perm AND 0xFFF = perm"
  shows "pte m pgd (x div PGSIZE) AND PTE_P \<noteq> 0" "PTE_ADDR (pte m pgd (x div PGSIZE)) + x mod PGSIZE = pa + (x - v * PGSIZE)"
    "PTE_FLAGS (pte m pgd (x div PGSIZE)) = perm OR PTE_P"
proof -
  let ?w = "x div PGSIZE" and ?pa = "pa + (x div PGSIZE - v) * PGSIZE"
  have "(?w - v) * PGSIZE \<le> k * PGSIZE" using w by (intro mult_le_mono1) linarith
  then have p: "?pa < 2 ^ 32" "?pa mod PGSIZE = 0" using pa by auto
  have "(perm OR PTE_P) AND 0xFFF = perm OR PTE_P" using perm by (simp add: bit.conj_disj_distrib2)
  note A = pte_word [OF p(2,1) this, folded e]
  have "x = ?w * PGSIZE + x mod PGSIZE" "?w * PGSIZE = (?w - v) * PGSIZE + v * PGSIZE" using w by (simp, simp add: add_mult_distrib [symmetric])
  then have "(?w - v) * PGSIZE + x mod PGSIZE = x - v * PGSIZE" by linarith
  then show "PTE_ADDR (pte m pgd ?w) + x mod PGSIZE = pa + (x - v * PGSIZE)" using A(1) by simp
  show "PTE_FLAGS (pte m pgd ?w) = perm OR PTE_P" by (rule A(2))
  show "pte m pgd ?w AND PTE_P \<noteq> 0" unfolding e by (rule bit_P) (simp add: bit_or_iff)
qed

text \<open>
  C7 \<open>mappages\<close> maps exactly the pages of its range. If none of them is mapped yet, it does not panic; either it returns 0 and the hardware
  translates every address of these pages to the one as far from \<open>pa\<close> as it is from the start of the first page, with the given permissions, and every
  other address as before; or it returns -1, because no page was left for a table, and no address outside the range is affected. The page directory
  stays well formed: its tables are pages of their own, and none of them is free.
\<close>

theorem mappages_maps:
  fixes s :: "'a mem_st_scheme"
  assumes "pd_ok s pgd ps" "0 < n" "va + n \<le> 2 ^ 32" "pa mod PGSIZE = 0" "perm AND 0xFFF = perm"
    and "\<forall>x. va \<le> x \<and> x < va + n \<longrightarrow> va2pa (pmem s) pgd x = None"
  defines "lo \<equiv> PGROUNDDOWN va" and "hi \<equiv> PGROUNDDOWN (va + n - 1) + PGSIZE"
  assumes "pa + (hi - lo) \<le> 2 ^ 32"
  shows "\<exists>r s' ps'. mappages pgd va n pa perm s = Ok r s' \<and> pd_ok s' pgd ps'
    \<and> (r = 0 \<and> (\<forall>x < 2 ^ 32. va2pa (pmem s') pgd x = (if lo \<le> x \<and> x < hi then Some (pa + (x - lo)) else va2pa (pmem s) pgd x))
          \<and> (\<forall>x. lo \<le> x \<and> x < hi \<longrightarrow> PTE_FLAGS (pte (pmem s') pgd (x div PGSIZE)) = perm OR PTE_P)
      \<or> r = -1 \<and> ps' = [] \<and> (\<forall>x < 2 ^ 32. x < lo \<or> hi \<le> x \<longrightarrow> va2pa (pmem s') pgd x = va2pa (pmem s) pgd x))"
proof -
  let ?v = "va div PGSIZE"
  define k where "k = (va + n - 1) div PGSIZE - ?v"
  note R = mappages_rounds [OF assms(2,3), folded k_def]
  have b: "lo = ?v * PGSIZE" "hi = (?v + k + 1) * PGSIZE" "hi - lo = (k + 1) * PGSIZE" unfolding lo_def hi_def PGROUNDDOWN_def R(2) by (simp_all add: algebra_simps)
  have un: "pte (pmem s) pgd w AND PTE_P = 0" if w: "?v \<le> w \<and> w \<le> ?v + k" for w
  proof -
    obtain y where "va \<le> y" "y < va + n" "y div PGSIZE = w" using R(4) w by blast
    then show ?thesis using assms(3,6) va2pa_pte [of y "pmem s" pgd] by (auto split: if_splits)
  qed
  have "wp (mappages_loop k pgd (?v * PGSIZE) pa perm) (map_post ?v k pa perm pgd (pmem s)) s"
    by (rule wp_mappages_loop [OF assms(1) refl R(3)]) (use un assms(9) b(3) in auto)
  then obtain r s' ps' where r: "mappages pgd va n pa perm s = Ok r s'" "pd_ok s' pgd ps'"
     "r = 0 \<and> (\<forall>w < 2 ^ 20. pte (pmem s') pgd w = (if ?v \<le> w \<and> w \<le> ?v + k then of_nat (pa + (w - ?v) * PGSIZE) OR perm OR PTE_P else pte (pmem s) pgd w))
        \<or> r = -1 \<and> ps' = [] \<and> (\<forall>w < 2 ^ 20. w < ?v \<or> ?v + k < w \<longrightarrow> pte (pmem s') pgd w = pte (pmem s) pgd w)"
    unfolding R(1) wp_Ok map_post_def by blast
  have io: "lo \<le> x \<and> x < hi \<longleftrightarrow> ?v \<le> x div PGSIZE \<and> x div PGSIZE \<le> ?v + k" for x
    unfolding b(1,2) by (auto simp: less_eq_div_iff_mult_less_eq div_less_iff_less_mult [symmetric])
  have out: "va2pa (pmem s') pgd x = va2pa (pmem s) pgd x" if "x < 2 ^ 32" "\<not> (lo \<le> x \<and> x < hi)" for x
  proof -
    have "pte (pmem s') pgd (x div PGSIZE) = pte (pmem s) pgd (x div PGSIZE)" using r(3) io [of x] that by (auto simp: less_mult_imp_div_less not_le)
    then show ?thesis unfolding va2pa_pte [OF that(1)] by simp
  qed
  show ?thesis
  proof (cases "r = 0")
    case True
    have "va2pa (pmem s') pgd x = Some (pa + (x - lo)) \<and> PTE_FLAGS (pte (pmem s') pgd (x div PGSIZE)) = perm OR PTE_P" if x: "lo \<le> x \<and> x < hi" for x
    proof -
      have w: "?v \<le> x div PGSIZE" "x div PGSIZE \<le> ?v + k" "x < 2 ^ 32" using x io [of x] R(3) b(2) by auto
      have "pte (pmem s') pgd (x div PGSIZE) = of_nat (pa + (x div PGSIZE - ?v) * PGSIZE) OR perm OR PTE_P" using r(3) True w(1,2) R(3) by simp
      note M = mapped_page [OF this w(1,2) assms(4) _ assms(5)]
      show ?thesis using M assms(9) b(1,3) va2pa_pte [OF w(3)] by simp
    qed
    then have "(\<forall>x < 2 ^ 32. va2pa (pmem s') pgd x = (if lo \<le> x \<and> x < hi then Some (pa + (x - lo)) else va2pa (pmem s) pgd x))
      \<and> (\<forall>x. lo \<le> x \<and> x < hi \<longrightarrow> PTE_FLAGS (pte (pmem s') pgd (x div PGSIZE)) = perm OR PTE_P)" using out by simp
    then show ?thesis using r True by blast
  next
    case False
    then have "\<forall>x < 2 ^ 32. x < lo \<or> hi \<le> x \<longrightarrow> va2pa (pmem s') pgd x = va2pa (pmem s) pgd x" using out by force
    then show ?thesis using r False by blast
  qed
qed

text \<open>An empty page directory, and one free page for a table.\<close>

definition ex_pd :: mem_st where
  "ex_pd = ex_mem\<lparr>freelist := 0x80201000\<rparr>"

lemma ex_pd_zero: "get32 (pmem ex_pd) a = 0" "va2pa (pmem ex_pd) pgd x = None"
  by (simp_all add: ex_pd_def ex_mem_def bio_st.defs get32_def va2pa_def)

lemma ex_pd_ok: "pd_ok ex_pd 0x80200000 [0x80201000]"
proof -
  have "kmem_ok ex_pd [0x80201000]"
    using ex_mem_ok ex_pd_zero(1) by (auto simp: kmem_ok_def kpage_def ex_pd_def)
  then show ?thesis using ex_mem_ok(2) by (simp add: pd_ok_def pde_def ex_pd_zero kpage_def) (simp add: ex_pd_def)
qed

theorem mappages_maps_witness:
  "\<exists>r s' ps'. mappages 0x80200000 0x1234 0x1000 0x5000 PTE_W ex_pd = Ok r s' \<and> pd_ok s' 0x80200000 ps'
    \<and> (r = 0 \<and> va2pa (pmem s') 0x80200000 0x2FFF = Some 0x6FFF \<and> va2pa (pmem s') 0x80200000 0x3000 = None \<or> r = -1 \<and> ps' = [])"
proof -
  have r: "PGROUNDDOWN 0x1234 = 0x1000" "PGROUNDDOWN (0x1234 + 0x1000 - 1) = 0x2000" by (simp_all add: PGROUNDDOWN_def)
  have "PTE_W AND 0xFFF = PTE_W" by simp
  note M = mappages_maps [OF ex_pd_ok _ _ _ this, of "0x1000" "0x1234" "0x5000", unfolded r ex_pd_zero]
  then obtain q s' ps' where q: "mappages 0x80200000 0x1234 0x1000 0x5000 PTE_W ex_pd = Ok q s'" "pd_ok s' 0x80200000 ps'"
    "q = 0 \<and> (\<forall>x < 2 ^ 32. va2pa (pmem s') 0x80200000 x = (if 0x1000 \<le> x \<and> x < 0x3000 then Some (0x5000 + (x - 0x1000)) else None)) \<or> q = -1 \<and> ps' = []"
    by auto
  then have "q = 0 \<and> va2pa (pmem s') 0x80200000 0x2FFF = Some 0x6FFF \<and> va2pa (pmem s') 0x80200000 0x3000 = None \<or> q = -1 \<and> ps' = []" by auto
  with q(1,2) show ?thesis by blast
qed

end
