(* ===== verification/Boot.thy ===== *)
theory Boot
  imports Fs
begin

text \<open>
  The boot loader (src/bootmain.c): it reads the ELF image of the kernel, which starts at sector 1 of the first disk, into physical memory.

  Addresses and lengths are the 32-bit integers of the code; \<open>None\<close> is a loop that does not end. The drive is ready whenever
  \<open>waitdisk\<close> asks; its registers select the sector as for the kernel's driver.
\<close>

section \<open>The code\<close>

type_synonym drives = "nat \<Rightarrow> nat \<Rightarrow> bytes"

abbreviation (input) SECTSIZE :: nat where "SECTSIZE \<equiv> 512"

definition boot_regs :: "u32 \<Rightarrow> ide_regs" where
  "boot_regs offset =
     \<lparr>r_count = 1, r_lba0 = ucast offset, r_lba1 = ucast (drop_bit 8 offset), r_lba2 = ucast (drop_bit 16 offset),
      r_drive = ucast (drop_bit 24 offset) OR 0xE0\<rparr>"

definition readsect :: "drives \<Rightarrow> nat \<Rightarrow> u32 \<Rightarrow> bytes \<Rightarrow> bytes" where
  "readsect dsk dst offset m = (let r = boot_regs offset in splice m dst (dsk (sel_drive r) (sel_sector r)) 0 SECTSIZE)"

partial_function (option) readseg_loop :: "drives \<Rightarrow> u32 \<Rightarrow> u32 \<Rightarrow> u32 \<Rightarrow> bytes \<Rightarrow> bytes option" where
  "readseg_loop dsk pa epa offset m =
     (if pa < epa then readseg_loop dsk (pa + 512) epa (offset + 1) (readsect dsk (unat pa) offset m) else Some m)"

definition readseg :: "drives \<Rightarrow> u32 \<Rightarrow> u32 \<Rightarrow> u32 \<Rightarrow> bytes \<Rightarrow> bytes option" where
  "readseg dsk pa count offset m = readseg_loop dsk (pa - offset mod 512) (pa + count) (offset div 512 + 1) m"

text \<open>The fields of a program header at \<open>ph\<close>.\<close>

definition ph_off :: "bytes \<Rightarrow> nat \<Rightarrow> u32" where
  "ph_off m ph = get32 m (ph + 4)"

definition ph_paddr :: "bytes \<Rightarrow> nat \<Rightarrow> u32" where
  "ph_paddr m ph = get32 m (ph + 12)"

definition ph_filesz :: "bytes \<Rightarrow> nat \<Rightarrow> u32" where
  "ph_filesz m ph = get32 m (ph + 16)"

definition ph_memsz :: "bytes \<Rightarrow> nat \<Rightarrow> u32" where
  "ph_memsz m ph = get32 m (ph + 20)"

definition load_seg :: "drives \<Rightarrow> nat \<Rightarrow> bytes \<Rightarrow> bytes option" where
  "load_seg dsk ph m =
     (let pa = ph_paddr m ph in
      map_option (\<lambda>m. if ph_filesz m ph < ph_memsz m ph
                      then stosb m (unat (pa + ph_filesz m ph)) 0 (unat (ph_memsz m ph - ph_filesz m ph)) else m)
        (readseg dsk pa (ph_filesz m ph) (ph_off m ph) m))"

primrec load_segs :: "drives \<Rightarrow> nat \<Rightarrow> nat \<Rightarrow> bytes \<Rightarrow> bytes option" where
  "load_segs dsk 0 ph m = Some m"
| "load_segs dsk (Suc n) ph m = Option.bind (load_seg dsk ph m) (load_segs dsk n (ph + 32))"

abbreviation (input) ELF_HDR :: nat where "ELF_HDR \<equiv> 0x10000"

text \<open>The entry point, if there is a kernel to enter.\<close>

definition bootmain :: "drives \<Rightarrow> bytes \<Rightarrow> (u32 option \<times> bytes) option" where
  "bootmain dsk m =
     Option.bind (readseg dsk (of_nat ELF_HDR) 4096 0 m) (\<lambda>m.
     if get32 m ELF_HDR \<noteq> 0x464C457F then Some (None, m)
     else
       map_option (\<lambda>m. (Some (get32 m (ELF_HDR + 24)), m))
         (load_segs dsk (unat (get16 m (ELF_HDR + 44))) (ELF_HDR + unat (get32 m (ELF_HDR + 28))) m))"

section \<open>Reading\<close>

text \<open>The image is on the disk from sector 1 on.\<close>

definition holds_image :: "drives \<Rightarrow> bytes \<Rightarrow> bool" where
  "holds_image dsk img \<longleftrightarrow> (\<forall>k < 2 ^ 28 - 1. \<forall>j < SECTSIZE. dsk 0 (k + 1) j = img (SECTSIZE * k + j))"

lemma boot_regs_select:
  assumes "unat q < 2 ^ 28"
  shows "sel_drive (boot_regs q) = 0" "sel_sector (boot_regs q) = unat q"
proof -
  let ?q = "unat q"
  have byte: "unat (ucast w :: u8) = unat w mod 256" for w :: u32 by (simp add: unsigned_ucast_eq take_bit_eq_mod)
  have shift: "unat (drop_bit i q) = ?q div 2 ^ i" for i by (simp only: unat_drop_bit_eq) (simp add: drop_bit_eq_div)
  have top: "?q div 2 ^ 24 < 16" using assms by (simp add: less_mult_imp_div_less)
  then have hi: "unat (ucast (drop_bit 24 q) :: u8) = ?q div 2 ^ 24" unfolding byte shift by simp
  have "(w OR 0xE0) AND 0x0f = take_bit 4 w" "bit (w OR 0xE0) 4 = bit (unat w) 4" for w :: u8
    by (simp add: take_bit_eq_mask mask_eq_exp_minus_1 bit.conj_disj_distrib2, simp add: bit_simps)
  then have d: "unat (r_drive (boot_regs q) AND 0x0f) = ?q div 2 ^ 24" "\<not> bit (r_drive (boot_regs q)) 4"
    using top hi by (simp_all add: boot_regs_def unsigned_take_bit_eq take_bit_nat_eq_self bit_iff_odd)
  show "sel_drive (boot_regs q) = 0" using d(2) by (simp add: sel_drive_def)
  have e: "?q div 2 ^ 8 = ?q div 256" "?q div 2 ^ 16 = ?q div 256 div 256" "?q div 2 ^ 24 = ?q div 256 div 256 div 256" by (simp_all add: div_mult2_eq [symmetric])
  have "?q = ?q mod 256 + ?q div 2 ^ 8 mod 256 * 256 + ?q div 2 ^ 16 mod 256 * 65536 + ?q div 2 ^ 24 * 16777216"
    using div_mult_mod_eq [of ?q 256] div_mult_mod_eq [of "?q div 256" 256] div_mult_mod_eq [of "?q div 256 div 256" 256] unfolding e by linarith
  then show "sel_sector (boot_regs q) = ?q"
    unfolding sel_sector_def d(1) by (simp add: boot_regs_def byte shift)
qed

lemma readsect_image:
  assumes "holds_image dsk img" "0 < unat q" "unat q < 2 ^ 28"
  shows "readsect dsk p q m = splice m p img (SECTSIZE * (unat q - 1)) SECTSIZE"
proof -
  have "dsk 0 (unat q) j = img (SECTSIZE * (unat q - 1) + j)" if "j < SECTSIZE" for j
    using assms(1) [unfolded holds_image_def, rule_format, of "unat q - 1" j] assms(2,3) that by simp
  then show ?thesis unfolding readsect_def Let_def boot_regs_select [OF assms(3)] by (auto simp: splice_def fun_eq_iff)
qed

lemma splice_none: "splice m p f i 0 = m"
  by (auto simp: splice_def fun_eq_iff)

lemma splice_twice: "splice (splice m p f i a) (p + a) f (i + a) b = splice m p f i (a + b)"
  by (auto simp: splice_def fun_eq_iff)

lemma readseg_loop_image:
  assumes "holds_image dsk img" "0 < unat q" "unat q + n < 2 ^ 28" "unat epa + SECTSIZE \<le> 2 ^ 32" "unat pa \<le> unat epa" "unat epa \<le> unat pa + n * SECTSIZE"
  shows "\<exists>hi. readseg_loop dsk pa epa q m = Some (splice m (unat pa) img (SECTSIZE * (unat q - 1)) (hi - unat pa)) \<and> unat epa \<le> hi \<and> hi < unat epa + SECTSIZE"
  using assms(2-)
proof (induction n arbitrary: pa q m)
  case 0
  then have "unat pa = unat epa" by simp
  then have "readseg_loop dsk pa epa q m = Some m" by (subst readseg_loop.simps) (simp add: word_less_nat_alt)
  then show ?case using 0 by (intro exI [of _ "unat epa"]) (simp add: splice_none)
next
  case (Suc n)
  show ?case
  proof (cases "unat pa < unat epa")
    case False
    then have "unat pa = unat epa" using Suc.prems by simp
    then have "readseg_loop dsk pa epa q m = Some m" by (subst readseg_loop.simps) (simp add: word_less_nat_alt)
    then show ?thesis using \<open>unat pa = unat epa\<close> by (intro exI [of _ "unat epa"]) (simp add: splice_none)
  next
    case True
    let ?m = "splice m (unat pa) img (SECTSIZE * (unat q - 1)) SECTSIZE"
    have u: "unat (pa + 512) = unat pa + SECTSIZE" "unat (q + 1) = unat q + 1"
      using True Suc.prems(2,3) by (simp_all add: unat_word_ariths)
    have r: "readseg_loop dsk pa epa q m = readseg_loop dsk (pa + 512) epa (q + 1) ?m"
      using True Suc.prems(1,2) by (subst readseg_loop.simps) (simp add: word_less_nat_alt readsect_image [OF assms(1)])
    show ?thesis
    proof (cases "unat pa + SECTSIZE \<le> unat epa")
      case True
      then obtain hi where hi: "readseg_loop dsk (pa + 512) epa (q + 1) ?m = Some (splice ?m (unat (pa + 512)) img (SECTSIZE * (unat (q + 1) - 1)) (hi - unat (pa + 512)))"
        "unat epa \<le> hi" "hi < unat epa + SECTSIZE" using Suc.IH [of "q + 1" "pa + 512" ?m] Suc.prems u by auto
      have "SECTSIZE * (unat (q + 1) - 1) = SECTSIZE * (unat q - 1) + SECTSIZE" "SECTSIZE + (hi - (unat pa + SECTSIZE)) = hi - unat pa"
        using Suc.prems(1) u(2) True hi(2) by (cases "unat q", simp_all)
      then have "splice ?m (unat (pa + 512)) img (SECTSIZE * (unat (q + 1) - 1)) (hi - unat (pa + 512)) = splice m (unat pa) img (SECTSIZE * (unat q - 1)) (hi - unat pa)"
        unfolding u(1) using splice_twice by metis
      then show ?thesis using r hi by auto
    next
      case False
      then have "readseg_loop dsk (pa + 512) epa (q + 1) ?m = Some ?m" by (subst readseg_loop.simps) (simp add: word_less_nat_alt u)
      then show ?thesis using r False True by (intro exI [of _ "unat pa + SECTSIZE"]) simp
    qed
  qed
qed

lemma readseg_image:
  assumes "holds_image dsk img" "unat off mod SECTSIZE \<le> unat pa" "unat pa + unat count + SECTSIZE \<le> 2 ^ 32"
  defines "lo \<equiv> unat pa - unat off mod SECTSIZE"
  shows "\<exists>hi. readseg dsk pa count off m = Some (splice m lo img (unat off - unat off mod SECTSIZE) (hi - lo)) \<and> unat pa + unat count \<le> hi \<and> hi < unat pa + unat count + SECTSIZE"
proof -
  let ?n = "(unat count + unat off mod SECTSIZE) div SECTSIZE + 1"
  have a: "unat (off mod 512) = unat off mod SECTSIZE" "unat (off div 512) = unat off div SECTSIZE" by (simp_all add: unat_mod_distrib unat_div_distrib)
  then have b: "unat (pa - off mod 512) = lo" using assms(2) by (simp add: lo_def unat_sub word_le_nat_alt)
  have c: "unat (pa + count) = unat pa + unat count" using assms(3) by (simp add: unat_word_ariths)
  have "unat off div SECTSIZE < 2 ^ 23" using unat32_less [of off] by (simp add: less_mult_imp_div_less)
  moreover from this have d: "unat (off div 512 + 1) = unat off div SECTSIZE + 1" by (simp add: unat_word_ariths a)
  moreover have "?n \<le> 2 ^ 23 + 1" using assms(3) by simp
  ultimately have q: "0 < unat (off div 512 + 1)" "unat (off div 512 + 1) + ?n < 2 ^ 28" by simp_all
  have "lo \<le> unat pa + unat count" "unat pa + unat count \<le> lo + ?n * SECTSIZE" using assms(2) by (simp_all add: lo_def)
  then show ?thesis
    using readseg_loop_image [OF assms(1) q, of "pa + count" "pa - off mod 512" m] assms(3)
    unfolding readseg_def b c d by (simp add: minus_mod_eq_mult_div)
qed

section \<open>Loading\<close>

text \<open>
  The segment whose program header is at offset \<open>p\<close> of the image: it lies above the copy of the first page, and is no longer in the file than in memory.
\<close>

definition seg_low :: "bytes \<Rightarrow> nat \<Rightarrow> nat" where
  "seg_low img p = unat (ph_paddr img p) - unat (ph_off img p) mod SECTSIZE"

definition seg_end :: "bytes \<Rightarrow> nat \<Rightarrow> nat" where
  "seg_end img p = unat (ph_paddr img p) + unat (ph_memsz img p)"

definition seg_ok :: "bytes \<Rightarrow> nat \<Rightarrow> bool" where
  "seg_ok img p \<longleftrightarrow> ELF_HDR + 4096 + unat (ph_off img p) mod SECTSIZE \<le> unat (ph_paddr img p) \<and> ph_filesz img p \<le> ph_memsz img p \<and> seg_end img p + SECTSIZE \<le> 2 ^ 32"

definition seg_loaded :: "bytes \<Rightarrow> bytes \<Rightarrow> nat \<Rightarrow> bool" where
  "seg_loaded m img p \<longleftrightarrow> (\<forall>k < unat (ph_memsz img p). m (unat (ph_paddr img p) + k) = (if k < unat (ph_filesz img p) then img (unat (ph_off img p) + k) else 0))"

definition header_at :: "bytes \<Rightarrow> bytes \<Rightarrow> bool" where
  "header_at m img \<longleftrightarrow> (\<forall>x < 4096. m (ELF_HDR + x) = img x)"

lemma header_get32:
  assumes "header_at m img"
  shows "x + 4 \<le> 4096 \<Longrightarrow> get32 m (ELF_HDR + x) = get32 img x" "x + 2 \<le> 4096 \<Longrightarrow> get16 m (ELF_HDR + x) = get16 img x"
proof -
  have "m (ELF_HDR + x + i) = img (x + i)" if "x + i < 4096" for i using assms that by (simp add: header_at_def add.assoc)
  from this [of 0] this [of 1] this [of 2] this [of 3] show "x + 4 \<le> 4096 \<Longrightarrow> get32 m (ELF_HDR + x) = get32 img x" "x + 2 \<le> 4096 \<Longrightarrow> get16 m (ELF_HDR + x) = get16 img x"
    by (simp_all add: get32_def get16_def)
qed

lemma header_fields:
  assumes "header_at m img" "p + 32 \<le> 4096"
  shows "ph_off m (ELF_HDR + p) = ph_off img p" "ph_paddr m (ELF_HDR + p) = ph_paddr img p" "ph_filesz m (ELF_HDR + p) = ph_filesz img p" "ph_memsz m (ELF_HDR + p) = ph_memsz img p"
  using header_get32(1) [OF assms(1), of "p + 4"] header_get32(1) [OF assms(1), of "p + 12"] header_get32(1) [OF assms(1), of "p + 16"]
    header_get32(1) [OF assms(1), of "p + 20"] assms(2) by (simp_all add: ph_off_def ph_paddr_def ph_filesz_def ph_memsz_def add.assoc)

lemma load_seg_image:
  assumes "holds_image dsk img" "header_at m img" "p + 32 \<le> 4096" "seg_ok img p"
  shows "\<exists>m'. load_seg dsk (ELF_HDR + p) m = Some m' \<and> seg_loaded m' img p \<and> (\<forall>x < seg_low img p. m' x = m x)"
proof -
  let ?pa = "unat (ph_paddr img p)" and ?fs = "unat (ph_filesz img p)" and ?ms = "unat (ph_memsz img p)" and ?off = "unat (ph_off img p)" and ?lo = "seg_low img p"
  have k: "ELF_HDR + 4096 + ?off mod SECTSIZE \<le> ?pa" "?fs \<le> ?ms" "?pa + ?ms + SECTSIZE \<le> 2 ^ 32" using assms(4) by (auto simp: seg_ok_def seg_end_def word_le_nat_alt)
  obtain hi where hi: "readseg dsk (ph_paddr img p) (ph_filesz img p) (ph_off img p) m = Some (splice m ?lo img (?off - ?off mod SECTSIZE) (hi - ?lo))" "?pa + ?fs \<le> hi"
    using readseg_image [OF assms(1), of "ph_off img p" "ph_paddr img p" "ph_filesz img p" m] k unfolding seg_low_def by auto
  let ?m = "splice m ?lo img (?off - ?off mod SECTSIZE) (hi - ?lo)"
  let ?m' = "if ph_filesz img p < ph_memsz img p then stosb ?m (unat (ph_paddr img p + ph_filesz img p)) 0 (unat (ph_memsz img p - ph_filesz img p)) else ?m"
  have h: "header_at ?m img" using assms(2) k(1) by (auto simp: header_at_def splice_def seg_low_def)
  have l: "load_seg dsk (ELF_HDR + p) m = Some ?m'" unfolding load_seg_def Let_def header_fields [OF assms(2,3)] hi(1) using header_fields [OF h assms(3)] by simp
  have u: "unat (ph_paddr img p + ph_filesz img p) = ?pa + ?fs" "unat (ph_memsz img p - ph_filesz img p) = ?ms - ?fs"
    using k by (simp_all add: unat_word_ariths unat_sub word_le_nat_alt)
  have st: "?m' x = (if ?pa + ?fs \<le> x \<and> x < ?pa + ?ms then 0 else ?m x)" for x using k(2) by (auto simp: stosb_nth u word_less_nat_alt)
  have "?m (?pa + j) = img (?off + j)" if "j < ?fs" for j using that hi(2) k(1) by (auto simp: splice_def seg_low_def intro!: arg_cong [of _ _ img])
  then have "seg_loaded ?m' img p" unfolding seg_loaded_def st using k(2) by auto
  moreover have "?m' x = m x" if "x < ?lo" for x unfolding st using that by (auto simp: splice_def seg_low_def)
  ultimately show ?thesis using l by blast
qed

lemma load_segs_image:
  assumes "holds_image dsk img" "header_at m img" "p + 32 * n \<le> 4096" "\<forall>i < n. seg_ok img (p + 32 * i)"
    and "\<forall>i j. i < j \<and> j < n \<longrightarrow> seg_end img (p + 32 * i) \<le> seg_low img (p + 32 * j)"
  shows "\<exists>m'. load_segs dsk n (ELF_HDR + p) m = Some m' \<and> (\<forall>i < n. seg_loaded m' img (p + 32 * i)) \<and> (\<forall>x. (\<forall>i < n. x < seg_low img (p + 32 * i)) \<longrightarrow> m' x = m x)"
  using assms(2-)
proof (induction n arbitrary: p m)
  case (Suc n)
  have ok: "seg_ok img p" "p + 32 \<le> 4096" using Suc.prems(2) Suc.prems(3) [rule_format, of 0] by simp_all
  obtain m1 where m1: "load_seg dsk (ELF_HDR + p) m = Some m1" "seg_loaded m1 img p" "\<forall>x < seg_low img p. m1 x = m x"
    using load_seg_image [OF assms(1) Suc.prems(1) ok(2,1)] by blast
  have "header_at m1 img" using Suc.prems(1) m1(3) ok(1) by (auto simp: header_at_def seg_ok_def seg_low_def)
  moreover have sub: "seg_ok img (p + 32 + 32 * i)" "seg_end img p \<le> seg_low img (p + 32 + 32 * i)" if "i < n" for i
    using Suc.prems(3) [rule_format, of "Suc i"] Suc.prems(4) [rule_format, of 0 "Suc i"] that by (simp_all add: algebra_simps)
  moreover have "seg_end img (p + 32 + 32 * i) \<le> seg_low img (p + 32 + 32 * j)" if "i < j" "j < n" for i j
    using Suc.prems(4) [rule_format, of "Suc i" "Suc j"] that by (simp add: algebra_simps)
  ultimately obtain m' where m': "load_segs dsk n (ELF_HDR + (p + 32)) m1 = Some m'" "\<forall>i < n. seg_loaded m' img (p + 32 + 32 * i)"
    "\<forall>x. (\<forall>i < n. x < seg_low img (p + 32 + 32 * i)) \<longrightarrow> m' x = m1 x"
    using Suc.IH [of m1 "p + 32"] Suc.prems(2) by auto
  have "seg_loaded m' img p" unfolding seg_loaded_def
  proof (intro allI impI)
    fix k
    assume k: "k < unat (ph_memsz img p)"
    then have "unat (ph_paddr img p) + k < seg_low img (p + 32 + 32 * i)" if "i < n" for i using sub(2) [OF that] by (simp add: seg_end_def)
    then have "m' (unat (ph_paddr img p) + k) = m1 (unat (ph_paddr img p) + k)" using m'(3) by blast
    then show "m' (unat (ph_paddr img p) + k) = (if k < unat (ph_filesz img p) then img (unat (ph_off img p) + k) else 0)" using m1(2) k by (simp add: seg_loaded_def)
  qed
  then have "\<forall>i < Suc n. seg_loaded m' img (p + 32 * i)" using m'(2) by (auto simp: less_Suc_eq_0_disj algebra_simps)
  moreover have "m' x = m x" if "\<forall>i < Suc n. x < seg_low img (p + 32 * i)" for x
  proof -
    have "x < seg_low img p" "\<forall>i < n. x < seg_low img (p + 32 + 32 * i)" using that [rule_format, of 0] that [rule_format, of "Suc _"] by (auto simp: algebra_simps)
    then show ?thesis using m'(3) m1(3) by auto
  qed
  ultimately show ?case using m1(1) m'(1) by (simp add: add.assoc)
qed simp

text \<open>
  C8 The boot loader loads the kernel. If an ELF image is on the disk from sector 1 on, with its program headers in the first page, and its segments, in ascending order, do not come
  within the sector that the next one starts in, then \<open>bootmain\<close> ends and enters the image's entry point with every segment in memory: the bytes of the file, followed by zeroes up to its
  size. The sectors read in whole, more than was asked for on either side, do no harm.
\<close>

theorem bootmain_loads:
  assumes "holds_image dsk img" "get32 img 0 = 0x464C457F"
  defines "n \<equiv> unat (get16 img 44)" and "p \<equiv> unat (get32 img 28)"
  assumes "p + 32 * n \<le> 4096" "\<forall>i < n. seg_ok img (p + 32 * i)" "\<forall>i j. i < j \<and> j < n \<longrightarrow> seg_end img (p + 32 * i) \<le> seg_low img (p + 32 * j)"
  shows "\<exists>m'. bootmain dsk m = Some (Some (get32 img 24), m') \<and> (\<forall>i < n. seg_loaded m' img (p + 32 * i))"
proof -
  obtain hi where "readseg dsk (of_nat ELF_HDR) 4096 0 m = Some (splice m ELF_HDR img 0 (hi - ELF_HDR))" "ELF_HDR + 4096 \<le> hi"
    using readseg_image [OF assms(1), of 0 "of_nat ELF_HDR" 4096 m] by auto
  moreover from this have h: "header_at (splice m ELF_HDR img 0 (hi - ELF_HDR)) img" by (auto simp: header_at_def splice_def)
  note G = header_get32(1) [OF h, of 0] header_get32(1) [OF h, of 28] header_get32(2) [OF h, of 44]
  obtain m' where m': "load_segs dsk n (ELF_HDR + p) (splice m ELF_HDR img 0 (hi - ELF_HDR)) = Some m'" "\<forall>i < n. seg_loaded m' img (p + 32 * i)"
    "\<forall>x. (\<forall>i < n. x < seg_low img (p + 32 * i)) \<longrightarrow> m' x = splice m ELF_HDR img 0 (hi - ELF_HDR) x"
    using load_segs_image [OF assms(1) h assms(5-7)] by blast
  have "ELF_HDR + x < seg_low img (p + 32 * i)" if "i < n" "x < 4096" for i x using assms(6) that by (auto simp: seg_ok_def seg_low_def)
  then have "header_at m' img" unfolding header_at_def using h [unfolded header_at_def] m'(3) by simp
  ultimately show ?thesis using G m'(1,2) assms(2) header_get32(1) [of m' img 24] by (simp add: bootmain_def n_def p_def)
qed

text \<open>An image with one segment, of two bytes in the file and four in memory.\<close>

definition ex_img :: bytes where
  "ex_img = put32 0 0x464C457F (put32 24 0x10000C (put32 28 52 (put16 44 1 (put32 56 0x1001 (put32 64 0x100001 (put32 68 2 (put32 72 4 ((\<lambda>_. 0)(0x1001 := 7, 0x1002 := 8)))))))))"

lemma ex_img_fields: "get32 ex_img 0 = 0x464C457F" "get32 ex_img 24 = 0x10000C" "get32 ex_img 28 = 52" "get16 ex_img 44 = 1"
  "ph_off ex_img 52 = 0x1001" "ph_paddr ex_img 52 = 0x100001" "ph_filesz ex_img 52 = 2" "ph_memsz ex_img 52 = 4" "ex_img 0x1001 = 7" "ex_img 0x1002 = 8"
  unfolding ex_img_def ph_off_def ph_paddr_def ph_filesz_def ph_memsz_def by simp_all

theorem bootmain_loads_witness:
  "\<exists>m'. bootmain (\<lambda>_ k j. ex_img (512 * (k - 1) + j)) (\<lambda>_. 9) = Some (Some 0x10000C, m') \<and> map m' [0x100001, 0x100002, 0x100003, 0x100004] = [7, 8, 0, 0]"
proof -
  have h: "holds_image (\<lambda>_ k j. ex_img (512 * (k - 1) + j)) ex_img" by (simp add: holds_image_def)
  have "seg_ok ex_img 52" by (simp add: seg_ok_def seg_end_def ex_img_fields)
  then obtain m' where m': "bootmain (\<lambda>_ k j. ex_img (512 * (k - 1) + j)) (\<lambda>_. 9) = Some (Some 0x10000C, m')" "seg_loaded m' ex_img 52"
    using bootmain_loads [OF h ex_img_fields(1), of "\<lambda>_. 9"] by (auto simp: ex_img_fields)
  have "map m' [0x100001, 0x100002, 0x100003, 0x100004] = [7, 8, 0, 0]"
    using m'(2) [unfolded seg_loaded_def ex_img_fields, rule_format, of 0] m'(2) [unfolded seg_loaded_def ex_img_fields, rule_format, of 1]
      m'(2) [unfolded seg_loaded_def ex_img_fields, rule_format, of 2] m'(2) [unfolded seg_loaded_def ex_img_fields, rule_format, of 3] by (simp add: ex_img_fields)
  with m'(1) show ?thesis by (intro exI [of _ m'] conjI)
qed

end
