(* ===== verification/Syscall.thy ===== *)
theory Syscall
  imports Console
begin

text \<open>
  Fetching the arguments of a system call from user memory (src/syscall.c; its dispatcher is in
  theory Trap). The kernel reads and writes user memory through the page table of the current
  process; an access to an address that is not mapped traps in the kernel, which panics.
\<close>

section \<open>User memory\<close>

definition upa :: "nat \<Rightarrow> 'a mem_st_scheme \<Rightarrow> nat option" where
  "upa va s = (case curproc s of None \<Rightarrow> None | Some p \<Rightarrow> va2pa (pmem s) (unat (pgdir (ptable s p))) va)"

definition uload8 :: "nat \<Rightarrow> (u8, 'a mem_st_scheme) kop" where
  "uload8 va s = (case upa va s of None \<Rightarrow> Panic ''trap'' | Some pa \<Rightarrow> Ok (pmem s pa) s)"

definition ustore8 :: "nat \<Rightarrow> u8 \<Rightarrow> (unit, 'a mem_st_scheme) kop" where
  "ustore8 va x s = (case upa va s of None \<Rightarrow> Panic ''trap'' | Some pa \<Rightarrow> Ok () (s\<lparr>pmem := (pmem s)(pa := x)\<rparr>))"

primrec uload :: "nat \<Rightarrow> nat \<Rightarrow> (u8 list, 'a mem_st_scheme) kop" where
  "uload va 0 = ret []"
| "uload va (Suc n) = bind (uload8 va) (\<lambda>x. bind (uload (u32wrap (va + 1)) n) (\<lambda>xs. ret (x # xs)))"

definition ustore :: "nat \<Rightarrow> bytes \<Rightarrow> nat \<Rightarrow> (unit, 'a mem_st_scheme) kop" where
  "ustore va buf n = foreach [0..<n] (\<lambda>k. ustore8 (u32wrap (va + k)) (buf k))"

definition uload32 :: "nat \<Rightarrow> (u32, 'a mem_st_scheme) kop" where
  "uload32 va = bind (uload va 4) (\<lambda>xs. ret (get32 ((!) xs) 0))"

definition ustore32 :: "nat \<Rightarrow> u32 \<Rightarrow> (unit, 'a mem_st_scheme) kop" where
  "ustore32 va x = ustore va (put32 0 x (\<lambda>_. 0)) 4"

definition ustore16 :: "nat \<Rightarrow> u16 \<Rightarrow> (unit, 'a mem_st_scheme) kop" where
  "ustore16 va x = ustore va (put16 0 x (\<lambda>_. 0)) 2"

section \<open>Arguments\<close>

text \<open>A result of -1 is \<open>None\<close>.\<close>

definition fetchint :: "nat \<Rightarrow> (u32 option, 'a mem_st_scheme) kop" where
  "fetchint addr =
     bind cur (\<lambda>p.
     bind (gets (\<lambda>s. unat (sz (ptable s p)))) (\<lambda>lim.
     if addr \<ge> lim \<or> u32wrap (addr + 4) > lim then ret None
     else bind (uload32 addr) (\<lambda>x. ret (Some x))))"

text \<open>The loop of \<open>fetchstr\<close> over the \<open>n\<close> bytes that are left below the end of the process.\<close>

primrec fetchstr_loop :: "nat \<Rightarrow> nat \<Rightarrow> (u8 list option, 'a mem_st_scheme) kop" where
  "fetchstr_loop va 0 = ret None"
| "fetchstr_loop va (Suc n) =
     bind (uload8 va) (\<lambda>c.
     if c = 0 then ret (Some [])
     else bind (fetchstr_loop (va + 1) n) (\<lambda>r. ret (map_option ((#) c) r)))"

definition fetchstr :: "nat \<Rightarrow> (u8 list option, 'a mem_st_scheme) kop" where
  "fetchstr addr =
     bind cur (\<lambda>p.
     bind (gets (\<lambda>s. unat (sz (ptable s p)))) (\<lambda>lim.
     if addr \<ge> lim then ret None
     else fetchstr_loop addr (lim - addr)))"

definition argint :: "nat \<Rightarrow> (u32 option, 'a mem_st_scheme) kop" where
  "argint n =
     bind cur (\<lambda>p.
     bind (gets (\<lambda>s. unat (tf_esp (tf (ptable s p))))) (\<lambda>esp.
     fetchint (u32wrap (esp + 4 + 4 * n))))"

definition argptr :: "nat \<Rightarrow> int \<Rightarrow> (nat option, 'a mem_st_scheme) kop" where
  "argptr n m =
     bind (argint n) (\<lambda>r.
     case r of
       None \<Rightarrow> ret None
     | Some i \<Rightarrow>
         bind cur (\<lambda>p.
         bind (gets (\<lambda>s. unat (sz (ptable s p)))) (\<lambda>lim.
         if m < 0 \<or> unat i \<ge> lim \<or> u32wrap (unat i + nat m) > lim then ret None
         else ret (Some (unat i)))))"

definition argstr :: "nat \<Rightarrow> (u8 list option, 'a mem_st_scheme) kop" where
  "argstr n =
     bind (argint n) (\<lambda>r.
     case r of None \<Rightarrow> ret None | Some a \<Rightarrow> fetchstr (unat a))"


section \<open>Checks of user addresses\<close>

text \<open>The memory of the current process: its size, its bytes, and that all of it is mapped.\<close>

definition ulimit :: "'a mem_st_scheme \<Rightarrow> nat" where
  "ulimit s = (case curproc s of None \<Rightarrow> 0 | Some p \<Rightarrow> unat (sz (ptable s p)))"

definition ubyte :: "'a mem_st_scheme \<Rightarrow> bytes" where
  "ubyte s va = (case upa va s of None \<Rightarrow> 0 | Some pa \<Rightarrow> pmem s pa)"

definition user_mapped :: "'a mem_st_scheme \<Rightarrow> bool" where
  "user_mapped s \<longleftrightarrow> curproc s \<noteq> None \<and> ulimit s \<le> KERNBASE \<and> (\<forall>va < ulimit s. upa va s \<noteq> None)"

lemma uload8_eq: "user_mapped s \<Longrightarrow> va < ulimit s \<Longrightarrow> uload8 va s = Ok (ubyte s va) s"
  by (auto simp: user_mapped_def uload8_def ubyte_def)

lemma uload_eq:
  "user_mapped s \<Longrightarrow> va + n \<le> ulimit s \<Longrightarrow> uload va n s = Ok (map (\<lambda>k. ubyte s (va + k)) [0..<n]) s"
proof (induction n arbitrary: va)
  case (Suc n)
  have "va + 1 < 4294967296" "ulimit s \<le> KERNBASE" using Suc.prems by (simp_all add: user_mapped_def)
  then show ?case
    using Suc.IH [of "va + 1"] Suc.prems uload8_eq [of s va]
    by (simp add: map_Suc_upt [symmetric] upt_conv_Cons del: upt_Suc)
qed simp

lemma uload32_eq: "user_mapped s \<Longrightarrow> va + 4 \<le> ulimit s \<Longrightarrow> uload32 va s = Ok (get32 (ubyte s) va) s"
  by (simp add: uload32_def uload_eq get32_def upt_rec numeral_3_eq_3)

lemma fetchint_eq:
  assumes "user_mapped s" "addr < 4294967296"
  shows "fetchint addr s = Ok (if addr + 4 \<le> ulimit s then Some (get32 (ubyte s) addr) else None) s"
proof -
  obtain p where p: "curproc s = Some p" "ulimit s = unat (sz (ptable s p))" "ulimit s \<le> KERNBASE"
    using assms(1) by (auto simp: user_mapped_def ulimit_def)
  then have "addr \<ge> ulimit s \<or> u32wrap (addr + 4) > ulimit s \<longleftrightarrow> \<not> addr + 4 \<le> ulimit s"
    by (cases "addr \<ge> ulimit s") (auto simp: not_le)
  then show ?thesis using p uload32_eq [OF assms(1), of addr] by (auto simp: fetchint_def cur_def)
qed

text \<open>
  C11 \<open>argptr\<close> accepts exactly the blocks that lie inside the process: with the stack pointer, the argument and the
  size the user chose, however large, it gives the pointer if the stack slot and the block of \<open>m\<close> bytes
  (of which there may be none) are below the process size, refuses it otherwise, and never faults. The sums
  the code computes modulo \<open>2 ^ 32\<close> cannot be made to wrap around the limit.
\<close>

theorem argptr_exact:
  fixes n :: nat
  assumes "user_mapped s" "curproc s = Some p" "m < 2 ^ 31"
  defines "slot \<equiv> u32wrap (unat (tf_esp (tf (ptable s p))) + 4 + 4 * n)"
  defines "a \<equiv> unat (get32 (ubyte s) slot)"
  shows "argptr n m s = Ok (if slot + 4 \<le> ulimit s \<and> 0 \<le> m \<and> a < ulimit s \<and> a + nat m \<le> ulimit s then Some a else None) s"
proof -
  have lim: "ulimit s = unat (sz (ptable s p))" "ulimit s \<le> KERNBASE" using assms(1,2) by (auto simp: user_mapped_def ulimit_def)
  have int: "argint n s = Ok (if slot + 4 \<le> ulimit s then Some (get32 (ubyte s) slot) else None) s"
    using fetchint_eq [OF assms(1), of slot] assms(2) by (simp add: argint_def cur_def slot_def)
  have wrap: "u32wrap (a + nat m) = a + nat m" if "a < ulimit s"
    using that lim(2) assms(3) by (intro u32wrap_small) simp
  show ?thesis
  proof (cases "slot + 4 \<le> ulimit s")
    case True
    then show ?thesis
      using int assms(2) lim(1) wrap by (cases "a < ulimit s") (auto simp: argptr_def cur_def a_def)
  qed (use int in \<open>simp add: argptr_def\<close>)
qed

lemma fetchstr_loop_eq:
  "user_mapped s \<Longrightarrow> va + n \<le> ulimit s \<Longrightarrow> fetchstr_loop va n s =
    Ok (let bs = map (ubyte s) [va..<va + n] in if 0 \<in> set bs then Some (takeWhile (\<lambda>c. c \<noteq> 0) bs) else None) s"
proof (induction n arbitrary: va)
  case (Suc n)
  then show ?case
    using Suc.IH [of "va + 1"] uload8_eq [of s va] by (auto simp: Let_def upt_conv_Cons simp del: upt_Suc)
qed (simp add: Let_def)

text \<open>
  C23 \<open>argstr\<close> gives the string at the argument, up to its NUL, exactly if the NUL is inside the process; a string
  that runs to the end of the process or starts outside it is refused. The kernel reads nothing beyond the
  process and never faults.
\<close>

theorem argstr_exact:
  fixes n :: nat
  assumes "user_mapped s" "curproc s = Some p"
  defines "slot \<equiv> u32wrap (unat (tf_esp (tf (ptable s p))) + 4 + 4 * n)"
  defines "bs \<equiv> map (ubyte s) [unat (get32 (ubyte s) slot)..<ulimit s]"
  shows "argstr n s = Ok (if slot + 4 \<le> ulimit s \<and> 0 \<in> set bs then Some (takeWhile (\<lambda>c. c \<noteq> 0) bs) else None) s"
proof -
  have int: "argint n s = Ok (if slot + 4 \<le> ulimit s then Some (get32 (ubyte s) slot) else None) s"
    using fetchint_eq [OF assms(1), of slot] assms(2) by (simp add: argint_def cur_def slot_def)
  have "fetchstr a s = Ok (let bs = map (ubyte s) [a..<ulimit s] in if 0 \<in> set bs then Some (takeWhile (\<lambda>c. c \<noteq> 0) bs) else None) s" for a
    using fetchstr_loop_eq [OF assms(1), of a "ulimit s - a"] assms(2) by (auto simp: fetchstr_def cur_def ulimit_def Let_def)
  then show ?thesis using int by (auto simp: argstr_def Let_def bs_def)
qed


text \<open>A process with one page, whose first argument points to the string "hi" in it.\<close>

definition ex_user :: mem_st where
  "ex_user = ex_mem\<lparr>curproc := Some 0,
     ptable := (\<lambda>_. proc0\<lparr>pstate := RUNNING, pid := 1, sz := 4096, pgdir := 0x80001000, tf := (tf proc0)\<lparr>tf_esp := 0x100\<rparr>\<rparr>),
     pmem := (put32 0x1000 0x2007 (put32 0x2000 0x3007 (put32 0x3104 0x200 (\<lambda>_. 0))))(0x3200 := 104, 0x3201 := 105)\<rparr>"

lemma ex_user_upa: "va < 4096 \<Longrightarrow> upa va ex_user = Some (0x3000 + va)"
proof -
  assume va: "va < 4096"
  have "get32 (pmem ex_user) 0x1000 = 0x2007" "get32 (pmem ex_user) 0x2000 = 0x3007"
    by (simp_all add: ex_user_def get32_def put32_def)
  with va show ?thesis
    by (simp add: upa_def va2pa_def ex_user_def PDX_def PTX_def PTE_ADDR_def Let_def)
qed

lemma ex_user_mapped:
  "user_mapped ex_user" "curproc ex_user = Some 0" "ulimit ex_user = 4096" "tf_esp (tf (ptable ex_user 0)) = 0x100"
proof -
  show *: "curproc ex_user = Some 0" "ulimit ex_user = 4096" "tf_esp (tf (ptable ex_user 0)) = 0x100"
    by (simp_all add: ex_user_def ulimit_def)
  then show "user_mapped ex_user" using ex_user_upa by (simp add: user_mapped_def)
qed


lemma ex_user_bytes: "va < 4096 \<Longrightarrow> ubyte ex_user va = pmem ex_user (0x3000 + va)"
  by (simp add: ubyte_def ex_user_upa)

lemma ex_user_arg: "get32 (ubyte ex_user) 0x104 = 0x200"
  by (simp add: get32_def ex_user_bytes) (simp add: ex_user_def put32_def)

theorem argptr_exact_witness:
  "argptr 0 0xE00 ex_user = Ok (Some 0x200) ex_user \<and> argptr 0 0xE01 ex_user = Ok None ex_user"
proof -
  have *: "argptr 0 m ex_user = Ok (if 0 \<le> m \<and> 0x200 + nat m \<le> 4096 then Some 0x200 else None) ex_user" if "m < 2 ^ 31" for m
    using argptr_exact [OF ex_user_mapped(1,2) that, of 0] by (simp add: ex_user_mapped(3,4) ex_user_arg)
  show ?thesis using * [of "0xE00"] * [of "0xE01"] by simp
qed

theorem argstr_exact_witness: "argstr 0 ex_user = Ok (Some [104, 105]) ex_user"
proof -
  have b: "ubyte ex_user 0x200 = 104" "ubyte ex_user 0x201 = 105" "ubyte ex_user 0x202 = 0"
    by (simp_all add: ex_user_bytes) (simp_all add: ex_user_def put32_def)
  have u: "[0x200..<4096] = 0x200 # 0x201 # 0x202 # [0x203..<4096]" by (simp add: upt_conv_Cons [of "0x200"] upt_conv_Cons [of "0x201"] upt_conv_Cons [of "0x202"] del: upt_rec_numeral)
  show ?thesis
    using argstr_exact [OF ex_user_mapped(1,2), of 0] by (simp add: ex_user_mapped(3,4) ex_user_arg u b del: upt_rec_numeral)
qed

end
