(* ===== verification/Exec.thy ===== *)
theory Exec
  imports Syscall
begin

text \<open>
  Loading a program (src/exec.c). The path and the arguments are the characters of the strings
  before their NUL. The code's jumps to \<open>bad\<close> are the results \<open>None\<close> of the parts below.
\<close>

abbreviation (input) MAXARG :: nat where "MAXARG \<equiv> 32"
abbreviation (input) ELF_MAGIC :: u32 where "ELF_MAGIC \<equiv> 0x464C457F"

text \<open>The loop over the program headers: \<open>n\<close> of them at offset \<open>off\<close> of the file; the size so far is \<open>m\<close>.\<close>

primrec exec_segments :: "nat \<Rightarrow> nat \<Rightarrow> nat \<Rightarrow> nat \<Rightarrow> nat \<Rightarrow> (nat option, 'a cons_st_scheme) kop" where
  "exec_segments ip pgd off 0 m = ret (Some m)"
| "exec_segments ip pgd off (Suc n) m =
     bind (readi devsw_read ip (\<lambda>_. 0) off 32) (\<lambda>(r, ph).
     if r \<noteq> 32 then ret None
     else
       let vaddr = unat (get32 ph 8); filesz = unat (get32 ph 16); memsz = unat (get32 ph 20) in
       if get32 ph 0 \<noteq> 1 then exec_segments ip pgd (u32wrap (off + 32)) n m
       else if memsz < filesz then ret None
       else if u32wrap (vaddr + memsz) < vaddr then ret None
       else
         bind (allocuvm pgd m (u32wrap (vaddr + memsz))) (\<lambda>m.
         if m = 0 then ret None
         else if vaddr mod PGSIZE \<noteq> 0 then ret None
         else
           bind (loaduvm devsw_read pgd vaddr ip (unat (get32 ph 4)) filesz) (\<lambda>r.
           if r < 0 then ret None
           else exec_segments ip pgd (u32wrap (off + 32)) n m)))"

text \<open>The page directory (0 if there is none yet), and the entry point and size on success.\<close>

definition exec_load :: "nat \<Rightarrow> (nat \<times> (nat \<times> nat) option, 'a cons_st_scheme) kop" where
  "exec_load ip =
     bind (readi devsw_read ip (\<lambda>_. 0) 0 52) (\<lambda>(r, elf).
     if r \<noteq> 52 then ret (0, None)
     else if get32 elf 0 \<noteq> ELF_MAGIC then ret (0, None)
     else
       bind setupkvm (\<lambda>pgd.
       if pgd = 0 then ret (0, None)
       else
         bind (exec_segments ip pgd (unat (get32 elf 28)) (unat (get16 elf 44)) 0) (\<lambda>r.
         ret (pgd, map_option (\<lambda>m. (unat (get32 elf 24), m)) r))))"

text \<open>The loop that pushes the argument strings: the addresses they get, and the stack pointer.\<close>

primrec exec_args :: "nat \<Rightarrow> nat \<Rightarrow> nat \<Rightarrow> u8 list list \<Rightarrow> ((nat list \<times> nat) option, 'a cons_st_scheme) kop" where
  "exec_args pgd argc sp [] = ret (Some ([], sp))"
| "exec_args pgd argc sp (a # as) =
     (if argc \<ge> MAXARG then ret None
      else
        let sp = u32wrap (sp + 2 ^ 32 - (length a + 1)) div 4 * 4 in
        bind (copyout pgd sp (of_string a) (length a + 1)) (\<lambda>r.
        if r < 0 then ret None
        else
          bind (exec_args pgd (argc + 1) sp as) (\<lambda>r.
          ret (map_option (\<lambda>(us, sp'). (sp # us, sp')) r))))"

definition word_bytes :: "u32 list \<Rightarrow> bytes" where
  "word_bytes us = (\<lambda>k. ucast (drop_bit (8 * (k mod 4)) (us ! (k div 4))))"

definition exec_stack :: "nat \<Rightarrow> nat \<Rightarrow> u8 list list \<Rightarrow> ((nat \<times> nat) option, 'a cons_st_scheme) kop" where
  "exec_stack pgd m argv =
     (let m = PGROUNDUP m in
      bind (allocuvm pgd m (u32wrap (m + 2 * PGSIZE))) (\<lambda>m.
      if m = 0 then ret None
      else
        seq (clearpteu pgd (m - 2 * PGSIZE))
        (bind (exec_args pgd 0 m argv) (\<lambda>r.
        case r of
          None \<Rightarrow> ret None
        | Some (us, sp) \<Rightarrow>
            let argc = length argv;
                ustack = [0xffffffff, of_nat argc, of_nat sp - of_nat ((argc + 1) * 4)] @ map of_nat us @ [0];
                sp = u32wrap (sp + 2 ^ 32 - (3 + argc + 1) * 4)
            in
            bind (copyout pgd sp (word_bytes ustack) ((3 + argc + 1) * 4)) (\<lambda>r.
            if r < 0 then ret None else ret (Some (m, sp)))))))"

definition last_elem :: "u8 list \<Rightarrow> u8 list" where
  "last_elem path = rev (takeWhile (\<lambda>c. c \<noteq> 47) (rev path))"

definition exec :: "u8 list \<Rightarrow> u8 list list \<Rightarrow> (int, 'a cons_st_scheme) kop" where
  "exec path argv =
     bind cur (\<lambda>cp.
     seq begin_op
     (bind (namei devsw_read path) (\<lambda>r.
     case r of
       None \<Rightarrow> seq end_op (seq (cprintf (\<lambda>_. []) (cfmt ''exec: fail\<newline>'') []) (ret (-1)))
     | Some ip \<Rightarrow>
         seq (ilock (Some ip))
         (bind (exec_load ip) (\<lambda>(pgd, r).
         case r of
           None \<Rightarrow>
             seq (if pgd \<noteq> 0 then freevm pgd else skip)
             (seq (iunlockput ip)
             (seq end_op
             (ret (-1))))
         | Some (entry, m) \<Rightarrow>
             seq (iunlockput ip)
             (seq end_op
             (bind (exec_stack pgd m argv) (\<lambda>r.
             case r of
               None \<Rightarrow> seq (freevm pgd) (ret (-1))
             | Some (m, sp) \<Rightarrow>
                 bind (gets (\<lambda>s. pgdir (ptable s cp))) (\<lambda>oldpgdir.
                 seq (modify (upd_proc cp (\<lambda>x. x\<lparr>pname := safestrcpy (pname x) (of_string (last_elem path)) 16,
                   pgdir := of_nat pgd, sz := of_nat m, tf := (tf x)\<lparr>tf_eip := of_nat entry, tf_esp := of_nat sp\<rparr>\<rparr>)))
                 (seq (switchuvm (Some cp))
                 (seq (freevm (unat oldpgdir))
                 (ret 0))))))))))))"

end
