(* ===== verification/Sysfile.thy ===== *)
theory Sysfile
  imports Exec
begin

text \<open>
  The system calls on files (src/sysfile.c). A call returns the value that goes to \<open>%eax\<close>; -1 is an
  error. Bytes read from a file are stored to user memory after the call that delivers them, which
  gives the same memory as storing them one by one.
\<close>

section \<open>File descriptors\<close>

definition argfd :: "nat \<Rightarrow> ((nat \<times> nat) option, 'a mem_st_scheme) kop" where
  "argfd n =
     bind (argint n) (\<lambda>r.
     case r of
       None \<Rightarrow> ret None
     | Some w \<Rightarrow>
         if sint w < 0 \<or> sint w \<ge> int NOFILE then ret None
         else
           bind cur (\<lambda>p.
           bind (gets (\<lambda>s. ofile (ptable s p) ! unat w)) (\<lambda>f.
           case f of None \<Rightarrow> ret None | Some f \<Rightarrow> ret (Some (unat w, f)))))"

definition fdalloc :: "nat \<Rightarrow> (int, 'a kst_scheme) kop" where
  "fdalloc f =
     bind cur (\<lambda>p.
     bind (search [0..<NOFILE] (\<lambda>fd.
       bind (gets (\<lambda>s. ofile (ptable s p) ! fd)) (\<lambda>o'.
       if o' = None then
         seq (modify (upd_proc p (\<lambda>x. x\<lparr>ofile := (ofile x)[fd := Some f]\<rparr>)))
         (ret (Some (int fd)))
       else ret None))) (\<lambda>r.
     ret (case r of Some fd \<Rightarrow> fd | None \<Rightarrow> -1)))"

definition clear_fd :: "nat \<Rightarrow> (unit, 'a kst_scheme) kop" where
  "clear_fd fd = bind cur (\<lambda>p. modify (upd_proc p (\<lambda>x. x\<lparr>ofile := (ofile x)[fd := None]\<rparr>)))"

definition sys_dup :: "(int, 'a file_st_scheme) kop" where
  "sys_dup =
     bind (argfd 0) (\<lambda>r.
     case r of
       None \<Rightarrow> ret (-1)
     | Some (_, f) \<Rightarrow>
         bind (fdalloc f) (\<lambda>fd.
         if fd < 0 then ret (-1)
         else seq (filedup f) (ret fd)))"

text \<open>The common checks of \<open>sys_read\<close> and \<open>sys_write\<close>: the file, the address and the length.\<close>

definition rw_args :: "((nat \<times> nat \<times> int) option, 'a mem_st_scheme) kop" where
  "rw_args =
     bind (argfd 0) (\<lambda>r.
     case r of
       None \<Rightarrow> ret None
     | Some (_, f) \<Rightarrow>
         bind (argint 2) (\<lambda>r.
         case r of
           None \<Rightarrow> ret None
         | Some n \<Rightarrow>
             bind (argptr 1 (sint n)) (\<lambda>r.
             case r of None \<Rightarrow> ret None | Some p \<Rightarrow> ret (Some (f, p, sint n)))))"

definition sys_read :: "(int, 'a cons_st_scheme) kop" where
  "sys_read =
     bind rw_args (\<lambda>r.
     case r of
       None \<Rightarrow> ret (-1)
     | Some (f, p, n) \<Rightarrow>
         bind (fileread devsw_read f (\<lambda>_. 0) n) (\<lambda>(r, buf).
         seq (ustore p buf (nat r))
         (ret r)))"

definition sys_write :: "(int, 'a cons_st_scheme) kop" where
  "sys_write =
     bind rw_args (\<lambda>r.
     case r of
       None \<Rightarrow> ret (-1)
     | Some (f, p, n) \<Rightarrow>
         bind (uload p (nat n)) (\<lambda>xs.
         filewrite devsw_write f ((!) xs) n))"

definition sys_flock :: "(int, 'a file_st_scheme) kop" where
  "sys_flock = bind (argfd 0) (\<lambda>r. case r of Some (_, f) \<Rightarrow> filelock f | None \<Rightarrow> ret (-1))"

definition sys_funlock :: "(int, 'a file_st_scheme) kop" where
  "sys_funlock = bind (argfd 0) (\<lambda>r. case r of Some (_, f) \<Rightarrow> fileunlock f | None \<Rightarrow> ret (-1))"

definition sys_close :: "(int, 'a file_st_scheme) kop" where
  "sys_close =
     bind (argfd 0) (\<lambda>r.
     case r of
       None \<Rightarrow> ret (-1)
     | Some (fd, f) \<Rightarrow> seq (clear_fd fd) (seq (fileclose f) (ret 0)))"

text \<open>The fields of \<open>struct stat\<close> at their offsets.\<close>

definition store_stat :: "nat \<Rightarrow> stat \<Rightarrow> (unit, 'a mem_st_scheme) kop" where
  "store_stat a st =
     seq (ustore32 (a + 4) (of_nat (st_dev st)))
     (seq (ustore32 (a + 8) (of_nat (st_ino st)))
     (seq (ustore16 a (st_type st))
     (seq (ustore16 (a + 12) (st_nlink st))
     (ustore32 (a + 16) (of_nat (st_size st))))))"

definition sys_fstat :: "(int, 'a file_st_scheme) kop" where
  "sys_fstat =
     bind (argfd 0) (\<lambda>r.
     case r of
       None \<Rightarrow> ret (-1)
     | Some (_, f) \<Rightarrow>
         bind (argptr 1 20) (\<lambda>r.
         case r of
           None \<Rightarrow> ret (-1)
         | Some a \<Rightarrow>
             bind (filestat f) (\<lambda>r.
             case r of None \<Rightarrow> ret (-1) | Some st \<Rightarrow> seq (store_stat a st) (ret 0))))"

section \<open>Directory entries\<close>

definition add_nlink :: "nat \<Rightarrow> u16 \<Rightarrow> (unit, 'a fs_st_scheme) kop" where
  "add_nlink i d = seq (modify (upd_ino i (\<lambda>x. x\<lparr>nlink := nlink x + d\<rparr>))) (iupdate i)"

definition end_with :: "int \<Rightarrow> (int, 'a log_st_scheme) kop" where
  "end_with r = seq end_op (ret r)"

definition sys_link :: "(int, 'a cons_st_scheme) kop" where
  "sys_link =
     bind (argstr 0) (\<lambda>r0. case r0 of None \<Rightarrow> ret (-1) | Some old \<Rightarrow>
     bind (argstr 1) (\<lambda>r1. case r1 of None \<Rightarrow> ret (-1) | Some new \<Rightarrow>
     seq begin_op
     (bind (namei devsw_read old) (\<lambda>r.
     case r of
       None \<Rightarrow> end_with (-1)
     | Some ip \<Rightarrow>
         seq (ilock (Some ip))
         (bind (gets (\<lambda>s. itype (icache s ip))) (\<lambda>ty.
         if ty = T_DIR then seq (iunlockput ip) (end_with (-1))
         else
           seq (add_nlink ip 1)
           (seq (iunlock (Some ip))
           (let bad = seq (ilock (Some ip)) (seq (add_nlink ip (-1)) (seq (iunlockput ip) (end_with (-1)))) in
            bind (nameiparent devsw_read new (\<lambda>_. 0)) (\<lambda>(r, name).
            case r of
              None \<Rightarrow> bad
            | Some dp \<Rightarrow>
                seq (ilock (Some dp))
                (bind (gets (\<lambda>s. (idev (icache s dp), idev (icache s ip), inum (icache s ip)))) (\<lambda>(d1, d2, n).
                bind (if d1 \<noteq> d2 then ret (-1) else dirlink devsw_read devsw_write dp name n) (\<lambda>r.
                if r < 0 then seq (iunlockput dp) bad
                else
                  seq (iunlockput dp)
                  (seq (iput ip)
                  (end_with 0))))))))))))))"

definition isdirempty :: "nat \<Rightarrow> (bool, 'a cons_st_scheme) kop" where
  "isdirempty dp =
     bind (gets (\<lambda>s. isize (icache s dp))) (\<lambda>m.
     bind (search (drop 2 (de_offs m)) (\<lambda>off.
       bind (readi devsw_read dp (\<lambda>_. 0) off 16) (\<lambda>(r, de).
       if r \<noteq> 16 then panic ''isdirempty: readi''
       else ret (if get16 de 0 \<noteq> 0 then Some () else None)))) (\<lambda>r.
     ret (r = None)))"

text \<open>The names "." and "..".\<close>

definition dot :: bytes where
  "dot = of_string [46]"

definition dotdot :: bytes where
  "dotdot = of_string [46, 46]"

definition sys_unlink :: "(int, 'a cons_st_scheme) kop" where
  "sys_unlink =
     bind (argstr 0) (\<lambda>r0. case r0 of None \<Rightarrow> ret (-1) | Some path \<Rightarrow>
     seq begin_op
     (bind (nameiparent devsw_read path (\<lambda>_. 0)) (\<lambda>(r, name).
     case r of
       None \<Rightarrow> end_with (-1)
     | Some dp \<Rightarrow>
         seq (ilock (Some dp))
         (let bad = seq (iunlockput dp) (end_with (-1)) in
          if namecmp name dot = 0 \<or> namecmp name dotdot = 0 then bad
          else
            bind (dirlookup devsw_read dp name) (\<lambda>r.
            case r of
              None \<Rightarrow> bad
            | Some (ip, off) \<Rightarrow>
                seq (ilock (Some ip))
                (bind (gets (\<lambda>s. icache s ip)) (\<lambda>x.
                if sint (nlink x) < 1 then panic ''unlink: nlink < 1''
                else
                  bind (if itype x = T_DIR then isdirempty ip else ret True) (\<lambda>e.
                  if \<not> e then seq (iunlockput ip) bad
                  else
                    bind (writei devsw_write dp (\<lambda>_. 0) off 16) (\<lambda>r.
                    if r \<noteq> 16 then panic ''unlink: writei''
                    else
                      seq (if itype x = T_DIR then add_nlink dp (-1) else skip)
                      (seq (iunlockput dp)
                      (seq (add_nlink ip (-1))
                      (seq (iunlockput ip)
                      (end_with 0)))))))))))))"

definition create :: "u8 list \<Rightarrow> u16 \<Rightarrow> u16 \<Rightarrow> u16 \<Rightarrow> (nat option, 'a cons_st_scheme) kop" where
  "create path ty maj mnr =
     bind (nameiparent devsw_read path (\<lambda>_. 0)) (\<lambda>(r, name).
     case r of
       None \<Rightarrow> ret None
     | Some dp \<Rightarrow>
         seq (ilock (Some dp))
         (bind (dirlookup devsw_read dp name) (\<lambda>r.
         case r of
           Some (ip, _) \<Rightarrow>
             seq (iunlockput dp)
             (seq (ilock (Some ip))
             (bind (gets (\<lambda>s. itype (icache s ip))) (\<lambda>t.
             if ty = T_FILE \<and> t = T_FILE then ret (Some ip)
             else seq (iunlockput ip) (ret None))))
         | None \<Rightarrow>
             bind (gets (\<lambda>s. idev (icache s dp))) (\<lambda>d.
             bind (ialloc d ty) (\<lambda>ip.
             seq (ilock (Some ip))
             (seq (modify (upd_ino ip (\<lambda>x. x\<lparr>imajor := maj, iminor := mnr, nlink := 1\<rparr>)))
             (seq (iupdate ip)
             (bind (gets (\<lambda>s. (inum (icache s ip), inum (icache s dp)))) (\<lambda>(n, dn).
             seq (if ty = T_DIR then
                    seq (add_nlink dp 1)
                    (bind (dirlink devsw_read devsw_write ip dot n) (\<lambda>r.
                    if r < 0 then panic ''create dots''
                    else
                      bind (dirlink devsw_read devsw_write ip dotdot dn) (\<lambda>r.
                      if r < 0 then panic ''create dots'' else skip)))
                  else skip)
             (bind (dirlink devsw_read devsw_write dp name n) (\<lambda>r.
             if r < 0 then panic ''create: dirlink''
             else
               seq (iunlockput dp)
               (ret (Some ip)))))))))))))"

section \<open>Opening and making files\<close>

abbreviation (input) O_WRONLY :: u32 where "O_WRONLY \<equiv> 1"
abbreviation (input) O_RDWR :: u32 where "O_RDWR \<equiv> 2"
abbreviation (input) O_CREATE :: u32 where "O_CREATE \<equiv> 0x200"

definition sys_open :: "(int, 'a cons_st_scheme) kop" where
  "sys_open =
     bind (argstr 0) (\<lambda>r0. case r0 of None \<Rightarrow> ret (-1) | Some path \<Rightarrow>
     bind (argint 1) (\<lambda>r1. case r1 of None \<Rightarrow> ret (-1) | Some omode \<Rightarrow>
     seq begin_op
     (bind (if omode AND O_CREATE \<noteq> 0 then create path T_FILE 0 0
            else
              bind (namei devsw_read path) (\<lambda>r.
              case r of
                None \<Rightarrow> ret None
              | Some ip \<Rightarrow>
                  seq (ilock (Some ip))
                  (bind (gets (\<lambda>s. itype (icache s ip))) (\<lambda>t.
                  if t = T_DIR \<and> omode \<noteq> 0 then seq (iunlockput ip) (ret None)
                  else ret (Some ip))))) (\<lambda>r.
     case r of
       None \<Rightarrow> end_with (-1)
     | Some ip \<Rightarrow>
         bind filealloc (\<lambda>rf.
         bind (case rf of None \<Rightarrow> ret (-1) | Some f \<Rightarrow> fdalloc f) (\<lambda>fd.
         if fd < 0 then
           seq (opt_close rf)
           (seq (iunlockput ip)
           (end_with (-1)))
         else
           let f = the rf in
           seq (iunlock (Some ip))
           (seq end_op
           (seq (modify (upd_file f (\<lambda>x. x\<lparr>ftype := FD_INODE, fip := Some ip, foff := 0,
             readable := (omode AND O_WRONLY = 0), writable := (omode AND O_WRONLY \<noteq> 0 \<or> omode AND O_RDWR \<noteq> 0)\<rparr>)))
           (ret fd)))))))))"

definition sys_mkdir :: "(int, 'a cons_st_scheme) kop" where
  "sys_mkdir =
     seq begin_op
     (bind (argstr 0) (\<lambda>r.
     bind (case r of None \<Rightarrow> ret None | Some path \<Rightarrow> create path T_DIR 0 0) (\<lambda>r.
     case r of
       None \<Rightarrow> end_with (-1)
     | Some ip \<Rightarrow> seq (iunlockput ip) (end_with 0))))"

definition sys_mknod :: "(int, 'a cons_st_scheme) kop" where
  "sys_mknod =
     seq begin_op
     (bind (argstr 0) (\<lambda>r.
     bind (case r of None \<Rightarrow> ret None
           | Some path \<Rightarrow>
               bind (argint 1) (\<lambda>r1. case r1 of None \<Rightarrow> ret None
               | Some maj \<Rightarrow>
                   bind (argint 2) (\<lambda>r2. case r2 of None \<Rightarrow> ret None
                   | Some mnr \<Rightarrow> create path T_DEV (ucast maj) (ucast mnr)))) (\<lambda>r.
     case r of
       None \<Rightarrow> end_with (-1)
     | Some ip \<Rightarrow> seq (iunlockput ip) (end_with 0))))"

definition sys_chdir :: "(int, 'a cons_st_scheme) kop" where
  "sys_chdir =
     bind cur (\<lambda>cp.
     seq begin_op
     (bind (argstr 0) (\<lambda>r.
     bind (case r of None \<Rightarrow> ret None | Some path \<Rightarrow> namei devsw_read path) (\<lambda>r.
     case r of
       None \<Rightarrow> end_with (-1)
     | Some ip \<Rightarrow>
         seq (ilock (Some ip))
         (bind (gets (\<lambda>s. itype (icache s ip))) (\<lambda>t.
         if t \<noteq> T_DIR then seq (iunlockput ip) (end_with (-1))
         else
           seq (iunlock (Some ip))
           (bind (gets (\<lambda>s. cwd (ptable s cp))) (\<lambda>d.
           seq (case d of None \<Rightarrow> panic ''null pointer'' | Some d \<Rightarrow> iput d)
           (seq end_op
           (seq (modify (upd_proc cp (\<lambda>x. x\<lparr>cwd := Some ip\<rparr>)))
           (ret 0)))))))))))"

text \<open>The loop that fetches the argument vector, \<open>n\<close> more entries being allowed.\<close>

primrec exec_argv :: "nat \<Rightarrow> nat \<Rightarrow> (u8 list list option, 'a mem_st_scheme) kop" where
  "exec_argv a 0 = ret None"
| "exec_argv a (Suc n) =
     bind (fetchint a) (\<lambda>r.
     case r of
       None \<Rightarrow> ret None
     | Some w \<Rightarrow>
         if w = 0 then ret (Some [])
         else
           bind (fetchstr (unat w)) (\<lambda>r.
           case r of
             None \<Rightarrow> ret None
           | Some x \<Rightarrow> bind (exec_argv (u32wrap (a + 4)) n) (\<lambda>r. ret (map_option ((#) x) r))))"

definition sys_exec :: "(int, 'a cons_st_scheme) kop" where
  "sys_exec =
     bind (argstr 0) (\<lambda>r0. case r0 of None \<Rightarrow> ret (-1) | Some path \<Rightarrow>
     bind (argint 1) (\<lambda>r1. case r1 of None \<Rightarrow> ret (-1) | Some uargv \<Rightarrow>
     bind (exec_argv (unat uargv) MAXARG) (\<lambda>r.
     case r of None \<Rightarrow> ret (-1) | Some argv \<Rightarrow> exec path argv)))"

definition sys_pipe :: "(int, 'a file_st_scheme) kop" where
  "sys_pipe =
     bind (argptr 0 8) (\<lambda>r. case r of None \<Rightarrow> ret (-1) | Some a \<Rightarrow>
     bind pipealloc (\<lambda>r.
     case r of
       None \<Rightarrow> ret (-1)
     | Some (f0, f1) \<Rightarrow>
         let bad = seq (fileclose f0) (seq (fileclose f1) (ret (-1))) in
         bind (fdalloc f0) (\<lambda>fd0.
         if fd0 < 0 then bad
         else
           bind (fdalloc f1) (\<lambda>fd1.
           if fd1 < 0 then seq (clear_fd (nat fd0)) bad
           else
             seq (ustore32 a (of_int fd0))
             (seq (ustore32 (a + 4) (of_int fd1))
             (ret 0))))))"

end
