(* ===== verification/Trap.thy ===== *)
theory Trap
  imports Sysfile Kbd Hw
begin

text \<open>
  The system calls on processes (src/sysproc.c), the system call dispatcher (src/syscall.c) and the
  trap handler (src/trap.c).

  The dispatcher calls every entry of its table without arguments, but \<open>sys_nice\<close> is declared with
  one: it finds whatever the stack holds there, a process pointer \<open>junk\<close> that the model is given.
  \<open>shutdown\<close> writes a port of the emulator and does not change the state. Acknowledging an interrupt
  (\<open>lapiceoi\<close>, in theory Hw) has no effect on the state the handler works on.
\<close>

section \<open>Process calls (sysproc.c)\<close>

definition sys_fork :: "(int, 'a file_st_scheme) kop" where
  "sys_fork = fork"

definition sys_exit :: "(int, 'a file_st_scheme) kop" where
  "sys_exit = seq exit (ret 0)"

definition sys_wait :: "(int, 'a mem_st_scheme) kop" where
  "sys_wait = wait"

definition sys_kill :: "(int, 'a mem_st_scheme) kop" where
  "sys_kill = bind (argint 0) (\<lambda>r. case r of None \<Rightarrow> ret (-1) | Some i \<Rightarrow> kill i)"

definition sys_getpid :: "(int, 'a kst_scheme) kop" where
  "sys_getpid = bind cur (\<lambda>p. gets (\<lambda>s. sint (pid (ptable s p))))"

definition sys_sbrk :: "(int, 'a mem_st_scheme) kop" where
  "sys_sbrk =
     bind (argint 0) (\<lambda>r.
     case r of
       None \<Rightarrow> ret (-1)
     | Some n \<Rightarrow>
         bind cur (\<lambda>p.
         bind (gets (\<lambda>s. sint (sz (ptable s p)))) (\<lambda>addr.
         bind (growproc (sint n)) (\<lambda>r.
         if r < 0 then ret (-1) else ret addr))))"

text \<open>The loop of \<open>sys_sleep\<close>; \<open>n\<close> is compared as an unsigned number.\<close>

definition sys_sleep_loop :: "u32 \<Rightarrow> u32 \<Rightarrow> (int, 'a kst_scheme) kop" where
  "sys_sleep_loop ticks0 n =
     bind (gets ticks) (\<lambda>now.
     if now - ticks0 < n then
       bind cur (\<lambda>p.
       bind (gets (\<lambda>s. killed (ptable s p))) (\<lambda>k.
       if k then seq (release L_tickslock) (ret (-1))
       else seq (sleep C_ticks L_tickslock) (ret 0)))
     else seq (release L_tickslock) (ret 0))"

definition sys_sleep :: "(int, 'a mem_st_scheme) kop" where
  "sys_sleep =
     bind (argint 0) (\<lambda>r.
     case r of
       None \<Rightarrow> ret (-1)
     | Some n \<Rightarrow>
         seq (acquire L_tickslock)
         (bind (gets ticks) (\<lambda>ticks0. sys_sleep_loop ticks0 n)))"

definition sys_sleep_resume :: "u32 \<Rightarrow> u32 \<Rightarrow> (int, 'a kst_scheme) kop" where
  "sys_sleep_resume ticks0 n = seq (sleep_return L_tickslock) (sys_sleep_loop ticks0 n)"

definition sys_uptime :: "(int, 'a kst_scheme) kop" where
  "sys_uptime =
     seq (acquire L_tickslock)
     (bind (gets ticks) (\<lambda>x.
     seq (release L_tickslock)
     (ret (sint x))))"

definition sys_yield :: "(int, 'a kst_scheme) kop" where
  "sys_yield = seq yield (ret 0)"

definition sys_shutdown :: "(int, 'a kst_scheme) kop" where
  "sys_shutdown = ret 0"

text \<open>
  \<open>sys_ps\<close> checks that the array lies within the process as if it had the size of a pointer, and
  stores one element of 28 bytes per process.
\<close>

definition upeek :: "'a mem_st_scheme \<Rightarrow> nat \<Rightarrow> u8" where
  "upeek s va = (case upa va s of None \<Rightarrow> 0 | Some pa \<Rightarrow> pmem s pa)"

definition state_num :: "procstate \<Rightarrow> u32" where
  "state_num st = (case st of UNUSED \<Rightarrow> 0 | EMBRYO \<Rightarrow> 1 | SLEEPING \<Rightarrow> 2 | RUNNABLE \<Rightarrow> 3 | RUNNING \<Rightarrow> 4 | ZOMBIE \<Rightarrow> 5)"

definition procInfo_bytes :: "procInfo \<Rightarrow> bytes" where
  "procInfo_bytes x =
     put32 0 (state_num (pi_state x))
     (put32 4 (pi_pid x)
     (put32 8 (of_int (pi_cpuPercent x))
     (splice (\<lambda>_. 0) 12 (pi_name x) 0 16)))"

definition sys_ps :: "(int, 'a mem_st_scheme) kop" where
  "sys_ps =
     bind (argint 0) (\<lambda>r. case r of None \<Rightarrow> ret (-1) | Some n \<Rightarrow>
     bind (argptr 1 4) (\<lambda>r. case r of None \<Rightarrow> ret (-1) | Some a \<Rightarrow>
     bind (gets upeek) (\<lambda>mem.
     bind (proc_ps (sint n) (\<lambda>i k. mem (a + 28 * i + 12 + k))) (\<lambda>ps.
     seq (foreach (enumerate 0 ps) (\<lambda>(i, x). ustore (u32wrap (a + 28 * i)) (procInfo_bytes x) 28))
     (ret (int (length ps)))))))"

definition sys_nice :: "nat \<Rightarrow> (int, 'a kst_scheme) kop" where
  "sys_nice p =
     bind (gets (\<lambda>s. ptable s p)) (\<lambda>x.
     seq (proc_nice (pid x) (priority x))
     (ret 0))"

section \<open>Dispatch (syscall.c)\<close>

definition syscalls :: "nat \<Rightarrow> (nat \<times> (int, 'a cons_st_scheme) kop) list" where
  "syscalls junk =
     [(1, sys_fork), (2, sys_exit), (3, sys_wait), (4, sys_pipe), (5, sys_read), (6, sys_kill), (7, sys_exec),
      (8, sys_fstat), (9, sys_chdir), (10, sys_dup), (11, sys_getpid), (12, sys_sbrk), (13, sys_sleep),
      (14, sys_uptime), (15, sys_open), (16, sys_write), (17, sys_mknod), (18, sys_unlink), (19, sys_link),
      (20, sys_mkdir), (21, sys_close), (22, sys_yield), (23, sys_shutdown), (24, sys_ps), (25, sys_flock),
      (26, sys_funlock), (27, sys_nice junk)]"

definition syscall :: "nat \<Rightarrow> (unit, 'a cons_st_scheme) kop" where
  "syscall junk =
     bind cur (\<lambda>p.
     bind (gets (\<lambda>s. sint (tf_eax (tf (ptable s p))))) (\<lambda>num.
     bind (case (if num > 0 \<and> num < 28 then map_of (syscalls junk) (nat num) else None) of
             Some f \<Rightarrow> f
           | None \<Rightarrow>
               bind (gets (\<lambda>s. ptable s p)) (\<lambda>x.
               seq (cprintf (\<lambda>_. name_of x) (cfmt ''%d %s: unknown sys call %d\<newline>'') [pid x, 1, of_int num])
               (ret (-1)))) (\<lambda>r.
     modify (upd_proc p (\<lambda>x. x\<lparr>tf := (tf x)\<lparr>tf_eax := of_int r\<rparr>\<rparr>)))))"

section \<open>Traps (trap.c)\<close>

abbreviation (input) T_SYSCALL :: u32 where "T_SYSCALL \<equiv> 64"
abbreviation (input) T_IRQ0 :: u32 where "T_IRQ0 \<equiv> 32"

definition exit_if_killed :: "(unit, 'a file_st_scheme) kop" where
  "exit_if_killed =
     bind cur (\<lambda>p.
     bind (gets (\<lambda>s. killed (ptable s p))) (\<lambda>k.
     if k then exit else skip))"

text \<open>The check before returning to user space: \<open>myproc() && myproc()->killed && (tf->cs&3) == DPL_USER\<close>.\<close>

definition exit_if_killed_user :: "trapframe \<Rightarrow> (unit, 'a file_st_scheme) kop" where
  "exit_if_killed_user f =
     bind (gets curproc) (\<lambda>me.
     case me of
       None \<Rightarrow> skip
     | Some p \<Rightarrow>
         bind (gets (\<lambda>s. killed (ptable s p))) (\<lambda>k.
         if k \<and> tf_cs f AND 3 = 3 then exit else skip))"

text \<open>
  The interrupt of the serial port (\<open>uartintr\<close> of uart.c): \<open>ports\<close> are what the registers of the port read at each call of \<open>uartgetc\<close>.
\<close>

definition uartintr :: "(nat \<Rightarrow> u8) list \<Rightarrow> (unit, 'a cons_st_scheme) kop" where
  "uartintr ports = bind (gets uart_on) (\<lambda>u. consoleintr (takeWhile (\<lambda>c. 0 \<le> c) (map (uartgetc u) ports)))"

text \<open>
  What the devices have for the handler: the scan codes in the keyboard controller, the readings of the serial port, and the register \<open>cr2\<close>
  with the address of a page fault. \<open>cpun\<close> is the processor's number.
\<close>

record devices =
  scancodes :: "u8 list"
  ports :: "(nat \<Rightarrow> u8) list"
  cr2 :: u32

definition trap_device :: "nat \<Rightarrow> devices \<Rightarrow> trapframe \<Rightarrow> (unit, 'a cons_st_scheme) kop" where
  "trap_device cpun dv f =
     (let no = tf_trapno f in
      if no = T_IRQ0 then
        (if cpun = 0 then
           seq (acquire L_tickslock)
           (seq (modify (\<lambda>s. s\<lparr>ticks := ticks s + 1\<rparr>))
           (seq (wakeup C_ticks)
           (release L_tickslock)))
         else skip)
      else if no = T_IRQ0 + 14 then ideintr
      else if no = T_IRQ0 + 15 then skip
      else if no = T_IRQ0 + 1 then
        bind (gets kshift) (\<lambda>w.
        bind (kbdintr w (scancodes dv)) (\<lambda>w.
        modify (\<lambda>s. s\<lparr>kshift := w\<rparr>)))
      else if no = T_IRQ0 + 4 then uartintr (ports dv)
      else if no = T_IRQ0 + 7 \<or> no = T_IRQ0 + 31 then
        cprintf (\<lambda>_. []) (cfmt ''cpu%d: spurious interrupt at %x:%x\<newline>'') [of_nat cpun, ucast (tf_cs f), tf_eip f]
      else
        bind (gets curproc) (\<lambda>me.
        case (if tf_cs f AND 3 = 0 then None else me) of
          None \<Rightarrow>
            seq (cprintf (\<lambda>_. []) (cfmt ''unexpected trap %d from cpu %d eip %x (cr2=0x%x)\<newline>'') [no, of_nat cpun, tf_eip f, cr2 dv])
            (panic ''trap'')
        | Some p \<Rightarrow>
            bind (gets (\<lambda>s. ptable s p)) (\<lambda>x.
            seq (cprintf (\<lambda>_. name_of x)
                   (cfmt ''pid %d %s: trap %d err %d on cpu %d eip 0x%x addr 0x%x--kill proc\<newline>'')
                   [pid x, 1, no, tf_err f, of_nat cpun, tf_eip f, cr2 dv])
            (modify (upd_proc p (\<lambda>x. x\<lparr>killed := True\<rparr>))))))"

text \<open>What is left to do when the processor has been given up by the \<open>yield\<close> of a clock tick.\<close>

definition trap_return :: "trapframe \<Rightarrow> (unit, 'a file_st_scheme) kop" where
  "trap_return f = seq yield_return (exit_if_killed_user f)"

definition trap :: "nat \<Rightarrow> devices \<Rightarrow> nat \<Rightarrow> trapframe \<Rightarrow> (unit, 'a cons_st_scheme) kop" where
  "trap cpun dv junk f =
     (if tf_trapno f = T_SYSCALL then
        seq exit_if_killed
        (bind cur (\<lambda>p.
        seq (modify (upd_proc p (\<lambda>x. x\<lparr>tf := f\<rparr>)))
        (seq (syscall junk)
        exit_if_killed)))
      else
        seq (trap_device cpun dv f)
        (seq (exit_if_killed_user f)
        (bind (gets curproc) (\<lambda>me.
        seq (case me of
               None \<Rightarrow> skip
             | Some p \<Rightarrow>
                 bind (gets (\<lambda>s. pstate (ptable s p))) (\<lambda>st.
                 if st = RUNNING \<and> tf_trapno f = T_IRQ0 then yield else skip))
        (exit_if_killed_user f)))))"

end
