(* ===== verification/Spec2Isabelle.thy ===== *)
theory Spec2Isabelle
  imports Shrun Uprog Umalloc Start Kbd Image Pagemap Boot Trap
begin

text \<open>
  Verification of an xv6 kernel for the x86, of the programs that start it and fill its disk, and of its shell, user library
  and user programs (C sources under src/).

  \<^bold>\<open>The program.\<close> The boot loader (bootmain.c) reads the kernel from the disk and enters it; main.c initialises every part and
  starts the other processors. Processes (proc.c) enter the kernel by traps (trap.c), which dispatch system calls (syscall.c,
  sysproc.c, sysfile.c) and interrupts of the clock, the disk (ide.c), the keyboard (kbd.c) and the serial port (uart.c). Files
  (file.c) are inodes of the file system (fs.c), pipes (pipe.c) or devices such as the console (console.c). The file system
  changes blocks in transactions of the log (log.c), which reads and writes them through the buffer cache (bio.c), and that
  through the disk driver. Memory comes in pages (kalloc.c), which page tables (vm.c) map into the address space that exec (exec.c)
  fills. On the host, mkfs.c makes the first file system. The shell (sh.c), malloc (umalloc.c), the library (ulib.c, printf.c) and
  the programs (cat.c, wc.c, grep.c, ls.c and others) use all that through system calls.

  \<^bold>\<open>State and operations.\<close> A kernel operation is a function from a state to an \<open>outcome\<close> (theory Prelude): it returns (\<open>Ok\<close>), stops
  the machine (\<open>Panic\<close> with the message of the code), or gives up the processor in \<open>swtch\<close> (\<open>Swtch\<close>). What an operation does after
  it has been resumed is a definition of its own, such as \<open>piperead_resume\<close>. \<open>wp m Q s\<close> says that \<open>m\<close> returns from \<open>s\<close> with \<open>Q\<close>, so that
  a proof of it excludes panics. The state is a record that the layers extend one after the other: \<open>kst\<close> (KState), \<open>bio_st\<close> (Ide),
  \<open>log_st\<close> (Log), \<open>fs_st\<close> (Fs), \<open>mem_st\<close> (Kalloc), \<open>file_st\<close> (Pipe), \<open>proc_st\<close> (Proc), \<open>cons_st\<close> (Console), \<open>start_st\<close> (Start). Operations are
  polymorphic in the rest of the record, so that lemmas of one layer apply in those above. Machine integers are words where they may
  wrap around, and natural numbers below a bound that the state guarantees elsewhere. Definitions have the names of the C functions;
  a suffix \<open>_loop\<close> is a loop of the function, and a prefix \<open>mk_\<close> or \<open>sh_\<close> keeps apart functions of the same name.

  \<^bold>\<open>The theories\<close>, from the bottom up:

  \<^item> Prelude: outcomes, the wp calculus (collection \<open>wp_simps\<close>), words, and little-endian access to bytes.
  \<^item> CString: string.c and the string functions of ulib.c, with what copying, comparing and converting do on the
    strings in memory.
  \<^item> Spinlock: spinlock.c on several processors. \<open>lock_step\<close> interleaves them at the grain of the atomic exchange and of the single
    stores; mutual exclusion and the interrupt flag are invariants of it.
  \<^item> KState: locks, sleep, wakeup and sleep locks (proc.c, sleeplock.c) as one kernel thread sees them.
  \<^item> Ide: ide.c and memide.c. The locale \<open>block_device\<close> is the contract of a disk driver; both drivers are instances.
  \<^item> Ring, Bio: bio.c. \<open>cache_of\<close> abstracts the linked list of buffers to contents, locked and dirty blocks, disk and trace of
    disk writes, under the invariant \<open>bio_inv\<close>; \<open>bread\<close>, \<open>bwrite\<close> and \<open>brelse\<close> refine the abstract operations.
  \<^item> Log, Txn: log.c. Cut after any prefix of the disk writes of a commit, recovery on a freshly booted kernel restores all logged
    blocks to their old or all to their new contents; transactions keep \<open>log_ok\<close>, and the last \<open>end_op\<close> commits.
  \<^item> Fs, Inode, Fdata: fs.c. The block allocator and \<open>bmap\<close> are described by the blocks of a file, \<open>readi\<close> and \<open>writei\<close> by its bytes;
    a write leaves every other file alone.
  \<^item> Mkfs, Image: mkfs.c. The image is well formed, and the kernel of theory Fdata reads from it what was put in.
  \<^item> Kalloc, Vm, Pagemap: kalloc.c and vm.c. The locale \<open>page_pool\<close> is the contract of the allocator, interpreted on \<open>kalloc\<close> and
    \<open>kfree\<close>; \<open>mappages\<close> is described by the translation of virtual addresses.
  \<^item> Fifo, Pipe, File: pipe.c and file.c. The locale \<open>bounded_queue\<close> is a queue in a ring of bytes with free-running counters, as
    pipes are, and theory Console uses the same facts about the counters; \<open>pipe_step\<close> interleaves writers, readers, sleepers and closers of a pipe.
  \<^item> Proc: proc.c. \<open>scheduler\<close> runs the loops of the scheduler over the states in which it visits the entries of the process table.
  \<^item> Console, Kbd: console.c, kbd.c and \<open>procdump\<close>. The interrupt handlers implement the line discipline \<open>edit\<close> on what the keys mean. Output
    goes to the screen and, if \<open>uartinit\<close> found one, to the serial port.
  \<^item> Syscall, Exec, Sysfile, Trap: syscall.c, exec.c, sysfile.c, sysproc.c, trap.c. Arguments of system calls are accepted exactly if they
    lie inside the process. What the devices hold when a trap is taken, scan codes and the registers of the serial port among them, is the record \<open>devices\<close>.
  \<^item> Boot, Mp, Hw, Start: bootmain.c, mp.c, the descriptors of mmu.h, lapic.c, ioapic.c, picirq.c, uart.c and main.c. The loader puts
    every segment of the kernel in place, \<open>mpinit\<close> reads the configuration table up to its end or never returns, and the gates admit no interrupt but the system call
    from user code.
  \<^item> Grep, Printf, Umalloc, Uprog: the matcher of grep.c against the language of a pattern; printf.c against the rendered text; umalloc.c
    as a free list of ascending, separate blocks; cat.c, wc.c, grep.c, ls.c, echo.c, rm.c, mkdir.c, ln.c, kill.c and mycat2.c on the
    results of their system calls.
  \<^item> Sh, Shrun: sh.c. The parser ends on every line and inverts the printer of commands; the processes of a command execute its programs
    on the right descriptors.

  Theorems that show a behaviour the code should not have are in the theory of the component: a log reservation larger than the
  log (Txn), a wakeup that \<open>pipewrite\<close> omits (Pipe), the scheduler that stops dispatching, \<open>kill(0)\<close> (Proc), \<open>snprintf\<close> without a bound
  (Printf), a failed read marked valid (Ide), the loop of \<open>mpinit\<close> on unknown entries (Mp), lines lost by grep and bytes repeated by
  mycat2 (Uprog).

  \<^bold>\<open>Bounds and fuel.\<close> Most loops are total functions with a termination proof. \<open>bget\<close> walks the list of buffers with fuel \<open>NBUF + 1\<close>, one
  for each buffer and the head; under \<open>bio_inv\<close> it never runs out. The shell's mutually recursive parser gets fuel
  \<open>4 * length s + 4\<close> for the line \<open>s\<close>: every descent through its four functions consumes a character, and \<open>sh_parser_total\<close> shows that it
  suffices; the page of stack that the recursion has on the machine is not modelled. Loops that need not end (in CString, Boot, Mp, Hw, Umalloc, Uprog) are partial functions in the option monad, where \<open>None\<close> is
  not to return; the theorems state \<open>Some\<close>. The tables have the sizes of param.h: 64 processes, 16 descriptors, 50 inodes, 8 processors.

  \<^bold>\<open>Not modelled.\<close>

  \<^item> Assembly (bootasm.S, entry.S, entryother.S, initcode.S, swtch.S, trapasm.S, usys.S, vectors.S): machine code, which the C code relies
    on where the model has parameters (the vectors, initcode, entryother) or the outcome \<open>Swtch\<close>. Of x86.h there are the string
    instructions, the atomic exchange and port output; instructions that only load processor registers (lgdt, lidt, ltr) are left out.
  \<^item> The output of \<open>panic\<close> (console.c) and its flag \<open>panicked\<close>: the message is the result of the model, after which nothing runs.
  \<^item> The messages of \<open>iinit\<close>, \<open>allocuvm\<close> and \<open>ioapicinit\<close>, which are printed by layers below the console's.
  \<^item> Test programs (usertests.c, forktest.c, stressfs.c, testflock.c, snprintftest.c, priorInv.c, longRunner.c, zombie.c), whose subject
    is the modelled code, and programs of a few calls without logic of their own (init.c, nice.c, ps.c, shutdown.c, with kshutdown.c, so that \<open>sys_shutdown\<close> has no effect).
  \<^item> Failures of the host's calls in mkfs.c other than opening the image and reading beyond its end, and the port writes that only acknowledge
    an interrupt (\<open>lapiceoi\<close> in \<open>trap\<close>) or enable interrupts of the disk (port 0x3f6 in \<open>idestart\<close>).
  \<^item> Other processes while one waits for the disk: \<open>sleep_intr\<close> resumes the process that the disk interrupt has woken.
  \<^item> The build scripts and headers with prototypes only. The constants of headers are in the definitions that use them.
  \<^item> Interleaving inside a kernel operation: an operation runs alone between two points at which it gives up the processor. Spinlock
    and Pipe have step relations for the concurrency of locks and of pipes; other operations are described one call at a time.
\<close>

end
